(* ===== verification/Kod_Prelude.thy ===== *)
theory Kod_Prelude
  imports Main "HOL-Library.Word" "HOL-Library.AList" "HOL-Library.Multiset"
    "HOL-Library.Sublist" "HOL-Library.List_Lexorder" "HOL-Library.Char_ord"
    "HOL-Library.Code_Target_Nat"
begin

unbundle bit_operations_syntax

text \<open>
  What the components share: the machine integers with Rust's saturating operations, hash
  maps as association lists with distinct keys, the small list lemmas, the JSON value type,
  and the interfaces that several components satisfy (a system whose steps keep an
  invariant, a first-in first-out store, an implementation of an abstract machine).

  Conventions. A Rust \<open>String\<close> is a \<open>string\<close> of bytes (its UTF-8 encoding), so
  \<open>str::len\<close> is \<open>length\<close> and Rust's ordering of strings is the bytewise
  lexicographic order of \<open>List_Lexorder\<close> over \<open>Char_ord\<close>. A \<open>HashMap\<close> or
  \<open>BTreeMap\<close> is an association list whose keys are distinct; the order of the list
  stands for the (unspecified) iteration order of a \<open>HashMap\<close>, and a \<open>BTreeMap\<close>
  is read in key order through \<open>btree_values\<close>. A \<open>Result<T, E>\<close> is a sum
  \<open>E + T\<close>. The release profile of the workspace sets \<open>overflow-checks = false\<close>, so
  plain \<open>+\<close> and \<open>*\<close> on fixed-width integers wrap, as they do on \<open>word\<close>.
\<close>

named_theorems kod_inv \<open>invariant preservation facts of the components\<close>
named_theorems kod_frame \<open>what an operation leaves unchanged\<close>

section \<open>Machine integers\<close>

type_synonym u8 = "8 word"
type_synonym u16 = "16 word"
type_synonym u32 = "32 word"
type_synonym u64 = "64 word"

definition sat_add :: "'a::len word \<Rightarrow> 'a word \<Rightarrow> 'a word" where
  "sat_add a b = (if unat a + unat b < 2 ^ LENGTH('a) then a + b else - 1)"

definition sat_sub :: "'a::len word \<Rightarrow> 'a word \<Rightarrow> 'a word" where
  "sat_sub a b = (if b \<le> a then a - b else 0)"

lemma unat_minus_one_max: "unat (- 1 :: 'a::len word) = 2 ^ LENGTH('a) - 1"
  by (simp add: unsigned_minus_1_eq_mask mask_eq_exp_minus_1)

lemma unat_sat_add:
  "unat (sat_add a b :: 'a::len word) = min (unat a + unat b) (2 ^ LENGTH('a) - 1)"
proof (cases "unat a + unat b < 2 ^ LENGTH('a)")
  case True
  then have "unat (a + b) = unat a + unat b"
    by (simp add: unat_word_ariths)
  with True show ?thesis by (simp add: sat_add_def)
next
  case False
  then have "sat_add a b = - 1" by (simp add: sat_add_def)
  then have "unat (sat_add a b) = 2 ^ LENGTH('a) - 1" by (simp add: unat_minus_one_max)
  with False show ?thesis by simp
qed

lemma sat_add_ge [simp]: "a \<le> sat_add a (b :: 'a::len word)"
proof -
  have "unat a < 2 ^ LENGTH('a)" by (rule unsigned_less)
  then have "unat a \<le> 2 ^ LENGTH('a) - 1" by linarith
  then show ?thesis by (simp add: word_le_nat_alt unat_sat_add)
qed

lemma unat_sat_sub: "unat (sat_sub a b :: 'a::len word) = unat a - unat b"
  by (auto simp: sat_sub_def unat_sub word_le_nat_alt)

lemma sat_add_zero [simp]: "sat_add a 0 = a" "sat_add 0 a = a"
  by (simp_all add: sat_add_def)

section \<open>Association lists as hash maps\<close>

type_synonym ('k, 'v) hmap = "('k \<times> 'v) list"

abbreviation keys_distinct :: "('k, 'v) hmap \<Rightarrow> bool" where
  "keys_distinct m \<equiv> distinct (map fst m)"

text \<open>The entries of a \<open>BTreeMap\<close>, which iterates in key order.\<close>

definition btree_values :: "('k::linorder, 'v) hmap \<Rightarrow> 'v list" where
  "btree_values m = map snd (sort_key fst m)"

lemma set_btree_values [simp]: "set (btree_values m) = snd ` set m"
  by (simp add: btree_values_def)

text \<open>The library turns lookups into memberships when the keys are distinct; the components reason by lookup.\<close>

declare map_of_eq_Some_iff [simp del]
declare Some_eq_map_of_iff [simp del]

lemma map_of_update_same [simp]: "map_of (AList.update k v m) k = Some v"
  by (simp add: update_conv')

lemma map_of_update_other [simp]: "k \<noteq> k' \<Longrightarrow> map_of (AList.update k v m) k' = map_of m k'"
  by (simp add: update_conv')

lemma map_of_delete_same [simp]: "map_of (AList.delete k m) k = None"
  by (simp add: delete_conv')

lemma map_of_delete_other [simp]: "k \<noteq> k' \<Longrightarrow> map_of (AList.delete k m) k' = map_of m k'"
  by (simp add: delete_conv')

lemma keys_distinct_update: "keys_distinct m \<Longrightarrow> keys_distinct (AList.update k v m)"
  by (rule distinct_update)

lemma keys_distinct_delete: "keys_distinct m \<Longrightarrow> keys_distinct (AList.delete k m)"
  by (rule distinct_delete)

lemma set_alist_iff: "keys_distinct m \<Longrightarrow> (k, v) \<in> set m \<longleftrightarrow> map_of m k = Some v"
  by (auto intro: map_of_is_SomeI dest: map_of_SomeD)

lemma length_update:
  "length (AList.update k v m) = (if map_of m k = None then Suc (length m) else length m)"
  by (induction m) auto

lemma update_new: "map_of m k = None \<Longrightarrow> AList.update k v m = m @ [(k, v)]"
  by (induction m) (auto split: if_splits)

lemma length_delete_mem: "map_of m k \<noteq> None \<Longrightarrow> length (AList.delete k m) < length m"
proof (induction m)
  case (Cons x m)
  have "length (AList.delete k m) \<le> length m" by (rule length_delete_le)
  with Cons show ?case by (cases x) (auto simp: le_imp_less_Suc)
qed simp

lemma set_update_subset: "set (AList.update k v m) \<subseteq> insert (k, v) (set m)"
  by (induction m) auto

lemma set_delete_subset: "set (AList.delete k m) \<subseteq> set m"
  by (induction m) auto

text \<open>
  A sum over the values of a map moves by exactly the change of the updated entry. The load
  counters, the queue lengths and the state counts of the components are such sums.
\<close>

definition hm_sum :: "('v \<Rightarrow> nat) \<Rightarrow> ('k, 'v) hmap \<Rightarrow> nat" where
  "hm_sum f m = sum_list (map (f \<circ> snd) m)"

lemma hm_sum_simps [simp]:
  "hm_sum f [] = 0"
  "hm_sum f ((k, v) # m) = f v + hm_sum f m"
  by (simp_all add: hm_sum_def)

lemma hm_sum_update_new:
  "map_of m k = None \<Longrightarrow> hm_sum f (AList.update k v m) = hm_sum f m + f v"
  by (induction m) (auto split: if_splits)

lemma hm_sum_update_old:
  "keys_distinct m \<Longrightarrow> map_of m k = Some w \<Longrightarrow> hm_sum f (AList.update k v m) + f w = hm_sum f m + f v"
  by (induction m) (auto split: if_splits)

lemma hm_sum_delete:
  "keys_distinct m \<Longrightarrow> map_of m k = Some w \<Longrightarrow> hm_sum f (AList.delete k m) + f w = hm_sum f m"
proof (induction m)
  case Nil
  then show ?case by simp
next
  case (Cons x m)
  obtain a b where x: "x = (a, b)" by (cases x)
  show ?case
  proof (cases "a = k")
    case True
    with Cons.prems x have "b = w" "k \<notin> fst ` set m" by auto
    with True x show ?thesis by (simp add: delete_notin_dom)
  next
    case False
    with Cons x show ?thesis by auto
  qed
qed

lemma hm_sum_member_le: "map_of m k = Some v \<Longrightarrow> f v \<le> hm_sum f m"
  by (induction m) (auto split: if_splits intro: trans_le_add2)

section \<open>JSON values\<close>

text \<open>
  \<open>serde_json::Value\<close>. A number carries the text \<open>to_string\<close> prints for it, since
  no modelled code computes with one. An object is an association list of its members.
\<close>

datatype json =
    JNull
  | JBool bool
  | JNumber string
  | JString string
  | JArray "json list"
  | JObject "(string \<times> json) list"

fun json_get :: "json \<Rightarrow> string \<Rightarrow> json option" where
  "json_get (JObject ms) k = map_of ms k"
| "json_get _ k = None"

fun json_as_str :: "json \<Rightarrow> string option" where
  "json_as_str (JString s) = Some s"
| "json_as_str _ = None"

definition json_get_str :: "json \<Rightarrow> string \<Rightarrow> string option" where
  "json_get_str v k = Option.bind (json_get v k) json_as_str"

section \<open>Interface: a system whose every step keeps an invariant\<close>

text \<open>
  The state machines of the program (the goal runtime, the circuit breaker, the agent
  registry, the coordinator, the pools and queues) are driven by sequences of calls. Each
  supplies its step function and an invariant; what follows for whole runs is proved here
  once.
\<close>

locale invariant_system =
  fixes step :: "'s \<Rightarrow> 'e \<Rightarrow> 's"
    and inv :: "'s \<Rightarrow> bool"
  assumes step_keeps: "inv s \<Longrightarrow> inv (step s e)"
begin

lemma run_keeps: "inv s \<Longrightarrow> inv (foldl step s es)"
  by (induction es arbitrary: s) (auto intro: step_keeps)

lemma prefix_keeps: "inv s \<Longrightarrow> inv (foldl step s (take n es))"
  by (rule run_keeps)

end

text \<open>
  A 64-bit counter that a step leaves alone or increments: epochs, generations, sequence
  numbers. The increment wraps, so the counter is monotone over a run as long as the run is
  shorter than what is left of the counter's range.
\<close>

locale counter_system = invariant_system step inv
  for step :: "'s \<Rightarrow> 'e \<Rightarrow> 's" and inv :: "'s \<Rightarrow> bool" +
  fixes counter :: "'s \<Rightarrow> u64"
  assumes step_counter: "inv s \<Longrightarrow> counter (step s e) = counter s \<or> counter (step s e) = counter s + 1"
begin

lemma run_counter:
  "inv s \<Longrightarrow> unat (counter s) + length es < 2 ^ 64 \<Longrightarrow>
     unat (counter s) \<le> unat (counter (foldl step s es))
     \<and> unat (counter (foldl step s es)) \<le> unat (counter s) + length es"
proof (induction es arbitrary: s)
  case Nil
  then show ?case by simp
next
  case (Cons e es)
  have keeps: "inv (step s e)" using Cons.prems(1) by (rule step_keeps)
  have "unat (counter s) + 1 < 2 ^ LENGTH(64)" using Cons.prems(2) by simp
  then have "unat (counter s + 1) = unat (counter s) + 1" by (simp add: unat_word_ariths)
  with step_counter [OF Cons.prems(1), of e]
  have "unat (counter s) \<le> unat (counter (step s e)) \<and> unat (counter (step s e)) \<le> unat (counter s) + 1"
    by auto
  with Cons.IH [OF keeps] Cons.prems(2) show ?case by auto
qed

end

section \<open>Interface: a first-in first-out store\<close>

text \<open>
  A queue that hands out a prefix of what it holds and keeps the rest in order. Whatever
  sequence of puts and takes a client makes, what it received followed by what is left is
  what it put, in that order: nothing is lost, duplicated or reordered.
\<close>

datatype 'a fifo_op = FifoPut 'a | FifoTake

locale fifo_store =
  fixes items :: "'q \<Rightarrow> 'a list"
    and put :: "'a \<Rightarrow> 'q \<Rightarrow> 'q"
    and take_some :: "'q \<Rightarrow> 'a list \<times> 'q"
  assumes items_put: "items (put x q) = items q @ [x]"
    and items_take: "items q = fst (take_some q) @ items (snd (take_some q))"
begin

fun fifo_step :: "'a list \<times> 'q \<Rightarrow> 'a fifo_op \<Rightarrow> 'a list \<times> 'q" where
  "fifo_step (out, q) (FifoPut x) = (out, put x q)"
| "fifo_step (out, q) FifoTake = (out @ fst (take_some q), snd (take_some q))"

fun puts :: "'a fifo_op list \<Rightarrow> 'a list" where
  "puts [] = []"
| "puts (FifoPut x # ops) = x # puts ops"
| "puts (FifoTake # ops) = puts ops"

lemma fifo_run:
  "fst (foldl fifo_step (out, q) ops) @ items (snd (foldl fifo_step (out, q) ops))
     = out @ items q @ puts ops"
proof (induction ops arbitrary: out q)
  case Nil
  then show ?case by simp
next
  case (Cons p ops)
  show ?case
  proof (cases p)
    case (FifoPut x)
    then show ?thesis using Cons.IH [of out "put x q"] by (simp add: items_put)
  next
    case FifoTake
    then show ?thesis
      using Cons.IH [of "out @ fst (take_some q)" "snd (take_some q)"] items_take [of q] by simp
  qed
qed

end

section \<open>Interface: a component that implements an abstract machine\<close>

text \<open>
  Detailed steps, with an output, that an abstraction maps to the steps of a simpler machine. Over
  any run from related states the two machines give the same outputs.
\<close>

fun run_outputs :: "('e \<Rightarrow> 's \<Rightarrow> 'o \<times> 's) \<Rightarrow> 's \<Rightarrow> 'e list \<Rightarrow> 'o list" where
  "run_outputs step s [] = []"
| "run_outputs step s (e # es) = fst (step e s) # run_outputs step (snd (step e s)) es"

fun run_state :: "('e \<Rightarrow> 's \<Rightarrow> 'o \<times> 's) \<Rightarrow> 's \<Rightarrow> 'e list \<Rightarrow> 's" where
  "run_state step s [] = s"
| "run_state step s (e # es) = run_state step (snd (step e s)) es"

lemma length_run_outputs [simp]: "length (run_outputs step s es) = length es"
  by (induction es arbitrary: s) simp_all

lemma run_outputs_append: "run_outputs step s (es @ fs) = run_outputs step s es @ run_outputs step (run_state step s es) fs"
  by (induction es arbitrary: s) simp_all

locale simulation =
  fixes cstep :: "'e \<Rightarrow> 's \<Rightarrow> 'o \<times> 's"
    and astep :: "'e \<Rightarrow> 'a \<Rightarrow> 'o \<times> 'a"
    and related :: "'s \<Rightarrow> 'a \<Rightarrow> bool"
  assumes step_related:
    "related s a \<Longrightarrow> fst (cstep e s) = fst (astep e a) \<and> related (snd (cstep e s)) (snd (astep e a))"
begin

lemma run_related:
  "related s a \<Longrightarrow> run_outputs cstep s es = run_outputs astep a es
     \<and> related (run_state cstep s es) (run_state astep a es)"
  by (induction es arbitrary: s a) (auto dest: step_related)

end

text \<open>The abstraction is a function on the good states: every refinement is a simulation.\<close>

locale refinement =
  fixes cstep :: "'e \<Rightarrow> 's \<Rightarrow> 'o \<times> 's"
    and astep :: "'e \<Rightarrow> 'a \<Rightarrow> 'o \<times> 'a"
    and good :: "'s \<Rightarrow> bool"
    and view :: "'s \<Rightarrow> 'a"
  assumes good_step: "good s \<Longrightarrow> good (snd (cstep e s))"
    and simulates: "good s \<Longrightarrow> astep e (view s) = (fst (cstep e s), view (snd (cstep e s)))"

sublocale refinement \<subseteq> viewed: simulation cstep astep "\<lambda>s a. good s \<and> a = view s"
  by unfold_locales (simp add: good_step simulates)

context refinement
begin

lemma run_refines:
  "good s \<Longrightarrow> run_outputs cstep s es = run_outputs astep (view s) es
     \<and> view (run_state cstep s es) = run_state astep (view s) es"
  using viewed.run_related [of s "view s" es] by simp

end

end
