(* ===== verification/Kod_Text.thy ===== *)
theory Kod_Text
  imports Kod_Prelude
begin

text \<open>
  Text as the program handles it: the UTF-8-safe truncation helpers of
  \<open>crates/kod-types/src/strutil.rs\<close>, the length-prefixed FNV-1a digest of
  \<open>crates/kod-types/src/hash.rs\<close>, and the operations of Rust's \<open>str\<close> that the other
  components use (lines, trim, split, integer parsing, decimal printing). A string is its
  bytes; \<open>utf8\<close> relates it to the Unicode scalar values it encodes, and the truncation
  theorems say what the byte-level code does to those.
\<close>

section \<open>Bytes, character boundaries and characters\<close>

definition is_cont :: "char \<Rightarrow> bool" where
  "is_cont c = (let n = (of_char c :: nat) in 128 \<le> n \<and> n < 192)"

definition is_char_boundary :: "string \<Rightarrow> nat \<Rightarrow> bool" where
  "is_char_boundary s i =
     (if i = 0 then True else if length s \<le> i then i = length s else \<not> is_cont (s ! i))"

fun floor_loop :: "string \<Rightarrow> nat \<Rightarrow> nat" where
  "floor_loop s 0 = 0"
| "floor_loop s (Suc i) = (if is_char_boundary s (Suc i) then Suc i else floor_loop s i)"

definition floor_char_boundary :: "string \<Rightarrow> nat \<Rightarrow> nat" where
  "floor_char_boundary s mx = (if length s \<le> mx then length s else floor_loop s mx)"

fun char_indices_from :: "nat \<Rightarrow> string \<Rightarrow> nat list" where
  "char_indices_from i [] = []"
| "char_indices_from i (c # cs) =
     (if is_cont c then char_indices_from (Suc i) cs else i # char_indices_from (Suc i) cs)"

definition char_count :: "string \<Rightarrow> nat" where
  "char_count s = length (char_indices_from 0 s)"

definition truncate_chars :: "string \<Rightarrow> nat \<Rightarrow> string" where
  "truncate_chars s mx =
     (let starts = char_indices_from 0 s
      in if mx < length starts then take (starts ! mx) s else s)"

definition truncate_with_ellipsis :: "string \<Rightarrow> nat \<Rightarrow> string \<Rightarrow> string" where
  "truncate_with_ellipsis s mx ellipsis =
     (let shown = truncate_chars s mx
      in if length shown < length s then shown @ ellipsis else s)"

definition truncate_bytes :: "string \<Rightarrow> nat \<Rightarrow> string" where
  "truncate_bytes s mx = take (floor_char_boundary s mx) s"

text \<open>The characters of a string, each as the bytes that encode it.\<close>

function utf8_chars :: "string \<Rightarrow> string list" where
  "utf8_chars [] = []"
| "utf8_chars (c # cs) = (c # takeWhile is_cont cs) # utf8_chars (dropWhile is_cont cs)"
  by pat_completeness auto
termination
  by (relation "measure length") (auto simp: le_imp_less_Suc length_dropWhile_le)

section \<open>Rust's string operations\<close>

fun split_on :: "char \<Rightarrow> string \<Rightarrow> string list" where
  "split_on c [] = [[]]"
| "split_on c (x # xs) =
     (if x = c then [] # split_on c xs
      else (case split_on c xs of [] \<Rightarrow> [[x]] | y # ys \<Rightarrow> (x # y) # ys))"

fun join_with :: "string \<Rightarrow> string list \<Rightarrow> string" where
  "join_with sep [] = []"
| "join_with sep [x] = x"
| "join_with sep (x # y # ys) = x @ sep @ join_with sep (y # ys)"

definition strip_cr :: "string \<Rightarrow> string" where
  "strip_cr s = (if s \<noteq> [] \<and> last s = CHR 0x0D then butlast s else s)"

definition rust_lines :: "string \<Rightarrow> string list" where
  "rust_lines s =
     (let parts = split_on (CHR 0x0A) s
      in map strip_cr (butlast parts) @ (if last parts = [] then [] else [last parts]))"

definition strip_prefix :: "string \<Rightarrow> string \<Rightarrow> string option" where
  "strip_prefix p s = (if prefix p s then Some (drop (length p) s) else None)"

definition ends_with :: "string \<Rightarrow> string \<Rightarrow> bool" where
  "ends_with p s = prefix (rev p) (rev s)"

fun split_once :: "string \<Rightarrow> string \<Rightarrow> (string \<times> string) option" where
  "split_once p [] = (if p = [] then Some ([], []) else None)"
| "split_once p (x # xs) =
     (if prefix p (x # xs) then Some ([], drop (length p) (x # xs))
      else map_option (\<lambda>(a, b). (x # a, b)) (split_once p xs))"

fun contains_str :: "string \<Rightarrow> string \<Rightarrow> bool" where
  "contains_str p [] = (p = [])"
| "contains_str p (x # xs) = (prefix p (x # xs) \<or> contains_str p xs)"

definition rsplit_once_char :: "char \<Rightarrow> string \<Rightarrow> (string \<times> string) option" where
  "rsplit_once_char c s =
     (case split_once [c] (rev s) of None \<Rightarrow> None | Some (b, a) \<Rightarrow> Some (rev a, rev b))"

text \<open>\<open>find\<close> of a character and of a string: the first offset.\<close>

fun find_char :: "char \<Rightarrow> string \<Rightarrow> nat option" where
  "find_char c [] = None"
| "find_char c (x # xs) = (if x = c then Some 0 else map_option Suc (find_char c xs))"

fun find_text :: "string \<Rightarrow> string \<Rightarrow> nat option" where
  "find_text p [] = (if p = [] then Some 0 else None)"
| "find_text p (x # xs) = (if prefix p (x # xs) then Some 0 else map_option Suc (find_text p xs))"

text \<open>The encodings of the characters with Unicode's \<open>White_Space\<close> property.\<close>

definition ws_seqs :: "string list" where
  "ws_seqs =
     [[CHR 0x09], [CHR 0x0A], [CHR 0x0B], [CHR 0x0C], [CHR 0x0D], [CHR 0x20],
      [CHR 0xC2, CHR 0x85], [CHR 0xC2, CHR 0xA0], [CHR 0xE1, CHR 0x9A, CHR 0x80],
      [CHR 0xE2, CHR 0x80, CHR 0x80], [CHR 0xE2, CHR 0x80, CHR 0x81],
      [CHR 0xE2, CHR 0x80, CHR 0x82], [CHR 0xE2, CHR 0x80, CHR 0x83],
      [CHR 0xE2, CHR 0x80, CHR 0x84], [CHR 0xE2, CHR 0x80, CHR 0x85],
      [CHR 0xE2, CHR 0x80, CHR 0x86], [CHR 0xE2, CHR 0x80, CHR 0x87],
      [CHR 0xE2, CHR 0x80, CHR 0x88], [CHR 0xE2, CHR 0x80, CHR 0x89],
      [CHR 0xE2, CHR 0x80, CHR 0x8A], [CHR 0xE2, CHR 0x80, CHR 0xA8],
      [CHR 0xE2, CHR 0x80, CHR 0xA9], [CHR 0xE2, CHR 0x80, CHR 0xAF],
      [CHR 0xE2, CHR 0x81, CHR 0x9F], [CHR 0xE3, CHR 0x80, CHR 0x80]]"

definition is_ws_char :: "string \<Rightarrow> bool" where
  "is_ws_char ch = (ch \<in> set ws_seqs)"

fun drop_ws :: "string list \<Rightarrow> string list" where
  "drop_ws [] = []"
| "drop_ws (ch # chs) = (if is_ws_char ch then drop_ws chs else ch # chs)"

definition trim_start :: "string \<Rightarrow> string" where
  "trim_start s = concat (drop_ws (utf8_chars s))"

definition trim_end :: "string \<Rightarrow> string" where
  "trim_end s = concat (rev (drop_ws (rev (utf8_chars s))))"

definition trim :: "string \<Rightarrow> string" where
  "trim s = trim_end (trim_start s)"

fun split_ws_chars :: "string \<Rightarrow> string list \<Rightarrow> string list" where
  "split_ws_chars cur [] = (if cur = [] then [] else [cur])"
| "split_ws_chars cur (ch # chs) =
     (if is_ws_char ch then (if cur = [] then [] else [cur]) @ split_ws_chars [] chs
      else split_ws_chars (cur @ ch) chs)"

definition split_whitespace :: "string \<Rightarrow> string list" where
  "split_whitespace s = split_ws_chars [] (utf8_chars s)"

definition ascii_lower :: "char \<Rightarrow> char" where
  "ascii_lower c = (let n = (of_char c :: nat) in if 65 \<le> n \<and> n \<le> 90 then char_of (n + 32) else c)"

definition digit_val :: "char \<Rightarrow> nat option" where
  "digit_val c = (let n = (of_char c :: nat) in
     if 48 \<le> n \<and> n \<le> 57 then Some (n - 48)
     else if 97 \<le> n \<and> n \<le> 122 then Some (n - 87)
     else if 65 \<le> n \<and> n \<le> 90 then Some (n - 55) else None)"

fun parse_digits :: "nat \<Rightarrow> nat \<Rightarrow> string \<Rightarrow> nat option" where
  "parse_digits radix acc [] = Some acc"
| "parse_digits radix acc (c # cs) =
     (case digit_val c of
        None \<Rightarrow> None
      | Some d \<Rightarrow> if d < radix then parse_digits radix (acc * radix + d) cs else None)"

text \<open>\<open>from_str_radix\<close> for an unsigned type of the given bound: an optional \<open>+\<close>, then digits.\<close>

definition parse_uint :: "nat \<Rightarrow> nat \<Rightarrow> string \<Rightarrow> nat option" where
  "parse_uint radix bound s =
     (let t = (case s of [] \<Rightarrow> [] | c # cs \<Rightarrow> if c = CHR ''+'' then cs else s)
      in if t = [] then None
         else (case parse_digits radix 0 t of
                 None \<Rightarrow> None | Some n \<Rightarrow> if n < bound then Some n else None))"

definition usize_bound :: nat where
  "usize_bound = 2 ^ 64"

definition parse_usize :: "string \<Rightarrow> nat option" where
  "parse_usize s = parse_uint 10 usize_bound s"

fun show_nat :: "nat \<Rightarrow> string" where
  "show_nat n =
     (if n < 10 then [char_of (48 + n)] else show_nat (n div 10) @ [char_of (48 + n mod 10)])"

declare show_nat.simps [simp del]

section \<open>Length-prefixed FNV-1a\<close>

definition fnv_prime :: u64 where
  "fnv_prime = 0x100000001b3"

definition fnv_offset :: u64 where
  "fnv_offset = 0xcbf29ce484222325"

definition fnv1a_byte :: "u64 \<Rightarrow> char \<Rightarrow> u64" where
  "fnv1a_byte h b = (h XOR of_char b) * fnv_prime"

definition le_bytes8 :: "nat \<Rightarrow> string" where
  "le_bytes8 n = map (\<lambda>i. char_of (n div 256 ^ i mod 256)) [0..<8]"

definition fnv1a_64_feed :: "u64 \<Rightarrow> string \<Rightarrow> u64" where
  "fnv1a_64_feed h bytes = foldl fnv1a_byte (foldl fnv1a_byte h (le_bytes8 (length bytes))) bytes"

text \<open>The byte stream that feeding a sequence of slices absorbs.\<close>

definition framed :: "string \<Rightarrow> string" where
  "framed bytes = le_bytes8 (length bytes) @ bytes"

section \<open>Searching and joining\<close>

lemma find_char_less: "find_char c s = Some n \<Longrightarrow> n < length s"
  by (induction s arbitrary: n) (auto split: if_splits)

lemma find_char_at: "find_char c s = Some n \<Longrightarrow> s ! n = c"
  by (induction s arbitrary: n) (auto split: if_splits)

lemma find_text_le: "find_text p s = Some n \<Longrightarrow> n + length p \<le> length s"
  by (induction s arbitrary: n) (auto split: if_splits dest: prefix_length_le)

lemma find_text_at: "find_text p s = Some n \<Longrightarrow> prefix p (drop n s)"
  by (induction s arbitrary: n) (auto split: if_splits)

lemma join_with_Cons: "join_with sep (x # xs) = x @ concat (map (\<lambda>y. sep @ y) xs)"
  by (induction xs arbitrary: x) simp_all

section \<open>Character blocks and the encoding of scalar values\<close>

text \<open>
  A block is the encoding of one character: a byte that is not a continuation, then
  continuation bytes. Every truncation lemma is proved for a concatenation of blocks; the
  encoding of a list of scalar values is one.
\<close>

definition char_block :: "string \<Rightarrow> bool" where
  "char_block b = (case b of [] \<Rightarrow> False | h # t \<Rightarrow> \<not> is_cont h \<and> list_all is_cont t)"

definition utf8_char :: "nat \<Rightarrow> string" where
  "utf8_char cp =
     (if cp < 0x80 then [char_of cp]
      else if cp < 0x800 then [char_of (192 + cp div 64), char_of (128 + cp mod 64)]
      else if cp < 0x10000 then
        [char_of (224 + cp div 4096), char_of (128 + cp div 64 mod 64), char_of (128 + cp mod 64)]
      else [char_of (240 + cp div 262144), char_of (128 + cp div 4096 mod 64),
            char_of (128 + cp div 64 mod 64), char_of (128 + cp mod 64)])"

definition utf8 :: "nat list \<Rightarrow> string" where
  "utf8 cps = concat (map utf8_char cps)"

definition scalars :: "nat list \<Rightarrow> bool" where
  "scalars cps = list_all (\<lambda>cp. cp < 0x110000) cps"

lemma is_cont_char_of: "is_cont (char_of (n :: nat)) = (128 \<le> n mod 256 \<and> n mod 256 < 192)"
  by (simp add: is_cont_def Let_def)

lemma mod64_cont [simp]: "is_cont (char_of (128 + n mod 64 :: nat))"
proof -
  have "n mod 64 < 64" by simp
  then have "(128 + n mod 64) mod 256 = 128 + n mod 64" by simp
  then show ?thesis by (simp add: is_cont_char_of)
qed

lemma lead_not_cont:
  fixes n :: nat
  assumes "192 \<le> n" "n < 256"
  shows "\<not> is_cont (char_of n)"
  using assms by (simp add: is_cont_char_of)

lemma utf8_char_block:
  assumes "cp < 0x110000"
  shows "char_block (utf8_char cp)"
proof -
  have lead2: "\<not> is_cont (char_of (192 + cp div 64))" if "cp < 0x800"
    using that by (intro lead_not_cont) auto
  have lead3: "\<not> is_cont (char_of (224 + cp div 4096))" if "cp < 0x10000"
    using that by (intro lead_not_cont) auto
  have lead4: "\<not> is_cont (char_of (240 + cp div 262144))"
    using assms by (intro lead_not_cont) auto
  have lead1: "\<not> is_cont (char_of cp)" if "cp < 0x80"
    using that by (simp add: is_cont_char_of)
  show ?thesis
    using lead1 lead2 lead3 lead4 by (simp add: utf8_char_def char_block_def)
qed

lemma utf8_blocks: "scalars cps \<Longrightarrow> list_all char_block (map utf8_char cps)"
  by (auto simp: scalars_def list_all_iff intro: utf8_char_block)

lemma utf8_take: "utf8 (take n cps) = concat (take n (map utf8_char cps))"
  by (simp add: utf8_def take_map)

lemma char_blockE:
  assumes "char_block b"
  obtains h t where "b = h # t" "\<not> is_cont h" "list_all is_cont t"
  using assms by (cases b) (auto simp: char_block_def)

lemma char_indices_shift: "char_indices_from (k + i) s = map ((+) k) (char_indices_from i s)"
proof (induction s arbitrary: i)
  case Nil
  then show ?case by simp
next
  case (Cons c s)
  from Cons.IH [of "Suc i"] show ?case by simp
qed

lemma char_indices_cont:
  "list_all is_cont t \<Longrightarrow> char_indices_from i (t @ s) = char_indices_from (i + length t) s"
  by (induction t arbitrary: i) auto

lemma char_indices_block:
  assumes "char_block b"
  shows "char_indices_from 0 (b @ s) = 0 # map ((+) (length b)) (char_indices_from 0 s)"
proof -
  from assms obtain h t where b: "b = h # t" "\<not> is_cont h" "list_all is_cont t"
    by (rule char_blockE)
  have "char_indices_from 0 (b @ s) = 0 # char_indices_from (Suc 0) (t @ s)"
    using b by simp
  also have "\<dots> = 0 # char_indices_from (length b + 0) s"
    using b by (simp add: char_indices_cont)
  finally show ?thesis using char_indices_shift [of "length b" 0 s] by simp
qed

lemma char_indices_concat_length:
  "list_all char_block bs \<Longrightarrow> length (char_indices_from 0 (concat bs)) = length bs"
  by (induction bs) (auto simp: char_indices_block)

lemma truncate_chars_block:
  assumes "char_block b"
  shows "truncate_chars (b @ s) (Suc n) = b @ truncate_chars s n"
  using assms by (simp add: truncate_chars_def Let_def char_indices_block)

lemma truncate_chars_zero:
  assumes "char_block b"
  shows "truncate_chars (b @ s) 0 = []"
  using assms by (simp add: truncate_chars_def Let_def char_indices_block)

lemma truncate_chars_blocks:
  "list_all char_block bs \<Longrightarrow> truncate_chars (concat bs) n = concat (take n bs)"
proof (induction bs arbitrary: n)
  case Nil
  then show ?case by (simp add: truncate_chars_def)
next
  case (Cons b bs)
  then show ?case
    by (cases n) (simp_all add: truncate_chars_block truncate_chars_zero)
qed

section \<open>What the truncations compute\<close>

lemma floor_loop_boundary: "is_char_boundary s (floor_loop s i)"
  by (induction i) (auto simp: is_char_boundary_def)

lemma floor_loop_le: "floor_loop s i \<le> i"
  by (induction i) auto

lemma floor_loop_greatest: "j \<le> i \<Longrightarrow> is_char_boundary s j \<Longrightarrow> j \<le> floor_loop s i"
  by (induction i) (auto simp: le_Suc_eq)

lemma boundary_le_length: "is_char_boundary s i \<Longrightarrow> i \<le> length s"
  by (auto simp: is_char_boundary_def split: if_splits)

text \<open>\<open>floor_char_boundary\<close> returns the largest character boundary not above its cap.\<close>

theorem floor_char_boundary_is_greatest:
  "floor_char_boundary s mx = Max {i. i \<le> mx \<and> is_char_boundary s i}"
proof (rule sym, rule Max_eqI)
  show "finite {i. i \<le> mx \<and> is_char_boundary s i}" by simp
next
  fix j assume "j \<in> {i. i \<le> mx \<and> is_char_boundary s i}"
  then show "j \<le> floor_char_boundary s mx"
    by (auto simp: floor_char_boundary_def floor_loop_greatest dest: boundary_le_length)
next
  have "is_char_boundary s (length s)" by (simp add: is_char_boundary_def)
  then show "floor_char_boundary s mx \<in> {i. i \<le> mx \<and> is_char_boundary s i}"
    by (auto simp: floor_char_boundary_def floor_loop_boundary floor_loop_le)
qed

lemma char_count_utf8: "scalars cps \<Longrightarrow> char_count (utf8 cps) = length cps"
  using char_indices_concat_length [OF utf8_blocks] by (simp add: char_count_def utf8_def)

lemma truncate_chars_utf8: "scalars cps \<Longrightarrow> truncate_chars (utf8 cps) n = utf8 (take n cps)"
  using truncate_chars_blocks [OF utf8_blocks] by (simp add: utf8_def take_map)

lemma utf8_char_nonempty: "utf8_char cp \<noteq> []"
  by (simp add: utf8_char_def)

lemma utf8_take_shorter:
  "n < length cps \<Longrightarrow> length (utf8 (take n cps)) < length (utf8 cps)"
proof (induction cps arbitrary: n)
  case Nil
  then show ?case by simp
next
  case (Cons c cps)
  then show ?case using utf8_char_nonempty [of c] by (cases n) (auto simp: utf8_def)
qed

text \<open>
  On the encoding of any scalar values, \<open>truncate_chars\<close> keeps exactly the first
  \<open>n\<close> characters (its budget counts characters, not bytes, and no character is split), and
  \<open>truncate_with_ellipsis\<close> appends the ellipsis exactly when a character was dropped.
\<close>

theorem truncation_counts_characters:
  assumes "scalars cps"
  shows "truncate_chars (utf8 cps) n = utf8 (take n cps)
    \<and> truncate_with_ellipsis (utf8 cps) n e
        = (if n < length cps then utf8 (take n cps) @ e else utf8 cps)"
  using truncate_chars_utf8 [OF assms, of n] utf8_take_shorter [of n cps]
  by (auto simp: truncate_with_ellipsis_def Let_def)

theorem truncation_counts_characters_witness:
  "truncate_with_ellipsis (utf8 [0x61, 0x20AC, 0x1F600]) 2 ''...'' = utf8 [0x61, 0x20AC] @ ''...''"
  using truncation_counts_characters [of "[0x61, 0x20AC, 0x1F600]" 2 "''...''"]
  by (simp add: scalars_def numeral_2_eq_2)


section \<open>The framing of the digest is injective\<close>

lemma le_bytes8_length [simp]: "length (le_bytes8 n) = 8"
  by (simp add: le_bytes8_def)

lemma fnv1a_64_feed_framed: "fnv1a_64_feed h bytes = foldl fnv1a_byte h (framed bytes)"
  by (simp add: fnv1a_64_feed_def framed_def)

lemma fnv1a_64_feed_all:
  "foldl fnv1a_64_feed h xs = foldl fnv1a_byte h (concat (map framed xs))"
  by (induction xs arbitrary: h) (simp_all add: fnv1a_64_feed_framed)

lemma digits_inject:
  "(\<And>i. i < k \<Longrightarrow> m div 256 ^ i mod 256 = n div 256 ^ i mod 256) \<Longrightarrow> m < 256 ^ k \<Longrightarrow> n < 256 ^ k
     \<Longrightarrow> m = (n :: nat)"
proof (induction k arbitrary: m n)
  case 0
  then show ?case by simp
next
  case (Suc k)
  have low: "m mod 256 = n mod 256" using Suc.prems(1) [of 0] by simp
  have "m div 256 = n div 256"
  proof (rule Suc.IH)
    fix i assume "i < k"
    with Suc.prems(1) [of "Suc i"] show "m div 256 div 256 ^ i mod 256 = n div 256 div 256 ^ i mod 256"
      by (simp add: div_mult2_eq)
  qed (use Suc.prems(2,3) in \<open>simp_all add: less_mult_imp_div_less mult.commute\<close>)
  with low show ?case by (metis mod_div_mult_eq)
qed

lemma le_bytes8_inject:
  assumes "le_bytes8 m = le_bytes8 n" "m < 2 ^ 64" "n < 2 ^ 64"
  shows "m = n"
proof (rule digits_inject [where k = 8])
  fix i :: nat assume "i < 8"
  with assms(1) have "(char_of (m div 256 ^ i mod 256) :: char) = char_of (n div 256 ^ i mod 256)"
    by (auto simp: le_bytes8_def)
  then have "(of_char (char_of (m div 256 ^ i mod 256) :: char) :: nat) = of_char (char_of (n div 256 ^ i mod 256) :: char)"
    by simp
  then show "m div 256 ^ i mod 256 = n div 256 ^ i mod 256" by simp
qed (use assms in simp_all)

lemma framed_append_inject:
  assumes "framed a @ x = framed b @ y" "length a < 2 ^ 64" "length b < 2 ^ 64"
  shows "a = b \<and> x = y"
proof -
  from assms(1) have "le_bytes8 (length a) = le_bytes8 (length b)" and ab: "a @ x = b @ y"
    by (simp_all add: framed_def append_eq_append_conv)
  then have "length a = length b" using assms(2,3) by (blast intro: le_bytes8_inject)
  with ab show ?thesis by simp
qed

lemma framed_stream_inject:
  assumes "concat (map framed xs) = concat (map framed ys)"
    and "list_all (\<lambda>b. length b < 2 ^ 64) xs" "list_all (\<lambda>b. length b < 2 ^ 64) ys"
  shows "xs = ys"
  using assms
proof (induction xs arbitrary: ys)
  case Nil
  then show ?case by (cases ys) (auto simp: framed_def le_bytes8_def)
next
  case (Cons x xs)
  from Cons.prems(1) obtain y ys' where ys: "ys = y # ys'"
    by (cases ys) (auto simp: framed_def le_bytes8_def)
  with Cons.prems have "x = y \<and> concat (map framed xs) = concat (map framed ys')"
    by (intro framed_append_inject) auto
  with Cons ys show ?case by auto
qed

text \<open>
  Feeding slices one after the other is plain FNV-1a over their framed bytes, and the
  framing is injective: two sequences of slices (each shorter than 2^64 bytes) present the
  accumulator with the same bytes only if they are the same sequence, so \<open>("ab", "c")\<close> and
  \<open>("a", "bc")\<close> never reach the hash as one input.
\<close>

theorem feed_framing_injective:
  assumes "list_all (\<lambda>b. length b < 2 ^ 64) xs" "list_all (\<lambda>b. length b < 2 ^ 64) ys"
  shows "foldl fnv1a_64_feed h xs = foldl fnv1a_byte h (concat (map framed xs))
    \<and> (concat (map framed xs) = concat (map framed ys) \<longleftrightarrow> xs = ys)"
  using assms by (auto simp: fnv1a_64_feed_all intro: framed_stream_inject)

theorem feed_framing_injective_witness:
  "concat (map framed [''ab'', ''c'']) \<noteq> concat (map framed [''a'', ''bc''])"
  using feed_framing_injective [of "[''ab'', ''c'']" "[''a'', ''bc'']" 0] by simp

section \<open>Decimal printing and parsing\<close>

lemma digit_val_dec: "d < 10 \<Longrightarrow> digit_val (char_of (48 + d)) = Some d"
  by (simp add: digit_val_def Let_def)

lemma parse_digits_append:
  "parse_digits r acc (xs @ ys) =
     (case parse_digits r acc xs of None \<Rightarrow> None | Some a \<Rightarrow> parse_digits r a ys)"
  by (induction xs arbitrary: acc) (auto split: option.splits)

lemma parse_digits_show_nat: "parse_digits 10 0 (show_nat n) = Some n"
proof (induction n rule: show_nat.induct)
  case (1 n)
  show ?case
  proof (cases "n < 10")
    case True
    then show ?thesis by (simp add: show_nat.simps [of n] digit_val_dec)
  next
    case False
    with 1 have "parse_digits 10 0 (show_nat (n div 10)) = Some (n div 10)" by simp
    with False show ?thesis
      by (simp add: show_nat.simps [of n] parse_digits_append digit_val_dec)
  qed
qed

lemma show_nat_head: "\<exists>d ds. show_nat n = char_of (48 + d) # ds \<and> d < (10 :: nat)"
proof (induction n rule: show_nat.induct)
  case (1 n)
  show ?case
  proof (cases "n < 10")
    case True
    then show ?thesis
      by (intro exI [of _ n] exI [of _ "[]"]) (simp add: show_nat.simps [of n])
  next
    case False
    with 1 obtain d :: nat and ds where "show_nat (n div 10) = char_of (48 + d) # ds" "d < 10" by auto
    with False show ?thesis
      by (intro exI [of _ d] exI [of _ "ds @ [char_of (48 + n mod 10)]"])
        (simp add: show_nat.simps [of n])
  qed
qed

lemma parse_uint_show_nat:
  assumes "n < bound"
  shows "parse_uint 10 bound (show_nat n) = Some n"
proof -
  obtain d :: nat and ds where h: "show_nat n = char_of (48 + d) # ds" "d < 10"
    using show_nat_head by blast
  then have "of_char (char_of (48 + d) :: char) \<noteq> (of_char CHR ''+'' :: nat)" by simp
  then have "char_of (48 + d) \<noteq> CHR ''+''" by metis
  with h parse_digits_show_nat [of n] assms show ?thesis
    by (simp add: parse_uint_def Let_def)
qed

section \<open>Lines, trimming and splitting of printed text\<close>

lemma split_on_step: "c \<notin> set x \<Longrightarrow> split_on c (x @ c # s) = x # split_on c s"
  by (induction x) auto

lemma split_on_rows:
  "list_all (\<lambda>l. c \<notin> set l) ls \<Longrightarrow> split_on c (concat (map (\<lambda>l. l @ [c]) ls)) = ls @ [[]]"
  by (induction ls) (auto simp: split_on_step)

lemma split_on_none: "x \<notin> set s \<Longrightarrow> split_on x s = [s]"
  by (induction s) auto

lemma split_on_join: "ls \<noteq> [] \<Longrightarrow> list_all (\<lambda>l. c \<notin> set l) ls \<Longrightarrow> split_on c (join_with [c] ls) = ls"
proof (induction "[c]" ls rule: join_with.induct)
  case (3 x y ys)
  then show ?case using split_on_step [of c x] by simp
qed (simp_all add: split_on_none)

definition plain_row :: "string \<Rightarrow> bool" where
  "plain_row l = (CHR 0x0A \<notin> set l \<and> (l = [] \<or> last l \<noteq> CHR 0x0D))"

lemma rust_lines_rows:
  assumes "list_all plain_row ls"
  shows "rust_lines (concat (map (\<lambda>l. l @ [CHR 0x0A]) ls)) = ls"
proof -
  have "list_all (\<lambda>l. CHR 0x0A \<notin> set l) ls" using assms by (auto simp: list_all_iff plain_row_def)
  moreover have "map strip_cr ls = ls"
    using assms by (intro map_idI) (auto simp: list_all_iff plain_row_def strip_cr_def)
  ultimately show ?thesis by (simp add: rust_lines_def split_on_rows)
qed

lemma concat_utf8_chars [simp]: "concat (utf8_chars s) = s"
  by (induction s rule: utf8_chars.induct) auto

lemma utf8_chars_snoc: "\<not> is_cont c \<Longrightarrow> utf8_chars (s @ [c]) = utf8_chars s @ [[c]]"
proof (induction s rule: utf8_chars.induct)
  case (2 x xs)
  then show ?case
    by (cases "\<exists>y \<in> set xs. \<not> is_cont y")
      (auto simp: takeWhile_append dropWhile_append dropWhile_eq_Nil_conv [THEN iffD2]
        takeWhile_eq_all_conv [THEN iffD2])
qed simp

lemma utf8_chars_append:
  "s = [] \<or> \<not> is_cont (hd s) \<Longrightarrow> utf8_chars (a @ s) = utf8_chars a @ utf8_chars s"
proof (induction a rule: utf8_chars.induct)
  case (2 x xs)
  show ?case
  proof (cases "\<exists>y \<in> set xs. \<not> is_cont y")
    case True
    with 2 show ?thesis by (auto simp: takeWhile_append dropWhile_append)
  next
    case False
    then have "takeWhile is_cont (xs @ s) = xs" "dropWhile is_cont (xs @ s) = s"
      using 2(2) by (cases s; simp add: takeWhile_append dropWhile_append)+
    with False show ?thesis
      by (simp add: dropWhile_eq_Nil_conv [THEN iffD2] takeWhile_eq_all_conv [THEN iffD2])
  qed
qed simp

lemma utf8_chars_ascii: "list_all (\<lambda>c. \<not> is_cont c) a \<Longrightarrow> utf8_chars a = map (\<lambda>c. [c]) a"
proof (induction a)
  case (Cons c a)
  then have "takeWhile is_cont a = []" "dropWhile is_cont a = a" by (cases a; simp)+
  with Cons show ?case by simp
qed simp

text \<open>A character that begins no whitespace sequence and continues no other character.\<close>

definition solid :: "char \<Rightarrow> bool" where
  "solid c = (\<not> is_cont c \<and> list_all (\<lambda>w. hd w \<noteq> c) ws_seqs)"

lemma solid_not_ws: "solid c \<Longrightarrow> \<not> is_ws_char (c # s)"
  by (auto simp: solid_def is_ws_char_def list_all_iff)

lemma trim_end_solid: "solid c \<Longrightarrow> trim_end (s @ [c]) = s @ [c]"
  using solid_not_ws [of c "[]"] by (simp add: trim_end_def utf8_chars_snoc solid_def)

lemma drop_ws_snoc: "\<not> is_ws_char b \<Longrightarrow> drop_ws (xs @ [b]) = drop_ws xs @ [b]"
  by (induction xs) auto

lemma trim_end_head: "solid c \<Longrightarrow> \<exists>t. trim_end (c # s) = c # t"
  using solid_not_ws [of c "takeWhile is_cont s"]
  by (simp add: trim_end_def drop_ws_snoc)

lemma trim_end_after: "solid c \<Longrightarrow> \<exists>t. trim_end (a @ c # s) = a @ c # t"
proof -
  assume c: "solid c"
  let ?b = "c # takeWhile is_cont s"
  have "utf8_chars (a @ c # s) = utf8_chars a @ utf8_chars (c # s)"
    using c by (intro utf8_chars_append) (simp add: solid_def)
  then have chars: "rev (utf8_chars (a @ c # s))
      = rev (utf8_chars (dropWhile is_cont s)) @ [?b] @ rev (utf8_chars a)" by simp
  have b: "\<not> is_ws_char ?b" using c by (rule solid_not_ws)
  have skip: "\<exists>ys. drop_ws (xs @ [b] @ zs) = ys @ [b] @ zs" if "\<not> is_ws_char b" for xs b zs
  proof (induction xs)
    case Nil
    with that show ?case by (intro exI [of _ "[]"]) simp
  next
    case (Cons x xs)
    then show ?case by (cases "is_ws_char x") (auto intro: exI [of _ "x # xs"])
  qed
  obtain ys where "drop_ws (rev (utf8_chars (a @ c # s))) = ys @ [?b] @ rev (utf8_chars a)"
    using skip [OF b] chars by metis
  then have "trim_end (a @ c # s) = a @ ?b @ concat (rev ys)"
    by (simp add: trim_end_def)
  then show ?thesis by auto
qed

lemma drop_ws_dropWhile: "drop_ws xs = dropWhile is_ws_char xs"
  by (induction xs) auto

lemma trim_end_prefix: "\<exists>u. trim_end s @ u = s"
proof -
  let ?r = "rev (utf8_chars s)"
  have "utf8_chars s = rev (dropWhile is_ws_char ?r) @ rev (takeWhile is_ws_char ?r)"
    by (metis rev_append rev_rev_ident takeWhile_dropWhile_id)
  then have "concat (rev (dropWhile is_ws_char ?r)) @ concat (rev (takeWhile is_ws_char ?r)) = s"
    by (metis concat_append concat_utf8_chars)
  then show ?thesis by (auto simp: trim_end_def drop_ws_dropWhile)
qed

lemma trim_start_solid: "solid c \<Longrightarrow> trim_start (c # s) = c # s"
  using solid_not_ws [of c "takeWhile is_cont s"] by (simp add: trim_start_def)

lemma trim_solid: "s \<noteq> [] \<Longrightarrow> solid (hd s) \<Longrightarrow> solid (last s) \<Longrightarrow> trim s = s"
  using trim_start_solid [of "hd s" "tl s"] trim_end_solid [of "last s" "butlast s"]
  by (simp add: trim_def)

text \<open>Trimming takes one white-space character off each side of a text that has none at its ends.\<close>

lemma trim_between:
  assumes "is_ws_char [a]" "is_ws_char [b]" "\<not> is_cont a" "\<not> is_cont b"
    and "s = [] \<or> solid (hd s) \<and> solid (last s)"
  shows "trim (a # s @ [b]) = s"
proof (cases "s = []")
  case True
  then show ?thesis using assms by (simp add: trim_def trim_start_def trim_end_def)
next
  case False
  then obtain x xs where s: "s = x # xs" by (cases s) auto
  have x: "\<not> is_cont x" using assms(5) s by (simp add: solid_def)
  have "trim_start (a # s @ [b]) = s @ [b]"
    using assms(1,3,5) x solid_not_ws [of x "takeWhile is_cont (xs @ [b])"] by (simp add: trim_start_def s)
  moreover have "trim_end (s @ [b]) = s"
    using trim_end_solid [of "last s" "butlast s"] assms(2,5) False
    by (simp add: trim_end_def utf8_chars_snoc [OF assms(4)])
  ultimately show ?thesis by (simp add: trim_def)
qed

lemma split_once_found: "x \<notin> set a \<Longrightarrow> split_once (x # p) (a @ (x # p) @ b) = Some (a, b)"
proof (induction a)
  case Nil
  then show ?case by (cases b) (simp_all add: prefix_def)
next
  case (Cons y a)
  then show ?case by (auto simp: prefix_def)
qed

lemma rsplit_once_found: "c \<notin> set t \<Longrightarrow> rsplit_once_char c (p @ c # t) = Some (p, t)"
  using split_once_found [of c "rev t" "[]" "rev p"] by (simp add: rsplit_once_char_def)

lemma digits_of_show_nat: "c \<in> set (show_nat n) \<Longrightarrow> \<exists>d < 10. c = char_of (48 + d :: nat)"
proof (induction n rule: show_nat.induct)
  case (1 n)
  show ?case
  proof (cases "n < 10")
    case True
    with 1 have "c = char_of (48 + n)" by (simp add: show_nat.simps [of n])
    with True show ?thesis by blast
  next
    case False
    then consider "c \<in> set (show_nat (n div 10))" | "c = char_of (48 + n mod 10)"
      using 1 by (auto simp: show_nat.simps [of n])
    then show ?thesis using 1 False by cases (auto intro: exI [of _ "n mod 10"])
  qed
qed

lemma dec_digit_cases:
  "d < 10 \<Longrightarrow> char_of (48 + d :: nat) \<in> set ''0123456789''"
proof -
  assume "d < 10"
  then have "d \<in> {0, 1, 2, 3, 4, 5, 6, 7, 8, 9}" by auto
  then show ?thesis by (elim insertE emptyE; hypsubst; code_simp)
qed

lemma show_nat_digits:
  "set (show_nat n) \<subseteq> set ''0123456789''"
  using digits_of_show_nat dec_digit_cases by blast

lemma show_nat_nonempty [simp]: "show_nat n \<noteq> []"
  using show_nat.simps [of n] by auto

lemma solid_digits: "c \<in> set ''0123456789'' \<Longrightarrow> solid c"
  by (simp only: list.set, elim insertE emptyE; hypsubst; code_simp)

lemma show_nat_inject: "show_nat m = show_nat n \<Longrightarrow> m = n"
  by (metis option.inject parse_digits_show_nat)

lemma contains_str_sublist: "contains_str p s \<longleftrightarrow> sublist p s"
  by (induction s) (auto simp: sublist_Cons_right)

text \<open>What \<open>split_once\<close> finds is the first occurrence.\<close>

lemma split_once_Some:
  "split_once p s = Some (a, b) \<Longrightarrow> s = a @ p @ b \<and> (\<forall>i < length a. \<not> prefix p (drop i s))"
proof (induction p s arbitrary: a rule: split_once.induct)
  case (2 p x xs)
  show ?case
  proof (cases "prefix p (x # xs)")
    case True
    then show ?thesis using 2(2) by (auto simp: prefix_def)
  next
    case False
    then obtain a' where a: "split_once p xs = Some (a', b)" "a = x # a'"
      using 2(2) by auto
    from 2(1) [OF False a(1)] show ?thesis
      using False by (auto simp: a(2) nth_Cons less_Suc_eq_0_disj)
  qed
qed (auto split: if_splits)

lemma split_once_None: "split_once p s = None \<longleftrightarrow> \<not> contains_str p s"
  by (induction p s rule: split_once.induct) auto

lemma contains_str_at: "p \<noteq> [] \<Longrightarrow> contains_str p s \<longleftrightarrow> (\<exists>i < length s. prefix p (drop i s))"
proof (induction s)
  case (Cons x xs)
  then show ?case by (auto simp: less_Suc_eq_0_disj)
qed auto

text \<open>A pattern does not begin inside a text that lacks its first character.\<close>

lemma contains_str_skip: "c \<notin> set ds \<Longrightarrow> contains_str (c # p) (ds @ s) = contains_str (c # p) s"
  by (induction ds) auto

end
