(* ===== verification/Kod_Goals.thy ===== *)
theory Kod_Goals
  imports Kod_Text
begin

text \<open>
  The budgeted goal runtime, \<open>crates/kod-core-state/src/goals.rs\<close>, with the token usage
  record it accounts (\<open>crates/kod-provider/src/types.rs\<close>). At most one goal is current; its
  tokens and seconds saturate at the width of \<open>u64\<close>. The lemmas show what the accounting
  computes, when the status may be \<open>BudgetLimited\<close>, and that the budget message is handed
  out once per goal.
\<close>

section \<open>Data\<close>

record token_usage =
  prompt_tokens :: u64
  completion_tokens :: u64
  total_tokens :: u64
  cache_read_tokens :: "u64 option"
  cache_creation_tokens :: "u64 option"
  cache_creation_1h_tokens :: "u64 option"

datatype goal_status = GoalActive | GoalBudgetLimited | GoalPaused | GoalComplete | GoalDropped

definition goal_is_terminal :: "goal_status \<Rightarrow> bool" where
  "goal_is_terminal st = (st = GoalComplete \<or> st = GoalDropped)"

definition goal_is_running :: "goal_status \<Rightarrow> bool" where
  "goal_is_running st = (st = GoalActive)"

record goal_budget =
  budget_token :: "u64 option"
  budget_time_seconds :: "u64 option"

record goal =
  goal_id :: u64
  objective :: string
  status :: goal_status
  token_budget :: "u64 option"
  tokens_used :: u64
  time_budget_seconds :: "u64 option"
  time_used_seconds :: u64
  budget_steer_emitted :: bool

section \<open>One goal\<close>

definition goal_new :: "u64 \<Rightarrow> string \<Rightarrow> goal" where
  "goal_new i obj =
     \<lparr> goal_id = i, objective = obj, status = GoalActive, token_budget = None, tokens_used = 0,
       time_budget_seconds = None, time_used_seconds = 0, budget_steer_emitted = False \<rparr>"

definition with_token_budget :: "goal \<Rightarrow> u64 \<Rightarrow> goal" where
  "with_token_budget g tokens = g\<lparr>token_budget := Some tokens\<rparr>"

definition with_time_budget :: "goal \<Rightarrow> u64 \<Rightarrow> goal" where
  "with_time_budget g seconds = g\<lparr>time_budget_seconds := Some seconds\<rparr>"

text \<open>The final addition is the plain \<open>+\<close> of the source, which wraps in a release build.\<close>

definition delta_tokens :: "token_usage \<Rightarrow> u64" where
  "delta_tokens u =
     (let new_input = sat_sub (prompt_tokens u)
            (case cache_read_tokens u of None \<Rightarrow> 0 | Some c \<Rightarrow> c);
          output = completion_tokens u
      in new_input + output)"

definition cap_reached :: "u64 option \<Rightarrow> u64 \<Rightarrow> bool" where
  "cap_reached cap used = (case cap of None \<Rightarrow> False | Some b \<Rightarrow> b \<le> used)"

definition recheck_budget :: "goal \<Rightarrow> goal" where
  "recheck_budget g =
     (if status g \<noteq> GoalActive then g
      else let tokens_over = cap_reached (token_budget g) (tokens_used g);
               time_over = cap_reached (time_budget_seconds g) (time_used_seconds g)
           in if tokens_over \<or> time_over then g\<lparr>status := GoalBudgetLimited\<rparr> else g)"

definition goal_observe_usage :: "goal \<Rightarrow> token_usage \<Rightarrow> goal" where
  "goal_observe_usage g u =
     (if goal_is_terminal (status g) then g
      else recheck_budget (g\<lparr>tokens_used := sat_add (tokens_used g) (delta_tokens u)\<rparr>))"

definition goal_observe_time :: "goal \<Rightarrow> u64 \<Rightarrow> goal" where
  "goal_observe_time g seconds =
     (if goal_is_terminal (status g) then g
      else recheck_budget (g\<lparr>time_used_seconds := sat_add (time_used_seconds g) seconds\<rparr>))"

definition take_budget_steer :: "goal \<Rightarrow> bool \<times> goal" where
  "take_budget_steer g =
     (if status g = GoalBudgetLimited \<and> \<not> budget_steer_emitted g
      then (True, g\<lparr>budget_steer_emitted := True\<rparr>) else (False, g))"

definition goal_wants_continuation :: "goal \<Rightarrow> bool" where
  "goal_wants_continuation g = (status g = GoalActive)"

fun show_status :: "goal_status \<Rightarrow> string" where
  "show_status GoalActive = ''Active''"
| "show_status GoalBudgetLimited = ''BudgetLimited''"
| "show_status GoalPaused = ''Paused''"
| "show_status GoalComplete = ''Complete''"
| "show_status GoalDropped = ''Dropped''"

definition show_used :: "u64 \<Rightarrow> u64 option \<Rightarrow> string \<Rightarrow> string" where
  "show_used used cap unit_name =
     (case cap of
        Some b \<Rightarrow> show_nat (unat used) @ '' / '' @ show_nat (unat b) @ '' '' @ unit_name
      | None \<Rightarrow> show_nat (unat used) @ '' '' @ unit_name)"

definition goal_report :: "goal \<Rightarrow> string" where
  "goal_report g =
     ''goal '' @ show_status (status g) @ '': ''
       @ show_used (tokens_used g) (token_budget g) ''tokens'' @ '', ''
       @ show_used (time_used_seconds g) (time_budget_seconds g) ''s''"

section \<open>The runtime\<close>

record goal_runtime =
  current :: "goal option"
  next_id :: u64

definition goal_runtime_new :: goal_runtime where
  "goal_runtime_new = \<lparr> current = None, next_id = 1 \<rparr>"

text \<open>What the mutating methods do to the current goal: nothing when there is none.\<close>

definition on_current :: "(goal \<Rightarrow> goal) \<Rightarrow> goal_runtime \<Rightarrow> goal_runtime" where
  "on_current f rt = rt\<lparr>current := map_option f (current rt)\<rparr>"

definition drop_previous :: "goal_runtime \<Rightarrow> goal_runtime" where
  "drop_previous =
     on_current (\<lambda>g. if \<not> goal_is_terminal (status g) then g\<lparr>status := GoalDropped\<rparr> else g)"

definition goal_start :: "goal_runtime \<Rightarrow> string \<Rightarrow> u64 \<times> goal_runtime" where
  "goal_start rt obj =
     (let rt1 = drop_previous rt; i = next_id rt1
      in (i, rt1\<lparr>next_id := i + 1, current := Some (goal_new i obj)\<rparr>))"

definition goal_start_with :: "goal_runtime \<Rightarrow> string \<Rightarrow> goal_budget \<Rightarrow> u64 \<times> goal_runtime" where
  "goal_start_with rt obj b =
     (let rt1 = drop_previous rt; i = next_id rt1;
          g = (goal_new i obj)\<lparr>token_budget := budget_token b,
                               time_budget_seconds := budget_time_seconds b\<rparr>
      in (i, rt1\<lparr>next_id := i + 1, current := Some g\<rparr>))"

definition runtime_observe_usage :: "goal_runtime \<Rightarrow> token_usage \<Rightarrow> goal_runtime" where
  "runtime_observe_usage rt u = on_current (\<lambda>g. goal_observe_usage g u) rt"

definition runtime_observe_time :: "goal_runtime \<Rightarrow> u64 \<Rightarrow> goal_runtime" where
  "runtime_observe_time rt seconds = on_current (\<lambda>g. goal_observe_time g seconds) rt"

definition goal_pause :: "goal_runtime \<Rightarrow> goal_runtime" where
  "goal_pause = on_current (\<lambda>g. if status g = GoalActive then g\<lparr>status := GoalPaused\<rparr> else g)"

definition goal_resume :: "goal_runtime \<Rightarrow> goal_runtime" where
  "goal_resume = on_current (\<lambda>g. if status g = GoalPaused then g\<lparr>status := GoalActive\<rparr> else g)"

definition goal_complete :: "goal_runtime \<Rightarrow> goal_runtime" where
  "goal_complete =
     on_current (\<lambda>g. if \<not> goal_is_terminal (status g) then g\<lparr>status := GoalComplete\<rparr> else g)"

definition drop_current :: "goal_runtime \<Rightarrow> goal_runtime" where
  "drop_current = on_current (\<lambda>g. g\<lparr>status := GoalDropped\<rparr>)"

definition runtime_wants_continuation :: "goal_runtime \<Rightarrow> bool" where
  "runtime_wants_continuation rt =
     (case current rt of None \<Rightarrow> False | Some g \<Rightarrow> goal_wants_continuation g)"

text \<open>\<open>current_mut().take_budget_steer()\<close>, the one mutation callers make through the reference.\<close>

definition runtime_take_steer :: "goal_runtime \<Rightarrow> bool \<times> goal_runtime" where
  "runtime_take_steer rt =
     (case current rt of
        None \<Rightarrow> (False, rt)
      | Some g \<Rightarrow> (let (b, g') = take_budget_steer g in (b, rt\<lparr>current := Some g'\<rparr>)))"

section \<open>Calls on the runtime\<close>

datatype goal_event =
    EvStart string
  | EvStartWith string goal_budget
  | EvUsage token_usage
  | EvTime u64
  | EvPause | EvResume | EvComplete | EvDrop | EvTakeSteer

fun goal_step :: "goal_runtime \<Rightarrow> goal_event \<Rightarrow> goal_runtime" where
  "goal_step rt (EvStart obj) = snd (goal_start rt obj)"
| "goal_step rt (EvStartWith obj b) = snd (goal_start_with rt obj b)"
| "goal_step rt (EvUsage u) = runtime_observe_usage rt u"
| "goal_step rt (EvTime s) = runtime_observe_time rt s"
| "goal_step rt EvPause = goal_pause rt"
| "goal_step rt EvResume = goal_resume rt"
| "goal_step rt EvComplete = goal_complete rt"
| "goal_step rt EvDrop = drop_current rt"
| "goal_step rt EvTakeSteer = snd (runtime_take_steer rt)"

fun is_start :: "goal_event \<Rightarrow> bool" where
  "is_start (EvStart _) = True"
| "is_start (EvStartWith _ _) = True"
| "is_start _ = False"

text \<open>How many of the calls in a sequence handed out the budget message.\<close>

fun steers_emitted :: "goal_runtime \<Rightarrow> goal_event list \<Rightarrow> nat" where
  "steers_emitted rt [] = 0"
| "steers_emitted rt (e # es) =
     (if e = EvTakeSteer \<and> fst (runtime_take_steer rt) then 1 else 0)
       + steers_emitted (goal_step rt e) es"

section \<open>The budget status is never set without an exhausted budget\<close>

definition over_budget :: "goal \<Rightarrow> bool" where
  "over_budget g =
     (cap_reached (token_budget g) (tokens_used g)
       \<or> cap_reached (time_budget_seconds g) (time_used_seconds g))"

definition goal_ok :: "goal \<Rightarrow> bool" where
  "goal_ok g = ((status g = GoalBudgetLimited \<longrightarrow> over_budget g)
     \<and> (budget_steer_emitted g \<longrightarrow> over_budget g))"

definition runtime_ok :: "goal_runtime \<Rightarrow> bool" where
  "runtime_ok rt = (case current rt of None \<Rightarrow> True | Some g \<Rightarrow> goal_ok g)"

lemma cap_reached_mono: "cap_reached cap a \<Longrightarrow> a \<le> b \<Longrightarrow> cap_reached cap b"
  by (auto simp: cap_reached_def split: option.splits)

lemma recheck_budget_fields [simp]:
  "token_budget (recheck_budget g) = token_budget g"
  "tokens_used (recheck_budget g) = tokens_used g"
  "time_budget_seconds (recheck_budget g) = time_budget_seconds g"
  "time_used_seconds (recheck_budget g) = time_used_seconds g"
  "budget_steer_emitted (recheck_budget g) = budget_steer_emitted g"
  "goal_id (recheck_budget g) = goal_id g"
  by (simp_all add: recheck_budget_def Let_def)

lemma over_budget_recheck [simp]: "over_budget (recheck_budget g) = over_budget g"
  by (simp add: over_budget_def)

lemma recheck_budget_status:
  "status (recheck_budget g) =
     (if status g = GoalActive \<and> over_budget g then GoalBudgetLimited else status g)"
  by (auto simp: recheck_budget_def over_budget_def Let_def)

lemma over_budget_more_tokens:
  "over_budget g \<Longrightarrow> over_budget (g\<lparr>tokens_used := sat_add (tokens_used g) d\<rparr>)"
  by (auto simp: over_budget_def intro: cap_reached_mono sat_add_ge)

lemma over_budget_more_time:
  "over_budget g \<Longrightarrow> over_budget (g\<lparr>time_used_seconds := sat_add (time_used_seconds g) d\<rparr>)"
  by (auto simp: over_budget_def intro: cap_reached_mono sat_add_ge)

lemma goal_ok_new: "goal_ok (goal_new i obj)"
  by (simp add: goal_ok_def goal_new_def)

lemma goal_ok_observe [kod_inv]:
  "goal_ok g \<Longrightarrow> goal_ok (goal_observe_usage g u)"
  "goal_ok g \<Longrightarrow> goal_ok (goal_observe_time g sec)"
  using over_budget_more_tokens [of g] over_budget_more_time [of g]
  by (auto simp: goal_ok_def goal_observe_usage_def goal_observe_time_def recheck_budget_status)

lemma over_budget_status [simp]: "over_budget (g\<lparr>status := st\<rparr>) = over_budget g"
  by (simp add: over_budget_def)

lemma over_budget_steer [simp]: "over_budget (g\<lparr>budget_steer_emitted := b\<rparr>) = over_budget g"
  by (simp add: over_budget_def)

lemma goal_ok_set_status: "goal_ok g \<Longrightarrow> st \<noteq> GoalBudgetLimited \<Longrightarrow> goal_ok (g\<lparr>status := st\<rparr>)"
  by (simp add: goal_ok_def)

lemma goal_ok_take: "goal_ok g \<Longrightarrow> goal_ok (snd (take_budget_steer g))"
  by (auto simp: goal_ok_def take_budget_steer_def)

lemma runtime_ok_on_current:
  "runtime_ok rt \<Longrightarrow> (\<And>g. goal_ok g \<Longrightarrow> goal_ok (f g)) \<Longrightarrow> runtime_ok (on_current f rt)"
  by (auto simp: runtime_ok_def on_current_def split: option.splits)

lemma goal_step_ok [kod_inv]: "runtime_ok rt \<Longrightarrow> runtime_ok (goal_step rt e)"
proof (induction e)
  case (EvStartWith obj b)
  then show ?case
    by (simp add: goal_start_with_def Let_def runtime_ok_def goal_ok_def goal_new_def)
next
  case (EvStart obj)
  then show ?case by (simp add: goal_start_def Let_def runtime_ok_def goal_ok_new)
next
  case EvTakeSteer
  then show ?case
    by (auto simp: runtime_take_steer_def runtime_ok_def split: option.splits prod.splits
        dest: goal_ok_take)
qed (simp_all add: runtime_observe_usage_def runtime_observe_time_def goal_pause_def
    goal_resume_def goal_complete_def drop_current_def runtime_ok_on_current goal_ok_observe
    goal_ok_set_status)

interpretation goals: invariant_system goal_step runtime_ok
  by unfold_locales (rule goal_step_ok)

text \<open>
  Whatever calls a session makes, the current goal is \<open>BudgetLimited\<close>, or has had its
  budget message handed out, only when its tokens or its seconds have reached a budget it was
  given.
\<close>

theorem budget_limited_only_when_spent:
  assumes "current (foldl goal_step goal_runtime_new es) = Some g"
    and "status g = GoalBudgetLimited \<or> budget_steer_emitted g"
  shows "(\<exists>b. token_budget g = Some b \<and> b \<le> tokens_used g)
    \<or> (\<exists>b. time_budget_seconds g = Some b \<and> b \<le> time_used_seconds g)"
proof -
  have "runtime_ok (foldl goal_step goal_runtime_new es)"
    by (rule goals.run_keeps) (simp add: runtime_ok_def goal_runtime_new_def)
  with assms have "over_budget g" by (auto simp: runtime_ok_def goal_ok_def)
  then show ?thesis by (auto simp: over_budget_def cap_reached_def split: option.splits)
qed

text \<open>A usage report of the given prompt and completion counts, nothing cached.\<close>

definition plain_usage :: "u64 \<Rightarrow> u64 \<Rightarrow> token_usage" where
  "plain_usage p c =
     \<lparr> prompt_tokens = p, completion_tokens = c, total_tokens = p + c, cache_read_tokens = None,
       cache_creation_tokens = None, cache_creation_1h_tokens = None \<rparr>"

lemmas goal_eval_defs =
  goal_start_def goal_start_with_def drop_previous_def on_current_def runtime_observe_usage_def
  runtime_observe_time_def goal_observe_usage_def goal_observe_time_def recheck_budget_def
  cap_reached_def delta_tokens_def goal_new_def goal_runtime_new_def goal_is_terminal_def
  runtime_take_steer_def take_budget_steer_def plain_usage_def sat_add_def sat_sub_def Let_def
  goal_pause_def goal_resume_def goal_complete_def drop_current_def

theorem budget_limited_only_when_spent_witness:
  "\<exists>g. current (foldl goal_step goal_runtime_new
        [EvStartWith ''ship'' \<lparr>budget_token = Some 10, budget_time_seconds = None\<rparr>,
         EvUsage (plain_usage 8 4)]) = Some g
     \<and> status g = GoalBudgetLimited \<and> (\<exists>b. token_budget g = Some b \<and> b \<le> tokens_used g)"
proof -
  define es where "es = [EvStartWith ''ship'' \<lparr>budget_token = Some 10, budget_time_seconds = None\<rparr>,
         EvUsage (plain_usage 8 4)]"
  obtain g where g: "current (foldl goal_step goal_runtime_new es) = Some g"
      "status g = GoalBudgetLimited" "time_budget_seconds g = None"
    by (simp add: es_def goal_eval_defs)
  from budget_limited_only_when_spent [OF g(1)] g show ?thesis unfolding es_def by auto
qed

section \<open>The budget message is handed out once per goal\<close>

definition steer_pending :: "goal_runtime \<Rightarrow> nat" where
  "steer_pending rt =
     (case current rt of None \<Rightarrow> 0 | Some g \<Rightarrow> if budget_steer_emitted g then 0 else 1)"

lemma observe_steer_flag [simp]:
  "budget_steer_emitted (goal_observe_usage g u) = budget_steer_emitted g"
  "budget_steer_emitted (goal_observe_time g sec) = budget_steer_emitted g"
  by (simp_all add: goal_observe_usage_def goal_observe_time_def)

lemma steer_pending_on_current:
  "(\<And>g. budget_steer_emitted (f g) = budget_steer_emitted g)
     \<Longrightarrow> steer_pending (on_current f rt) = steer_pending rt"
  by (auto simp: steer_pending_def on_current_def split: option.splits)

lemma steer_pending_step:
  assumes "\<not> is_start e"
  shows "(if e = EvTakeSteer \<and> fst (runtime_take_steer rt) then 1 else 0)
           + steer_pending (goal_step rt e) \<le> steer_pending rt"
proof (cases e)
  case EvTakeSteer
  then show ?thesis
    by (auto simp: runtime_take_steer_def take_budget_steer_def steer_pending_def Let_def
        split: option.splits)
qed (use assms in \<open>simp_all add: runtime_observe_usage_def runtime_observe_time_def goal_pause_def
    goal_resume_def goal_complete_def drop_current_def steer_pending_on_current\<close>)

lemma steers_bounded:
  "list_all (\<lambda>e. \<not> is_start e) es \<Longrightarrow> steers_emitted rt es \<le> steer_pending rt"
proof (induction es arbitrary: rt)
  case Nil
  then show ?case by simp
next
  case (Cons e es)
  then have "steers_emitted (goal_step rt e) es \<le> steer_pending (goal_step rt e)" by simp
  with steer_pending_step [of e rt] Cons.prems show ?case by simp
qed

text \<open>
  Between two starts the budget message is handed out at most once, whatever the calls,
  and never when it was already handed out for the current goal.
\<close>

theorem budget_steer_once_per_goal:
  assumes "list_all (\<lambda>e. \<not> is_start e) es"
  shows "steers_emitted rt es \<le> 1
    \<and> (\<forall>g. current rt = Some g \<and> budget_steer_emitted g \<longrightarrow> steers_emitted rt es = 0)"
  using steers_bounded [OF assms, of rt]
  by (auto simp: steer_pending_def split: option.splits if_splits)

theorem budget_steer_once_per_goal_witness:
  "steers_emitted
     (snd (goal_start_with goal_runtime_new ''ship'' \<lparr>budget_token = Some 1, budget_time_seconds = None\<rparr>))
     [EvUsage (plain_usage 3 0), EvTakeSteer, EvUsage (plain_usage 3 0), EvTakeSteer] = 1"
proof -
  let ?rt = "snd (goal_start_with goal_runtime_new ''ship'' \<lparr>budget_token = Some 1, budget_time_seconds = None\<rparr>)"
  let ?es = "[EvUsage (plain_usage 3 0), EvTakeSteer, EvUsage (plain_usage 3 0), EvTakeSteer]"
  have "steers_emitted ?rt ?es \<le> 1"
    using budget_steer_once_per_goal [of ?es ?rt] by simp
  moreover have "1 \<le> steers_emitted ?rt ?es" by (simp add: goal_eval_defs)
  ultimately show ?thesis by simp
qed

section \<open>What the accounting computes\<close>

lemma observe_usage_terminal [simp]:
  "goal_is_terminal (status (goal_observe_usage g u)) = goal_is_terminal (status g)"
  by (auto simp: goal_observe_usage_def recheck_budget_status goal_is_terminal_def)

definition usage_exact :: "token_usage \<Rightarrow> nat" where
  "usage_exact u =
     (unat (prompt_tokens u) - (case cache_read_tokens u of None \<Rightarrow> 0 | Some c \<Rightarrow> unat c))
       + unat (completion_tokens u)"

lemma unat_delta_tokens: "usage_exact u < 2 ^ 64 \<Longrightarrow> unat (delta_tokens u) = usage_exact u"
  by (simp add: delta_tokens_def usage_exact_def Let_def unat_word_ariths unat_sat_sub
      split: option.splits)

lemma tokens_used_observe:
  "\<not> goal_is_terminal (status g)
     \<Longrightarrow> tokens_used (goal_observe_usage g u) = sat_add (tokens_used g) (delta_tokens u)"
  by (simp add: goal_observe_usage_def)

lemma observe_usage_sum:
  assumes "\<not> goal_is_terminal (status g)" "list_all (\<lambda>u. usage_exact u < 2 ^ 64) us"
  shows "unat (tokens_used (foldl goal_observe_usage g us))
           = min (unat (tokens_used g) + sum_list (map usage_exact us)) (2 ^ 64 - 1)"
  using assms
proof (induction us arbitrary: g)
  case Nil
  have "unat (tokens_used g) < 2 ^ 64" using unsigned_less [of "tokens_used g"] by simp
  then show ?case by simp
next
  case (Cons u us)
  then have "unat (tokens_used (goal_observe_usage g u)) = min (unat (tokens_used g) + usage_exact u) (2 ^ 64 - 1)"
    by (simp add: tokens_used_observe unat_sat_add unat_delta_tokens)
  with Cons show ?case by simp
qed

text \<open>
  Over any sequence of turns, a goal that is not terminal accounts exactly the new input
  (prompt less cache reads) plus the output of every turn, saturating at the top of \<open>u64\<close>,
  pauses and budget stops included; a terminal goal accounts nothing. (A turn whose own total
  overflows \<open>u64\<close> is excluded: there the addition wraps.)
\<close>

theorem goal_token_accounting:
  assumes "list_all (\<lambda>u. usage_exact u < 2 ^ 64) us"
  shows "unat (tokens_used (foldl goal_observe_usage g us)) =
    (if goal_is_terminal (status g) then unat (tokens_used g)
     else min (unat (tokens_used g) + sum_list (map usage_exact us)) (2 ^ 64 - 1))"
proof (cases "goal_is_terminal (status g)")
  case True
  then have "foldl goal_observe_usage g us = g"
    by (induction us) (simp_all add: goal_observe_usage_def)
  with True show ?thesis by simp
next
  case False
  with observe_usage_sum assms show ?thesis by simp
qed

theorem goal_token_accounting_witness:
  "unat (tokens_used (foldl goal_observe_usage (goal_new 1 ''ship'')
     [plain_usage 8 4, (plain_usage 100 1)\<lparr>cache_read_tokens := Some 90\<rparr>])) = 23"
  using goal_token_accounting
    [of "[plain_usage 8 4, (plain_usage 100 1)\<lparr>cache_read_tokens := Some 90\<rparr>]" "goal_new 1 ''ship''"]
  by (simp add: usage_exact_def plain_usage_def goal_new_def goal_is_terminal_def)

text \<open>
  \<open>resume\<close> does not recheck the budget: a goal that spent its whole budget while paused
  comes back \<open>Active\<close>, and the runtime asks for a continuation turn although the budget is
  exhausted, until the next usage is observed.
\<close>

theorem resume_ignores_spent_budget:
  "let rt = foldl goal_step goal_runtime_new
      [EvStartWith ''ship'' \<lparr>budget_token = Some 10, budget_time_seconds = None\<rparr>,
       EvPause, EvUsage (plain_usage 50 0), EvResume]
   in runtime_wants_continuation rt \<and> (\<exists>g. current rt = Some g \<and> over_budget g)"
  by (simp add: goal_eval_defs runtime_wants_continuation_def goal_wants_continuation_def
      over_budget_def)

end
