(* ===== verification/Kod_Endpoint_Health.thy ===== *)
theory Kod_Endpoint_Health
  imports Kod_Text
begin

text \<open>
  The endpoint circuit breaker, \<open>crates/kod-core-state/src/endpoint_health.rs\<close>. An
  \<open>Instant\<close> and a \<open>Duration\<close> are nanoseconds on a clock (\<open>nat\<close>); every
  \<open>Instant::now()\<close> of the source is the explicit argument \<open>now\<close>. The lemmas show when
  an endpoint trips, how long it stays out, what the half-open probe does, and that filtering
  a chain never empties it.
\<close>

type_synonym instant = nat

record endpoint_state =
  consecutive_failures :: u32
  cooldown_until :: "instant option"
  last_error :: "string option"

record endpoint_health =
  states :: "(string, endpoint_state) hmap"
  strike_limit :: u32
  cooldown :: nat

definition health_new :: "u32 \<Rightarrow> nat \<Rightarrow> endpoint_health" where
  "health_new limit cool = \<lparr> states = [], strike_limit = max limit 1, cooldown = cool \<rparr>"

definition health_default :: endpoint_health where
  "health_default = health_new 3 60000000000"

definition record_success :: "endpoint_health \<Rightarrow> string \<Rightarrow> endpoint_health" where
  "record_success h ep = h\<lparr>states := AList.delete ep (states h)\<rparr>"

definition fresh_endpoint :: endpoint_state where
  "fresh_endpoint = \<lparr> consecutive_failures = 0, cooldown_until = None, last_error = None \<rparr>"

definition entry_or_fresh :: "endpoint_health \<Rightarrow> string \<Rightarrow> endpoint_state" where
  "entry_or_fresh h ep = (case map_of (states h) ep of None \<Rightarrow> fresh_endpoint | Some s \<Rightarrow> s)"

definition record_failure ::
  "endpoint_health \<Rightarrow> instant \<Rightarrow> string \<Rightarrow> string \<Rightarrow> bool \<times> endpoint_health" where
  "record_failure h now ep err =
     (let s = entry_or_fresh h ep;
          s1 = s\<lparr>consecutive_failures := sat_add (consecutive_failures s) 1,
                 last_error := Some err\<rparr>
      in if strike_limit h \<le> consecutive_failures s1 \<and> cooldown_until s1 = None
         then (True, h\<lparr>states := AList.update ep
                 (s1\<lparr>cooldown_until := Some (now + cooldown h)\<rparr>) (states h)\<rparr>)
         else (False, h\<lparr>states := AList.update ep s1 (states h)\<rparr>))"

definition is_available :: "endpoint_health \<Rightarrow> instant \<Rightarrow> string \<Rightarrow> bool \<times> endpoint_health" where
  "is_available h now ep =
     (case map_of (states h) ep of
        None \<Rightarrow> (True, h)
      | Some s \<Rightarrow>
          (case cooldown_until s of
             None \<Rightarrow> (True, h)
           | Some u \<Rightarrow>
               if u \<le> now
               then (True, h\<lparr>states := AList.update ep (s\<lparr>cooldown_until := None\<rparr>) (states h)\<rparr>)
               else (False, h)))"

text \<open>Each entry of the chain is paired with the instant at which its availability is read.\<close>

fun filter_available ::
  "endpoint_health \<Rightarrow> ('m \<Rightarrow> string) \<Rightarrow> (instant \<times> 'm) list \<Rightarrow> 'm list \<times> endpoint_health" where
  "filter_available h endpoint_of [] = ([], h)"
| "filter_available h endpoint_of ((now, m) # chain) =
     (let (ok, h1) = is_available h now (endpoint_of m);
          (rest, h2) = filter_available h1 endpoint_of chain
      in (if ok then m # rest else rest, h2))"

definition filter_chain ::
  "endpoint_health \<Rightarrow> ('m \<Rightarrow> string) \<Rightarrow> (instant \<times> 'm) list \<Rightarrow> 'm list \<times> endpoint_health" where
  "filter_chain h endpoint_of chain =
     (let (available, h1) = filter_available h endpoint_of chain
      in if available = [] then
           (case chain of [] \<Rightarrow> (available, h1) | (_, m) # _ \<Rightarrow> ([m], h1))
         else (available, h1))"

definition endpoint_last_error :: "endpoint_health \<Rightarrow> string \<Rightarrow> string option" where
  "endpoint_last_error h ep = Option.bind (map_of (states h) ep) last_error"

definition unhealthy :: "endpoint_health \<Rightarrow> instant \<Rightarrow> (string \<times> u32 \<times> string option) list" where
  "unhealthy h now =
     map (\<lambda>(name, s). (name, consecutive_failures s, last_error s))
       (filter (\<lambda>(_, s). case cooldown_until s of None \<Rightarrow> False | Some u \<Rightarrow> now < u) (states h))"

section \<open>Calls on the breaker\<close>

datatype health_event =
    HSuccess string
  | HFailure instant string string
  | HCheck instant string

fun health_step :: "endpoint_health \<Rightarrow> health_event \<Rightarrow> endpoint_health" where
  "health_step h (HSuccess ep) = record_success h ep"
| "health_step h (HFailure now ep err) = snd (record_failure h now ep err)"
| "health_step h (HCheck now ep) = snd (is_available h now ep)"

fun event_endpoint :: "health_event \<Rightarrow> string" where
  "event_endpoint (HSuccess ep) = ep"
| "event_endpoint (HFailure now ep err) = ep"
| "event_endpoint (HCheck now ep) = ep"

text \<open>
  The invariant: keys are distinct, every tracked endpoint has failed at least once, a
  cooldown is armed only at or past the strike limit, and the limit is positive.
\<close>

definition health_ok :: "endpoint_health \<Rightarrow> bool" where
  "health_ok h = (keys_distinct (states h) \<and> 1 \<le> strike_limit h
     \<and> (\<forall>(ep, s) \<in> set (states h). 1 \<le> consecutive_failures s
          \<and> (cooldown_until s \<noteq> None \<longrightarrow> strike_limit h \<le> consecutive_failures s)))"

lemma health_ok_new: "health_ok (health_new limit cool)"
  by (simp add: health_ok_def health_new_def)

lemma record_failure_entry:
  "map_of (states (snd (record_failure h now ep err))) ep' =
     (if ep' = ep then
        (let s = entry_or_fresh h ep;
             s1 = s\<lparr>consecutive_failures := sat_add (consecutive_failures s) 1, last_error := Some err\<rparr>
         in Some (if strike_limit h \<le> consecutive_failures s1 \<and> cooldown_until s1 = None
                  then s1\<lparr>cooldown_until := Some (now + cooldown h)\<rparr> else s1))
      else map_of (states h) ep')"
  by (simp add: record_failure_def Let_def update_conv')

lemma record_failure_config [simp]:
  "strike_limit (snd (record_failure h now ep err)) = strike_limit h"
  "cooldown (snd (record_failure h now ep err)) = cooldown h"
  by (simp_all add: record_failure_def Let_def)

lemma is_available_config [simp]:
  "strike_limit (snd (is_available h now ep)) = strike_limit h"
  "cooldown (snd (is_available h now ep)) = cooldown h"
  by (simp_all add: is_available_def split: option.splits)

lemma health_step_frame [kod_frame]:
  "ep \<noteq> event_endpoint e \<Longrightarrow> map_of (states (health_step h e)) ep = map_of (states h) ep"
  by (cases e) (auto simp: record_success_def record_failure_entry is_available_def update_conv'
      split: option.splits)

lemma sat_add_one_ge: "1 \<le> sat_add (w :: u32) 1"
proof (rule ccontr)
  assume "\<not> 1 \<le> sat_add w 1"
  then have z: "sat_add w 1 = 0" by (simp add: word_le_nat_alt not_le unat_0_iff)
  with sat_add_ge [of w 1] have "w = 0" by simp
  with z show False by simp
qed

lemma health_ok_iff:
  "health_ok h = (keys_distinct (states h) \<and> 1 \<le> strike_limit h
     \<and> (\<forall>ep s. map_of (states h) ep = Some s \<longrightarrow> 1 \<le> consecutive_failures s
          \<and> (cooldown_until s \<noteq> None \<longrightarrow> strike_limit h \<le> consecutive_failures s)))"
  by (simp only: health_ok_def Ball_def split_paired_All case_prod_conv set_alist_iff cong: conj_cong)

lemma entry_or_fresh_cooldown:
  "health_ok h \<Longrightarrow> cooldown_until (entry_or_fresh h ep) \<noteq> None
     \<Longrightarrow> strike_limit h \<le> consecutive_failures (entry_or_fresh h ep)"
  by (auto simp: health_ok_iff entry_or_fresh_def fresh_endpoint_def split: option.splits)

lemma record_failure_keys:
  "keys_distinct (states h) \<Longrightarrow> keys_distinct (states (snd (record_failure h now ep err)))"
  by (simp add: record_failure_def Let_def keys_distinct_update)

lemma is_available_keys:
  "keys_distinct (states h) \<Longrightarrow> keys_distinct (states (snd (is_available h now ep)))"
  by (simp add: is_available_def keys_distinct_update split: option.splits)

lemma is_available_entry:
  "map_of (states (snd (is_available h now ep))) ep' = Some s'
     \<Longrightarrow> \<exists>s. map_of (states h) ep' = Some s \<and> consecutive_failures s' = consecutive_failures s
           \<and> last_error s' = last_error s \<and> cooldown_until s' \<in> {None, cooldown_until s}"
  by (auto simp: is_available_def update_conv' split: option.splits if_splits)

lemma record_failure_ok: "health_ok h \<Longrightarrow> health_ok (snd (record_failure h now ep err))"
proof -
  assume ok: "health_ok h"
  note cool = entry_or_fresh_cooldown [OF ok, of ep]
  have grow: "w \<le> sat_add w 1" for w :: u32 by simp
  show ?thesis
    unfolding health_ok_iff record_failure_config
  proof (intro conjI allI impI)
    show "keys_distinct (states (snd (record_failure h now ep err)))"
      using ok by (intro record_failure_keys) (simp add: health_ok_iff)
    show "1 \<le> strike_limit h" using ok by (simp add: health_ok_iff)
    fix ep' s assume s: "map_of (states (snd (record_failure h now ep err))) ep' = Some s"
    show "1 \<le> consecutive_failures s"
      using s ok by (auto simp: record_failure_entry Let_def health_ok_iff sat_add_one_ge split: if_splits)
    assume c: "cooldown_until s \<noteq> None"
    show "strike_limit h \<le> consecutive_failures s"
      using s c ok cool order_trans [OF _ grow]
      by (auto simp: record_failure_entry Let_def health_ok_iff split: if_splits)
  qed
qed

lemma is_available_ok: "health_ok h \<Longrightarrow> health_ok (snd (is_available h now ep))"
  unfolding health_ok_iff is_available_config
  by (auto simp: is_available_keys dest!: is_available_entry dest: sym)

lemma record_success_ok: "health_ok h \<Longrightarrow> health_ok (record_success h ep)"
  by (auto simp: health_ok_iff record_success_def keys_distinct_delete delete_conv' split: if_splits)

lemma health_step_ok [kod_inv]: "health_ok h \<Longrightarrow> health_ok (health_step h e)"
  by (cases e) (simp_all add: record_success_ok record_failure_ok is_available_ok)

interpretation health: invariant_system health_step health_ok
  by unfold_locales (rule health_step_ok)


section \<open>When the breaker trips\<close>

text \<open>A run of failures of one endpoint: which of them reported a trip, and the state after.\<close>

fun fail_run :: "endpoint_health \<Rightarrow> string \<Rightarrow> (instant \<times> string) list \<Rightarrow> bool list \<times> endpoint_health" where
  "fail_run h ep [] = ([], h)"
| "fail_run h ep ((now, err) # fs) =
     (let (tripped, h1) = record_failure h now ep err;
          (rest, h2) = fail_run h1 ep fs
      in (tripped # rest, h2))"

lemma fst_record_failure:
  "fst (record_failure h now ep err) =
     (strike_limit h \<le> sat_add (consecutive_failures (entry_or_fresh h ep)) 1
        \<and> cooldown_until (entry_or_fresh h ep) = None)"
  by (simp add: record_failure_def Let_def)

lemma record_failure_counts:
  "consecutive_failures (entry_or_fresh (snd (record_failure h now ep err)) ep)
     = sat_add (consecutive_failures (entry_or_fresh h ep)) 1"
  by (simp add: entry_or_fresh_def [of "snd _"] record_failure_entry Let_def)

lemma record_failure_cools:
  "cooldown_until (entry_or_fresh (snd (record_failure h now ep err)) ep) = None
     \<longleftrightarrow> cooldown_until (entry_or_fresh h ep) = None
        \<and> sat_add (consecutive_failures (entry_or_fresh h ep)) 1 < strike_limit h"
  by (auto simp: entry_or_fresh_def [of "snd _"] record_failure_entry Let_def not_le)

lemma unat_sat_add_one: "unat (w :: u32) + 1 < 2 ^ 32 \<Longrightarrow> unat (sat_add w 1) = Suc (unat w)"
  by (simp add: unat_sat_add)

lemma fail_run_trips:
  assumes "unat (consecutive_failures (entry_or_fresh h ep)) = k" "k + length fs < 2 ^ 32"
    and "cooldown_until (entry_or_fresh h ep) = None \<longleftrightarrow> k < unat (strike_limit h)"
  shows "fst (fail_run h ep fs) = map (\<lambda>i. Suc (k + i) = unat (strike_limit h)) [0..<length fs]"
  using assms
proof (induction fs arbitrary: h k)
  case Nil
  then show ?case by simp
next
  case (Cons f fs)
  obtain now err where f: "f = (now, err)" by (cases f)
  let ?h1 = "snd (record_failure h now ep err)"
  have c1: "unat (sat_add (consecutive_failures (entry_or_fresh h ep)) 1) = Suc k"
    using Cons.prems by (simp add: unat_sat_add_one)
  have "fst (fail_run ?h1 ep fs) = map (\<lambda>i. Suc (Suc k + i) = unat (strike_limit ?h1)) [0..<length fs]"
    using Cons.prems c1
    by (intro Cons.IH) (auto simp: record_failure_counts record_failure_cools word_less_nat_alt)
  moreover have "fst (record_failure h now ep err) = (Suc k = unat (strike_limit h))"
    using Cons.prems c1 by (auto simp: fst_record_failure word_le_nat_alt)
  ultimately show ?case
    by (simp add: f split_beta Let_def upt_conv_Cons map_Suc_upt [symmetric] del: upt_Suc)
qed

text \<open>
  An endpoint with no recorded failure trips at exactly its \<open>strike_limit\<close>-th consecutive
  failure: of any run of failures, that one and no other reports the transition.
\<close>

theorem trips_at_strike_limit:
  assumes "map_of (states h) ep = None" and "length fs < 2 ^ 32" and "1 \<le> strike_limit h"
  shows "fst (fail_run h ep fs) = map (\<lambda>i. Suc i = unat (strike_limit h)) [0..<length fs]"
proof -
  have e: "entry_or_fresh h ep = fresh_endpoint" using assms(1) by (simp add: entry_or_fresh_def)
  have "0 < unat (strike_limit h)" using assms(3) by (simp add: word_le_nat_alt)
  with assms fail_run_trips [of h ep 0 fs] show ?thesis by (simp add: e fresh_endpoint_def)
qed

theorem trips_at_strike_limit_witness:
  "fst (fail_run health_default ''a'' [(0, ''x''), (1, ''x''), (2, ''x''), (3, ''x'')])
     = [False, False, True, False]"
  using trips_at_strike_limit
    [of health_default "''a''" "[(0, ''x''), (1, ''x''), (2, ''x''), (3, ''x'')]"]
  by (simp add: health_default_def health_new_def upt_rec)

section \<open>Cooling and the half-open probe\<close>

definition cooling_until :: "endpoint_health \<Rightarrow> string \<Rightarrow> instant \<Rightarrow> bool" where
  "cooling_until h ep u = (\<exists>s. map_of (states h) ep = Some s \<and> cooldown_until s = Some u)"

definition early_for :: "string \<Rightarrow> instant \<Rightarrow> health_event \<Rightarrow> bool" where
  "early_for ep u e = (case e of HSuccess ep' \<Rightarrow> ep' \<noteq> ep
     | HFailure now ep' err \<Rightarrow> True
     | HCheck now ep' \<Rightarrow> ep' \<noteq> ep \<or> now < u)"

lemma cooling_step:
  "cooling_until h ep u \<Longrightarrow> early_for ep u e \<Longrightarrow> cooling_until (health_step h e) ep u"
  by (cases e) (auto simp: cooling_until_def early_for_def record_success_def record_failure_entry
      Let_def entry_or_fresh_def is_available_def update_conv' delete_conv' split: option.splits)

lemma cooling_run:
  "cooling_until h ep u \<Longrightarrow> list_all (early_for ep u) es \<Longrightarrow> cooling_until (foldl health_step h es) ep u"
  by (induction es arbitrary: h) (auto intro: cooling_step)

lemma trip_cools: "fst (record_failure h t ep err)
    \<Longrightarrow> cooling_until (snd (record_failure h t ep err)) ep (t + cooldown h)"
  by (auto simp: cooling_until_def fst_record_failure record_failure_entry Let_def)

text \<open>
  Once a failure at time \<open>t\<close> trips an endpoint, it stays unavailable until
  \<open>t + cooldown\<close>: no failure of any endpoint, success of another endpoint or earlier check
  lifts or extends the cooldown.
\<close>

theorem cooldown_holds_until_expiry:
  assumes "record_failure h t ep err = (True, h1)"
    and "list_all (early_for ep (t + cooldown h)) es"
  shows "fst (is_available (foldl health_step h1 es) now ep) = (t + cooldown h \<le> now)"
proof -
  have "cooling_until h1 ep (t + cooldown h)" using trip_cools [of h t ep err] assms(1) by simp
  from cooling_run [OF this assms(2)] show ?thesis
    by (auto simp: cooling_until_def is_available_def split: if_splits)
qed

theorem cooldown_holds_until_expiry_witness:
  "\<not> fst (is_available (foldl health_step (snd (record_failure (health_new 1 60) 5 ''a'' ''x''))
        [HFailure 9 ''a'' ''y'', HSuccess ''b'', HCheck 40 ''a'']) 64 ''a'')"
proof -
  have r: "record_failure (health_new 1 60) 5 ''a'' ''x''
      = (True, snd (record_failure (health_new 1 60) 5 ''a'' ''x''))"
    by (simp add: record_failure_def health_new_def entry_or_fresh_def fresh_endpoint_def Let_def)
  show ?thesis
    using cooldown_holds_until_expiry [OF r, of "[HFailure 9 ''a'' ''y'', HSuccess ''b'', HCheck 40 ''a'']" 64]
    by (simp add: early_for_def health_new_def)
qed

text \<open>
  The half-open probe: in every state the breaker can reach, an endpoint whose cooldown has
  run out is let through, and the next failure trips it again at once with a full new cooldown,
  while a success makes it as good as new.
\<close>

theorem half_open_probe:
  assumes "h = foldl health_step (health_new limit cool) es"
    and "cooling_until h ep u" and "u \<le> now"
    and "is_available h now ep = (ok, h1)"
  shows "ok \<and> fst (record_failure h1 now' ep err)
    \<and> cooling_until (snd (record_failure h1 now' ep err)) ep (now' + cool)
    \<and> map_of (states (record_success h1 ep)) ep = None"
proof -
  have okh: "health_ok h" unfolding assms(1) by (rule health.run_keeps) (rule health_ok_new)
  have cool: "cooldown (foldl health_step h0 es) = cooldown h0" for h0
  proof (induction es arbitrary: h0)
    case (Cons e es)
    then show ?case by (cases e) (simp_all add: record_success_def)
  qed simp
  obtain s where s: "map_of (states h) ep = Some s" "cooldown_until s = Some u"
    using assms(2) by (auto simp: cooling_until_def)
  have limit: "strike_limit h \<le> consecutive_failures s" using okh s by (simp add: health_ok_iff)
  have h1: "ok" "h1 = h\<lparr>states := AList.update ep (s\<lparr>cooldown_until := None\<rparr>) (states h)\<rparr>"
    using assms(3,4) s by (auto simp: is_available_def)
  have trip: "fst (record_failure h1 now' ep err)"
    using limit by (simp add: fst_record_failure h1(2) entry_or_fresh_def order_trans [OF _ sat_add_ge])
  from trip_cools [OF this] h1 trip show ?thesis
    by (simp add: record_success_def assms(1) cool health_new_def)
qed

theorem half_open_probe_witness:
  "fst (is_available (foldl health_step (health_new 1 60) [HFailure 5 ''a'' ''x'']) 70 ''a'')"
proof -
  let ?h = "foldl health_step (health_new 1 60) [HFailure 5 ''a'' ''x'']"
  have "cooling_until ?h ''a'' 65"
    by (simp add: cooling_until_def record_failure_def health_new_def entry_or_fresh_def
        fresh_endpoint_def Let_def)
  from half_open_probe [OF refl this, of 70] show ?thesis
    by (cases "is_available ?h 70 ''a''") auto
qed

section \<open>Filtering a chain\<close>

lemma filter_available_subseq:
  "subseq (fst (filter_available h f chain)) (map snd chain)"
proof (induction chain arbitrary: h)
  case Nil
  then show ?case by simp
next
  case (Cons x chain)
  then show ?case by (cases x) (auto simp: split_beta Let_def)
qed

text \<open>
  Filtering preserves the order of the chain, never empties it, and keeps the first entry
  alone when every entry is cooling.
\<close>

theorem filter_chain_keeps_order:
  "subseq (fst (filter_chain h endpoint_of chain)) (map snd chain)
   \<and> (fst (filter_chain h endpoint_of chain) = [] \<longleftrightarrow> chain = [])"
  using filter_available_subseq [of h endpoint_of chain]
  by (auto simp: filter_chain_def split_beta Let_def split: list.splits)

end
