(* ===== verification/Kod_Walk_Cache.thy ===== *)
theory Kod_Walk_Cache
  imports Kod_Text
begin

text \<open>
  The directory-walk cache, \<open>crates/kod-tools/src/walk_cache.rs\<close>. A path is the list of its
  components, an \<open>Instant\<close> a number of nanoseconds. \<open>get_or_walk\<close> is modelled as the two
  critical sections the code has, \<open>walk_lookup\<close> and \<open>walk_store\<close>, since the walk itself
  runs between them outside the lock. The lemmas bound the cache, say what a hit returns, and
  show the race that the lock leaves open.
\<close>

type_synonym path = "string list"

type_synonym walk_key = "path \<times> bool"

record walk_entry =
  we_paths :: "path list"
  we_at :: nat

record walk_cache =
  wc_entries :: "(walk_key, walk_entry) hmap"
  wc_hits :: u64
  wc_misses :: u64
  wc_ttl :: nat

record walk_stats =
  ws_hits :: u64
  ws_misses :: u64
  ws_entries :: nat

definition default_ttl_secs :: nat where
  "default_ttl_secs = 5"

definition max_entries :: nat where
  "max_entries = 64"

definition max_paths_per_entry :: nat where
  "max_paths_per_entry = 100000"

definition walk_with_ttl :: "nat \<Rightarrow> walk_cache" where
  "walk_with_ttl ttl = \<lparr> wc_entries = [], wc_hits = 0, wc_misses = 0, wc_ttl = ttl \<rparr>"

definition walk_new :: walk_cache where
  "walk_new = walk_with_ttl (default_ttl_secs * 1000000000)"

section \<open>The two critical sections of a cached walk\<close>

definition walk_lookup :: "walk_cache \<Rightarrow> nat \<Rightarrow> walk_key \<Rightarrow> path list option \<times> walk_cache" where
  "walk_lookup c now k =
     (case map_of (wc_entries c) k of
        Some e \<Rightarrow> if now - we_at e < wc_ttl c then (Some (we_paths e), c\<lparr>wc_hits := wc_hits c + 1\<rparr>)
                  else (None, c\<lparr>wc_misses := wc_misses c + 1\<rparr>)
      | None \<Rightarrow> (None, c\<lparr>wc_misses := wc_misses c + 1\<rparr>))"

definition oldest_key :: "(walk_key, walk_entry) hmap \<Rightarrow> walk_key option" where
  "oldest_key m = (case m of [] \<Rightarrow> None | _ # _ \<Rightarrow> Some (fst (arg_min_list (\<lambda>(_, e). we_at e) m)))"

definition evict_oldest :: "walk_key \<Rightarrow> (walk_key, walk_entry) hmap \<Rightarrow> (walk_key, walk_entry) hmap" where
  "evict_oldest k m =
     (if max_entries \<le> length m \<and> map_of m k = None
      then (case oldest_key m of Some old \<Rightarrow> AList.delete old m | None \<Rightarrow> m) else m)"

definition walk_store :: "walk_cache \<Rightarrow> nat \<Rightarrow> walk_key \<Rightarrow> path list \<Rightarrow> path list \<times> walk_cache" where
  "walk_store c now k walked =
     (let paths = take max_paths_per_entry walked
      in (paths, c\<lparr>wc_entries :=
            AList.update k \<lparr> we_paths = paths, we_at = now \<rparr> (evict_oldest k (wc_entries c))\<rparr>))"

text \<open>With nothing in between, as one thread sees it; \<open>walked\<close> is what the walk would return.\<close>

definition get_or_walk ::
  "walk_cache \<Rightarrow> nat \<Rightarrow> nat \<Rightarrow> walk_key \<Rightarrow> path list \<Rightarrow> path list \<times> walk_cache" where
  "get_or_walk c now now' k walked =
     (case walk_lookup c now k of
        (Some ps, c1) \<Rightarrow> (ps, c1)
      | (None, c1) \<Rightarrow> walk_store c1 now' k walked)"

definition invalidate_all :: "walk_cache \<Rightarrow> walk_cache" where
  "invalidate_all c = c\<lparr>wc_entries := []\<rparr>"

definition invalidate_path :: "path \<Rightarrow> walk_cache \<Rightarrow> walk_cache" where
  "invalidate_path p c = c\<lparr>wc_entries := filter (\<lambda>((root, _), _). \<not> prefix root p) (wc_entries c)\<rparr>"

definition walk_len :: "walk_cache \<Rightarrow> nat" where
  "walk_len c = length (wc_entries c)"

definition walk_cache_stats :: "walk_cache \<Rightarrow> walk_stats" where
  "walk_cache_stats c = \<lparr> ws_hits = wc_hits c, ws_misses = wc_misses c, ws_entries = walk_len c \<rparr>"

text \<open>
  \<open>collect_ranked\<close>: the modification time of a path is \<open>None\<close> when it cannot be read; the
  sort is stable and descending.
\<close>

definition collect_ranked :: "(path \<Rightarrow> nat option) \<Rightarrow> path list \<Rightarrow> nat \<Rightarrow> path list" where
  "collect_ranked mtime ps limit =
     take limit (map fst (sort_key (\<lambda>(_, t). - int t)
       (List.map_filter (\<lambda>p. map_option (\<lambda>t. (p, t)) (mtime p)) ps)))"

section \<open>Calls on the cache\<close>

datatype walk_event =
    WLookup nat walk_key
  | WStore nat walk_key "path list"
  | WInvalidateAll
  | WInvalidatePath path

fun walk_step :: "walk_cache \<Rightarrow> walk_event \<Rightarrow> walk_cache" where
  "walk_step c (WLookup now k) = snd (walk_lookup c now k)"
| "walk_step c (WStore now k ps) = snd (walk_store c now k ps)"
| "walk_step c WInvalidateAll = invalidate_all c"
| "walk_step c (WInvalidatePath p) = invalidate_path p c"

definition walk_ok :: "walk_cache \<Rightarrow> bool" where
  "walk_ok c = (keys_distinct (wc_entries c) \<and> length (wc_entries c) \<le> max_entries
     \<and> (\<forall>(k, e) \<in> set (wc_entries c). length (we_paths e) \<le> max_paths_per_entry))"

lemma walk_lookup_entries [simp]:
  "wc_entries (snd (walk_lookup c now k)) = wc_entries c"
  "wc_ttl (snd (walk_lookup c now k)) = wc_ttl c"
  by (auto simp: walk_lookup_def split: option.splits)

lemma oldest_key_mem:
  assumes "m \<noteq> []"
  shows "\<exists>old. oldest_key m = Some old \<and> map_of m old \<noteq> None"
proof -
  define x where "x = arg_min_list (\<lambda>(_, e). we_at e) m"
  have "x \<in> set m" unfolding x_def by (rule arg_min_list_in) (rule assms)
  then have "map_of m (fst x) \<noteq> None" by (auto simp: map_of_eq_None_iff)
  moreover have "oldest_key m = Some (fst x)"
    using assms by (cases m) (simp_all add: oldest_key_def x_def del: arg_min_list.simps)
  ultimately show ?thesis by blast
qed

lemma evict_oldest_keys: "keys_distinct m \<Longrightarrow> keys_distinct (evict_oldest k m)"
  by (auto simp: evict_oldest_def keys_distinct_delete split: option.splits)

lemma evict_oldest_subset: "set (evict_oldest k m) \<subseteq> set m"
  by (auto simp: evict_oldest_def split: option.splits dest: subsetD [OF set_delete_subset])

lemma evict_oldest_room:
  assumes "length m \<le> max_entries"
  shows "length (AList.update k v (evict_oldest k m)) \<le> max_entries"
proof (cases "max_entries \<le> length m \<and> map_of m k = None")
  case True
  then have "m \<noteq> []" by (auto simp: max_entries_def)
  then obtain old where old: "oldest_key m = Some old" "map_of m old \<noteq> None"
    using oldest_key_mem by blast
  with True have "evict_oldest k m = AList.delete old m" by (simp add: evict_oldest_def)
  with length_delete_mem [OF old(2)] assms show ?thesis by (simp add: length_update)
next
  case False
  with assms show ?thesis by (auto simp: evict_oldest_def length_update)
qed

lemma walk_step_ok [kod_inv]:
  assumes "walk_ok c"
  shows "walk_ok (walk_step c e)"
proof (cases e)
  case (WStore now k ps)
  let ?e = "\<lparr> we_paths = take max_paths_per_entry ps, we_at = now \<rparr>"
  have "set (AList.update k ?e (evict_oldest k (wc_entries c))) \<subseteq> insert (k, ?e) (set (wc_entries c))"
    using set_update_subset [of k ?e] evict_oldest_subset [of k "wc_entries c"] by blast
  with assms WStore show ?thesis
    by (auto simp: walk_ok_def walk_store_def Let_def evict_oldest_room evict_oldest_keys
        keys_distinct_update)
next
  case (WInvalidatePath p)
  have "length (wc_entries (invalidate_path p c)) \<le> length (wc_entries c)"
    by (simp add: invalidate_path_def)
  with assms WInvalidatePath have "length (wc_entries (invalidate_path p c)) \<le> max_entries"
    by (simp add: walk_ok_def)
  with assms WInvalidatePath show ?thesis
    by (auto simp: walk_ok_def invalidate_path_def distinct_map_filter)
qed (use assms in \<open>simp_all add: walk_ok_def invalidate_all_def\<close>)

interpretation walks: invariant_system walk_step walk_ok
  by unfold_locales (rule walk_step_ok)

text \<open>
  However the walk cache is used, it holds at most 64 listings, one per root and depth,
  and no listing has more than 100000 paths.
\<close>

theorem walk_cache_bounded:
  "walk_len (foldl walk_step (walk_with_ttl ttl) es) \<le> 64
   \<and> keys_distinct (wc_entries (foldl walk_step (walk_with_ttl ttl) es))
   \<and> list_all (\<lambda>(k, e). length (we_paths e) \<le> 100000)
       (wc_entries (foldl walk_step (walk_with_ttl ttl) es))"
proof -
  have "walk_ok (foldl walk_step (walk_with_ttl ttl) es)"
    by (rule walks.run_keeps) (simp add: walk_ok_def walk_with_ttl_def)
  then show ?thesis
    by (auto simp: walk_ok_def walk_len_def max_entries_def max_paths_per_entry_def list_all_iff)
qed

section \<open>What a hit returns\<close>

fun touches_walk :: "walk_key \<Rightarrow> walk_event \<Rightarrow> bool" where
  "touches_walk k (WLookup now k') = False"
| "touches_walk k (WStore now k' ps) = (k' = k)"
| "touches_walk k WInvalidateAll = True"
| "touches_walk k (WInvalidatePath p) = prefix (fst k) p"

lemma map_of_filter_key:
  "map_of (filter (\<lambda>((r, x), _). P r) m) k = (if P (fst k) then map_of m k else None)"
  by (induction m) auto

lemma evict_oldest_entry: "map_of (evict_oldest k m) k' = Some e \<Longrightarrow> map_of m k' = Some e"
  by (auto simp: evict_oldest_def delete_conv' split: option.splits if_splits)

lemma walk_step_entry:
  assumes "map_of (wc_entries (walk_step c ev)) k = Some e"
  shows "(\<exists>now ps. ev = WStore now k ps \<and> e = \<lparr> we_paths = take max_paths_per_entry ps, we_at = now \<rparr>)
    \<or> (map_of (wc_entries c) k = Some e \<and> \<not> touches_walk k ev)"
  using assms
  by (cases ev) (auto simp: walk_store_def Let_def update_conv' invalidate_all_def
      invalidate_path_def map_of_filter_key dest: evict_oldest_entry split: if_splits)

lemma walk_entry_origin:
  assumes "map_of (wc_entries (foldl walk_step (walk_with_ttl ttl) es)) k = Some e"
  shows "\<exists>pre now ps post. es = pre @ WStore now k ps # post
    \<and> e = \<lparr> we_paths = take max_paths_per_entry ps, we_at = now \<rparr>
    \<and> list_all (\<lambda>ev. \<not> touches_walk k ev) post"
  using assms
proof (induction es rule: rev_induct)
  case Nil
  then show ?case by (simp add: walk_with_ttl_def)
next
  case (snoc ev es)
  from walk_step_entry [of "foldl walk_step (walk_with_ttl ttl) es" ev k e] snoc.prems
  consider now ps where "ev = WStore now k ps" "e = \<lparr> we_paths = take max_paths_per_entry ps, we_at = now \<rparr>"
    | "map_of (wc_entries (foldl walk_step (walk_with_ttl ttl) es)) k = Some e" "\<not> touches_walk k ev"
    by auto
  then show ?case
  proof cases
    case 1
    then have "es @ [ev] = es @ WStore now k ps # []" by simp
    with 1 show ?thesis by (intro exI conjI) auto
  next
    case 2
    with snoc.IH obtain pre now ps post where "es = pre @ WStore now k ps # post"
      "e = \<lparr> we_paths = take max_paths_per_entry ps, we_at = now \<rparr>"
      "list_all (\<lambda>ev. \<not> touches_walk k ev) post" by blast
    with 2 have "es @ [ev] = pre @ WStore now k ps # (post @ [ev])"
      "list_all (\<lambda>ev. \<not> touches_walk k ev) (post @ [ev])" by simp_all
    with \<open>e = _\<close> show ?thesis by blast
  qed
qed

lemma walk_ttl_constant: "wc_ttl (foldl walk_step c es) = wc_ttl c"
proof (induction es arbitrary: c)
  case (Cons ev es)
  then show ?case
    by (cases ev) (simp_all add: walk_store_def Let_def invalidate_all_def invalidate_path_def)
qed simp

text \<open>
  A hit returns the (capped) listing of the most recent store for that root and depth,
  younger than the time to live, and no invalidation covering the root and no other store for
  it came in between.
\<close>

theorem walk_hit_is_fresh:
  assumes "walk_lookup (foldl walk_step (walk_with_ttl ttl) es) now k = (Some ps, c')"
  shows "\<exists>pre at_time walked post. es = pre @ WStore at_time k walked # post
    \<and> ps = take max_paths_per_entry walked \<and> now - at_time < ttl
    \<and> list_all (\<lambda>ev. \<not> touches_walk k ev) post"
proof -
  obtain e where e: "map_of (wc_entries (foldl walk_step (walk_with_ttl ttl) es)) k = Some e"
      "ps = we_paths e" "now - we_at e < ttl"
    using assms
    by (auto simp: walk_lookup_def walk_ttl_constant walk_with_ttl_def split: option.splits if_splits)
  from walk_entry_origin [OF e(1)] obtain pre at_time walked post where
    "es = pre @ WStore at_time k walked # post"
    "e = \<lparr> we_paths = take max_paths_per_entry walked, we_at = at_time \<rparr>"
    "list_all (\<lambda>ev. \<not> touches_walk k ev) post" by blast
  with e(2,3) show ?thesis by (intro exI conjI) auto
qed

theorem walk_hit_is_fresh_witness:
  "\<exists>c'. walk_lookup (foldl walk_step (walk_with_ttl 10) [WStore 3 ([''w''], True) [[''w'', ''a'']]])
     7 ([''w''], True) = (Some [[''w'', ''a'']], c') \<and> (7::nat) - 3 < 10"
proof -
  let ?es = "[WStore 3 ([''w''], True) [[''w'', ''a'']]]"
  have hit: "walk_lookup (foldl walk_step (walk_with_ttl 10) ?es) 7 ([''w''], True)
      = (Some [[''w'', ''a'']], snd (walk_lookup (foldl walk_step (walk_with_ttl 10) ?es) 7 ([''w''], True)))"
    by (simp add: walk_lookup_def walk_store_def walk_with_ttl_def Let_def evict_oldest_def
        max_entries_def max_paths_per_entry_def)
  from walk_hit_is_fresh [OF hit] have "\<exists>t. t < (10::nat)" by blast
  with hit show ?thesis by auto
qed

text \<open>
  The race the lock leaves open. One thread misses and walks; before it stores its listing
  another thread writes a file and invalidates the cache. The stale listing is then served
  although an invalidation followed the walk, until the time to live runs out.
\<close>

lemma invalidation_lost_to_a_walk_in_flight:
  assumes "t < ttl" and "wc_ttl c = ttl"
  shows "fst (walk_lookup (snd (walk_store (invalidate_all (snd (walk_lookup c 0 k))) 0 k stale)) t k)
    = Some (take max_paths_per_entry stale)"
proof -
  have "wc_ttl (snd (walk_store (invalidate_all (snd (walk_lookup c 0 k))) 0 k stale)) = ttl"
    using assms(2) by (simp add: walk_store_def Let_def invalidate_all_def)
  moreover have "map_of (wc_entries (snd (walk_store (invalidate_all (snd (walk_lookup c 0 k))) 0 k stale))) k
      = Some \<lparr> we_paths = take max_paths_per_entry stale, we_at = 0 \<rparr>"
    by (simp add: walk_store_def Let_def)
  ultimately show ?thesis using assms(1) by (simp add: walk_lookup_def)
qed

end
