(* ===== verification/Kod_Fs.thy ===== *)
theory Kod_Fs
  imports Kod_Walk_Cache
begin

text \<open>
  The disk as the file tools see it, and the atomic replacement of
  \<open>crates/kod-tools/src/shared.rs\<close>. A file has bytes and a mode; the disk also carries the
  process-wide temp counter and walk cache, which every successful write clears. What the
  operating system decides (which call fails, after how many bytes) is the argument \<open>io_env\<close>.
  The lemmas show that at every instant of a replacement, a crash included, the destination
  has its old content or the whole new one. The interface \<open>file_store\<close> states what an editor
  needs of a store; the disk provides it.
\<close>

section \<open>Files and the primitive operations\<close>

record disk_file =
  content :: string
  mode :: nat

record disk =
  files :: "path \<rightharpoonup> disk_file"
  temp_seq :: u64
  walks :: walk_cache

definition default_mode :: nat where
  "default_mode = 420"

datatype fs_op =
    FCreate path
  | FWrite path string
  | FSetMode path nat
  | FRename path path
  | FRemove path

fun fs_exec :: "(path \<rightharpoonup> disk_file) \<Rightarrow> fs_op \<Rightarrow> (path \<rightharpoonup> disk_file)" where
  "fs_exec m (FCreate p) =
     m(p \<mapsto> \<lparr> content = [], mode = (case m p of None \<Rightarrow> default_mode | Some f \<Rightarrow> mode f) \<rparr>)"
| "fs_exec m (FWrite p bytes) =
     (case m p of None \<Rightarrow> m | Some f \<Rightarrow> m(p \<mapsto> f\<lparr>content := content f @ bytes\<rparr>))"
| "fs_exec m (FSetMode p md) = (case m p of None \<Rightarrow> m | Some f \<Rightarrow> m(p \<mapsto> f\<lparr>mode := md\<rparr>))"
| "fs_exec m (FRename a b) = (case m a of None \<Rightarrow> m | Some f \<Rightarrow> (m(a := None))(b \<mapsto> f))"
| "fs_exec m (FRemove p) = m(p := None)"

definition fs_run :: "(path \<rightharpoonup> disk_file) \<Rightarrow> fs_op list \<Rightarrow> (path \<rightharpoonup> disk_file)" where
  "fs_run m ops = foldl fs_exec m ops"

text \<open>
  The UTF-8 check of \<open>read_to_string\<close>, on the values of the bytes: no overlong form, no
  surrogate, nothing past U+10FFFF.
\<close>

definition cont_val :: "nat \<Rightarrow> bool" where
  "cont_val n = (128 \<le> n \<and> n < 192)"

fun utf8_vals :: "nat list \<Rightarrow> bool" where
  "utf8_vals [] = True"
| "utf8_vals [a] = (a < 128)"
| "utf8_vals [a, b] =
     (if a < 128 then utf8_vals [b] else 194 \<le> a \<and> a < 224 \<and> cont_val b)"
| "utf8_vals [a, b, c] =
     (if a < 128 then utf8_vals [b, c]
      else if 194 \<le> a \<and> a < 224 then cont_val b \<and> utf8_vals [c]
      else 224 \<le> a \<and> a < 240 \<and> cont_val b \<and> cont_val c
        \<and> (a = 224 \<longrightarrow> 160 \<le> b) \<and> (a = 237 \<longrightarrow> b < 160))"
| "utf8_vals (a # b # c # d # es) =
     (if a < 128 then utf8_vals (b # c # d # es)
      else if 194 \<le> a \<and> a < 224 then cont_val b \<and> utf8_vals (c # d # es)
      else if 224 \<le> a \<and> a < 240 then
        cont_val b \<and> cont_val c \<and> (a = 224 \<longrightarrow> 160 \<le> b) \<and> (a = 237 \<longrightarrow> b < 160) \<and> utf8_vals (d # es)
      else 240 \<le> a \<and> a < 245 \<and> cont_val b \<and> cont_val c \<and> cont_val d
        \<and> (a = 240 \<longrightarrow> 144 \<le> b) \<and> (a = 244 \<longrightarrow> b < 144) \<and> utf8_vals es)"

definition valid_utf8 :: "string \<Rightarrow> bool" where
  "valid_utf8 s = utf8_vals (map of_char s)"

definition read_bytes :: "disk \<Rightarrow> path \<Rightarrow> string option" where
  "read_bytes d p = map_option content (files d p)"

definition read_to_string :: "disk \<Rightarrow> path \<Rightarrow> string option" where
  "read_to_string d p =
     (case read_bytes d p of None \<Rightarrow> None | Some s \<Rightarrow> if valid_utf8 s then Some s else None)"

section \<open>Atomic replacement\<close>

definition hex_digit :: "nat \<Rightarrow> char" where
  "hex_digit n = (if n < 10 then char_of (48 + n) else char_of (87 + n))"

fun show_hex :: "nat \<Rightarrow> string" where
  "show_hex n = (if n < 16 then [hex_digit n] else show_hex (n div 16) @ [hex_digit (n mod 16)])"

declare show_hex.simps [simp del]

datatype write_outcome = AllOk | CreateFails | WriteFails nat | SyncFails | RenameFails

record io_env =
  io_pid :: nat
  io_nanos :: nat
  io_outcome :: write_outcome
  io_chmod_ok :: bool
  io_cleanup_ok :: bool

definition next_temp_seq :: "disk \<Rightarrow> u64 \<times> disk" where
  "next_temp_seq d = (temp_seq d, d\<lparr>temp_seq := temp_seq d + 1\<rparr>)"

definition temp_name :: "io_env \<Rightarrow> u64 \<Rightarrow> string" where
  "temp_name env n =
     ''.kod-tmp-'' @ show_nat (io_pid env) @ ''-'' @ show_nat (unat n) @ ''-'' @ show_hex (io_nanos env)"

definition temp_path :: "io_env \<Rightarrow> u64 \<Rightarrow> path \<Rightarrow> path" where
  "temp_path env n p = butlast p @ [temp_name env n]"

text \<open>The operations that complete inside the closure, in order, and whether it returned \<open>Ok\<close>.\<close>

definition replace_ops ::
  "write_outcome \<Rightarrow> bool \<Rightarrow> nat option \<Rightarrow> path \<Rightarrow> path \<Rightarrow> string \<Rightarrow> fs_op list \<times> bool" where
  "replace_ops out chmod_ok dest_perms tmp p bytes =
     (let chmod = (case dest_perms of
            Some md \<Rightarrow> if chmod_ok then [FSetMode tmp md] else []
          | None \<Rightarrow> [])
      in case out of
           CreateFails \<Rightarrow> ([], False)
         | WriteFails n \<Rightarrow> ([FCreate tmp, FWrite tmp (take n bytes)], False)
         | SyncFails \<Rightarrow> ([FCreate tmp, FWrite tmp bytes], False)
         | RenameFails \<Rightarrow> ([FCreate tmp, FWrite tmp bytes] @ chmod, False)
         | AllOk \<Rightarrow> ([FCreate tmp, FWrite tmp bytes] @ chmod @ [FRename tmp p], True))"

definition atomic_ops :: "io_env \<Rightarrow> disk \<Rightarrow> path \<Rightarrow> string \<Rightarrow> fs_op list \<times> bool" where
  "atomic_ops env d p bytes =
     (let tmp = temp_path env (temp_seq d) p;
          (ops, ok) = replace_ops (io_outcome env) (io_chmod_ok env)
            (map_option mode (files d p)) tmp p bytes
      in (ops @ (if \<not> ok \<and> io_cleanup_ok env then [FRemove tmp] else []), ok))"

definition atomic_write :: "io_env \<Rightarrow> disk \<Rightarrow> path \<Rightarrow> string \<Rightarrow> bool \<times> disk" where
  "atomic_write env d p bytes =
     (let (ops, ok) = atomic_ops env d p bytes;
          d1 = (snd (next_temp_seq d))\<lparr>files := fs_run (files d) ops\<rparr>
      in (ok, if ok then d1\<lparr>walks := invalidate_all (walks d1)\<rparr> else d1))"

text \<open>A path no temporary file can have.\<close>

definition user_path :: "path \<Rightarrow> bool" where
  "user_path p = (p \<noteq> [] \<and> \<not> prefix ''.kod-tmp-'' (last p))"

lemma user_path_not_temp: "user_path q \<Longrightarrow> q \<noteq> temp_path env n p"
  by (auto simp: user_path_def temp_path_def temp_name_def prefix_def)

lemma fs_run_simps [simp]:
  "fs_run m [] = m"
  "fs_run m (op # ops) = fs_run (fs_exec m op) ops"
  "fs_run m (ops @ ops') = fs_run (fs_run m ops) ops'"
  by (simp_all add: fs_run_def)

definition replaced_file :: "io_env \<Rightarrow> disk \<Rightarrow> path \<Rightarrow> string \<Rightarrow> disk_file" where
  "replaced_file env d p bytes =
     \<lparr> content = bytes,
       mode = (case files d p of
                 Some f \<Rightarrow> if io_chmod_ok env then mode f
                   else (case files d (temp_path env (temp_seq d) p) of
                           None \<Rightarrow> default_mode | Some g \<Rightarrow> mode g)
               | None \<Rightarrow> (case files d (temp_path env (temp_seq d) p) of
                           None \<Rightarrow> default_mode | Some g \<Rightarrow> mode g)) \<rparr>"

lemma atomic_prefix_states:
  assumes "p \<noteq> temp_path env (temp_seq d) p" and "q \<noteq> temp_path env (temp_seq d) p"
  shows "fs_run (files d) (take n (fst (atomic_ops env d p bytes))) q
     \<in> (if q = p then {files d p, Some (replaced_file env d p bytes)} else {files d q})"
proof (cases "io_outcome env")
  case AllOk
  then show ?thesis
    using assms
    by (cases "files d p"; cases "io_chmod_ok env")
      (auto simp: atomic_ops_def replace_ops_def Let_def replaced_file_def take_Cons'
        split: option.splits)
qed (use assms in \<open>auto simp: atomic_ops_def replace_ops_def Let_def take_Cons' split: option.splits\<close>)


text \<open>
  C4. Crash safety: after any prefix of the operations of an atomic write, however it goes,
  the destination holds its old file or the complete new content, and every other file that
  is not a temporary is untouched.
\<close>

theorem atomic_write_crash_safe:
  assumes "user_path p" and "user_path q"
  shows "let m = fs_run (files d) (take n (fst (atomic_ops env d p bytes)))
    in (q = p \<longrightarrow> m p = files d p \<or> map_option content (m p) = Some bytes)
      \<and> (q \<noteq> p \<longrightarrow> m q = files d q)"
proof -
  have "p \<noteq> temp_path env (temp_seq d) p" "q \<noteq> temp_path env (temp_seq d) p"
    using assms by (auto dest: user_path_not_temp)
  from atomic_prefix_states [OF this, of n bytes] show ?thesis
    by (auto simp: Let_def replaced_file_def split: if_splits)
qed

text \<open>A disk with one file, and an environment in which nothing fails.\<close>

definition one_file :: "path \<Rightarrow> string \<Rightarrow> disk" where
  "one_file p bytes =
     \<lparr> files = [p \<mapsto> \<lparr> content = bytes, mode = 493 \<rparr>], temp_seq = 0, walks = walk_new \<rparr>"

definition calm :: io_env where
  "calm = \<lparr> io_pid = 7, io_nanos = 255, io_outcome = AllOk, io_chmod_ok = True, io_cleanup_ok = True \<rparr>"

theorem atomic_write_crash_safe_witness:
  "let m = fs_run (files (one_file [''w'', ''a''] ''old''))
      (take 2 (fst (atomic_ops calm (one_file [''w'', ''a''] ''old'') [''w'', ''a''] ''new'')))
   in m [''w'', ''a''] = Some \<lparr> content = ''old'', mode = 493 \<rparr> \<or> map_option content (m [''w'', ''a'']) = Some ''new''"
proof -
  have u: "user_path [''w'', ''a'']" by (simp add: user_path_def)
  from atomic_write_crash_safe [OF u u, of "one_file [''w'', ''a''] ''old''" 2 calm "''new''"]
  show ?thesis by (simp add: Let_def one_file_def)
qed

lemma atomic_ops_ok: "snd (atomic_ops env d p bytes) = (io_outcome env = AllOk)"
  by (auto simp: atomic_ops_def replace_ops_def Let_def split: write_outcome.splits option.splits)

lemma atomic_write_ok: "fst (atomic_write env d p bytes) = (io_outcome env = AllOk)"
  by (simp add: atomic_write_def split_beta Let_def atomic_ops_ok)

lemma atomic_write_files:
  "files (snd (atomic_write env d p bytes)) = fs_run (files d) (fst (atomic_ops env d p bytes))"
  by (simp add: atomic_write_def split_beta Let_def next_temp_seq_def)

lemma atomic_write_success:
  assumes "io_outcome env = AllOk" and "p \<noteq> temp_path env (temp_seq d) p"
  shows "files (snd (atomic_write env d p bytes)) p = Some (replaced_file env d p bytes)"
  using assms
  by (cases "files d p"; cases "io_chmod_ok env")
    (auto simp: atomic_write_files atomic_ops_def replace_ops_def Let_def replaced_file_def
      split: option.splits)

lemma atomic_write_failure:
  assumes "io_outcome env \<noteq> AllOk" and "q \<noteq> temp_path env (temp_seq d) p"
  shows "files (snd (atomic_write env d p bytes)) q = files d q"
  using assms
  by (cases "io_outcome env")
    (auto simp: atomic_write_files atomic_ops_def replace_ops_def Let_def split: option.splits)

lemma atomic_write_frame [kod_frame]:
  assumes "q \<noteq> p" and "q \<noteq> temp_path env (temp_seq d) p"
  shows "files (snd (atomic_write env d p bytes)) q = files d q"
  using assms
  by (cases "io_outcome env")
    (auto simp: atomic_write_files atomic_ops_def replace_ops_def Let_def split: option.splits)

lemma atomic_write_temp_gone:
  assumes "io_outcome env = AllOk \<or> io_cleanup_ok env" and "p \<noteq> temp_path env (temp_seq d) p"
  shows "files (snd (atomic_write env d p bytes)) (temp_path env (temp_seq d) p) = None"
  using assms
  by (cases "io_outcome env"; cases "files d p"; cases "io_chmod_ok env")
    (auto simp: atomic_write_files atomic_ops_def replace_ops_def Let_def split: option.splits)

text \<open>
  What an atomic write leaves: on success exactly the new bytes, under the mode the file
  had before (the executable bit survives) when the mode could be reapplied, and an empty walk
  cache; on failure the old file. The temporary is gone unless the clean-up itself failed.
\<close>

theorem atomic_write_result:
  assumes "user_path p" and "atomic_write env d p bytes = (ok, d')"
  shows "if ok
    then read_bytes d' p = Some bytes \<and> wc_entries (walks d') = []
      \<and> (\<forall>f. files d p = Some f \<and> io_chmod_ok env \<longrightarrow> map_option mode (files d' p) = Some (mode f))
      \<and> files d' (temp_path env (temp_seq d) p) = None
    else files d' p = files d p
      \<and> (io_cleanup_ok env \<longrightarrow> files d' (temp_path env (temp_seq d) p) = None)"
proof -
  have t: "p \<noteq> temp_path env (temp_seq d) p" using user_path_not_temp [OF assms(1)] .
  have ok: "ok = (io_outcome env = AllOk)" and d': "d' = snd (atomic_write env d p bytes)"
    using atomic_write_ok [of env d p bytes] assms(2) by simp_all
  have cleared: "wc_entries (walks d') = []" if "ok"
    using that assms(2) by (auto simp: atomic_write_def split_beta Let_def invalidate_all_def)
  show ?thesis
  proof (cases ok)
    case True
    then show ?thesis
      using ok cleared atomic_write_success [OF _ t, of bytes] atomic_write_temp_gone [OF _ t, of bytes]
      by (auto simp: d' read_bytes_def replaced_file_def)
  next
    case False
    then show ?thesis
      using ok atomic_write_failure [OF _ t, of bytes] atomic_write_temp_gone [OF _ t, of bytes]
      by (simp add: d')
  qed
qed

theorem atomic_write_result_witness:
  "\<exists>d'. atomic_write calm (one_file [''w'', ''run.sh''] ''old'') [''w'', ''run.sh''] ''new'' = (True, d')
     \<and> files d' [''w'', ''run.sh''] = Some \<lparr> content = ''new'', mode = 493 \<rparr>"
proof -
  let ?d = "one_file [''w'', ''run.sh''] ''old''" and ?p = "[''w'', ''run.sh'']"
  obtain ok d' where w: "atomic_write calm ?d ?p ''new'' = (ok, d')" by (cases "atomic_write calm ?d ?p ''new''")
  then have "ok" using atomic_write_ok [of calm ?d ?p "''new''"] by (simp add: calm_def)
  moreover from atomic_write_result [OF _ w] \<open>ok\<close>
  have "files d' ?p = Some \<lparr> content = ''new'', mode = 493 \<rparr>"
    by (cases "files d' ?p") (auto simp: user_path_def read_bytes_def one_file_def calm_def)
  ultimately show ?thesis using w by auto
qed

section \<open>Interface: a store of files under guarded edits\<close>

text \<open>
  What an editor relies on: a write that succeeds is read back, one that fails changes
  nothing, and neither touches another path. An editor that writes only where the file still
  holds the text it was shown then never overwrites a change it did not see: the successful
  edits of a path form a chain from its first content to its last.
\<close>

fun edit_chain :: "string option \<Rightarrow> (string \<times> string) list \<Rightarrow> string option \<Rightarrow> bool" where
  "edit_chain x [] y = (x = y)"
| "edit_chain x ((old, new) # es) y = (x = Some old \<and> edit_chain (Some new) es y)"

lemma edit_chain_snoc:
  "edit_chain x es (Some old) \<Longrightarrow> edit_chain x (es @ [(old, new)]) (Some new)"
  by (induction es arbitrary: x) auto

locale file_store =
  fixes rd :: "'d \<Rightarrow> 'p \<Rightarrow> string option"
    and wr :: "'e \<Rightarrow> 'd \<Rightarrow> 'p \<Rightarrow> string \<Rightarrow> bool \<times> 'd"
    and usable :: "'p \<Rightarrow> bool"
  assumes read_written: "usable p \<Longrightarrow> fst (wr e d p s) \<Longrightarrow> rd (snd (wr e d p s)) p = Some s"
    and read_failed: "usable p \<Longrightarrow> \<not> fst (wr e d p s) \<Longrightarrow> rd (snd (wr e d p s)) p = rd d p"
    and read_other: "usable q \<Longrightarrow> q \<noteq> p \<Longrightarrow> rd (snd (wr e d p s)) q = rd d q"
begin

definition guarded :: "'d \<Rightarrow> 'e \<times> 'p \<times> string \<times> string \<Rightarrow> bool \<times> 'd" where
  "guarded d edit = (case edit of (e, p, old, new) \<Rightarrow>
     if rd d p = Some old then wr e d p new else (False, d))"

fun guarded_run :: "'d \<Rightarrow> ('e \<times> 'p \<times> string \<times> string) list \<Rightarrow> ('p \<times> string \<times> string) list \<times> 'd" where
  "guarded_run d [] = ([], d)"
| "guarded_run d ((e, p, old, new) # edits) =
     (let (ok, d1) = guarded d (e, p, old, new);
          (done, d2) = guarded_run d1 edits
      in (if ok then (p, old, new) # done else done, d2))"

lemma guarded_step:
  assumes "usable q"
  shows "rd (snd (guarded d (e, p, old, new))) q =
    (if fst (guarded d (e, p, old, new)) \<and> q = p then Some new else rd d q)"
proof (cases "rd d p = Some old")
  case True
  then show ?thesis
    using assms read_written read_failed read_other
    by (cases "q = p") (auto simp: guarded_def)
qed (simp add: guarded_def)

lemma guarded_success: "fst (guarded d (e, p, old, new)) \<Longrightarrow> rd d p = Some old"
  by (auto simp: guarded_def split: if_splits)

lemma no_lost_update:
  assumes "usable q"
  shows "edit_chain (rd d q) (map snd (filter (\<lambda>a. fst a = q) (fst (guarded_run d edits))))
    (rd (snd (guarded_run d edits)) q)"
proof (induction edits arbitrary: d)
  case Nil
  then show ?case by simp
next
  case (Cons edit edits)
  obtain e p old new where edit: "edit = (e, p, old, new)" by (cases edit) auto
  have "edit_chain (rd (snd (guarded d edit)) q)
      (map snd (filter (\<lambda>a. fst a = q) (fst (guarded_run (snd (guarded d edit)) edits))))
      (rd (snd (guarded_run (snd (guarded d edit)) edits)) q)"
    by (rule Cons.IH)
  then show ?case
    using guarded_step [OF assms, of d e p old new] guarded_success [of d e p old new]
    by (auto simp: edit split_beta Let_def split: if_splits)
qed

end

interpretation disk_store: file_store read_bytes atomic_write user_path
proof unfold_locales
  fix env d p s
  assume p: "user_path p"
  note t = user_path_not_temp [OF p]
  show "read_bytes (snd (atomic_write env d p s)) p = Some s" if "fst (atomic_write env d p s)"
    using that atomic_write_success [OF _ t] by (simp add: read_bytes_def atomic_write_ok replaced_file_def)
  show "read_bytes (snd (atomic_write env d p s)) p = read_bytes d p" if "\<not> fst (atomic_write env d p s)"
    using that atomic_write_failure [OF _ t] by (simp add: read_bytes_def atomic_write_ok)
next
  fix q p env d s
  assume "user_path q" "q \<noteq> p"
  then show "read_bytes (snd (atomic_write env d p s)) q = read_bytes d q"
    using atomic_write_frame user_path_not_temp by (simp add: read_bytes_def)
qed

end
