(* ===== verification/Kod_Hashline.thy ===== *)
theory Kod_Hashline
  imports Kod_Fs "HOL-Library.Product_Lexorder"
begin

text \<open>
  Line-addressed edits under a tag guard, \<open>crates/kod-tools/src/edit_hashline.rs\<close>: the
  content tag, the snapshot store, the parser of an edit block, the validation and splicing of
  its operations, and the guarded write. \<open>std::fs::canonicalize\<close> with its fallback, which
  the file system decides, is the argument \<open>canon\<close>; the text of a \<open>Malformed\<close> error is
  a constructor naming its place. The lemmas show that an accepted edit changed exactly the
  lines it names, that the model had seen every line it touched in the very text on disk, and
  that a rejected one changed nothing.
\<close>

section \<open>Data\<close>

type_synonym tag = "u8 \<times> u8"

record snapshot =
  snap_tag :: tag
  snap_text :: string
  snap_seen :: "bool list"

datatype malformed =
    ReReadFailed | OneBased | WriteFailed | SecondHeader | NeedsPathTag | BadTag string
  | PayloadWithoutPut | NoHeader | NoTag | BadStart string | BadEnd string | BadLine string

datatype edit_error =
    NeverRead
  | StaleTag tag tag
  | UnseenAnchor nat
  | OutOfRange nat nat
  | BadRange nat nat
  | Overlap "nat \<times> nat" "nat \<times> nat"
  | Malformed malformed

record edit_op =
  op_start :: nat
  op_end :: nat
  op_payload :: "string list"
  op_append :: bool

type_synonym edit_store = "(path, snapshot) hmap"

section \<open>Tags\<close>

definition be_bytes :: "u16 \<Rightarrow> tag" where
  "be_bytes w = (ucast (drop_bit 8 w), ucast w)"

definition tag_of :: "string \<Rightarrow> tag" where
  "tag_of s = (let h = foldl fnv1a_byte fnv_offset s
     in be_bytes (ucast ((h XOR drop_bit 32 h) AND 0xFFFF)))"

definition hex2 :: "u8 \<Rightarrow> string" where
  "hex2 b = [hex_digit (unat b div 16), hex_digit (unat b mod 16)]"

definition tag_hex :: "tag \<Rightarrow> string" where
  "tag_hex t = hex2 (fst t) @ hex2 (snd t)"

fun show_edit_error :: "(malformed \<Rightarrow> string) \<Rightarrow> edit_error \<Rightarrow> string" where
  "show_edit_error show_m NeverRead = ''file was never read this session; read it first''"
| "show_edit_error show_m (StaleTag expected got) =
     ''stale edit: file is #'' @ tag_hex expected @ '', your header says #'' @ tag_hex got
       @ ''; re-read and retry''"
| "show_edit_error show_m (UnseenAnchor line) =
     ''edit anchor line '' @ show_nat line @ '' was never read; read it first''"
| "show_edit_error show_m (OutOfRange line len) =
     ''line '' @ show_nat line @ '' is past the end of the file ('' @ show_nat len @ '' lines)''"
| "show_edit_error show_m (BadRange s e) =
     ''bad range '' @ show_nat s @ ''..'' @ show_nat e @ '' (start > end)''"
| "show_edit_error show_m (Overlap a b) =
     ''overlapping ops '' @ show_nat (fst a) @ ''..'' @ show_nat (snd a) @ '' and ''
       @ show_nat (fst b) @ ''..'' @ show_nat (snd b) @ '' ''
       @ [CHR 0xE2, CHR 0x80, CHR 0x94] @ '' one range per line''"
| "show_edit_error show_m (Malformed m) = ''malformed edit: '' @ show_m m"

section \<open>The snapshot store\<close>

definition record_snapshot ::
  "(path \<Rightarrow> path) \<Rightarrow> edit_store \<Rightarrow> path \<Rightarrow> string \<Rightarrow> bool list \<Rightarrow> tag \<times> edit_store" where
  "record_snapshot canon st p s seen =
     (tag_of s, AList.update (canon p) \<lparr> snap_tag = tag_of s, snap_text = s, snap_seen = seen \<rparr> st)"

definition current_tag :: "(path \<Rightarrow> path) \<Rightarrow> edit_store \<Rightarrow> path \<Rightarrow> tag option" where
  "current_tag canon st p = map_option snap_tag (map_of st (canon p))"

definition forget :: "(path \<Rightarrow> path) \<Rightarrow> edit_store \<Rightarrow> path \<Rightarrow> edit_store" where
  "forget canon st p = AList.delete (canon p) st"

section \<open>Validation\<close>

definition seen_line :: "bool list \<Rightarrow> nat \<Rightarrow> bool" where
  "seen_line seen n = (n < length seen \<and> seen ! n)"

definition validate_op :: "bool list \<Rightarrow> nat \<Rightarrow> edit_op \<Rightarrow> edit_error option" where
  "validate_op seen len op =
     (if op_append op then None
      else if op_start op = 0 \<or> op_end op = 0 then Some (Malformed OneBased)
      else if op_end op < op_start op then Some (BadRange (op_start op) (op_end op))
      else if len < op_end op then Some (OutOfRange (op_end op) len)
      else map_option UnseenAnchor
             (List.find (\<lambda>n. \<not> seen_line seen n) [op_start op..<Suc (op_end op)]))"

fun validate_ops :: "bool list \<Rightarrow> nat \<Rightarrow> edit_op list \<Rightarrow> edit_error option" where
  "validate_ops seen len [] = None"
| "validate_ops seen len (op # ops) =
     (case validate_op seen len op of
        Some e \<Rightarrow> Some e
      | None \<Rightarrow> validate_ops seen len ops)"

fun overlap_in :: "(nat \<times> nat) list \<Rightarrow> edit_error option" where
  "overlap_in (a # b # rs) = (if fst b \<le> snd a then Some (Overlap a b) else overlap_in (b # rs))"
| "overlap_in _ = None"

definition op_range :: "edit_op \<Rightarrow> nat \<times> nat" where
  "op_range op = (op_start op, op_end op)"

definition op_ranges :: "edit_op list \<Rightarrow> (nat \<times> nat) list" where
  "op_ranges ops = sort (map op_range (filter (\<lambda>op. \<not> op_append op) ops))"

section \<open>Staging\<close>

fun count_crlf :: "string \<Rightarrow> nat" where
  "count_crlf (a # b # cs) =
     (if a = CHR 0x0D \<and> b = CHR 0x0A then Suc (count_crlf cs) else count_crlf (b # cs))"
| "count_crlf _ = 0"

definition is_crlf :: "string \<Rightarrow> bool" where
  "is_crlf s = (let crlf = count_crlf s; lf = count_list s (CHR 0x0A) - crlf in lf < crlf)"

definition eol_of :: "string \<Rightarrow> string" where
  "eol_of s = (if is_crlf s then [CHR 0x0D, CHR 0x0A] else [CHR 0x0A])"

text \<open>
  The splice loop. An operation starting at 0 that is not an append (validation excludes it)
  has \<open>start - 1\<close> wrapped to the top of \<open>usize\<close>.
\<close>

fun stage_loop :: "edit_op list \<Rightarrow> string list \<Rightarrow> edit_error + string list" where
  "stage_loop [] ls = Inr ls"
| "stage_loop (op # ops) ls =
     (if op_append op then stage_loop ops (ls @ op_payload op)
      else let s = (if op_start op = 0 then usize_bound - 1 else op_start op - 1); e = op_end op
           in if length ls < s \<or> length ls < e then Inl (OutOfRange e (length ls))
              else stage_loop ops (take s ls @ op_payload op @ drop e ls))"

definition finish_text :: "string \<Rightarrow> string list \<Rightarrow> string" where
  "finish_text s ls =
     (let out = join_with (eol_of s) ls
      in if ends_with [CHR 0x0A] s \<and> \<not> ends_with [CHR 0x0A] out then out @ eol_of s else out)"

definition stage :: "string \<Rightarrow> edit_op list \<Rightarrow> edit_error + string" where
  "stage s ops =
     (case stage_loop (sort_key (\<lambda>op. - int (op_start op)) ops) (rust_lines s) of
        Inl e \<Rightarrow> Inl e
      | Inr ls \<Rightarrow> Inr (finish_text s ls))"

section \<open>The guarded write\<close>

text \<open>Everything before the write: the text on disk and the text to write, or the error.\<close>

definition edit_checks ::
  "(path \<Rightarrow> path) \<Rightarrow> edit_store \<Rightarrow> disk \<Rightarrow> path \<Rightarrow> tag \<Rightarrow> edit_op list \<Rightarrow> edit_error + string \<times> string" where
  "edit_checks canon st d p tag ops =
     (case map_of st (canon p) of
        None \<Rightarrow> Inl NeverRead
      | Some snap \<Rightarrow>
          if snap_tag snap \<noteq> tag then Inl (StaleTag (snap_tag snap) tag)
          else case read_to_string d p of
            None \<Rightarrow> Inl (Malformed ReReadFailed)
          | Some cur \<Rightarrow>
              if cur \<noteq> snap_text snap then Inl (StaleTag (snap_tag snap) (tag_of cur))
              else case validate_ops (snap_seen snap) (length (rust_lines (snap_text snap))) ops of
                Some e \<Rightarrow> Inl e
              | None \<Rightarrow>
                  (case overlap_in (op_ranges ops) of
                     Some e \<Rightarrow> Inl e
                   | None \<Rightarrow>
                       (case stage cur ops of Inl e \<Rightarrow> Inl e | Inr new \<Rightarrow> Inr (cur, new))))"

definition edit_apply ::
  "(path \<Rightarrow> path) \<Rightarrow> io_env \<Rightarrow> edit_store \<times> disk \<Rightarrow> path \<Rightarrow> tag \<Rightarrow> edit_op list
     \<Rightarrow> (edit_error + tag \<times> string) \<times> edit_store \<times> disk" where
  "edit_apply canon env std p tag ops =
     (let (st, d) = std
      in case edit_checks canon st d p tag ops of
           Inl e \<Rightarrow> (Inl e, st, d)
         | Inr (cur, new) \<Rightarrow>
             (let (ok, d1) = atomic_write env d p new
              in if ok
                 then (Inr (tag_of new, new), AList.delete (canon p) st,
                       d1\<lparr>walks := invalidate_all (walks d1)\<rparr>)
                 else (Inl (Malformed WriteFailed), st, d1)))"

section \<open>Parsing an edit block\<close>

definition parse_range :: "string \<Rightarrow> edit_error + nat \<times> nat" where
  "parse_range raw =
     (let s = trim raw
      in case split_once ''.='' s of
           Some (a, b) \<Rightarrow>
             (case parse_usize (trim a) of
                None \<Rightarrow> Inl (Malformed (BadStart a))
              | Some st \<Rightarrow>
                  (case parse_usize (trim b) of
                     None \<Rightarrow> Inl (Malformed (BadEnd b))
                   | Some en \<Rightarrow> Inr (st, en)))
         | None \<Rightarrow>
             (case parse_usize s of
                None \<Rightarrow> Inl (Malformed (BadLine s))
              | Some n \<Rightarrow> Inr (n, n)))"

record parse_state =
  ps_path :: "string option"
  ps_tag :: "tag option"
  ps_ops :: "edit_op list"
  ps_pending :: "edit_op option"

definition flush :: "parse_state \<Rightarrow> parse_state" where
  "flush st = (case ps_pending st of
     None \<Rightarrow> st | Some op \<Rightarrow> st\<lparr>ps_ops := ps_ops st @ [op], ps_pending := None\<rparr>)"

fun trim_end_matches :: "char \<Rightarrow> string \<Rightarrow> string" where
  "trim_end_matches c s = rev (dropWhile ((=) c) (rev s))"

definition is_header :: "string \<Rightarrow> bool" where
  "is_header line = (prefix ''['' line \<and> ends_with '']'' line)"

text \<open>
  A header line is split as \<open>&line[1..line.len() - 1]\<close>. For the one-byte line that would be
  both brackets there is none, since the brackets differ.
\<close>

definition parse_header :: "parse_state \<Rightarrow> string \<Rightarrow> edit_error + parse_state" where
  "parse_header st line =
     (if ps_path st \<noteq> None then Inl (Malformed SecondHeader)
      else case rsplit_once_char (CHR ''#'') (butlast (tl line)) of
        None \<Rightarrow> Inl (Malformed NeedsPathTag)
      | Some (p, t) \<Rightarrow>
          (case parse_uint 16 (2 ^ 16) t of
             None \<Rightarrow> Inl (Malformed (BadTag t))
           | Some n \<Rightarrow> Inr (st\<lparr>ps_path := Some p, ps_tag := Some (be_bytes (word_of_nat n))\<rparr>)))"

definition parse_put :: "parse_state \<Rightarrow> string \<Rightarrow> edit_error + parse_state" where
  "parse_put st0 rest0 =
     (let st = flush st0; rest = trim_end_matches (CHR '':'') rest0
      in if rest = ''>$'' then
           Inr (st\<lparr>ps_pending := Some \<lparr> op_start = 0, op_end = 0, op_payload = [], op_append = True \<rparr>\<rparr>)
         else case parse_range rest of
           Inl e \<Rightarrow> Inl e
         | Inr (s, e) \<Rightarrow>
             Inr (st\<lparr>ps_pending := Some \<lparr> op_start = s, op_end = e, op_payload = [], op_append = False \<rparr>\<rparr>))"

definition parse_cut :: "parse_state \<Rightarrow> string \<Rightarrow> edit_error + parse_state" where
  "parse_cut st0 rest =
     (let st = flush st0
      in case parse_range rest of
           Inl e \<Rightarrow> Inl e
         | Inr (s, e) \<Rightarrow> Inr (st\<lparr>ps_ops := ps_ops st
             @ [\<lparr> op_start = s, op_end = e, op_payload = [], op_append = False \<rparr>]\<rparr>))"

definition parse_payload :: "parse_state \<Rightarrow> string \<Rightarrow> edit_error + parse_state" where
  "parse_payload st raw =
     (case strip_prefix ''+'' raw of
        None \<Rightarrow> Inr st
      | Some row \<Rightarrow>
          (case ps_pending st of
             None \<Rightarrow> Inl (Malformed PayloadWithoutPut)
           | Some op \<Rightarrow> Inr (st\<lparr>ps_pending := Some (op\<lparr>op_payload := op_payload op @ [row]\<rparr>)\<rparr>)))"

definition parse_line :: "parse_state \<Rightarrow> string \<Rightarrow> edit_error + parse_state" where
  "parse_line st raw =
     (let line = trim_end raw
      in if is_header line then parse_header st line
         else case strip_prefix ''PUT '' line of
           Some rest \<Rightarrow> parse_put st rest
         | None \<Rightarrow>
             (case strip_prefix ''CUT '' line of
                Some rest \<Rightarrow> parse_cut st rest
              | None \<Rightarrow> parse_payload st raw))"

fun parse_lines :: "parse_state \<Rightarrow> string list \<Rightarrow> edit_error + parse_state" where
  "parse_lines st [] = Inr (flush st)"
| "parse_lines st (raw # raws) =
     (case parse_line st raw of Inl e \<Rightarrow> Inl e | Inr st1 \<Rightarrow> parse_lines st1 raws)"

definition parse_start :: parse_state where
  "parse_start = \<lparr> ps_path = None, ps_tag = None, ps_ops = [], ps_pending = None \<rparr>"

definition parse_edit :: "string \<Rightarrow> edit_error + string \<times> tag \<times> edit_op list" where
  "parse_edit s =
     (case parse_lines parse_start (rust_lines s) of
        Inl e \<Rightarrow> Inl e
      | Inr st \<Rightarrow>
          (case ps_path st of
             None \<Rightarrow> Inl (Malformed NoHeader)
           | Some p \<Rightarrow>
               (case ps_tag st of
                  None \<Rightarrow> Inl (Malformed NoTag)
                | Some t \<Rightarrow> Inr (p, t, ps_ops st))))"

definition render_numbered :: "string \<Rightarrow> nat \<Rightarrow> string" where
  "render_numbered s max_lines =
     (let ls = rust_lines s; shown = min (length ls) max_lines
      in concat (map (\<lambda>(i, l). show_nat (i + 1) @ '':'' @ l @ [CHR 0x0A]) (enumerate 0 (take shown ls)))
         @ (if shown < length ls
            then ''['' @ [CHR 0xE2, CHR 0x80, CHR 0xA6] @ show_nat (length ls - shown)
                   @ '' lines elided; re-read the range you need]'' @ [CHR 0x0A]
            else []))"

section \<open>What the operations mean\<close>

text \<open>
  The reference: the line numbered \<open>i\<close> of the original text is replaced by the payload of
  the operation starting there, if any, and survives itself exactly when no operation covers
  it; appended rows follow. The order of the operations does not enter.
\<close>

definition rows_at :: "edit_op list \<Rightarrow> nat \<Rightarrow> string list" where
  "rows_at ops i = concat (map op_payload (filter (\<lambda>op. \<not> op_append op \<and> op_start op = i) ops))"

definition covered :: "edit_op list \<Rightarrow> nat \<Rightarrow> bool" where
  "covered ops i = list_ex (\<lambda>op. \<not> op_append op \<and> op_start op \<le> i \<and> i \<le> op_end op) ops"

definition edited_row :: "edit_op list \<Rightarrow> string list \<Rightarrow> nat \<Rightarrow> string list" where
  "edited_row ops ls i = rows_at ops i @ (if covered ops i then [] else [ls ! (i - 1)])"

definition appended_rows :: "edit_op list \<Rightarrow> string list" where
  "appended_rows ops = concat (map op_payload (filter op_append ops))"

definition edited_lines :: "edit_op list \<Rightarrow> string list \<Rightarrow> string list" where
  "edited_lines ops ls = concat (map (edited_row ops ls) [1..<Suc (length ls)]) @ appended_rows ops"

text \<open>Descending, disjoint and well formed: what the sort and the two checks establish.\<close>

definition descending :: "edit_op list \<Rightarrow> bool" where
  "descending ops = (sorted_wrt (\<lambda>a b. op_end b < op_start a) ops
     \<and> list_all (\<lambda>op. \<not> op_append op \<and> 1 \<le> op_start op \<and> op_start op \<le> op_end op) ops)"

lemma stage_loop_appends:
  "list_all op_append ops \<Longrightarrow> stage_loop ops ls = Inr (ls @ concat (map op_payload ops))"
  by (induction ops arbitrary: ls) auto

lemma edited_row_empty: "edited_row [] ls = (\<lambda>i. [ls ! (i - 1)])"
  by (rule ext) (simp add: edited_row_def rows_at_def covered_def)

lemma concat_edited_rows_id:
  "a \<le> b \<Longrightarrow> b \<le> length ls \<Longrightarrow> map (\<lambda>i. ls ! (i - 1)) [Suc a..<Suc b] = take (b - a) (drop a ls)"
  by (rule nth_equalityI) (auto simp del: upt_Suc simp: add.commute)

lemma upt_split3: "a \<le> b \<Longrightarrow> b \<le> c \<Longrightarrow> [a..<c] = [a..<b] @ [b..<c]"
  by (metis le_Suc_ex upt_add_eq_append)

lemma rows_at_below:
  assumes "descending (op # ops)" "i < op_start op"
  shows "rows_at (op # ops) i = rows_at ops i" "covered (op # ops) i = covered ops i"
  using assms by (auto simp: rows_at_def covered_def)

lemma rows_at_above:
  assumes "descending (op # ops)" "op_start op \<le> i"
  shows "rows_at ops i = []" "\<not> covered ops i"
proof -
  have "\<And>o'. o' \<in> set ops \<Longrightarrow> op_start o' \<le> op_end o' \<and> op_end o' < op_start op"
    using assms(1) by (auto simp: descending_def list_all_iff)
  with assms(2) show "rows_at ops i = []" "\<not> covered ops i"
    by (fastforce simp: rows_at_def covered_def list_ex_iff filter_empty_conv)+
qed

lemma edited_row_below:
  "descending (op # ops) \<Longrightarrow> i < op_start op \<Longrightarrow> edited_row (op # ops) ls i = edited_row ops ls i"
  by (simp add: edited_row_def rows_at_below)

lemma edited_row_from:
  assumes d: "descending (op # ops)" and i: "op_start op \<le> i"
  shows "edited_row (op # ops) ls i =
    (if i = op_start op then op_payload op else if i \<le> op_end op then [] else [ls ! (i - 1)])"
proof -
  have w: "\<not> op_append op" "op_start op \<le> op_end op" using d by (auto simp: descending_def)
  have "rows_at (op # ops) i = (if i = op_start op then op_payload op else [])"
    using rows_at_above(1) [OF d i] w by (auto simp: rows_at_def)
  moreover have "covered (op # ops) i = (i \<le> op_end op)"
    using rows_at_above(2) [OF d i] w i by (auto simp: covered_def)
  ultimately show ?thesis using w i by (auto simp: edited_row_def)
qed

lemma edited_rows_split:
  assumes d: "descending (op # ops)" and m: "op_end op \<le> m" "m \<le> length ls"
  shows "concat (map (edited_row (op # ops) ls) [1..<Suc m]) =
    concat (map (edited_row ops ls) [1..<op_start op]) @ op_payload op
      @ take (m - op_end op) (drop (op_end op) ls)"
proof -
  let ?s = "op_start op" and ?e = "op_end op"
  have w: "1 \<le> ?s" "?s \<le> ?e" using d by (auto simp: descending_def)
  have "[1..<Suc m] = [1..<?s] @ [?s] @ [Suc ?s..<Suc ?e] @ [Suc ?e..<Suc m]"
    using w m upt_split3 [of 1 ?s "Suc m"] upt_split3 [of ?s "Suc ?e" "Suc m"]
    by (simp add: upt_conv_Cons del: upt_Suc)
  moreover have "map (edited_row (op # ops) ls) [1..<?s] = map (edited_row ops ls) [1..<?s]"
    by (rule map_cong) (auto simp: edited_row_below [OF d])
  then have "concat (map (edited_row (op # ops) ls) [1..<?s]) = concat (map (edited_row ops ls) [1..<?s])"
    by (rule arg_cong)
  moreover have "concat (map (edited_row (op # ops) ls) [Suc ?s..<Suc ?e]) = []"
    by (auto simp: edited_row_from [OF d] simp del: upt_Suc)
  moreover have "map (edited_row (op # ops) ls) [Suc ?e..<Suc m] = map (\<lambda>i. [ls ! (i - 1)]) [Suc ?e..<Suc m]"
    using w by (intro map_cong) (auto simp: edited_row_from [OF d])
  then have "concat (map (edited_row (op # ops) ls) [Suc ?e..<Suc m]) = take (m - ?e) (drop ?e ls)"
    using concat_edited_rows_id [OF m] by (simp only: concat_map_singleton)
  ultimately show ?thesis by (simp add: edited_row_from [OF d] del: upt_Suc)
qed

lemma stage_loop_descending:
  assumes "descending ops" "list_all op_append apps"
    and "list_all (\<lambda>op. op_end op \<le> m) ops" "m \<le> length ls"
  shows "stage_loop (ops @ apps) ls =
    Inr (concat (map (edited_row ops ls) [1..<Suc m]) @ drop m ls @ concat (map op_payload apps))"
  using assms
proof (induction ops arbitrary: ls m)
  case Nil
  have "concat (map (edited_row [] ls) [1..<Suc m]) = take m ls"
    using concat_edited_rows_id [of 0 m ls] Nil
    by (simp add: edited_row_empty concat_map_singleton del: upt_Suc)
  with Nil show ?case by (simp add: stage_loop_appends)
next
  case (Cons op ops)
  let ?s = "op_start op" and ?e = "op_end op"
  have w: "\<not> op_append op" "1 \<le> ?s" "?s \<le> ?e" "?e \<le> m" "descending ops"
    using Cons.prems by (auto simp: descending_def)
  have below: "list_all (\<lambda>o'. op_end o' \<le> ?s - 1) ops"
    using Cons.prems(1) by (auto simp: descending_def list_all_iff)
  let ?ls = "take (?s - 1) ls @ op_payload op @ drop ?e ls"
  have len: "length (take (?s - 1) ls) = ?s - 1" using w Cons.prems by simp
  have ih: "stage_loop (ops @ apps) ?ls =
      Inr (concat (map (edited_row ops ?ls) [1..<Suc (?s - 1)]) @ drop (?s - 1) ?ls
        @ concat (map op_payload apps))"
    using w below Cons.prems len by (intro Cons.IH) auto
  have "map (edited_row ops ?ls) [1..<?s] = map (edited_row ops ls) [1..<?s]"
    using len by (intro map_cong) (auto simp: edited_row_def nth_append)
  then have "concat (map (edited_row ops ?ls) [1..<?s]) = concat (map (edited_row ops ls) [1..<?s])"
    by (rule arg_cong)
  with ih w len have "stage_loop (ops @ apps) ?ls =
      Inr (concat (map (edited_row ops ls) [1..<?s]) @ op_payload op @ drop ?e ls
        @ concat (map op_payload apps))" by simp
  moreover have "drop ?e ls = take (m - ?e) (drop ?e ls) @ drop m ls"
    using w by (metis append_take_drop_id drop_drop le_add_diff_inverse2)
  moreover have "\<not> length ls < ?s - 1" "\<not> length ls < ?e" using w Cons.prems by linarith+
  then have "stage_loop ((op # ops) @ apps) ls = stage_loop (ops @ apps) ?ls"
    using w by (simp add: Let_def)
  ultimately show ?case
    using edited_rows_split [OF Cons.prems(1) w(4) Cons.prems(4)] by simp
qed

section \<open>What validation establishes\<close>

lemma validate_ops_all:
  "validate_ops seen len ops = None \<longleftrightarrow> list_all (\<lambda>op. validate_op seen len op = None) ops"
  by (induction ops) (auto split: option.splits)

definition op_seen :: "bool list \<Rightarrow> edit_op \<Rightarrow> bool" where
  "op_seen seen op = list_all (seen_line seen) [op_start op..<Suc (op_end op)]"

lemma validate_op_iff:
  "validate_op seen len op = None \<longleftrightarrow>
     op_append op \<or> (1 \<le> op_start op \<and> op_start op \<le> op_end op \<and> op_end op \<le> len \<and> op_seen seen op)"
  by (auto simp: validate_op_def op_seen_def find_None_iff list_all_iff simp del: upt_Suc)

lemma overlap_none_sorted:
  "overlap_in rs = None \<Longrightarrow> list_all (\<lambda>r. fst r \<le> snd r) rs \<Longrightarrow> sorted_wrt (\<lambda>a b. snd a < fst b) rs"
proof (induction rs rule: overlap_in.induct)
  case (1 a b rs)
  then have "sorted_wrt (\<lambda>a b. snd a < fst b) (b # rs)" and "snd a < fst b" and "fst b \<le> snd b"
    by (auto split: if_splits)
  then show ?case by auto
qed auto

lemma sort_desc_partition:
  "sorted (map f xs) \<Longrightarrow> \<forall>x \<in> set xs. f x \<le> (0 :: int)
     \<Longrightarrow> xs = filter (\<lambda>x. f x \<noteq> 0) xs @ filter (\<lambda>x. f x = 0) xs"
proof (induction xs)
  case (Cons x xs)
  show ?case
  proof (cases "f x = 0")
    case True
    then have "\<forall>y \<in> set xs. f y = 0" using Cons.prems by fastforce
    with True show ?thesis by simp
  next
    case False
    with Cons show ?thesis by simp
  qed
qed simp

lemma sorted_wrt_rev_map:
  "sorted_wrt P (rev (map f xs)) = sorted_wrt (\<lambda>a b. P (f b) (f a)) xs"
  by (simp add: sorted_wrt_rev sorted_wrt_map)

definition write_ops :: "edit_op list \<Rightarrow> edit_op list" where
  "write_ops ops = filter (\<lambda>op. op_start op \<noteq> 0) (sort_key (\<lambda>op. - int (op_start op)) ops)"

lemma sorted_ops_split:
  assumes app: "list_all (\<lambda>op. op_append op = (op_start op = 0)) ops"
  shows "sort_key (\<lambda>op. - int (op_start op)) ops = write_ops ops @ filter op_append ops"
proof -
  let ?f = "\<lambda>op. - int (op_start op)"
  have "filter (\<lambda>op. ?f op = 0) (sort_key ?f ops) = filter (\<lambda>op. ?f op = 0) ops"
    by (rule sort_key_stable)
  moreover have "filter (\<lambda>op. ?f op = 0) ops = filter op_append ops"
    using app by (intro filter_cong) (auto simp: list_all_iff)
  moreover have "sort_key ?f ops = filter (\<lambda>op. ?f op \<noteq> 0) (sort_key ?f ops)
      @ filter (\<lambda>op. ?f op = 0) (sort_key ?f ops)"
    by (rule sort_desc_partition) (simp_all add: sorted_sort_key)
  ultimately show ?thesis by (simp add: write_ops_def)
qed

lemma write_ops_ranges:
  assumes app: "list_all (\<lambda>op. op_append op = (op_start op = 0)) ops"
    and sw: "sorted_wrt (\<lambda>a b. snd a < fst b) (op_ranges ops)"
    and wf: "list_all (\<lambda>r. fst r \<le> snd r) (op_ranges ops)"
  shows "rev (map op_range (write_ops ops)) = op_ranges ops"
proof (rule map_sorted_distinct_set_unique [where f = fst])
  have strict: "sorted_wrt (\<lambda>a b. fst a < fst b) (op_ranges ops)"
    using wf by (intro sorted_wrt_mono_rel [OF _ sw]) (auto simp: list_all_iff)
  then have st: "sorted_wrt (<) (map fst (op_ranges ops))" by (simp add: sorted_wrt_map)
  have m: "mset (map op_range (write_ops ops)) = mset (op_ranges ops)"
  proof -
    have "filter (\<lambda>op. \<not> op_append op) ops = filter (\<lambda>op. op_start op \<noteq> 0) ops"
      using app by (intro filter_cong) (auto simp: list_all_iff)
    then show ?thesis
      by (simp add: write_ops_def op_ranges_def)
  qed
  have s: "set (rev (map op_range (write_ops ops))) = set (op_ranges ops)"
    using m by (metis mset_eq_setD set_rev)
  show "set (rev (map op_range (write_ops ops))) = set (op_ranges ops)" by (rule s)
  show d: "distinct (map fst (op_ranges ops))" using st strict_sorted_iff by blast
  show "sorted (map fst (op_ranges ops))" using st strict_sorted_iff by blast
  show "inj_on fst (set (rev (map op_range (write_ops ops))) \<union> set (op_ranges ops))"
    unfolding s using d by (simp add: distinct_map)
  have "mset (map fst (map op_range (write_ops ops))) = mset (map fst (op_ranges ops))"
    using m by (metis mset_map)
  with d have "distinct (map fst (map op_range (write_ops ops)))" by (metis mset_eq_imp_distinct_iff)
  then show "distinct (map fst (rev (map op_range (write_ops ops))))" by (simp flip: rev_map)
  have "sorted (map (\<lambda>op. - int (op_start op)) (write_ops ops))"
    unfolding write_ops_def by (rule sorted_filter) (rule sorted_sort_key)
  then show "sorted (map fst (rev (map op_range (write_ops ops))))"
    by (simp add: rev_map sorted_wrt_rev sorted_wrt_map op_range_def)
qed

lemma write_ops_descending:
  assumes app: "list_all (\<lambda>op. op_append op = (op_start op = 0)) ops"
    and valid: "validate_ops seen len ops = None" and disjoint: "overlap_in (op_ranges ops) = None"
  shows "descending (write_ops ops)" "list_all (\<lambda>op. op_end op \<le> len) (write_ops ops)"
proof -
  have v: "op_append op \<or> (1 \<le> op_start op \<and> op_start op \<le> op_end op \<and> op_end op \<le> len)"
    if "op \<in> set ops" for op
    using valid that by (auto simp: validate_ops_all list_all_iff validate_op_iff)
  have wf: "list_all (\<lambda>r. fst r \<le> snd r) (op_ranges ops)"
    using v by (fastforce simp: op_ranges_def op_range_def list_all_iff)
  have sw: "sorted_wrt (\<lambda>a b. snd a < fst b) (op_ranges ops)"
    by (rule overlap_none_sorted [OF disjoint wf])
  have "sorted_wrt (\<lambda>a b. op_end b < op_start a) (write_ops ops)"
    using sw unfolding write_ops_ranges [OF app sw wf, symmetric]
    by (simp add: sorted_wrt_rev sorted_wrt_map op_range_def)
  moreover have "list_all (\<lambda>op. \<not> op_append op \<and> 1 \<le> op_start op \<and> op_start op \<le> op_end op) (write_ops ops)"
    using v app by (fastforce simp: write_ops_def list_all_iff)
  ultimately show "descending (write_ops ops)" by (simp add: descending_def)
  show "list_all (\<lambda>op. op_end op \<le> len) (write_ops ops)"
    using v app by (fastforce simp: write_ops_def list_all_iff)
qed

lemma rows_at_write_ops:
  assumes app: "list_all (\<lambda>op. op_append op = (op_start op = 0)) ops" and "1 \<le> i"
  shows "rows_at (write_ops ops) i = rows_at ops i"
proof -
  let ?f = "\<lambda>op. - int (op_start op)"
  have eq: "filter (\<lambda>op. \<not> op_append op \<and> op_start op = i) ops = filter (\<lambda>op. ?f op = - int i) ops"
    using assms by (intro filter_cong) (auto simp: list_all_iff)
  have "filter (\<lambda>op. \<not> op_append op \<and> op_start op = i) (write_ops ops)
      = filter (\<lambda>op. ?f op = - int i) (sort_key ?f ops)"
    unfolding write_ops_def filter_filter
    using assms by (intro filter_cong) (auto simp: list_all_iff)
  also have "\<dots> = filter (\<lambda>op. ?f op = - int i) ops" by (rule sort_key_stable)
  finally show ?thesis by (simp add: rows_at_def eq)
qed

lemma covered_write_ops:
  assumes "list_all (\<lambda>op. op_append op = (op_start op = 0)) ops"
  shows "covered (write_ops ops) i = covered ops i"
  using assms by (auto simp: covered_def write_ops_def list_ex_iff list_all_iff)

lemma stage_edits:
  assumes app: "list_all (\<lambda>op. op_append op = (op_start op = 0)) ops"
    and valid: "validate_ops seen (length (rust_lines s)) ops = None"
    and disjoint: "overlap_in (op_ranges ops) = None"
  shows "stage s ops = Inr (finish_text s (edited_lines ops (rust_lines s)))"
proof -
  let ?ls = "rust_lines s"
  have "map (edited_row (write_ops ops) ?ls) [1..<Suc (length ?ls)] = map (edited_row ops ?ls) [1..<Suc (length ?ls)]"
    by (intro map_cong) (auto simp: edited_row_def rows_at_write_ops [OF app] covered_write_ops [OF app])
  then have "concat (map (edited_row (write_ops ops) ?ls) [1..<Suc (length ?ls)])
      = concat (map (edited_row ops ?ls) [1..<Suc (length ?ls)])" by (rule arg_cong)
  moreover have "stage_loop (write_ops ops @ filter op_append ops) ?ls =
      Inr (concat (map (edited_row (write_ops ops) ?ls) [1..<Suc (length ?ls)])
        @ drop (length ?ls) ?ls @ concat (map op_payload (filter op_append ops)))"
    by (rule stage_loop_descending [OF write_ops_descending(1) [OF app valid disjoint] _
          write_ops_descending(2) [OF app valid disjoint]]) (auto simp: list_all_iff)
  ultimately show ?thesis
    by (simp add: stage_def sorted_ops_split [OF app] edited_lines_def appended_rows_def del: upt_Suc)
qed

section \<open>Parsed operations\<close>

definition op_parsed :: "edit_op \<Rightarrow> bool" where
  "op_parsed op = (op_append op \<longrightarrow> op_start op = 0)"

definition parse_ok :: "parse_state \<Rightarrow> bool" where
  "parse_ok st = (list_all op_parsed (ps_ops st) \<and> (\<forall>op. ps_pending st = Some op \<longrightarrow> op_parsed op))"

lemma flush_ok [kod_inv]: "parse_ok st \<Longrightarrow> parse_ok (flush st)"
  by (auto simp: parse_ok_def flush_def split: option.splits)

lemma flush_ops_ok: "parse_ok st \<Longrightarrow> list_all op_parsed (ps_ops (flush st))"
  using flush_ok by (simp add: parse_ok_def)

lemma parse_line_ok [kod_inv]: "parse_ok st \<Longrightarrow> parse_line st raw = Inr st' \<Longrightarrow> parse_ok st'"
  using flush_ops_ok [of st] flush_ok [of st]
  by (auto simp: parse_line_def parse_header_def parse_put_def parse_cut_def parse_payload_def Let_def
      parse_ok_def op_parsed_def split: if_splits option.splits sum.splits prod.splits)

lemma parse_lines_ok: "parse_ok st \<Longrightarrow> parse_lines st raws = Inr st' \<Longrightarrow> parse_ok st'"
  by (induction st raws rule: parse_lines.induct)
    (auto intro: flush_ok dest: parse_line_ok split: sum.splits)

lemma parse_edit_ops: "parse_edit s = Inr (p, t, ops) \<Longrightarrow> list_all op_parsed ops"
  using parse_lines_ok [of parse_start "rust_lines s"]
  by (auto simp: parse_edit_def parse_ok_def parse_start_def split: sum.splits option.splits)

lemma parsed_and_valid:
  assumes "list_all op_parsed ops" and "validate_ops seen len ops = None"
  shows "list_all (\<lambda>op. op_append op = (op_start op = 0)) ops"
  using assms by (fastforce simp: list_all_iff op_parsed_def validate_ops_all validate_op_iff)

section \<open>Accepted and rejected edits\<close>

lemma edit_checks_success:
  assumes "edit_checks canon st d p tag ops = Inr (cur, new)"
  shows "\<exists>snap. map_of st (canon p) = Some snap \<and> snap_tag snap = tag \<and> cur = snap_text snap
    \<and> read_to_string d p = Some cur
    \<and> validate_ops (snap_seen snap) (length (rust_lines cur)) ops = None
    \<and> overlap_in (op_ranges ops) = None \<and> stage cur ops = Inr new"
  using assms
  by (auto simp: edit_checks_def split: option.splits if_splits sum.splits)

lemma read_to_string_bytes: "read_to_string d p = Some s \<Longrightarrow> read_bytes d p = Some s"
  by (auto simp: read_to_string_def split: option.splits if_splits)

text \<open>An application is exactly a guarded write of the store interface.\<close>

lemma edit_apply_guarded:
  assumes "edit_checks canon st d p tag ops = Inr (cur, new)"
  shows "disk_store.guarded d (env, p, cur, new) = atomic_write env d p new"
  using edit_checks_success [OF assms] read_to_string_bytes [of d p cur]
  by (auto simp: disk_store.guarded_def)

lemma edit_apply_success:
  assumes "edit_apply canon env (st, d) p tag ops = (Inr (t, new), st', d')"
  shows "\<exists>cur d1. edit_checks canon st d p tag ops = Inr (cur, new)
    \<and> atomic_write env d p new = (True, d1) \<and> files d' = files d1
    \<and> t = tag_of new \<and> st' = AList.delete (canon p) st"
  using assms
  by (auto simp: edit_apply_def split: sum.splits prod.splits if_splits)


text \<open>
  All or nothing: a rejected edit, whatever the reason and wherever a write failed, leaves
  every file and the snapshot store as they were.
\<close>

theorem rejected_edit_changes_nothing:
  assumes "edit_apply canon env (st, d) p tag ops = (Inl e, st', d')"
  shows "st' = st \<and> (\<forall>q. user_path q \<longrightarrow> files d' q = files d q)"
proof -
  have "files (snd (atomic_write env d p new)) q = files d q"
    if "\<not> fst (atomic_write env d p new)" "user_path q" for new q
    using that atomic_write_failure [OF _ user_path_not_temp] by (simp add: atomic_write_ok)
  with assms show ?thesis
    by (auto simp: edit_apply_def split: sum.splits prod.splits if_splits) (metis fst_conv snd_conv)+
qed


section \<open>Concrete edits\<close>

definition sample_text :: string where
  "sample_text = ''one'' @ [CHR 0x0A] @ ''two'' @ [CHR 0x0A]"

definition sample_block :: string where
  "sample_block = ''[a.txt#b530]'' @ [CHR 0x0A] @ ''PUT 2.=2:'' @ [CHR 0x0A] @ ''+TWO'' @ [CHR 0x0A]"

definition sample_ops :: "edit_op list" where
  "sample_ops = [\<lparr> op_start = 2, op_end = 2, op_payload = [''TWO''], op_append = False \<rparr>]"

definition sample_path :: path where
  "sample_path = [''w'', ''a.txt'']"

definition sample_store :: edit_store where
  "sample_store = snd (record_snapshot id [] sample_path sample_text [True, True, True])"

definition sample_run :: "tag \<Rightarrow> (edit_error + tag \<times> string) \<times> edit_store \<times> disk" where
  "sample_run t = edit_apply id calm (sample_store, one_file sample_path sample_text) sample_path t sample_ops"

lemma sample_parses: "parse_edit sample_block = Inr (''a.txt'', (0xb5, 0x30), sample_ops)"
  by code_simp

lemma sample_user_path: "user_path sample_path"
  by code_simp

lemma sample_tag: "tag_of sample_text = (0xb5, 0x30)"
  by code_simp

lemma sample_lookup: "map_of sample_store (id sample_path)
    = Some \<lparr> snap_tag = (0xb5, 0x30), snap_text = sample_text, snap_seen = [True, True, True] \<rparr>"
  by (simp add: sample_store_def record_snapshot_def sample_tag)

lemma sample_read: "read_to_string (one_file sample_path sample_text) sample_path = Some sample_text"
  by code_simp

lemma sample_validates:
  "validate_ops [True, True, True] (length (rust_lines sample_text)) sample_ops = None"
  "overlap_in (op_ranges sample_ops) = None"
  "stage sample_text sample_ops = Inr (''one'' @ [CHR 0x0A] @ ''TWO'' @ [CHR 0x0A])"
  by code_simp+

lemma sample_accepted: "fst (sample_run (0xb5, 0x30)) = Inr (tag_of (''one'' @ [CHR 0x0A] @ ''TWO'' @ [CHR 0x0A]),
    ''one'' @ [CHR 0x0A] @ ''TWO'' @ [CHR 0x0A])"
proof -
  have "edit_checks id sample_store (one_file sample_path sample_text) sample_path (0xb5, 0x30) sample_ops
      = Inr (sample_text, ''one'' @ [CHR 0x0A] @ ''TWO'' @ [CHR 0x0A])"
    using sample_lookup sample_read sample_validates by (simp add: edit_checks_def)
  then show ?thesis
    by (simp add: sample_run_def edit_apply_def split_beta Let_def atomic_write_ok calm_def)
qed

lemma sample_rejected: "fst (sample_run (0, 0)) = Inl (StaleTag (0xb5, 0x30) (0, 0))"
  using sample_lookup by (simp add: sample_run_def edit_apply_def edit_checks_def)


theorem rejected_edit_changes_nothing_witness:
  "files (snd (snd (sample_run (0, 0)))) sample_path = Some \<lparr> content = sample_text, mode = 493 \<rparr>"
proof -
  obtain st' d' where r: "sample_run (0, 0) = (Inl (StaleTag (0xb5, 0x30) (0, 0)), st', d')"
    using sample_rejected by (cases "sample_run (0, 0)") auto
  from rejected_edit_changes_nothing [OF r [unfolded sample_run_def]] r sample_user_path
  show ?thesis by (simp add: one_file_def)
qed

section \<open>A chained edit, and the message of a stale one\<close>

text \<open>
  After an accepted edit the file counts as never read: a second edit of the same file is
  rejected with \<open>NeverRead\<close> whatever tag it carries, the one just returned included, until a
  new snapshot is recorded.
\<close>

theorem chained_edit_needs_reread:
  assumes "edit_apply canon env (st, d) p tag ops = (Inr (new_tag, new), st', d')"
    and "canon q = canon p"
  shows "edit_apply canon env' (st', d2) q new_tag ops' = (Inl NeverRead, st', d2)"
proof -
  have "st' = AList.delete (canon p) st" using edit_apply_success [OF assms(1)] by blast
  with assms(2) show ?thesis by (simp add: edit_apply_def edit_checks_def)
qed

theorem chained_edit_needs_reread_witness:
  "let (r, st', d') = sample_run (0xb5, 0x30)
   in case r of Inl e \<Rightarrow> False
      | Inr (t, new) \<Rightarrow> fst (edit_apply id calm (st', d') sample_path t sample_ops) = Inl NeverRead"
proof -
  obtain t new st' d' where r: "sample_run (0xb5, 0x30) = (Inr (t, new), st', d')"
    using sample_accepted by (cases "sample_run (0xb5, 0x30)") auto
  from chained_edit_needs_reread [OF r [unfolded sample_run_def] refl, of calm d' sample_ops] r
  show ?thesis by simp
qed

text \<open>
  When the file changed on disk since it was read, an edit quoting the snapshot's tag is
  refused even if the two texts have the same tag, but the message has the sides exchanged:
  it gives the header's tag as the file's and the file's tag as the header's.
\<close>

theorem external_change_is_refused:
  assumes "map_of st (canon p) = Some snap" and "read_to_string d p = Some cur"
    and "cur \<noteq> snap_text snap"
  shows "edit_apply canon env (st, d) p (snap_tag snap) ops
      = (Inl (StaleTag (snap_tag snap) (tag_of cur)), st, d)
    \<and> show_edit_error show_m (StaleTag (snap_tag snap) (tag_of cur))
      = ''stale edit: file is #'' @ tag_hex (snap_tag snap) @ '', your header says #'' @ tag_hex (tag_of cur)
          @ ''; re-read and retry''"
  using assms by (simp add: edit_apply_def edit_checks_def)

theorem external_change_is_refused_witness:
  "fst (edit_apply id calm (sample_store, one_file sample_path ''else'') sample_path (0xb5, 0x30) sample_ops)
     = Inl (StaleTag (0xb5, 0x30) (tag_of ''else''))"
proof -
  let ?snap = "\<lparr> snap_tag = (0xb5, 0x30), snap_text = sample_text, snap_seen = [True, True, True] \<rparr>"
  have r: "read_to_string (one_file sample_path ''else'') sample_path = Some ''else''" by code_simp
  have "''else'' \<noteq> sample_text" by code_simp
  then show ?thesis
    using external_change_is_refused [of sample_store id sample_path ?snap, OF sample_lookup r, of calm sample_ops]
    by simp
qed

section \<open>No lost update\<close>

text \<open>
  A session: any number of reads, forgotten snapshots and edits, of any files, on one store.
  The log lists the accepted edits as (path, text before, text after).
\<close>

datatype store_event =
    ERead path "bool list"
  | EForget path
  | EEdit io_env path tag "edit_op list"

type_synonym edit_log = "(path \<times> string \<times> string) list"

fun session_step ::
  "(path \<Rightarrow> path) \<Rightarrow> edit_store \<times> disk \<Rightarrow> store_event \<Rightarrow> edit_log \<times> edit_store \<times> disk" where
  "session_step canon (st, d) (ERead p seen) =
     ([], (case read_to_string d p of
             None \<Rightarrow> st | Some s \<Rightarrow> snd (record_snapshot canon st p s seen)), d)"
| "session_step canon (st, d) (EForget p) = ([], forget canon st p, d)"
| "session_step canon (st, d) (EEdit env p tag ops) =
     (case edit_apply canon env (st, d) p tag ops of
        (Inl e, std) \<Rightarrow> ([], std)
      | (Inr (t, new), std) \<Rightarrow> ([(p, the (read_bytes d p), new)], std))"

fun session_run ::
  "(path \<Rightarrow> path) \<Rightarrow> edit_store \<times> disk \<Rightarrow> store_event list \<Rightarrow> edit_log \<times> edit_store \<times> disk" where
  "session_run canon std [] = ([], std)"
| "session_run canon std (ev # evs) =
     (let (l, std1) = session_step canon std ev;
          (ls, std2) = session_run canon std1 evs
      in (l @ ls, std2))"

fun guarded_edits ::
  "(path \<Rightarrow> path) \<Rightarrow> edit_store \<times> disk \<Rightarrow> store_event list \<Rightarrow> (io_env \<times> path \<times> string \<times> string) list" where
  "guarded_edits canon std [] = []"
| "guarded_edits canon std (ev # evs) =
     (case ev of
        EEdit env p tag ops \<Rightarrow>
          (case edit_checks canon (fst std) (snd std) p tag ops of
             Inl e \<Rightarrow> []
           | Inr (cur, new) \<Rightarrow> [(env, p, cur, new)])
      | _ \<Rightarrow> [])
     @ guarded_edits canon (snd (session_step canon std ev)) evs"

lemma invalidate_all_again: "invalidate_all (invalidate_all c) = invalidate_all c"
  by (simp add: invalidate_all_def)

lemma atomic_write_cleared:
  "atomic_write env d p s = (True, d1) \<Longrightarrow> d1\<lparr>walks := invalidate_all (walks d1)\<rparr> = d1"
  by (auto simp: atomic_write_def split_beta Let_def invalidate_all_again split: if_splits)

lemma session_is_guarded:
  "disk_store.guarded_run d (guarded_edits canon (st, d) evs)
     = (fst (session_run canon (st, d) evs), snd (snd (session_run canon (st, d) evs)))"
proof (induction evs arbitrary: st d)
  case Nil
  then show ?case by simp
next
  case (Cons ev evs)
  show ?case
  proof (cases ev)
    case (EEdit env p tag ops)
    show ?thesis
    proof (cases "edit_checks canon st d p tag ops")
      case (Inl e)
      then have "session_step canon (st, d) ev = ([], st, d)" by (simp add: EEdit edit_apply_def)
      then show ?thesis using Cons.IH [of d st] by (simp add: EEdit Inl split_beta)
    next
      case (Inr cn)
      obtain cur new where cn: "cn = (cur, new)" by (cases cn)
      note chk = Inr [unfolded cn]
      obtain ok d1 where w: "atomic_write env d p new = (ok, d1)" by (cases "atomic_write env d p new")
      have g: "disk_store.guarded d (env, p, cur, new) = (ok, d1)" using edit_apply_guarded [OF chk] w by simp
      have cur: "read_bytes d p = Some cur"
        using edit_checks_success [OF chk] read_to_string_bytes by blast
      have step: "session_step canon (st, d) ev =
          (if ok then ([(p, cur, new)], AList.delete (canon p) st, d1) else ([], st, d1))"
        using w atomic_write_cleared [of env d p new d1] by (simp add: EEdit edit_apply_def chk cur)
      show ?thesis
        using Cons.IH [of d1 "if ok then AList.delete (canon p) st else st"]
        by (cases ok) (simp_all add: EEdit chk g step [unfolded EEdit] split_beta Let_def del: session_step.simps)
    qed
  qed (use Cons.IH in \<open>simp_all add: split_beta Let_def\<close>)
qed

text \<open>
  No lost update: over any session, the accepted edits of a file form a chain. The first
  was made on the text the file had, each later one on exactly the text its predecessor left,
  and the last one's text is what the file holds.
\<close>

theorem accepted_edits_form_a_chain:
  assumes "user_path q"
  shows "edit_chain (read_bytes d q)
    (map snd (filter (\<lambda>a. fst a = q) (fst (session_run canon (st, d) evs))))
    (read_bytes (snd (snd (session_run canon (st, d) evs))) q)"
  using disk_store.no_lost_update [OF assms, of d "guarded_edits canon (st, d) evs"]
  by (simp add: session_is_guarded)

theorem accepted_edits_form_a_chain_witness:
  "edit_chain (Some sample_text)
    (map snd (filter (\<lambda>a. fst a = sample_path)
      (fst (session_run id (sample_store, one_file sample_path sample_text)
        [EEdit calm sample_path (0xb5, 0x30) sample_ops]))))
    (read_bytes (snd (snd (session_run id (sample_store, one_file sample_path sample_text)
        [EEdit calm sample_path (0xb5, 0x30) sample_ops]))) sample_path)"
  using accepted_edits_form_a_chain [OF sample_user_path, of "one_file sample_path sample_text" id sample_store
      "[EEdit calm sample_path (0xb5, 0x30) sample_ops]"]
  by (simp add: one_file_def read_bytes_def)

end
