(* ===== verification/Kod_Hashline_Syntax.thy ===== *)
theory Kod_Hashline_Syntax
  imports Kod_Hashline
begin

text \<open>
  A printer for the edit format of \<open>crates/kod-tools/src/edit_hashline.rs\<close>, as its
  documentation writes it, and the proof that \<open>parse_edit\<close> reads back what it prints: the path,
  every tag, every range of the width of \<open>usize\<close> and every payload row that is one line.
\<close>

section \<open>Tags in hexadecimal\<close>

lemma digit_val_hex_digit: "d < 16 \<Longrightarrow> digit_val (hex_digit d) = Some d"
proof -
  have "list_all (\<lambda>d. digit_val (hex_digit d) = Some d) [0..<16]" by code_simp
  then show "d < 16 \<Longrightarrow> digit_val (hex_digit d) = Some d" by (auto simp: list_all_iff)
qed

lemma hex_digit_plain: "d < 16 \<Longrightarrow> hex_digit d \<noteq> CHR ''+'' \<and> hex_digit d \<noteq> CHR ''#''
    \<and> hex_digit d \<noteq> CHR 0x0A \<and> hex_digit d \<noteq> CHR 0x0D"
proof -
  have "list_all (\<lambda>d. hex_digit d \<noteq> CHR ''+'' \<and> hex_digit d \<noteq> CHR ''#''
    \<and> hex_digit d \<noteq> CHR 0x0A \<and> hex_digit d \<noteq> CHR 0x0D) [0..<16]" by code_simp
  then show "d < 16 \<Longrightarrow> hex_digit d \<noteq> CHR ''+'' \<and> hex_digit d \<noteq> CHR ''#''
    \<and> hex_digit d \<noteq> CHR 0x0A \<and> hex_digit d \<noteq> CHR 0x0D" by (auto simp: list_all_iff)
qed

lemma byte_bound: "unat (b :: u8) < 256"
proof -
  have "unat b < 2 ^ LENGTH(8)" by (rule unsigned_less)
  then show ?thesis by simp
qed

lemma byte_nibbles: "unat (b :: u8) div 16 < 16" "unat b mod 16 < 16"
  using byte_bound [of b] by (simp_all add: less_mult_imp_div_less)

lemma parse_tag_hex: "parse_uint 16 (2 ^ 16) (tag_hex t) = Some (unat (fst t) * 256 + unat (snd t))"
proof -
  let ?a = "unat (fst t)" and ?b = "unat (snd t)"
  have d: "digit_val (hex_digit (?a div 16)) = Some (?a div 16)"
      "digit_val (hex_digit (?a mod 16)) = Some (?a mod 16)"
      "digit_val (hex_digit (?b div 16)) = Some (?b div 16)"
      "digit_val (hex_digit (?b mod 16)) = Some (?b mod 16)"
    by (rule digit_val_hex_digit, rule byte_nibbles)+
  have v: "((?a div 16 * 16 + ?a mod 16) * 16 + ?b div 16) * 16 + ?b mod 16 = ?a * 256 + ?b"
    by (simp add: algebra_simps)
  have bound: "?a * 256 + ?b < 65536" using byte_bound [of "fst t"] byte_bound [of "snd t"] by linarith
  have "parse_digits 16 0 (tag_hex t) = Some (?a * 256 + ?b)"
    using d byte_nibbles v by (simp add: tag_hex_def hex2_def del: div_mult_mod_eq)
  moreover have "tag_hex t = hex_digit (?a div 16) # hex_digit (?a mod 16) # hex2 (snd t)"
    by (simp add: tag_hex_def hex2_def)
  moreover have "hex_digit (?a div 16) \<noteq> CHR ''+''" using hex_digit_plain byte_nibbles by blast
  ultimately show ?thesis using bound by (simp add: parse_uint_def Let_def)
qed

lemma be_bytes_of_value:
  "be_bytes (word_of_nat (unat (fst t) * 256 + unat (snd t))) = t"
proof -
  let ?a = "unat (fst t)" and ?b = "unat (snd t)" and ?n = "unat (fst t) * 256 + unat (snd t)"
  have ab: "?a < 256" "?b < 256" by (rule byte_bound)+
  then have "?n < 2 ^ LENGTH(16)" by simp
  moreover have "unat (word_of_nat m :: u16) = m" if "m < 2 ^ LENGTH(16)" for m
    using that by (simp add: unsigned_of_nat take_bit_nat_eq_self)
  ultimately have n: "unat (word_of_nat ?n :: u16) = ?n" by blast
  have "unat (ucast (drop_bit 8 (word_of_nat ?n :: u16)) :: u8) = ?a"
    using ab by (simp only: unsigned_ucast_eq unat_drop_bit_eq n drop_bit_eq_div [where 'a = nat] take_bit_eq_mod) simp
  moreover have "unat (ucast (word_of_nat ?n :: u16) :: u8) = ?b"
    using ab by (simp only: unsigned_ucast_eq n take_bit_eq_mod) simp
  ultimately show ?thesis by (simp add: be_bytes_def prod_eq_iff word_unat_eq_iff)
qed

lemma tag_hex_chars: "c \<in> set (tag_hex t) \<Longrightarrow> c \<noteq> CHR ''#'' \<and> c \<noteq> CHR 0x0A \<and> c \<noteq> CHR 0x0D"
  using hex_digit_plain byte_nibbles by (auto simp: tag_hex_def hex2_def)

section \<open>The printer\<close>

definition range_text :: "edit_op \<Rightarrow> string" where
  "range_text op = show_nat (op_start op) @ ''.='' @ show_nat (op_end op)"

definition op_rows :: "edit_op \<Rightarrow> string list" where
  "op_rows op =
     (if op_append op then ''PUT >$:'' # map ((#) (CHR ''+'')) (op_payload op)
      else if op_payload op = [] then [''CUT '' @ range_text op]
      else (''PUT '' @ range_text op @ '':'') # map ((#) (CHR ''+'')) (op_payload op))"

definition block_rows :: "string \<Rightarrow> tag \<Rightarrow> edit_op list \<Rightarrow> string list" where
  "block_rows p t ops = (''['' @ p @ ''#'' @ tag_hex t @ '']'') # concat (map op_rows ops)"

definition print_edit :: "string \<Rightarrow> tag \<Rightarrow> edit_op list \<Rightarrow> string" where
  "print_edit p t ops = concat (map (\<lambda>l. l @ [CHR 0x0A]) (block_rows p t ops))"

definition printable_op :: "edit_op \<Rightarrow> bool" where
  "printable_op op =
     (list_all plain_row (op_payload op)
      \<and> (if op_append op then op_start op = 0 \<and> op_end op = 0
         else op_start op < usize_bound \<and> op_end op < usize_bound))"

section \<open>Reading one row back\<close>

lemma solid_here: "solid CHR '']''" "solid CHR '':''" "solid CHR ''+''" "solid CHR ''P''" "solid CHR ''C''"
  by code_simp+

lemma solid_show_nat: "solid (hd (show_nat n))" "solid (last (show_nat n))"
  using show_nat_digits [of n] by (auto intro!: solid_digits hd_in_set last_in_set subsetD [OF show_nat_digits])

lemma trim_show_nat [simp]: "trim (show_nat n) = show_nat n"
  by (rule trim_solid) (simp_all add: solid_show_nat)

lemma range_text_ends: "range_text op \<noteq> []" "solid (hd (range_text op))" "solid (last (range_text op))"
  by (simp_all add: range_text_def solid_show_nat)

lemma parse_range_text:
  "op_start op < usize_bound \<Longrightarrow> op_end op < usize_bound
     \<Longrightarrow> parse_range (range_text op) = Inr (op_start op, op_end op)"
proof -
  assume b: "op_start op < usize_bound" "op_end op < usize_bound"
  have "CHR ''.'' \<notin> set (show_nat (op_start op))" using show_nat_digits [of "op_start op"] by auto
  from split_once_found [OF this, of "''=''" "show_nat (op_end op)"]
  have "split_once ''.='' (range_text op) = Some (show_nat (op_start op), show_nat (op_end op))"
    by (simp add: range_text_def)
  moreover have "trim (range_text op) = range_text op" by (rule trim_solid) (rule range_text_ends)+
  ultimately show ?thesis using b by (simp add: parse_range_def parse_usize_def parse_uint_show_nat)
qed

lemma parse_header_row:
  "ps_path st = None \<Longrightarrow> parse_line st (''['' @ p @ ''#'' @ tag_hex t @ '']'')
     = Inr (st\<lparr>ps_path := Some p, ps_tag := Some t\<rparr>)"
proof -
  assume st: "ps_path st = None"
  let ?row = "''['' @ p @ ''#'' @ tag_hex t @ '']''"
  have "trim_end ?row = ?row"
    using trim_end_solid [OF solid_here(1), of "''['' @ p @ ''#'' @ tag_hex t"] by simp
  moreover have "is_header ?row" by (simp add: is_header_def ends_with_def)
  moreover have "butlast (tl ?row) = p @ CHR ''#'' # tag_hex t" by (simp add: butlast_append)
  moreover have "rsplit_once_char (CHR ''#'') (p @ CHR ''#'' # tag_hex t) = Some (p, tag_hex t)"
    by (rule rsplit_once_found) (auto dest: tag_hex_chars)
  ultimately show ?thesis
    using st by (simp add: parse_line_def Let_def parse_header_def parse_tag_hex [simplified] be_bytes_of_value [simplified]
        del: append_Cons butlast.simps tl_append2)
qed


lemma parse_append_row:
  "parse_line st ''PUT >$:'' = Inr ((flush st)\<lparr>ps_pending :=
     Some \<lparr> op_start = 0, op_end = 0, op_payload = [], op_append = True \<rparr>\<rparr>)"
proof -
  have "trim_end ''PUT >$:'' = ''PUT >$:''" by code_simp
  then show ?thesis
    by (simp add: parse_line_def Let_def is_header_def strip_prefix_def parse_put_def)
qed

lemma parse_put_row:
  assumes "op_start op < usize_bound" "op_end op < usize_bound"
  shows "parse_line st (''PUT '' @ range_text op @ '':'') = Inr ((flush st)\<lparr>ps_pending :=
     Some \<lparr> op_start = op_start op, op_end = op_end op, op_payload = [], op_append = False \<rparr>\<rparr>)"
proof -
  have t: "trim_end (''PUT '' @ range_text op @ '':'') = ''PUT '' @ range_text op @ '':''"
    using trim_end_solid [OF solid_here(2), of "''PUT '' @ range_text op"] by simp
  have l: "last (range_text op) \<noteq> CHR '':''"
    using subsetD [OF show_nat_digits last_in_set [OF show_nat_nonempty [of "op_end op"]]]
    by (auto simp: range_text_def)
  have "trim_end_matches (CHR '':'') (range_text op @ '':'') = range_text op"
    using l range_text_ends(1) [of op] by (cases "range_text op" rule: rev_cases) auto
  moreover have "range_text op \<noteq> ''>$''"
    using show_nat_digits [of "op_start op"] hd_in_set [of "show_nat (op_start op)"]
    by (cases "show_nat (op_start op)") (auto simp: range_text_def)
  ultimately show ?thesis
    using t parse_range_text [OF assms]
    by (simp add: parse_line_def Let_def is_header_def strip_prefix_def parse_put_def)
qed

lemma parse_cut_row:
  assumes "op_start op < usize_bound" "op_end op < usize_bound"
  shows "parse_line st (''CUT '' @ range_text op) = Inr ((flush st)\<lparr>ps_ops := ps_ops (flush st) @
     [\<lparr> op_start = op_start op, op_end = op_end op, op_payload = [], op_append = False \<rparr>]\<rparr>)"
proof -
  obtain a c where r: "range_text op = a @ [c]" "solid c"
    using range_text_ends [of op] by (cases "range_text op" rule: rev_cases) auto
  have t: "trim_end (''CUT '' @ range_text op) = ''CUT '' @ range_text op"
    using trim_end_solid [OF r(2), of "''CUT '' @ a"] r(1) by simp
  then show ?thesis
    using parse_range_text [OF assms]
    by (simp add: parse_line_def Let_def is_header_def strip_prefix_def parse_cut_def)
qed

lemma parse_payload_row:
  assumes "ps_pending st = Some op"
  shows "parse_line st (''+'' @ row) = Inr (st\<lparr>ps_pending := Some (op\<lparr>op_payload := op_payload op @ [row]\<rparr>)\<rparr>)"
proof -
  obtain t where "trim_end (CHR ''+'' # row) = CHR ''+'' # t" using trim_end_head [OF solid_here(3)] by blast
  then show ?thesis
    using assms by (simp add: parse_line_def Let_def is_header_def strip_prefix_def parse_payload_def)
qed

section \<open>Reading a block back\<close>

lemma parse_lines_step: "parse_line st r = Inr st1 \<Longrightarrow> parse_lines st (r # rs) = parse_lines st1 rs"
  by simp

lemma parse_payload_rows:
  "ps_pending st = Some op \<Longrightarrow> parse_lines st (map ((#) (CHR ''+'')) rows @ rs)
     = parse_lines (st\<lparr>ps_pending := Some (op\<lparr>op_payload := op_payload op @ rows\<rparr>)\<rparr>) rs"
proof (induction rows arbitrary: st op)
  case Nil
  then have "st\<lparr>ps_pending := Some op\<rparr> = st" by simp
  then show ?case by simp
next
  case (Cons row rows)
  let ?op = "op\<lparr>op_payload := op_payload op @ [row]\<rparr>"
  have "parse_lines (st\<lparr>ps_pending := Some ?op\<rparr>) (map ((#) (CHR ''+'')) rows @ rs)
      = parse_lines (st\<lparr>ps_pending := Some ?op, ps_pending := Some (?op\<lparr>op_payload := op_payload ?op @ rows\<rparr>)\<rparr>) rs"
    by (rule Cons.IH) simp
  then show ?case
    using parse_lines_step [OF parse_payload_row [OF Cons.prems, of row]] by simp
qed

lemma flush_flushed [simp]: "ps_pending (flush st) = None" "flush (flush st) = flush st"
  by (auto simp: flush_def split: option.splits)

lemma flush_pending_ops:
  "ps_pending st = None \<Longrightarrow> ps_ops (flush (st\<lparr>ps_pending := Some op\<rparr>)) = ps_ops st @ [op]"
  by (simp add: flush_def)

lemma parse_op_rows:
  assumes "printable_op op"
  shows "\<exists>st'. parse_lines st (op_rows op @ rs) = parse_lines st' rs
    \<and> flush st' = (flush st)\<lparr>ps_ops := ps_ops (flush st) @ [op]\<rparr>"
proof -
  have fl: "flush ((flush st)\<lparr>ps_pending := Some op\<rparr>) = (flush st)\<lparr>ps_ops := ps_ops (flush st) @ [op]\<rparr>"
    by (cases "ps_pending st") (simp_all add: flush_def)
  have cut: "flush ((flush st)\<lparr>ps_ops := ps_ops (flush st) @ [op]\<rparr>) = (flush st)\<lparr>ps_ops := ps_ops (flush st) @ [op]\<rparr>"
    by (cases "ps_pending st") (simp_all add: flush_def)
  show ?thesis
  proof (cases "op_append op")
    case True
    let ?op0 = "\<lparr> op_start = 0, op_end = 0, op_payload = [], op_append = True \<rparr>"
    have op: "?op0\<lparr>op_payload := op_payload op\<rparr> = op" using True assms by (simp add: printable_op_def)
    have "parse_lines st (op_rows op @ rs) = parse_lines ((flush st)\<lparr>ps_pending := Some op\<rparr>) rs"
      using parse_payload_rows [of "(flush st)\<lparr>ps_pending := Some ?op0\<rparr>" ?op0 "op_payload op" rs] True op
      by (simp add: op_rows_def parse_append_row)
    with fl show ?thesis by blast
  next
    case False
    let ?op0 = "\<lparr> op_start = op_start op, op_end = op_end op, op_payload = [], op_append = False \<rparr>"
    have b: "op_start op < usize_bound" "op_end op < usize_bound" using False assms by (simp_all add: printable_op_def)
    have op: "?op0\<lparr>op_payload := op_payload op\<rparr> = op" using False by simp
    show ?thesis
    proof (cases "op_payload op = []")
      case True
      then have same: "?op0 = op" using False by simp
      have "parse_line st (''CUT '' @ range_text op) = Inr ((flush st)\<lparr>ps_ops := ps_ops (flush st) @ [op]\<rparr>)"
        using parse_cut_row [OF b, of st] by (simp only: same)
      then have "parse_lines st (op_rows op @ rs) = parse_lines ((flush st)\<lparr>ps_ops := ps_ops (flush st) @ [op]\<rparr>) rs"
        using True False by (simp add: op_rows_def)
      with cut show ?thesis by blast
    next
      case ne: False
      let ?st = "(flush st)\<lparr>ps_pending := Some ?op0\<rparr>"
      have "parse_lines st (op_rows op @ rs) = parse_lines ?st (map ((#) (CHR ''+'')) (op_payload op) @ rs)"
        using parse_lines_step [OF parse_put_row [OF b, of st]] False ne by (simp add: op_rows_def)
      also have "\<dots> = parse_lines (?st\<lparr>ps_pending := Some (?op0\<lparr>op_payload := op_payload ?op0 @ op_payload op\<rparr>)\<rparr>) rs"
        by (rule parse_payload_rows) simp
      also have "\<dots> = parse_lines ((flush st)\<lparr>ps_pending := Some op\<rparr>) rs"
        using op by simp
      finally have "parse_lines st (op_rows op @ rs) = parse_lines ((flush st)\<lparr>ps_pending := Some op\<rparr>) rs" .
      with fl show ?thesis by blast
    qed
  qed
qed

lemma parse_all_ops:
  "list_all printable_op ops \<Longrightarrow> parse_lines st (concat (map op_rows ops))
     = Inr ((flush st)\<lparr>ps_ops := ps_ops (flush st) @ ops\<rparr>)"
proof (induction ops arbitrary: st)
  case Nil
  then show ?case by simp
next
  case (Cons op ops)
  then obtain st' where st': "parse_lines st (op_rows op @ concat (map op_rows ops)) = parse_lines st' (concat (map op_rows ops))"
      "flush st' = (flush st)\<lparr>ps_ops := ps_ops (flush st) @ [op]\<rparr>"
    using parse_op_rows [of op st "concat (map op_rows ops)"] by auto
  with Cons.IH [of st'] Cons.prems show ?case by simp
qed

lemma show_nat_no_eol:
  assumes "c \<in> set (show_nat n)"
  shows "c \<noteq> CHR 0x0A \<and> c \<noteq> CHR 0x0D"
  using subsetD [OF show_nat_digits assms] by auto

lemma range_text_chars: "list_all (\<lambda>c. c \<noteq> CHR 0x0A \<and> c \<noteq> CHR 0x0D) (range_text op)"
  by (auto simp: range_text_def list_all_iff dest: show_nat_no_eol)

lemma op_rows_plain: "printable_op op \<Longrightarrow> list_all plain_row (op_rows op)"
  using range_text_chars [of op]
  by (auto simp: op_rows_def printable_op_def list_all_iff plain_row_def dest: last_in_set)

text \<open>
  C40. Round trip of the edit format: parsing what the documented syntax prints for a path, a
  tag and operations returns exactly them, for every tag, every \<open>usize\<close> range and every
  payload of single lines, trailing blanks included.
\<close>

theorem parse_print_edit:
  assumes "list_all printable_op ops" and "CHR 0x0A \<notin> set p"
  shows "parse_edit (print_edit p t ops) = Inr (p, t, ops)"
proof -
  have "plain_row (''['' @ p @ ''#'' @ tag_hex t @ '']'')"
    using assms(2) by (auto simp: plain_row_def dest: tag_hex_chars)
  then have "list_all plain_row (block_rows p t ops)"
    using assms(1) op_rows_plain by (auto simp: block_rows_def list_all_iff)
  then have "rust_lines (print_edit p t ops) = block_rows p t ops"
    unfolding print_edit_def by (rule rust_lines_rows)
  moreover have "parse_line parse_start (''['' @ p @ ''#'' @ tag_hex t @ '']'')
      = Inr (parse_start\<lparr>ps_path := Some p, ps_tag := Some t\<rparr>)"
    by (rule parse_header_row) (simp add: parse_start_def)
  ultimately show ?thesis
    using parse_all_ops [OF assms(1), of "parse_start\<lparr>ps_path := Some p, ps_tag := Some t\<rparr>"]
    by (simp add: parse_edit_def block_rows_def parse_start_def flush_def)
qed

theorem parse_print_edit_witness:
  "parse_edit (print_edit ''src/main.rs'' (0xa1, 0xb2)
     [\<lparr> op_start = 12, op_end = 12, op_payload = [''new line 12  ''], op_append = False \<rparr>,
      \<lparr> op_start = 20, op_end = 22, op_payload = [], op_append = False \<rparr>,
      \<lparr> op_start = 0, op_end = 0, op_payload = [''appended''], op_append = True \<rparr>])
   = Inr (''src/main.rs'', (0xa1, 0xb2),
     [\<lparr> op_start = 12, op_end = 12, op_payload = [''new line 12  ''], op_append = False \<rparr>,
      \<lparr> op_start = 20, op_end = 22, op_payload = [], op_append = False \<rparr>,
      \<lparr> op_start = 0, op_end = 0, op_payload = [''appended''], op_append = True \<rparr>])"
  by (rule parse_print_edit) (simp_all add: printable_op_def plain_row_def usize_bound_def)

end
