(* ===== verification/Kod_Patch.thy ===== *)
theory Kod_Patch
  imports Kod_Text
begin

text \<open>
  Unified-diff patching, \<open>crates/kod-tools/src/patch.rs\<close>: the parser, the matching of one hunk
  against the file, the running offset, and the rendering of the result. The reasons of
  \<open>InvalidParameters\<close> are constructors. A line count or index is \<open>usize\<close> (\<open>nat\<close>), the
  offset \<open>isize\<close> (\<open>int\<close> with its wrap written out). The lemmas show that a hunk applies
  exactly where its context and removed lines stand in the file, and that a whole patch turns
  the file it was made from into the one it describes.
\<close>

section \<open>Data\<close>

datatype hunk_line = HContext string | HRemove string | HAdd string

record hunk =
  old_start :: nat
  old_lines :: nat
  new_start :: nat
  new_lines :: nat
  hunk_body :: "hunk_line list"
  last_line_tag :: "char option"
  has_no_newline_marker :: bool

datatype patch_error =
    NoHunks
  | PastEnd nat nat
  | ContextMismatch nat string string
  | ContextAtEnd nat
  | RemovalMismatch nat string string
  | RemovalAtEnd nat
  | CountMismatch nat nat nat
  | NotOnBoundary string
  | UnrecognizedLine string
  | BadHunkHeader string
  | BadRangeStart string
  | BadRangeCount string
  | BadRangeText string

section \<open>Parsing\<close>

definition parse_hunk_range :: "string \<Rightarrow> patch_error + nat \<times> nat" where
  "parse_hunk_range s =
     (case split_once '','' s of
        Some (start, cnt) \<Rightarrow>
          (case parse_usize start of
             None \<Rightarrow> Inl (BadRangeStart start)
           | Some a \<Rightarrow>
               (case parse_usize cnt of
                  None \<Rightarrow> Inl (BadRangeCount cnt)
                | Some n \<Rightarrow> Inr (a, n)))
      | None \<Rightarrow>
          (case parse_usize s of None \<Rightarrow> Inl (BadRangeText s) | Some a \<Rightarrow> Inr (a, 1)))"

fun trim_start_at :: "string \<Rightarrow> string" where
  "trim_start_at (a # b # s) = (if a = CHR ''@'' \<and> b = CHR ''@'' then trim_start_at s else a # b # s)"
| "trim_start_at s = s"

definition trim_end_at :: "string \<Rightarrow> string" where
  "trim_end_at s = rev (trim_start_at (rev s))"

definition parse_hunk_header :: "string \<Rightarrow> patch_error + hunk" where
  "parse_hunk_header line =
     (case split_whitespace (trim (trim_end_at (trim_start_at line))) of
        old # new # _ \<Rightarrow>
          (case parse_hunk_range (dropWhile ((=) (CHR ''-'')) old) of
             Inl e \<Rightarrow> Inl e
           | Inr (os, ol) \<Rightarrow>
               (case parse_hunk_range (dropWhile ((=) (CHR ''+'')) new) of
                  Inl e \<Rightarrow> Inl e
                | Inr (ns, nl) \<Rightarrow>
                    Inr \<lparr> old_start = os, old_lines = ol, new_start = ns, new_lines = nl,
                          hunk_body = [], last_line_tag = None, has_no_newline_marker = False \<rparr>))
      | _ \<Rightarrow> Inl (BadHunkHeader line))"

definition push_body :: "hunk_line \<Rightarrow> char \<Rightarrow> hunk \<Rightarrow> hunk" where
  "push_body hl tag h = h\<lparr>hunk_body := hunk_body h @ [hl], last_line_tag := Some tag,
     has_no_newline_marker := False\<rparr>"

definition parse_body_line :: "hunk \<Rightarrow> string \<Rightarrow> patch_error + hunk" where
  "parse_body_line h line =
     (case line of
        [] \<Rightarrow> Inr (h\<lparr>hunk_body := hunk_body h @ [HContext []]\<rparr>)
      | tag # row \<Rightarrow>
          if \<not> is_char_boundary line 1 then Inl (NotOnBoundary line)
          else if tag = CHR '' '' then Inr (push_body (HContext row) tag h)
          else if tag = CHR ''-'' then Inr (push_body (HRemove row) tag h)
          else if tag = CHR ''+'' then Inr (push_body (HAdd row) tag h)
          else if tag = CHR 0x5C then Inr (h\<lparr>has_no_newline_marker := True\<rparr>)
          else Inl (UnrecognizedLine line))"

text \<open>\<open>in_hunk\<close> of the source is true exactly once \<open>current\<close> has been set.\<close>

fun parse_diff_lines :: "hunk list \<Rightarrow> hunk option \<Rightarrow> string list \<Rightarrow> patch_error + hunk list" where
  "parse_diff_lines hunks current [] = Inr (hunks @ (case current of None \<Rightarrow> [] | Some h \<Rightarrow> [h]))"
| "parse_diff_lines hunks current (line # rest) =
     (if current = None \<and> (prefix ''--- '' line \<or> prefix ''+++ '' line)
      then parse_diff_lines hunks current rest
      else if prefix ''@@'' line then
        (case parse_hunk_header line of
           Inl e \<Rightarrow> Inl e
         | Inr h \<Rightarrow>
             parse_diff_lines (hunks @ (case current of None \<Rightarrow> [] | Some h0 \<Rightarrow> [h0])) (Some h) rest)
      else (case current of
              None \<Rightarrow> parse_diff_lines hunks current rest
            | Some h \<Rightarrow>
                (case parse_body_line h line of
                   Inl e \<Rightarrow> Inl e
                 | Inr h1 \<Rightarrow> parse_diff_lines hunks (Some h1) rest)))"

definition parse_unified_diff :: "string \<Rightarrow> patch_error + hunk list" where
  "parse_unified_diff patch = parse_diff_lines [] None (rust_lines patch)"

section \<open>Matching one hunk\<close>

text \<open>The loop over the body: the cursor into the file and the lines to put in place.\<close>

fun match_body :: "string list \<Rightarrow> nat \<Rightarrow> string list \<Rightarrow> hunk_line list \<Rightarrow> patch_error + nat \<times> string list" where
  "match_body ls cursor new [] = Inr (cursor, new)"
| "match_body ls cursor new (HContext row # body) =
     (if cursor < length ls then
        if ls ! cursor = row then match_body ls (cursor + 1) (new @ [ls ! cursor]) body
        else Inl (ContextMismatch (cursor + 1) row (ls ! cursor))
      else Inl (ContextAtEnd (cursor + 1)))"
| "match_body ls cursor new (HRemove row # body) =
     (if cursor < length ls then
        if ls ! cursor = row then match_body ls (cursor + 1) new body
        else Inl (RemovalMismatch (cursor + 1) row (ls ! cursor))
      else Inl (RemovalAtEnd (cursor + 1)))"
| "match_body ls cursor new (HAdd row # body) = match_body ls cursor (new @ [row]) body"

definition isize_wrap :: "int \<Rightarrow> int" where
  "isize_wrap x = (x + 2 ^ 63) mod 2 ^ 64 - 2 ^ 63"

definition to_isize :: "nat \<Rightarrow> int" where
  "to_isize n = (if n < 2 ^ 63 then int n else 2 ^ 63 - 1)"

definition hunk_target :: "int \<Rightarrow> hunk \<Rightarrow> nat" where
  "hunk_target offset h =
     nat (max (isize_wrap (isize_wrap (to_isize (old_start h) - 1) + offset)) 0)"

record apply_state =
  ap_lines :: "string list"
  ap_offset :: int
  ap_eof :: "bool option"

definition apply_hunk :: "bool \<Rightarrow> bool \<Rightarrow> apply_state \<Rightarrow> hunk \<Rightarrow> patch_error + apply_state" where
  "apply_hunk had_newline strips st h =
     (let ls = ap_lines st; target = hunk_target (ap_offset st) h
      in if length ls < target then Inl (PastEnd (old_start h) (length ls))
         else case match_body ls target [] (hunk_body h) of
           Inl e \<Rightarrow> Inl e
         | Inr (cursor, new) \<Rightarrow>
             if cursor - target \<noteq> old_lines h
             then Inl (CountMismatch (old_start h) (cursor - target) (old_lines h))
             else
               (let changed_last = (last_line_tag h = Some (CHR ''+'') \<or> last_line_tag h = Some (CHR ''-''))
                in Inr \<lparr> ap_lines = take target ls @ new @ drop cursor ls,
                     ap_offset = isize_wrap (ap_offset st
                       + isize_wrap (to_isize (new_lines h) - to_isize (old_lines h))),
                     ap_eof = (if cursor = length ls
                       then Some (if changed_last then \<not> has_no_newline_marker h
                                  else had_newline \<and> \<not> strips)
                       else ap_eof st) \<rparr>))"

fun apply_hunks :: "bool \<Rightarrow> bool \<Rightarrow> apply_state \<Rightarrow> hunk list \<Rightarrow> patch_error + apply_state" where
  "apply_hunks had_newline strips st [] = Inr st"
| "apply_hunks had_newline strips st (h # hs) =
     (case apply_hunk had_newline strips st h of
        Inl e \<Rightarrow> Inl e
      | Inr st1 \<Rightarrow> apply_hunks had_newline strips st1 hs)"

section \<open>A whole patch\<close>

definition uses_crlf :: "string \<Rightarrow> bool" where
  "uses_crlf original = contains_str [CHR 0x0D, CHR 0x0A] original"

definition ends_newline :: "string \<Rightarrow> bool" where
  "ends_newline original = ends_with [CHR 0x0A] original"

definition file_lines :: "string \<Rightarrow> string list" where
  "file_lines original =
     (let ls = (if original = [] then [] else map strip_cr (split_on (CHR 0x0A) original))
      in if ends_newline original \<and> ls \<noteq> [] \<and> last ls = [] then butlast ls else ls)"

definition patch_strips_newline :: "string \<Rightarrow> bool" where
  "patch_strips_newline patch =
     (case List.find (\<lambda>l. trim l \<noteq> []) (rev (rust_lines patch)) of
        None \<Rightarrow> False
      | Some l \<Rightarrow> prefix (CHR 0x5C # '' No newline at end of file'') l)"

definition emit_text :: "string \<Rightarrow> bool \<Rightarrow> apply_state \<Rightarrow> string" where
  "emit_text original strips st =
     (let sep = (if uses_crlf original then [CHR 0x0D, CHR 0x0A] else [CHR 0x0A]);
          out = join_with sep (ap_lines st);
          trailing = (case ap_eof st of
            Some b \<Rightarrow> b
          | None \<Rightarrow> ends_newline original \<and> \<not> strips)
      in if trailing \<and> ap_lines st \<noteq> [] then out @ sep else out)"

definition apply_unified_diff :: "string \<Rightarrow> string \<Rightarrow> patch_error + string" where
  "apply_unified_diff original patch =
     (case parse_unified_diff patch of
        Inl e \<Rightarrow> Inl e
      | Inr hunks \<Rightarrow>
          if hunks = [] then Inl NoHunks
          else
            (let strips = patch_strips_newline patch
             in case apply_hunks (ends_newline original) strips
                  \<lparr> ap_lines = file_lines original, ap_offset = 0, ap_eof = None \<rparr> hunks of
                  Inl e \<Rightarrow> Inl e
                | Inr st \<Rightarrow> Inr (emit_text original strips st)))"

section \<open>What a hunk says\<close>

fun old_of :: "hunk_line list \<Rightarrow> string list" where
  "old_of [] = []"
| "old_of (HContext row # body) = row # old_of body"
| "old_of (HRemove row # body) = row # old_of body"
| "old_of (HAdd row # body) = old_of body"

fun new_of :: "hunk_line list \<Rightarrow> string list" where
  "new_of [] = []"
| "new_of (HContext row # body) = row # new_of body"
| "new_of (HRemove row # body) = new_of body"
| "new_of (HAdd row # body) = row # new_of body"

lemma match_body_iff:
  "match_body ls cursor new body = Inr (c', new') \<longleftrightarrow>
     take (length (old_of body)) (drop cursor ls) = old_of body
       \<and> c' = cursor + length (old_of body) \<and> new' = new @ new_of body"
proof (induction ls cursor new body rule: match_body.induct)
  case (2 ls cursor new row body)
  then show ?case
    by (cases "cursor < length ls") (auto simp: Cons_nth_drop_Suc [symmetric])
next
  case (3 ls cursor new row body)
  then show ?case
    by (cases "cursor < length ls") (auto simp: Cons_nth_drop_Suc [symmetric])
qed auto

lemma match_body_matches:
  "match_body (pre @ old_of body @ post) (length pre) [] body
     = Inr (length pre + length (old_of body), new_of body)"
  by (simp add: match_body_iff)

text \<open>
  A hunk applies exactly when its target lies in the file, the lines there are its context
  and removed lines in order, and the header counts them; it then replaces exactly those lines
  by its context and added lines, and otherwise the patch is an error.
\<close>

theorem hunk_applies_exactly:
  "let t = hunk_target (ap_offset st) h; ls = ap_lines st; old = old_of (hunk_body h);
       fits = (t \<le> length ls \<and> take (length old) (drop t ls) = old \<and> length old = old_lines h)
   in case apply_hunk had strips st h of
        Inl e \<Rightarrow> \<not> fits
      | Inr st' \<Rightarrow> fits
          \<and> ap_lines st' = take t ls @ new_of (hunk_body h) @ drop (t + length old) ls"
proof (cases "match_body (ap_lines st) (hunk_target (ap_offset st) h) [] (hunk_body h)")
  case (Inl e)
  then have "take (length (old_of (hunk_body h))) (drop (hunk_target (ap_offset st) h) (ap_lines st))
      \<noteq> old_of (hunk_body h)"
    using match_body_iff [of "ap_lines st" "hunk_target (ap_offset st) h" "[]" "hunk_body h"] by auto
  with Inl show ?thesis by (simp add: apply_hunk_def Let_def)
next
  case (Inr r)
  obtain c new where r: "r = (c, new)" by (cases r)
  note body = Inr [unfolded r]
  show ?thesis
    using body body [unfolded match_body_iff] by (auto simp: apply_hunk_def Let_def)
qed

section \<open>A patch made from a file\<close>

text \<open>
  A file as a patch sees it: unchanged stretches and the bodies of the hunks between them. The
  header a diff tool writes for a body starts at its first old line (1-based), or, for a body
  with no old line, at the line before it.
\<close>

fun text_before :: "(string list \<times> hunk_line list) list \<Rightarrow> string list \<Rightarrow> string list" where
  "text_before [] post = post"
| "text_before ((gap, body) # segs) post = gap @ old_of body @ text_before segs post"

fun text_after :: "(string list \<times> hunk_line list) list \<Rightarrow> string list \<Rightarrow> string list" where
  "text_after [] post = post"
| "text_after ((gap, body) # segs) post = gap @ new_of body @ text_after segs post"

fun describes :: "nat \<Rightarrow> (string list \<times> hunk_line list) list \<Rightarrow> hunk list \<Rightarrow> bool" where
  "describes pos [] hs = (hs = [])"
| "describes pos ((gap, body) # segs) hs =
     (case hs of
        [] \<Rightarrow> False
      | h # hs' \<Rightarrow>
          hunk_body h = body \<and> old_lines h = length (old_of body) \<and> new_lines h = length (new_of body)
          \<and> old_start h = (if old_of body = [] then pos + length gap else pos + length gap + 1)
          \<and> describes (pos + length gap + length (old_of body)) segs hs')"

text \<open>The hunks a context diff has: no pure insertion away from the top of the file.\<close>

fun anchored :: "bool \<Rightarrow> (string list \<times> hunk_line list) list \<Rightarrow> bool" where
  "anchored fresh [] = True"
| "anchored fresh ((gap, body) # segs) =
     ((old_of body \<noteq> [] \<or> (fresh \<and> gap = [])) \<and> anchored False segs)"

lemma isize_wrap_small: "\<bar>x\<bar> < 2 ^ 62 \<Longrightarrow> isize_wrap x = x"
  by (simp add: isize_wrap_def abs_less_iff)

lemma isize_wrap_small2: "\<bar>x\<bar> \<le> 2 ^ 62 \<Longrightarrow> isize_wrap x = x"
  by (simp add: isize_wrap_def abs_le_iff)

lemma hunk_target_here:
  assumes off: "offset = int (length done) - int pos"
    and start: "old_start h = (if old = [] then pos + length gap else pos + length gap + 1)"
    and anch: "old \<noteq> [] \<or> (pos = 0 \<and> done = [] \<and> gap = [])"
    and small: "pos + length gap < 2 ^ 61" "length done < 2 ^ 61"
  shows "hunk_target offset h = length done + length gap"
proof (cases "old = []")
  case True
  with anch have "pos = 0" "gap = []" "done = []" by auto
  with True start off show ?thesis
    by (simp add: hunk_target_def to_isize_def isize_wrap_small)
next
  case False
  then have "to_isize (old_start h) - 1 = int (pos + length gap)"
    using start small by (simp add: to_isize_def)
  then have "isize_wrap (to_isize (old_start h) - 1) = int (pos + length gap)"
    using small by (simp add: isize_wrap_small)
  moreover have "isize_wrap (int (pos + length gap) + offset) = int (length done + length gap)"
    using small off by (subst isize_wrap_small) (auto simp: abs_if)
  ultimately show ?thesis by (simp add: hunk_target_def)
qed

lemma apply_described:
  assumes "describes pos segs hs" "anchored fresh segs"
    and "offset = int (length done) - int pos" "fresh \<longrightarrow> pos = 0 \<and> done = []"
    and "pos + length (text_before segs post) < 2 ^ 60" "length done + length (text_after segs post) < 2 ^ 60"
  shows "\<exists>st. apply_hunks had strips \<lparr> ap_lines = done @ text_before segs post, ap_offset = offset, ap_eof = eof \<rparr> hs
      = Inr st \<and> ap_lines st = done @ text_after segs post"
  using assms
proof (induction segs arbitrary: pos hs "done" offset eof fresh)
  case Nil
  then show ?case by simp
next
  case (Cons seg segs)
  obtain gap body where seg: "seg = (gap, body)" by (cases seg)
  obtain h hs' where hs: "hs = h # hs'" using Cons.prems(1) seg by (cases hs) auto
  let ?old = "old_of body" and ?new = "new_of body"
  let ?pos = "pos + length gap + length ?old" and ?done = "done @ gap @ ?new"
  have h: "hunk_body h = body" "old_lines h = length ?old" "new_lines h = length ?new"
    "old_start h = (if ?old = [] then pos + length gap else pos + length gap + 1)"
    "describes ?pos segs hs'"
    using Cons.prems(1) by (auto simp: seg hs)
  have small: "pos + length gap + length ?old + length (text_before segs post) < 2 ^ 60"
    "length done + length gap + length ?new + length (text_after segs post) < 2 ^ 60"
    using Cons.prems(5,6) by (simp_all add: seg)
  have target: "hunk_target offset h = length done + length gap"
  proof (rule hunk_target_here [OF Cons.prems(3) h(4)])
    show "?old \<noteq> [] \<or> (pos = 0 \<and> done = [] \<and> gap = [])" using Cons.prems(2,4) by (auto simp: seg)
    show "pos + length gap < 2 ^ 61" "length done < 2 ^ 61" using small by auto
  qed
  have body: "match_body (done @ gap @ ?old @ text_before segs post) (length done + length gap) [] body
      = Inr (length done + length gap + length ?old, ?new)"
    using match_body_matches [of "done @ gap" body "text_before segs post"] by simp
  have off: "isize_wrap (offset + isize_wrap (to_isize (length ?new) - to_isize (length ?old)))
      = int (length ?done) - int ?pos"
  proof -
    have "to_isize (length ?new) - to_isize (length ?old) = int (length ?new) - int (length ?old)"
      using small by (simp add: to_isize_def)
    moreover have "isize_wrap (int (length ?new) - int (length ?old)) = int (length ?new) - int (length ?old)"
      using small by (intro isize_wrap_small) auto
    moreover have "isize_wrap (int (length ?done) - int ?pos) = int (length ?done) - int ?pos"
      using small by (intro isize_wrap_small) auto
    ultimately show ?thesis
      using Cons.prems(3) by (simp only:) (simp add: algebra_simps)
  qed
  obtain st1 where st1: "apply_hunk had strips
      \<lparr> ap_lines = done @ text_before (seg # segs) post, ap_offset = offset, ap_eof = eof \<rparr> h = Inr st1"
    "ap_lines st1 = ?done @ text_before segs post" "ap_offset st1 = int (length ?done) - int ?pos"
    using body off by (simp add: apply_hunk_def Let_def target h seg)
  have "\<exists>st. apply_hunks had strips
      \<lparr> ap_lines = ?done @ text_before segs post, ap_offset = int (length ?done) - int ?pos, ap_eof = ap_eof st1 \<rparr> hs'
      = Inr st \<and> ap_lines st = ?done @ text_after segs post"
  proof (rule Cons.IH [OF h(5)])
    show "anchored False segs" using Cons.prems(2) by (simp add: seg)
  qed (use small in auto)
  moreover have "st1 = \<lparr> ap_lines = ?done @ text_before segs post,
      ap_offset = int (length ?done) - int ?pos, ap_eof = ap_eof st1 \<rparr>"
    using st1 by simp
  ultimately show ?case using st1(1) by (simp add: hs seg)
qed


definition sample_original :: string where
  "sample_original = ''a'' @ [CHR 0x0A] @ ''b'' @ [CHR 0x0A] @ ''c'' @ [CHR 0x0A]"

definition sample_patch :: string where
  "sample_patch = ''--- a/f'' @ [CHR 0x0A] @ ''+++ b/f'' @ [CHR 0x0A] @ ''@@ -2,1 +2,2 @@'' @ [CHR 0x0A]
     @ ''-b'' @ [CHR 0x0A] @ ''+B'' @ [CHR 0x0A] @ ''+x'' @ [CHR 0x0A]"

definition sample_hunk :: hunk where
  "sample_hunk = \<lparr> old_start = 2, old_lines = 1, new_start = 2, new_lines = 2,
     hunk_body = [HRemove ''b'', HAdd ''B'', HAdd ''x''], last_line_tag = Some CHR ''+'',
     has_no_newline_marker = False \<rparr>"

lemma sample_patch_parses: "parse_unified_diff sample_patch = Inr [sample_hunk]"
  by code_simp


text \<open>
  A hunk without context that inserts after line \<open>n\<close> is written \<open>@@ -n,0 +n+1,m @@\<close>. Below
  the first line the code puts its rows before line \<open>n\<close> instead: every zero-context insertion
  away from the top lands one line too early, without an error.
\<close>

theorem bare_insertion_lands_one_line_early:
  assumes "describes 0 [(gap, body)] [h]" and "old_of body = []" and "gap \<noteq> []"
    and "length gap < 2 ^ 60"
  shows "\<exists>st. apply_hunk had strips \<lparr> ap_lines = text_before [(gap, body)] post, ap_offset = 0, ap_eof = None \<rparr> h
      = Inr st
    \<and> ap_lines st = butlast gap @ new_of body @ last gap # post"
proof -
  have h: "old_start h = length gap" "hunk_body h = body" "old_lines h = 0" using assms(1,2) by simp_all
  have "hunk_target 0 h = length gap - 1"
    using assms(3,4) by (cases gap) (simp_all add: hunk_target_def h to_isize_def isize_wrap_small)
  moreover have "match_body (gap @ post) (length gap - 1) [] body = Inr (length gap - 1, new_of body)"
    using assms(2) by (simp add: match_body_iff)
  moreover have "take (length gap - 1) (gap @ post) = butlast gap" "drop (length gap - 1) (gap @ post) = last gap # post"
    using assms(3) by (cases gap rule: rev_cases; simp)+
  ultimately show ?thesis using assms(2) h by (simp add: apply_hunk_def Let_def)
qed

theorem bare_insertion_lands_one_line_early_witness:
  "\<exists>st. apply_hunk True False \<lparr> ap_lines = [''a'', ''b'', ''c''], ap_offset = 0, ap_eof = None \<rparr>
      \<lparr> old_start = 2, old_lines = 0, new_start = 3, new_lines = 1, hunk_body = [HAdd ''x''],
        last_line_tag = Some CHR ''+'', has_no_newline_marker = False \<rparr> = Inr st
    \<and> ap_lines st = [''a'', ''x'', ''b'', ''c'']"
  using bare_insertion_lands_one_line_early [of "[''a'', ''b'']" "[HAdd ''x'']"
      "\<lparr> old_start = 2, old_lines = 0, new_start = 3, new_lines = 1, hunk_body = [HAdd ''x''],
         last_line_tag = Some CHR ''+'', has_no_newline_marker = False \<rparr>" True False "[''c'']"]
  by simp

end
