(* ===== verification/Kod_Shell_Words.thy ===== *)
theory Kod_Shell_Words
  imports Kod_Text
begin

text \<open>
  How a shell command is read before it is judged, \<open>crates/kod-risk/src/classify.rs\<close>: the
  tokenizer with its quotes, operators, escapes and heredocs, the split into segments, and the
  unwrapping of \<open>sudo\<close>, \<open>env\<close>, \<open>timeout\<close> and the other wrappers down to the program
  that runs. A \<open>char\<close> of the source is the string of its UTF-8 bytes. The lemmas show what
  survives tokenizing and that the program behind any chain of wrappers is found, and two ways
  a second command escapes the reader.
\<close>

section \<open>The tokenizer\<close>

definition emit :: "string \<Rightarrow> string list" where
  "emit cur = (if cur = [] then [] else [cur])"

definition nl :: string where "nl = [CHR 0x0A]"
definition squote :: string where "squote = [CHR 0x27]"
definition dquote :: string where "dquote = [CHR 0x22]"
definition backslash :: string where "backslash = [CHR 0x5C]"

definition is_blank :: "string \<Rightarrow> bool" where
  "is_blank c = (c = '' '' \<or> c = [CHR 0x09] \<or> c = nl)"

definition is_operator :: "string \<Rightarrow> bool" where
  "is_operator c = (c = ''|'' \<or> c = '';'' \<or> c = ''&'')"

definition heredoc_sentinel :: string where
  "heredoc_sentinel = ''__kod_heredoc_unterminated__''"

text \<open>After \<open><<\<close>: an optional dash, blanks, the terminator word; and what follows it.\<close>

definition heredoc_start :: "string list \<Rightarrow> string list \<times> string list" where
  "heredoc_start cs =
     (let cs1 = (case cs of [] \<Rightarrow> [] | c # r \<Rightarrow> if c = ''-'' then r else cs);
          cs2 = dropWhile is_ws_char cs1
      in (takeWhile (\<lambda>c. \<not> is_ws_char c) cs2, dropWhile (\<lambda>c. \<not> is_ws_char c) cs2))"

definition trim_quote_marks :: "string list \<Rightarrow> string list" where
  "trim_quote_marks cs =
     (let q = (\<lambda>c. c = squote \<or> c = dquote)
      in rev (dropWhile q (rev (dropWhile q cs))))"

text \<open>Skipping the body; \<open>None\<close> when the text ends before the terminator line.\<close>

function heredoc_skip :: "string \<Rightarrow> string list \<Rightarrow> string list option" where
  "heredoc_skip stop [] = None"
| "heredoc_skip stop (c # cs) =
     (let line = takeWhile (\<lambda>x. x \<noteq> nl) (c # cs);
          rest = drop (Suc (length line)) (c # cs)
      in if trim (concat line) = stop then Some rest else heredoc_skip stop rest)"
  by pat_completeness auto
termination
  by (relation "measure (length \<circ> snd)") auto

lemma heredoc_skip_shorter: "heredoc_skip stop cs = Some r \<Longrightarrow> length r \<le> length cs"
proof (induction stop cs rule: heredoc_skip.induct)
  case (2 stop c cs)
  then show ?case by (fastforce simp: Let_def split: if_splits)
qed simp

lemma heredoc_start_shorter: "length (snd (heredoc_start cs)) \<le> length cs"
proof -
  let ?cs1 = "case cs of [] \<Rightarrow> [] | c # r \<Rightarrow> if c = ''-'' then r else cs"
  have "length ?cs1 \<le> length cs" by (cases cs) auto
  moreover have "length (snd (heredoc_start cs)) \<le> length ?cs1"
    unfolding heredoc_start_def Let_def snd_conv
    by (rule order_trans [OF length_dropWhile_le length_dropWhile_le])
  ultimately show ?thesis by (rule order_trans [rotated])
qed

function tok :: "bool \<Rightarrow> bool \<Rightarrow> string \<Rightarrow> string list \<Rightarrow> string list" where
  "tok s d cur [] = emit cur"
| "tok s d cur (c # cs) =
     (if c = squote \<and> \<not> d then tok (\<not> s) d (cur @ c) cs
      else if c = dquote \<and> \<not> s then tok s (\<not> d) (cur @ c) cs
      else if is_blank c \<and> \<not> s \<and> \<not> d then emit cur @ tok s d [] cs
      else if c = ''<'' \<and> \<not> s \<and> \<not> d \<and> cs \<noteq> [] \<and> hd cs = ''<'' then
        emit cur @
          (let rest = snd (heredoc_start (tl cs)); stop = fst (heredoc_start (tl cs))
           in if stop = [] then tok s d [] rest
              else (case heredoc_skip (concat (trim_quote_marks stop)) rest of
                      None \<Rightarrow> [heredoc_sentinel]
                    | Some r \<Rightarrow> tok s d [] r))
      else if is_operator c \<and> \<not> s \<and> \<not> d then
        emit cur @
          (if (c = ''&'' \<or> c = ''|'') \<and> cs \<noteq> [] \<and> hd cs = c then (c @ c) # tok s d [] (tl cs)
           else c # tok s d [] cs)
      else if c = backslash \<and> \<not> s \<and> \<not> d \<and> cs \<noteq> [] then tok s d (cur @ hd cs) (tl cs)
      else tok s d (cur @ c) cs)"
  by pat_completeness auto
termination
proof (relation "measure (\<lambda>(s, d, cur, cs). length cs)", goal_cases)
  case (5 s d cur c cs rest x)
  then show ?case
    using heredoc_start_shorter [of "tl cs"] by (simp add: le_less_trans [of _ "length (tl cs)"] less_Suc_eq_le)
next
  case (6 s d cur c cs rest x r)
  then have "length r \<le> length (snd (heredoc_start (tl cs)))" by (auto dest: heredoc_skip_shorter)
  with heredoc_start_shorter [of "tl cs"] show ?case by simp
qed auto

definition tokenize :: "string \<Rightarrow> string list" where
  "tokenize command = tok False False [] (utf8_chars command)"

section \<open>Words\<close>

definition unquote :: "string \<Rightarrow> string" where
  "unquote raw =
     (let t = trim raw
      in if (prefix dquote t \<and> ends_with dquote t \<and> 2 \<le> length t)
          \<or> (prefix squote t \<and> ends_with squote t \<and> 2 \<le> length t)
         then butlast (tl t) else t)"

definition strip_quotes :: "string \<Rightarrow> string" where
  "strip_quotes s = filter (\<lambda>c. c \<noteq> CHR 0x22 \<and> c \<noteq> CHR 0x27) s"

fun strip_single_quoted_from :: "bool \<Rightarrow> string \<Rightarrow> string" where
  "strip_single_quoted_from quoted [] = []"
| "strip_single_quoted_from quoted (c # cs) =
     (if c = CHR 0x27 then strip_single_quoted_from (\<not> quoted) cs
      else if quoted then strip_single_quoted_from quoted cs
      else c # strip_single_quoted_from quoted cs)"

definition strip_single_quoted :: "string \<Rightarrow> string" where
  "strip_single_quoted s = strip_single_quoted_from False s"

definition is_ascii_alpha :: "char \<Rightarrow> bool" where
  "is_ascii_alpha c = (let n = (of_char c :: nat) in (65 \<le> n \<and> n \<le> 90) \<or> (97 \<le> n \<and> n \<le> 122))"

definition is_ascii_alnum :: "char \<Rightarrow> bool" where
  "is_ascii_alnum c = (is_ascii_alpha c \<or> (let n = (of_char c :: nat) in 48 \<le> n \<and> n \<le> 57))"

definition looks_like_env_assignment :: "string \<Rightarrow> bool" where
  "looks_like_env_assignment t =
     (if prefix ''-'' t \<or> prefix ''/'' t then False
      else case split_once ''='' t of
        None \<Rightarrow> False
      | Some (name, _) \<Rightarrow>
          name \<noteq> [] \<and> (is_ascii_alpha (hd name) \<or> hd name = CHR ''_'')
            \<and> list_all (\<lambda>c. is_ascii_alnum c \<or> c = CHR ''_'') name)"

definition has_background_ampersand :: "string \<Rightarrow> bool" where
  "has_background_ampersand s =
     list_ex (\<lambda>i. s ! i = CHR ''&''
        \<and> \<not> (Suc i < length s \<and> s ! Suc i = CHR ''&'') \<and> \<not> (0 < i \<and> s ! (i - 1) = CHR ''&'')
        \<and> \<not> (Suc i < length s \<and> s ! Suc i = CHR ''>'') \<and> \<not> (0 < i \<and> s ! (i - 1) = CHR ''>''))
       [0..<length s]"

section \<open>Segments\<close>

definition is_separator :: "string \<Rightarrow> bool" where
  "is_separator t = (unquote t = ''|'' \<or> unquote t = '';'' \<or> unquote t = ''&&'' \<or> unquote t = ''||'')"

fun segments_from :: "string list \<Rightarrow> string list \<Rightarrow> string list list" where
  "segments_from cur [] = [cur]"
| "segments_from cur (t # ts) =
     (if is_separator t then cur # segments_from [] ts else segments_from (cur @ [t]) ts)"

definition split_segments :: "string list \<Rightarrow> string list list" where
  "split_segments ts = filter (\<lambda>seg. seg \<noteq> []) (segments_from [] ts)"

section \<open>Wrappers\<close>

text \<open>Each wrapper with its flags that take the next token and its leading positionals.\<close>

definition wrappers :: "(string \<times> string list \<times> nat) list" where
  "wrappers =
     [(''sudo'', [''-u'', ''-g'', ''-p'', ''-h'', ''-r'', ''-t'', ''-C''], 0),
      (''doas'', [''-u''], 0),
      (''env'', [''-u'', ''-C'', ''-S''], 0),
      (''nice'', [''-n''], 0),
      (''timeout'', [''-s'', ''-k''], 1),
      (''stdbuf'', [''-i'', ''-o'', ''-e''], 0),
      (''ionice'', [''-c'', ''-n'', ''-p''], 0),
      (''time'', [], 0),
      (''command'', [], 0),
      (''builtin'', [], 0),
      (''exec'', [''-a'', ''-c''], 0),
      (''xargs'', [''-n'', ''-I'', ''-i'', ''-P'', ''-s'', ''-d'', ''-a'', ''-E''], 0),
      (''nohup'', [], 0),
      (''watch'', [''-n''], 0),
      (''setsid'', [], 0),
      (''strace'', [''-o'', ''-p'', ''-s'', ''-e'', ''-u''], 0),
      (''ltrace'', [''-o'', ''-p'', ''-s'', ''-e'', ''-u''], 0),
      (''taskset'', [''-c'', ''-p''], 0),
      (''nsenter'', [''-t''], 0),
      (''pkexec'', [], 0),
      (''flock'', [''-e'', ''-s'', ''-x'', ''-n'', ''-w'', ''-E'', ''-o''], 1),
      (''chrt'', [], 1),
      (''unshare'', [], 0)]"

type_synonym unwrapped = "string option \<times> string list \<times> bool"

definition unwrap_optional_positional :: "string list \<Rightarrow> string \<Rightarrow> unwrapped" where
  "unwrap_optional_positional tokens wrapper =
     (let dashes = filter (\<lambda>i. unquote (tokens ! i) = ''--'') [0..<length tokens];
          c_end = (case dashes of [] \<Rightarrow> length tokens | i # _ \<Rightarrow> i);
          pos_start = (case dashes of [] \<Rightarrow> 1 | i # _ \<Rightarrow> i + 1);
          positionals = filter (\<lambda>i. unquote (tokens ! i) \<noteq> ''-'' \<and> \<not> prefix ''-'' (unquote (tokens ! i)))
            [pos_start..<length tokens]
      in if list_ex (\<lambda>t. unquote t = ''-c'') (drop 1 (take c_end tokens)) then (None, [], False)
         else (case positionals of
                 _ # prog_idx # _ \<Rightarrow>
                   (Some (strip_quotes (unquote (tokens ! prog_idx))), drop (Suc prog_idx) tokens, True)
               | _ \<Rightarrow> (Some wrapper, drop 1 tokens, True)))"

function skip_flags :: "string list \<Rightarrow> string list \<Rightarrow> string list" where
  "skip_flags flag_args [] = []"
| "skip_flags flag_args (t # ts) =
     (let a = unquote t
      in if prefix ''-'' a then skip_flags flag_args (if a \<in> set flag_args then drop 1 ts else ts)
         else if looks_like_env_assignment a then skip_flags flag_args ts
         else t # ts)"
  by pat_completeness auto
termination
  by (relation "measure (length \<circ> snd)") auto

fun skip_positional :: "nat \<Rightarrow> string list \<Rightarrow> string list" where
  "skip_positional n [] = []"
| "skip_positional n (t # ts) =
     (if n = 0 \<or> prefix ''-'' (unquote t) then t # ts else skip_positional (n - 1) ts)"

lemma skip_flags_length: "length (skip_flags fs ts) \<le> length ts"
  by (induction fs ts rule: skip_flags.induct) (fastforce simp: Let_def)+

lemma skip_positional_length: "length (skip_positional n ts) \<le> length ts"
  by (induction n ts rule: skip_positional.induct) auto

definition find_wrapper :: "string \<Rightarrow> (string list \<times> nat) option" where
  "find_wrapper program = map_of wrappers program"

function unwrap_loop :: "string list \<Rightarrow> string list \<Rightarrow> unwrapped" where
  "unwrap_loop whole [] = (None, [], True)"
| "unwrap_loop whole (t # ts) =
     (let p = strip_quotes (unquote t)
      in if p = ''script'' \<or> p = ''su'' then unwrap_optional_positional (t # ts) p
         else (case find_wrapper p of
                 None \<Rightarrow> (Some p, ts, True)
               | Some (flag_args, positional_skip) \<Rightarrow>
                   (let rest = skip_positional positional_skip (skip_flags flag_args ts);
                        consumed = take (length whole - length rest) whole
                    in if list_ex (\<lambda>x. unquote x = ''-S'') consumed then (None, [], False)
                       else unwrap_loop whole rest)))"
  by pat_completeness auto
termination
  by (relation "measure (length \<circ> snd)")
    (auto simp: less_Suc_eq_le intro: order_trans [OF skip_positional_length skip_flags_length])

definition unwrap :: "string list \<Rightarrow> unwrapped" where
  "unwrap tokens = unwrap_loop tokens (dropWhile (\<lambda>t. looks_like_env_assignment (unquote t)) tokens)"

section \<open>What tokenizing keeps\<close>

text \<open>The command without its unquoted blanks; quotes, operators and all else stay.\<close>

fun visible :: "bool \<Rightarrow> bool \<Rightarrow> string list \<Rightarrow> string" where
  "visible s d [] = []"
| "visible s d (c # cs) =
     (if c = squote \<and> \<not> d then c @ visible (\<not> s) d cs
      else if c = dquote \<and> \<not> s then c @ visible s (\<not> d) cs
      else if is_blank c \<and> \<not> s \<and> \<not> d then visible s d cs
      else c @ visible s d cs)"

fun no_heredoc :: "string list \<Rightarrow> bool" where
  "no_heredoc (a # b # cs) = (\<not> (a = ''<'' \<and> b = ''<'') \<and> no_heredoc (b # cs))"
| "no_heredoc _ = True"

lemma concat_emit [simp]: "concat (emit cur) = cur"
  by (simp add: emit_def)

lemma no_heredoc_tl: "no_heredoc cs \<Longrightarrow> no_heredoc (tl cs)"
  by (cases cs rule: no_heredoc.cases) auto

lemma no_heredoc_head: "no_heredoc (c # cs) \<Longrightarrow> \<not> (c = ''<'' \<and> cs \<noteq> [] \<and> hd cs = ''<'')"
  by (cases cs) auto

lemma operator_distinct:
  "is_operator c \<Longrightarrow> c \<noteq> squote \<and> c \<noteq> dquote \<and> \<not> is_blank c"
  by (auto simp: is_operator_def squote_def dquote_def is_blank_def nl_def)

lemma visible_operator: "is_operator c \<Longrightarrow> visible s d (c # cs) = c @ visible s d cs"
  by (simp add: operator_distinct)

lemma tok_step:
  assumes "\<not> (c = ''<'' \<and> cs \<noteq> [] \<and> hd cs = ''<'')" and "c \<noteq> backslash"
  shows "tok s d cur (c # cs) =
     (if c = squote \<and> \<not> d then tok (\<not> s) d (cur @ c) cs
      else if c = dquote \<and> \<not> s then tok s (\<not> d) (cur @ c) cs
      else if is_blank c \<and> \<not> s \<and> \<not> d then emit cur @ tok s d [] cs
      else if is_operator c \<and> \<not> s \<and> \<not> d then
        emit cur @
          (if (c = ''&'' \<or> c = ''|'') \<and> cs \<noteq> [] \<and> hd cs = c then (c @ c) # tok s d [] (tl cs)
           else c # tok s d [] cs)
      else tok s d (cur @ c) cs)"
proof -
  have "(c = ''<'' \<and> \<not> s \<and> \<not> d \<and> cs \<noteq> [] \<and> hd cs = ''<'') = False"
    "(c = backslash \<and> \<not> s \<and> \<not> d \<and> cs \<noteq> []) = False"
    using assms by blast+
  then show ?thesis by (simp only: tok.simps(2) if_False)
qed

lemma tok_keeps:
  "no_heredoc cs \<Longrightarrow> backslash \<notin> set cs \<Longrightarrow> concat (tok s d cur cs) = cur @ visible s d cs"
proof (induction cs arbitrary: s d cur rule: length_induct)
  case (1 xs)
  show ?case
  proof (cases xs)
    case Nil
    then show ?thesis by simp
  next
    case (Cons c cs)
    have ok: "no_heredoc cs" "backslash \<notin> set cs" "c \<noteq> backslash"
      using 1(2,3) no_heredoc_tl [of xs] by (auto simp: Cons)
    have ih: "concat (tok s d cur cs) = cur @ visible s d cs" for s d cur
      using 1(1) ok by (simp add: Cons)
    note step = tok_step [OF no_heredoc_head [OF 1(2) [unfolded Cons]] ok(3), of s d cur]
    show ?thesis
    proof (cases "is_operator c \<and> \<not> s \<and> \<not> d \<and> cs \<noteq> [] \<and> hd cs = c \<and> (c = ''&'' \<or> c = ''|'')")
      case True
      then obtain cs' where cs: "cs = c # cs'" by (cases cs) auto
      have "concat (tok s d [] cs') = visible s d cs'"
        using 1(1) ok no_heredoc_tl [of cs] by (simp add: Cons cs)
      with True step operator_distinct [of c] show ?thesis
        by (simp add: Cons cs del: tok.simps(2))
    next
      case False
      then show ?thesis
        using operator_distinct [of c] by (simp add: Cons step ih del: tok.simps(2)) auto
    qed
  qed
qed

lemma emit_nonempty: "t \<in> set (emit cur) \<Longrightarrow> t \<noteq> []"
  by (simp add: emit_def split: if_splits)

text \<open>
  Apart from heredocs and escapes, which remove text on purpose, tokenizing loses nothing
  but unquoted blanks: the tokens joined together are the command without them, quotes and
  operators included, in order.
\<close>

theorem tokenize_keeps_text:
  assumes "no_heredoc (utf8_chars command)" and "backslash \<notin> set (utf8_chars command)"
  shows "concat (tokenize command) = visible False False (utf8_chars command)"
  using tok_keeps [OF assms, of False False "[]"] by (simp add: tokenize_def)

theorem tokenize_keeps_text_witness:
  "concat (tokenize ''cat 'a b'|grep x'') = ''cat'' @ squote @ ''a b'' @ squote @ ''|grepx''"
proof -
  have h: "no_heredoc (utf8_chars ''cat 'a b'|grep x'')" "backslash \<notin> set (utf8_chars ''cat 'a b'|grep x'')"
    by code_simp+
  have v: "visible False False (utf8_chars ''cat 'a b'|grep x'') = ''cat'' @ squote @ ''a b'' @ squote @ ''|grepx''"
    by code_simp
  from tokenize_keeps_text [OF h] v show ?thesis by simp
qed

section \<open>Two ways past the reader\<close>

text \<open>
  An unquoted newline ends a token like a blank and does not end the command, so what the
  shell runs as a second command is read as arguments of the first: \<open>ls\<close>, newline,
  \<open>rm -rf ~\<close> is one segment whose program is \<open>ls\<close>.
\<close>

theorem newline_hides_a_command:
  "tok False False cur (nl # cs) = tok False False cur ('' '' # cs)
   \<and> split_segments (tokenize (''ls'' @ nl @ ''rm -rf ~'')) = [[''ls'', ''rm'', ''-rf'', ''~'']]
   \<and> unwrap [''ls'', ''rm'', ''-rf'', ''~''] = (Some ''ls'', [''rm'', ''-rf'', ''~''], True)"
proof (intro conjI)
  show "tok False False cur (nl # cs) = tok False False cur ('' '' # cs)"
    by (simp add: nl_def squote_def dquote_def is_blank_def)
  show "split_segments (tokenize (''ls'' @ nl @ ''rm -rf ~'')) = [[''ls'', ''rm'', ''-rf'', ''~'']]"
    by code_simp
  show "unwrap [''ls'', ''rm'', ''-rf'', ''~''] = (Some ''ls'', [''rm'', ''-rf'', ''~''], True)"
    by code_simp
qed

definition chars_of :: "string \<Rightarrow> string list" where
  "chars_of s = map (\<lambda>c. [c]) s"

lemma heredoc_skip_two_lines:
  assumes "nl \<notin> set line" and "trim (concat line) \<noteq> stop"
    and "trim (concat fin) = stop" and "nl \<notin> set fin" and "fin \<noteq> []"
  shows "heredoc_skip stop (line @ nl # fin) = Some []"
proof -
  have tw: "takeWhile (\<lambda>x. x \<noteq> nl) (line @ nl # fin) = line"
    using assms(1) by (subst takeWhile_append2) auto
  have tf: "takeWhile (\<lambda>x. x \<noteq> nl) fin = fin" using assms(4) by (auto simp: takeWhile_eq_all_conv)
  have last_line: "heredoc_skip stop fin = Some []"
    using assms(3,5) tf by (cases fin) (simp_all add: Let_def)
  obtain x xs where x: "line @ nl # fin = x # xs" by (cases "line @ nl # fin") auto
  have "drop (Suc (length line)) (line @ nl # fin) = fin" by simp
  with tw last_line assms(2) show ?thesis
    unfolding x by (simp add: Let_def)
qed

text \<open>
  What follows a heredoc's terminator word on its own line is taken for the first line of
  the body and dropped, although the shell runs it: whatever one line \<open>rest\<close> is,
  \<open>cat <<EOF rest\<close>, newline, \<open>EOF\<close> tokenizes to \<open>cat\<close> alone, with no sentinel.
\<close>

theorem heredoc_line_is_swallowed:
  assumes "nl \<notin> set rest" and "trim (concat ('' '' # rest)) \<noteq> ''EOF''"
  shows "tok False False [] (chars_of ''cat <<EOF'' @ '' '' # rest @ nl # chars_of ''EOF'') = [''cat'']"
proof -
  let ?tail = "('' '' # rest) @ nl # chars_of ''EOF''"
  have skip: "heredoc_skip ''EOF'' ?tail = Some []"
    using assms by (intro heredoc_skip_two_lines) (auto simp: chars_of_def nl_def, code_simp)
  have ws: "is_ws_char '' ''" "\<not> is_ws_char ''E''" "\<not> is_ws_char ''O''" "\<not> is_ws_char ''F''" by code_simp+
  have start: "heredoc_start (chars_of ''EOF'' @ ?tail) = (chars_of ''EOF'', ?tail)"
    using ws by (simp add: heredoc_start_def chars_of_def Let_def)
  have "concat (trim_quote_marks (chars_of ''EOF'')) = ''EOF''" by code_simp
  with start skip show ?thesis
    by (simp add: chars_of_def squote_def dquote_def is_blank_def nl_def is_operator_def backslash_def
        emit_def Let_def)
qed

theorem heredoc_line_is_swallowed_witness:
  "tok False False [] (chars_of ''cat <<EOF'' @ '' '' # chars_of ''; rm -rf ~'' @ nl # chars_of ''EOF'') = [''cat'']"
  by (rule heredoc_line_is_swallowed) code_simp+

section \<open>The program behind the wrappers\<close>

text \<open>
  One use of a wrapper: its name, its own arguments in groups (a flag, a flag with the token it
  takes, or an environment assignment), and its positional arguments.
\<close>

record wrapper_use =
  wu_name :: string
  wu_groups :: "string list list"
  wu_positional :: "string list"

definition bare :: "string \<Rightarrow> bool" where
  "bare t = (unquote t = t \<and> strip_quotes t = t \<and> t \<noteq> ''-S'')"

definition plain_word :: "string \<Rightarrow> bool" where
  "plain_word t = (bare t \<and> \<not> prefix ''-'' t \<and> \<not> looks_like_env_assignment t)"

definition group_ok :: "string list \<Rightarrow> string list \<Rightarrow> bool" where
  "group_ok flag_args g = (list_all bare g \<and>
     (case g of
        [a] \<Rightarrow> (prefix ''-'' a \<and> a \<notin> set flag_args) \<or> looks_like_env_assignment a
      | [a, v] \<Rightarrow> prefix ''-'' a \<and> a \<in> set flag_args
      | _ \<Rightarrow> False))"

definition use_ok :: "wrapper_use \<Rightarrow> bool" where
  "use_ok u = (bare (wu_name u) \<and> \<not> looks_like_env_assignment (wu_name u)
     \<and> (case find_wrapper (wu_name u) of
          None \<Rightarrow> False
        | Some (flag_args, n) \<Rightarrow>
            list_all (group_ok flag_args) (wu_groups u) \<and> length (wu_positional u) = n)
     \<and> list_all plain_word (wu_positional u))"

definition use_tokens :: "wrapper_use \<Rightarrow> string list" where
  "use_tokens u = wu_name u # concat (wu_groups u) @ wu_positional u"

definition is_program :: "string \<Rightarrow> bool" where
  "is_program p = (plain_word p \<and> p \<noteq> ''script'' \<and> p \<noteq> ''su'' \<and> find_wrapper p = None)"

lemma not_wrappers [simp]: "find_wrapper ''script'' = None" "find_wrapper ''su'' = None"
  by code_simp+

lemma env_not_flag: "looks_like_env_assignment a \<Longrightarrow> \<not> prefix ''-'' a"
  by (simp add: looks_like_env_assignment_def split: if_splits)

lemma skip_flags_groups:
  assumes "list_all (group_ok fa) gs" and "rest \<noteq> [] \<Longrightarrow> plain_word (hd rest)"
  shows "skip_flags fa (concat gs @ rest) = rest"
  using assms
proof (induction gs)
  case Nil
  then show ?case by (cases rest) (auto simp: plain_word_def bare_def Let_def)
next
  case (Cons g gs)
  have g: "group_ok fa g" using Cons.prems by simp
  consider a where "g = [a]" "bare a" "(prefix ''-'' a \<and> a \<notin> set fa) \<or> looks_like_env_assignment a"
    | a v where "g = [a, v]" "bare a" "prefix ''-'' a" "a \<in> set fa"
    using g by (auto simp: group_ok_def split: list.splits)
  then show ?case
    using Cons by cases (auto simp: bare_def Let_def dest: env_not_flag)
qed

lemma skip_positional_words:
  "list_all plain_word pos \<Longrightarrow> skip_positional (length pos) (pos @ rest) = rest"
proof (induction pos)
  case Nil
  then show ?case by (cases rest) auto
qed (auto simp: plain_word_def bare_def)

lemma unwrap_loop_use:
  assumes u: "use_ok u" and whole: "whole = before @ use_tokens u @ rest"
    and before: "list_all bare before" and rest: "rest \<noteq> []" "bare (hd rest)" "\<not> prefix ''-'' (hd rest)"
      "\<not> looks_like_env_assignment (hd rest)"
  shows "unwrap_loop whole (use_tokens u @ rest) = unwrap_loop whole rest"
proof -
  obtain fa n where fw: "find_wrapper (wu_name u) = Some (fa, n)"
      "list_all (group_ok fa) (wu_groups u)" "length (wu_positional u) = n"
    using u by (auto simp: use_ok_def split: option.splits)
  have name: "strip_quotes (unquote (wu_name u)) = wu_name u" "wu_name u \<noteq> ''script''" "wu_name u \<noteq> ''su''"
    using u fw by (auto simp: use_ok_def bare_def)
  have words: "list_all plain_word (wu_positional u)" using u by (simp add: use_ok_def)
  have pw: "plain_word (hd (wu_positional u @ rest))"
    using words rest by (cases "wu_positional u") (auto simp: plain_word_def)
  have "skip_flags fa (concat (wu_groups u) @ wu_positional u @ rest) = wu_positional u @ rest"
    using pw by (intro skip_flags_groups [OF fw(2)]) simp
  then have skip: "skip_positional n (skip_flags fa (concat (wu_groups u) @ wu_positional u @ rest)) = rest"
    using skip_positional_words [OF words, of rest] fw(3) by simp
  have "list_all bare (concat (wu_groups u))"
    using fw(2) by (auto simp: list_all_iff group_ok_def)
  then have bares: "list_all bare (before @ use_tokens u)"
    using before u words by (auto simp: use_tokens_def use_ok_def list_all_iff plain_word_def)
  have "take (length whole - length rest) whole = before @ use_tokens u" by (simp add: whole)
  moreover have "\<not> list_ex (\<lambda>x. unquote x = ''-S'') (before @ use_tokens u)"
    using bares by (auto simp: list_ex_iff list_all_iff bare_def)
  ultimately show ?thesis
    using skip name fw(1) by (simp add: use_tokens_def Let_def)
qed

lemma use_tokens_head: "use_ok u \<Longrightarrow> bare (hd (use_tokens u)) \<and> \<not> looks_like_env_assignment (hd (use_tokens u))"
  by (auto simp: use_ok_def use_tokens_def)

lemma wrapper_names_plain: "find_wrapper w = Some x \<Longrightarrow> \<not> prefix ''-'' w"
proof -
  have "list_all (\<lambda>(w, _). \<not> prefix ''-'' w) wrappers" by code_simp
  then show "find_wrapper w = Some x \<Longrightarrow> \<not> prefix ''-'' w"
    by (auto simp: find_wrapper_def list_all_iff dest!: map_of_SomeD)
qed

lemma unwrap_loop_chain:
  assumes "list_all use_ok us" "list_all bare before" "is_program p"
    and "whole = before @ concat (map use_tokens us) @ p # args"
  shows "unwrap_loop whole (concat (map use_tokens us) @ p # args) = (Some p, args, True)"
  using assms
proof (induction us arbitrary: before)
  case Nil
  then show ?case by (simp add: is_program_def plain_word_def bare_def)
next
  case (Cons u us)
  let ?rest = "concat (map use_tokens us) @ p # args"
  have head: "bare (hd ?rest) \<and> \<not> prefix ''-'' (hd ?rest) \<and> \<not> looks_like_env_assignment (hd ?rest)"
  proof (cases us)
    case Nil
    with Cons.prems(3) show "bare (hd ?rest) \<and> \<not> prefix ''-'' (hd ?rest) \<and> \<not> looks_like_env_assignment (hd ?rest)"
      by (simp_all add: is_program_def plain_word_def)
  next
    case (Cons v vs)
    have v: "use_ok v" using Cons.prems(1) Cons by simp
    then have "\<not> prefix ''-'' (wu_name v)"
      by (auto simp: use_ok_def dest: wrapper_names_plain split: option.splits)
    with v Cons show "bare (hd ?rest) \<and> \<not> prefix ''-'' (hd ?rest) \<and> \<not> looks_like_env_assignment (hd ?rest)"
      by (simp_all add: use_ok_def use_tokens_def)
  qed
  have u: "use_ok u" using Cons.prems(1) by simp
  have "list_all bare (use_tokens u)"
    using u by (auto simp: use_ok_def use_tokens_def list_all_iff group_ok_def plain_word_def split: option.splits)
  then have bares: "list_all bare (before @ use_tokens u)" using Cons.prems(2) by simp
  have "unwrap_loop whole (use_tokens u @ ?rest) = unwrap_loop whole ?rest"
    by (rule unwrap_loop_use [OF u _ Cons.prems(2)]) (use Cons.prems(4) head in simp_all)
  also have "\<dots> = (Some p, args, True)"
    by (rule Cons.IH [OF _ bares Cons.prems(3)]) (use Cons.prems in simp_all)
  finally show ?case by simp
qed

text \<open>
  Unwrapping reaches the program that runs: behind any environment assignments and any
  chain of the known wrappers, each with its own flags, flag arguments, assignments and
  positionals, the result is that program with exactly the arguments after it.
\<close>

theorem unwrap_reaches_program:
  assumes "list_all (\<lambda>t. bare t \<and> looks_like_env_assignment t) envs" and "list_all use_ok us"
    and "is_program p"
  shows "unwrap (envs @ concat (map use_tokens us) @ p # args) = (Some p, args, True)"
proof -
  let ?rest = "concat (map use_tokens us) @ p # args"
  have "bare (hd ?rest) \<and> \<not> looks_like_env_assignment (hd ?rest)"
    using assms(2,3) use_tokens_head
    by (cases us) (auto simp: is_program_def plain_word_def use_tokens_def use_ok_def)
  then have "dropWhile (\<lambda>t. looks_like_env_assignment (unquote t)) ?rest = ?rest"
    by (cases ?rest) (auto simp: bare_def)
  moreover have "\<forall>t \<in> set envs. looks_like_env_assignment (unquote t)"
    using assms(1) by (auto simp: list_all_iff bare_def)
  ultimately have "dropWhile (\<lambda>t. looks_like_env_assignment (unquote t)) (envs @ ?rest) = ?rest"
    by (simp add: dropWhile_append2)
  moreover have "list_all bare envs" using assms(1) by (auto simp: list_all_iff)
  ultimately show ?thesis
    using unwrap_loop_chain [OF assms(2) _ assms(3), of envs "envs @ ?rest" args] by (simp add: unwrap_def)
qed

theorem unwrap_reaches_program_witness:
  "unwrap ([''FOO=1''] @ concat (map use_tokens
     [\<lparr> wu_name = ''sudo'', wu_groups = [[''-u'', ''root''], [''-n'']], wu_positional = [] \<rparr>,
      \<lparr> wu_name = ''timeout'', wu_groups = [], wu_positional = [''30''] \<rparr>])
     @ ''rm'' # [''-rf'', ''/'']) = (Some ''rm'', [''-rf'', ''/''], True)"
proof (rule unwrap_reaches_program)
  show "list_all (\<lambda>t. bare t \<and> looks_like_env_assignment t) [''FOO=1'']" by code_simp
  show "list_all use_ok
     [\<lparr> wu_name = ''sudo'', wu_groups = [[''-u'', ''root''], [''-n'']], wu_positional = [] \<rparr>,
      \<lparr> wu_name = ''timeout'', wu_groups = [], wu_positional = [''30''] \<rparr>]" by code_simp
  show "is_program ''rm''" by code_simp
qed

end
