(* ===== verification/Kod_Binaries.thy ===== *)
theory Kod_Binaries
  imports Kod_Shell_Words
begin

text \<open>
  Which programs a command line names, as the permission policy sees it:
  \<open>binary_candidates\<close> of \<open>crates/kod-config/src/policy.rs\<close>, over the shared tokenizer. The
  wrapper table of the source is a second copy of the one in
  \<open>crates/kod-risk/src/classify.rs\<close>; \<open>prefix_wrappers\<close> is that copy, and a lemma shows the
  two agree. The lemmas say which program is found first, and that commands after a separator
  are not looked at.
\<close>

section \<open>The policy's own tables\<close>

definition prefix_wrappers :: "(string \<times> string list \<times> nat) list" where
  "prefix_wrappers =
     [(''sudo'', [''-u'', ''-g'', ''-p'', ''-h'', ''-r'', ''-t'', ''-C''], 0),
      (''doas'', [''-u''], 0),
      (''env'', [''-u'', ''-C'', ''-S''], 0),
      (''nice'', [''-n''], 0),
      (''timeout'', [''-s'', ''-k''], 1),
      (''stdbuf'', [''-i'', ''-o'', ''-e''], 0),
      (''ionice'', [''-c'', ''-n'', ''-p''], 0),
      (''time'', [], 0),
      (''command'', [], 0),
      (''builtin'', [], 0),
      (''exec'', [''-a'', ''-c''], 0),
      (''xargs'', [''-n'', ''-I'', ''-i'', ''-P'', ''-s'', ''-d'', ''-a'', ''-E''], 0),
      (''nohup'', [], 0),
      (''watch'', [''-n''], 0),
      (''setsid'', [], 0),
      (''strace'', [''-o'', ''-p'', ''-s'', ''-e'', ''-u''], 0),
      (''ltrace'', [''-o'', ''-p'', ''-s'', ''-e'', ''-u''], 0),
      (''taskset'', [''-c'', ''-p''], 0),
      (''nsenter'', [''-t''], 0),
      (''pkexec'', [], 0),
      (''flock'', [''-e'', ''-s'', ''-x'', ''-n'', ''-w'', ''-E'', ''-o''], 1),
      (''chrt'', [], 1),
      (''unshare'', [], 0)]"

definition command_string_wrappers :: "string list" where
  "command_string_wrappers = [''bash'', ''sh'', ''zsh'', ''dash'', ''ksh'']"

lemma wrapper_tables_agree: "prefix_wrappers = wrappers"
  by (simp add: prefix_wrappers_def wrappers_def)

section \<open>One level of wrapping\<close>

definition base_name :: "string \<Rightarrow> string" where
  "base_name s = last (split_on (CHR ''/'') s)"

definition drop_dashes :: "string list \<Rightarrow> string list" where
  "drop_dashes ts = (case ts of [] \<Rightarrow> [] | t # r \<Rightarrow> if unquote t = ''--'' then r else ts)"

text \<open>
  The scan over a wrapper's own arguments ends with an inner command string or with the tokens
  from the first that is no flag.
\<close>

datatype wrapper_scan = InnerCommand string | Remaining "string list"

function scan_args :: "bool \<Rightarrow> string list \<Rightarrow> string list \<Rightarrow> wrapper_scan" where
  "scan_args shell flag_args [] = Remaining []"
| "scan_args shell flag_args (raw # rest) =
     (let t = unquote raw
      in if t = ''--'' then scan_args shell flag_args rest
         else if shell \<and> (t = ''-c'' \<or> t = ''--command'') then InnerCommand (join_with '' '' (drop_dashes rest))
         else if shell \<and> prefix ''--command='' t then
           InnerCommand (join_with '' '' (drop (length ''--command='') t # rest))
         else if prefix ''--'' t then scan_args shell flag_args rest
         else if prefix ''-'' t \<and> 1 < length t then
           (if shell \<and> CHR ''c'' \<in> set (tl t) \<and> CHR ''='' \<notin> set (tl t)
            then InnerCommand (join_with '' '' (drop_dashes rest))
            else scan_args shell flag_args (if t \<in> set flag_args then drop 1 rest else rest))
         else Remaining (raw # rest))"
  by pat_completeness auto
termination
  by (relation "measure (\<lambda>(_, _, ts). length ts)") auto

text \<open>
  \<open>script\<close> and \<open>su\<close>: the tokens start at the wrapper; the result is the command to look at
  next, if one is visible.
\<close>

definition optional_positional_next :: "string list \<Rightarrow> string option" where
  "optional_positional_next toks =
     (let dashes = filter (\<lambda>i. unquote (toks ! i) = ''--'') [0..<length toks];
          c_end = (case dashes of [] \<Rightarrow> length toks | i # _ \<Rightarrow> i);
          c_flags = filter (\<lambda>i. unquote (toks ! i) = ''-c'') [1..<c_end];
          c_start = (case c_flags of
             [] \<Rightarrow> None
           | i # _ \<Rightarrow>
               (let r = (if i + 1 < length toks \<and> unquote (toks ! (i + 1)) = ''--'' then i + 2 else i + 1)
                in if r < length toks then Some r else None));
          pos_start = (case dashes of [] \<Rightarrow> 1 | i # _ \<Rightarrow> i + 1);
          positionals = filter (\<lambda>i. unquote (toks ! i) \<noteq> ''-'' \<and> \<not> prefix ''-'' (unquote (toks ! i)))
            [pos_start..<length toks]
      in case c_start of
           Some r \<Rightarrow> Some (strip_quotes (join_with '' '' (drop r toks)))
         | None \<Rightarrow>
             (case positionals of
                _ # i # _ \<Rightarrow> Some (strip_quotes (join_with '' '' (drop i toks)))
              | _ \<Rightarrow> None))"

definition wrapped_next :: "string \<Rightarrow> string list \<Rightarrow> string option" where
  "wrapped_next first args =
     (let shell = (first \<in> set command_string_wrappers);
          entry = map_of prefix_wrappers first;
          flag_args = (case entry of None \<Rightarrow> [] | Some (f, _) \<Rightarrow> f);
          skip = (case entry of None \<Rightarrow> 0 | Some (_, n) \<Rightarrow> n)
      in if \<not> shell \<and> entry = None then None
         else case scan_args shell flag_args args of
           InnerCommand s \<Rightarrow> (let c = unquote (trim s) in if c = [] then None else Some c)
         | Remaining rest \<Rightarrow>
             if shell then None
             else if length rest \<le> skip then None
             else Some (join_with '' '' (drop skip rest)))"

text \<open>The candidate of one round, and the command of the next.\<close>

definition candidate_round :: "string \<Rightarrow> (string \<times> string option) option" where
  "candidate_round cur =
     (case dropWhile looks_like_env_assignment (tokenize cur) of
        [] \<Rightarrow> None
      | t # args \<Rightarrow>
          (let first = unquote (base_name t)
           in if first = [] then None
              else Some (first,
                if first = ''script'' \<or> first = ''su'' then optional_positional_next (t # args)
                else wrapped_next first args)))"

fun candidate_rounds :: "nat \<Rightarrow> string \<Rightarrow> string list" where
  "candidate_rounds n cur =
     (if n = 0 then []
      else case candidate_round cur of
        None \<Rightarrow> []
      | Some (first, next) \<Rightarrow>
          first # (case next of None \<Rightarrow> [] | Some cur' \<Rightarrow> candidate_rounds (n - 1) cur'))"

declare candidate_rounds.simps [simp del]

definition binary_candidates :: "string \<Rightarrow> string list" where
  "binary_candidates cmd = candidate_rounds 4 (trim cmd)"

section \<open>What is found\<close>

lemma candidates_bounded: "length (binary_candidates cmd) \<le> 4"
proof -
  have "length (candidate_rounds n cur) \<le> n" for n cur
    by (induction n arbitrary: cur)
      (auto simp: candidate_rounds.simps [of 0] candidate_rounds.simps [of "Suc _"] split: option.splits prod.splits)
  then show ?thesis by (simp add: binary_candidates_def)
qed

section \<open>What follows a separator\<close>

definition word_chars :: string where
  "word_chars = ''abcdefghijklmnopqrstuvwxyzABCDEFGHIJKLMNOPQRSTUVWXYZ0123456789_-.''"

definition tame :: "char \<Rightarrow> bool" where
  "tame c = (solid c \<and> [c] \<noteq> squote \<and> [c] \<noteq> dquote \<and> \<not> is_blank [c] \<and> [c] \<noteq> ''<''
     \<and> \<not> is_operator [c] \<and> [c] \<noteq> backslash \<and> c \<noteq> CHR ''/'' \<and> c \<noteq> CHR ''='')"

definition is_word :: "string \<Rightarrow> bool" where
  "is_word w = (w \<noteq> [] \<and> list_all (\<lambda>c. c \<in> set word_chars) w)"

lemma word_chars_tame: "c \<in> set word_chars \<Longrightarrow> tame c"
proof -
  have "list_all tame word_chars" by code_simp
  then show "c \<in> set word_chars \<Longrightarrow> tame c" by (simp add: list_all_iff)
qed

lemma is_word_tame: "is_word w \<Longrightarrow> list_all tame w"
  by (auto simp: is_word_def list_all_iff intro: word_chars_tame)

lemma tok_tame:
  assumes "tame c"
  shows "tok False False cur ([c] # cs) = tok False False (cur @ [c]) cs"
proof -
  have f: "([c] = squote) = False" "([c] = dquote) = False" "is_blank [c] = False" "([c] = ''<'') = False"
    "is_operator [c] = False" "([c] = backslash) = False"
    using assms unfolding tame_def by blast+
  show ?thesis by (simp only: tok.simps(2) f if_False simp_thms)
qed

lemma tok_word:
  "list_all tame w \<Longrightarrow> tok False False cur (map (\<lambda>c. [c]) w @ cs) = tok False False (cur @ w) cs"
  by (induction w arbitrary: cur) (simp_all add: tok_tame del: tok.simps(2))

lemma unquote_word: "w \<noteq> [] \<Longrightarrow> list_all tame w \<Longrightarrow> unquote w = w"
proof -
  assume w: "w \<noteq> []" "list_all tame w"
  then have h: "tame (hd w)" "tame (last w)" by (simp_all add: list_all_iff)
  then have "trim w = w" using w(1) by (intro trim_solid) (auto simp: tame_def)
  moreover have "[hd w] \<noteq> dquote" "[hd w] \<noteq> squote" using h(1) unfolding tame_def by blast+
  then have "\<not> prefix dquote w" "\<not> prefix squote w" by (auto simp: prefix_def dquote_def squote_def)
  ultimately show ?thesis by (simp add: unquote_def Let_def)
qed

lemma split_once_none: "x \<notin> set s \<Longrightarrow> split_once [x] s = None"
  by (induction s) (auto simp: prefix_def)

lemma solid_semicolon: "solid CHR '';''"
  by code_simp

lemma tokenize_word_semicolon:
  assumes "w \<noteq> []" "list_all tame w" and rest: "rest = [] \<or> \<not> is_cont (hd rest)"
  shows "\<exists>ts. tokenize (w @ CHR '';'' # rest) = w # ts"
proof -
  have cont: "\<not> is_cont CHR '';''" using solid_semicolon by (simp add: solid_def)
  then have "utf8_chars (w @ CHR '';'' # rest) = utf8_chars w @ utf8_chars (CHR '';'' # rest)"
    by (intro utf8_chars_append) simp
  moreover have "utf8_chars w = map (\<lambda>c. [c]) w"
    using assms(2) by (intro utf8_chars_ascii) (auto simp: list_all_iff tame_def solid_def)
  moreover have "takeWhile is_cont rest = []" using rest by (cases rest) auto
  ultimately have t: "tokenize (w @ CHR '';'' # rest) = tok False False w ('';'' # utf8_chars (dropWhile is_cont rest))"
    by (simp add: tokenize_def tok_word [OF assms(2)] del: tok.simps)
  have "tok False False w ('';'' # cs) = w # '';'' # tok False False [] cs" for cs
    using assms(1) by (simp add: squote_def dquote_def is_blank_def nl_def is_operator_def emit_def)
  then show ?thesis unfolding t by blast
qed

lemma trim_word_semicolon:
  assumes "w \<noteq> []" "list_all tame w" "rest = [] \<or> \<not> is_cont (hd rest)"
  shows "\<exists>t. trim (w @ CHR '';'' # rest) = w @ CHR '';'' # t \<and> (t = [] \<or> \<not> is_cont (hd t))"
proof -
  have "tame (hd w)" using assms(1,2) by (simp add: list_all_iff)
  then have "trim_start (w @ CHR '';'' # rest) = w @ CHR '';'' # rest"
    using trim_start_solid [of "hd w" "tl w @ CHR '';'' # rest"] assms(1)
    by (cases w) (simp_all add: tame_def)
  moreover obtain t where t: "trim_end (w @ CHR '';'' # rest) = w @ CHR '';'' # t"
    using trim_end_after [OF solid_semicolon] by blast
  moreover obtain u where "w @ CHR '';'' # t @ u = w @ CHR '';'' # rest"
    using trim_end_prefix [of "w @ CHR '';'' # rest"] t by auto
  then have "t = [] \<or> \<not> is_cont (hd t)" using assms(3) by (cases t) auto
  ultimately show ?thesis by (simp add: trim_def)
qed

text \<open>
  The policy looks at the first command only: of \<open>w; rest\<close> with \<open>w\<close> no wrapper, whatever
  \<open>rest\<close> runs, the one candidate is \<open>w\<close>, so neither a forbidden binary nor the absence from
  the allow-list is noticed after a separator.
\<close>

theorem separator_hides_binaries:
  assumes "is_word w" and "w \<noteq> ''script''" and "w \<noteq> ''su''"
    and "w \<notin> set command_string_wrappers" and "map_of prefix_wrappers w = None"
    and "rest = [] \<or> \<not> is_cont (hd rest)"
  shows "binary_candidates (w @ '';'' @ rest) = [w]"
proof -
  have w: "w \<noteq> []" "list_all tame w" using assms(1) is_word_tame by (auto simp: is_word_def)
  obtain t where t: "trim (w @ CHR '';'' # rest) = w @ CHR '';'' # t" "t = [] \<or> \<not> is_cont (hd t)"
    using trim_word_semicolon [OF w assms(6)] by blast
  obtain ts where ts: "tokenize (w @ CHR '';'' # t) = w # ts"
    using tokenize_word_semicolon [OF w t(2)] by blast
  have marks: "CHR ''/'' \<notin> set w" "CHR ''='' \<notin> set w" using w(2) by (auto simp: list_all_iff tame_def)
  have "\<not> looks_like_env_assignment w"
    using marks(2) by (simp add: looks_like_env_assignment_def split_once_none)
  moreover have "unquote (base_name w) = w"
    using marks(1) unquote_word [OF w] by (simp add: base_name_def split_on_none)
  moreover have "wrapped_next w ts = None" using assms(4,5) by (simp add: wrapped_next_def)
  ultimately have "candidate_round (w @ CHR '';'' # t) = Some (w, None)"
    using ts w(1) assms(2,3) by (simp add: candidate_round_def)
  then show ?thesis
    by (simp add: binary_candidates_def t(1) candidate_rounds.simps [of 4])
qed

theorem separator_hides_binaries_witness:
  "binary_candidates (''ls'' @ '';'' @ '' rm -rf x'') = [''ls'']"
  by (rule separator_hides_binaries) code_simp+

text \<open>
  Behind the known wrappers the candidates do include the program: environment
  assignments, \<open>sudo\<close> with a flag that takes a value, a combined \<open>-xc\<close> of a shell, and the
  positional of \<open>timeout\<close> are all seen through.
\<close>

lemma wrapped_binaries_are_found:
  "binary_candidates ''FOO=1 sudo -u root bash -xc 'rm -rf /' '' = [''sudo'', ''bash'', ''rm'']
   \<and> binary_candidates ''timeout 30 /bin/rm x'' = [''timeout'', ''rm'']
   \<and> binary_candidates ''sh -c -- 'rm x' '' = [''sh'', ''rm'']"
  by (intro conjI) code_simp+

end
