(* ===== verification/Kod_Policy.thy ===== *)
theory Kod_Policy
  imports Kod_Binaries
begin

text \<open>
  The permission policy, \<open>crates/kod-config/src/policy.rs\<close>: the layers and their merge
  (\<open>PolicyEngine::load\<close>), and the decision for one tool call (\<open>decide\<close>) with its path
  resolution. The \<open>toml\<close> parser and the \<open>globset\<close> matcher are arguments: \<open>glob\<close> compiles
  a pattern, if it can, to a test on paths. The rule text of a decision is a constructor. The
  lemmas show that a denial always wins, that a project can only narrow what its user allows,
  and where it still widens.
\<close>

section \<open>Presets and decisions\<close>

datatype preset = ReadOnly | Standard | Yolo

datatype decision = Allow | Ask | Deny

text \<open>Both derive \<open>Ord\<close> in the source: the order of their variants.\<close>

instantiation preset :: linorder
begin

definition preset_rank :: "preset \<Rightarrow> nat" where
  "preset_rank p = (case p of ReadOnly \<Rightarrow> 0 | Standard \<Rightarrow> 1 | Yolo \<Rightarrow> 2)"

definition less_eq_preset :: "preset \<Rightarrow> preset \<Rightarrow> bool" where
  "less_eq_preset a b = (preset_rank a \<le> preset_rank b)"

definition less_preset :: "preset \<Rightarrow> preset \<Rightarrow> bool" where
  "less_preset a b = (preset_rank a < preset_rank b)"

instance
  by intro_classes
    (auto simp: less_eq_preset_def less_preset_def preset_rank_def split: preset.splits)

end

instantiation decision :: linorder
begin

definition decision_rank :: "decision \<Rightarrow> nat" where
  "decision_rank d = (case d of Allow \<Rightarrow> 0 | Ask \<Rightarrow> 1 | Deny \<Rightarrow> 2)"

definition less_eq_decision :: "decision \<Rightarrow> decision \<Rightarrow> bool" where
  "less_eq_decision a b = (decision_rank a \<le> decision_rank b)"

definition less_decision :: "decision \<Rightarrow> decision \<Rightarrow> bool" where
  "less_decision a b = (decision_rank a < decision_rank b)"

instance
  by intro_classes
    (auto simp: less_eq_decision_def less_decision_def decision_rank_def split: decision.splits)

end

datatype policy_source =
    SrcPreset | SrcGlobalConfig | SrcProjectPolicy | SrcCliOverride | SrcSessionDeny

record tool_policy =
  tp_mode :: "decision option"
  tp_paths :: "string list option"
  tp_forbidden :: "string list option"
  tp_binaries :: "string list option"
  tp_forbidden_binaries :: "string list option"
  tp_network :: "bool option"
  tp_domains :: "string list option"

definition default_tool_policy :: tool_policy where
  "default_tool_policy = \<lparr> tp_mode = None, tp_paths = None, tp_forbidden = None, tp_binaries = None,
     tp_forbidden_binaries = None, tp_network = None, tp_domains = None \<rparr>"

record git_policy =
  history_protected :: bool

definition default_git_policy :: git_policy where
  "default_git_policy = \<lparr> history_protected = True \<rparr>"

datatype read_mode = Redact | Refuse | AllowRead

record read_protection =
  rp_enabled :: bool
  rp_mode :: read_mode
  rp_deny :: "string list"

definition default_read_protection :: read_protection where
  "default_read_protection = \<lparr> rp_enabled = True, rp_mode = Redact, rp_deny =
     [''.env'', ''.env.*'', ''**/.env'', ''**/.env.*'', ''**/*.pem'', ''**/*.key'', ''**/id_rsa*'',
      ''**/id_ed25519*'', ''**/id_ecdsa*'', ''**/.aws/credentials'', ''**/.aws/config'', ''**/.ssh/**'',
      ''**/.docker/config.json'', ''**/.netrc'', ''**/.pgpass'', ''**/credentials.json'',
      ''**/service-account*.json''] \<rparr>"

record policy =
  pol_preset :: preset
  preset_explicit :: bool
  pol_tools :: "(string, tool_policy) hmap"
  pol_git :: git_policy
  pol_read_protection :: read_protection

definition default_policy :: policy where
  "default_policy = \<lparr> pol_preset = Standard, preset_explicit = False, pol_tools = [],
     pol_git = default_git_policy, pol_read_protection = default_read_protection \<rparr>"

definition read_only_tools :: "string list" where
  "read_only_tools =
     [''read_file'', ''list_files'', ''grep'', ''search_files'', ''file_info'', ''git_status'', ''git_diff'',
      ''lsp_diagnostics'', ''lsp_definition'', ''lsp_references'', ''lsp_hover'', ''check'']"

definition preset_decision :: "preset \<Rightarrow> string \<Rightarrow> decision" where
  "preset_decision p tool =
     (case p of
        Yolo \<Rightarrow> Allow
      | Standard \<Rightarrow> if tool \<in> set read_only_tools then Allow else Ask
      | ReadOnly \<Rightarrow> if tool \<in> set read_only_tools then Allow else Deny)"

section \<open>Loading a policy file\<close>

definition from_toml :: "(string \<Rightarrow> policy option) \<Rightarrow> string \<Rightarrow> policy option" where
  "from_toml toml s =
     map_option (\<lambda>p. p\<lparr>preset_explicit := list_ex (\<lambda>l. prefix ''preset'' (trim_start l)) (rust_lines s)\<rparr>) (toml s)"

text \<open>
  The file's text, if \<open>.kod/policy.toml\<close> is a file. \<open>None\<close> is a configuration error,
  \<open>Some None\<close> the normal absence.
\<close>

definition load_project :: "(string \<Rightarrow> policy option) \<Rightarrow> string option \<Rightarrow> policy option option" where
  "load_project toml file_text =
     (case file_text of None \<Rightarrow> Some None | Some raw \<Rightarrow> map_option Some (from_toml toml raw))"

record policy_engine =
  effective :: policy
  sources :: "(string, policy_source) hmap"

definition global_preset :: "string option \<Rightarrow> preset" where
  "global_preset configured =
     (case configured of
        None \<Rightarrow> Standard
      | Some s \<Rightarrow>
          if s = ''read-only'' \<or> s = ''readonly'' then ReadOnly
          else if s = ''standard'' \<or> s = ''default'' then Standard
          else if s = ''yolo'' \<or> s = ''unrestricted'' then Yolo else Standard)"

definition merge_preset :: "policy \<Rightarrow> policy_engine \<Rightarrow> policy_engine" where
  "merge_preset project e =
     (if preset_explicit project \<and> pol_preset project \<le> pol_preset (effective e)
      then e\<lparr>effective := (effective e)\<lparr>pol_preset := pol_preset project\<rparr>,
             sources := AList.update ''preset'' SrcProjectPolicy (sources e)\<rparr>
      else e)"

definition current_decision :: "policy \<Rightarrow> string \<Rightarrow> decision" where
  "current_decision p tool =
     (case Option.bind (map_of (pol_tools p) tool) tp_mode of
        Some m \<Rightarrow> m
      | None \<Rightarrow> preset_decision (pol_preset p) tool)"

definition merge_tool :: "policy_engine \<Rightarrow> string \<times> tool_policy \<Rightarrow> policy_engine" where
  "merge_tool e entry =
     (let (tool, tp) = entry;
          accepted = (case tp_mode tp of
            Some m \<Rightarrow> if m < current_decision (effective e) tool then tp\<lparr>tp_mode := None\<rparr> else tp
          | None \<Rightarrow> tp)
      in e\<lparr>effective := (effective e)\<lparr>pol_tools := AList.update tool accepted (pol_tools (effective e))\<rparr>,
           sources := AList.update tool SrcProjectPolicy (sources e)\<rparr>)"

definition merge_rest :: "policy \<Rightarrow> policy_engine \<Rightarrow> policy_engine" where
  "merge_rest project e =
     e\<lparr>effective := (effective e)\<lparr>pol_git := pol_git project,
         pol_read_protection := (pol_read_protection (effective e))\<lparr>rp_deny :=
           rp_deny (pol_read_protection (effective e)) @ rp_deny (pol_read_protection project)\<rparr>\<rparr>\<rparr>"

definition merge_project :: "policy \<Rightarrow> policy_engine \<Rightarrow> policy_engine" where
  "merge_project project e =
     merge_rest project (foldl merge_tool (merge_preset project e) (sort_key fst (pol_tools project)))"

definition merge_cli :: "preset option \<Rightarrow> policy_engine \<Rightarrow> policy_engine" where
  "merge_cli cli e =
     (case cli of
        None \<Rightarrow> e
      | Some p \<Rightarrow> e\<lparr>effective := (effective e)\<lparr>pol_preset := p\<rparr>,
                     sources := AList.update ''preset'' SrcCliOverride (sources e)\<rparr>)"

definition base_engine :: "string option \<Rightarrow> policy_engine" where
  "base_engine configured =
     \<lparr> effective = default_policy\<lparr>pol_preset := global_preset configured\<rparr>,
       sources = [(''preset'', SrcGlobalConfig)] \<rparr>"

definition build_engine :: "string option \<Rightarrow> policy option \<Rightarrow> preset option \<Rightarrow> policy_engine" where
  "build_engine configured project cli =
     merge_cli cli (case project of
        None \<Rightarrow> base_engine configured | Some p \<Rightarrow> merge_project p (base_engine configured))"

text \<open>
  \<open>PolicyEngine::load\<close>: the configured preset, the text of the project's policy file if a root
  was given and the file exists, and the preset of the command line.
\<close>

definition load_engine ::
  "(string \<Rightarrow> policy option) \<Rightarrow> string option \<Rightarrow> string option \<Rightarrow> preset option \<Rightarrow> policy_engine option" where
  "load_engine toml configured project_text cli =
     (case load_project toml project_text of
        None \<Rightarrow> None
      | Some project \<Rightarrow> Some (build_engine configured project cli))"

section \<open>Paths\<close>

datatype component = RootDir | CurDir | ParentDir | Normal string

definition path_components :: "string \<Rightarrow> component list" where
  "path_components p =
     (let parts = split_on (CHR ''/'') p
      in (if prefix ''/'' p then [RootDir] else if hd parts = ''.'' then [CurDir] else [])
         @ map (\<lambda>s. if s = ''..'' then ParentDir else Normal s)
             (filter (\<lambda>s. s \<noteq> [] \<and> s \<noteq> ''.'') parts))"

definition join_path :: "string \<Rightarrow> string \<Rightarrow> string" where
  "join_path wd p =
     (if prefix ''/'' p \<or> wd = [] then p
      else if ends_with ''/'' wd then wd @ p else wd @ ''/'' @ p)"

fun normalise :: "string list \<Rightarrow> component list \<Rightarrow> string list" where
  "normalise stack [] = stack"
| "normalise stack (Normal s # cs) = normalise (stack @ [s]) cs"
| "normalise stack (ParentDir # cs) = normalise (butlast stack) cs"
| "normalise stack (_ # cs) = normalise stack cs"

definition render_path :: "bool \<Rightarrow> string list \<Rightarrow> string" where
  "render_path rooted segs = (if rooted then ''/'' else []) @ join_with ''/'' segs"

definition resolve_path :: "string \<Rightarrow> string \<Rightarrow> string" where
  "resolve_path wd p =
     (let cs = path_components (join_path wd p)
      in render_path (RootDir \<in> set cs) (normalise [] cs))"

fun component_text :: "component \<Rightarrow> string" where
  "component_text RootDir = ''/''"
| "component_text CurDir = ''.''"
| "component_text ParentDir = ''..''"
| "component_text (Normal s) = s"

text \<open>\<open>path.strip_prefix(working_dir).unwrap_or(path)\<close>.\<close>

definition relative_to :: "string \<Rightarrow> string \<Rightarrow> string" where
  "relative_to wd p =
     (if prefix (path_components wd) (path_components p)
      then join_with ''/'' (map component_text (drop (length (path_components wd)) (path_components p)))
      else p)"

type_synonym globber = "string \<Rightarrow> (string \<Rightarrow> bool) option"

definition glob_matches :: "globber \<Rightarrow> string \<Rightarrow> string \<Rightarrow> string \<Rightarrow> bool" where
  "glob_matches glob pat p wd =
     (case glob pat of
        None \<Rightarrow> False
      | Some m \<Rightarrow>
          m p \<or> m (relative_to wd p)
          \<or> (\<not> prefix ''**'' pat \<and> \<not> prefix ''/'' pat
             \<and> (case glob (''**/'' @ pat) of
                  None \<Rightarrow> False
                | Some m2 \<Rightarrow> m2 p \<or> m2 (relative_to wd p))))"

definition path_keys :: "string list" where
  "path_keys = [''path'', ''file'', ''file_path'', ''filename'', ''target'', ''destination'', ''to'',
     ''directory'', ''dir'', ''output'']"

definition extract_path_arg :: "json \<Rightarrow> string option" where
  "extract_path_arg args =
     (case List.map_filter (json_get_str args) path_keys of [] \<Rightarrow> None | s # _ \<Rightarrow> Some s)"

definition arguments_path_matches_redact_list :: "globber \<Rightarrow> string list \<Rightarrow> json \<Rightarrow> string \<Rightarrow> bool" where
  "arguments_path_matches_redact_list glob patterns args wd =
     (if patterns = [] then False
      else case extract_path_arg args of
        None \<Rightarrow> False
      | Some raw \<Rightarrow> list_ex (\<lambda>g. glob_matches glob g (resolve_path wd raw) wd) patterns)"

definition file_name :: "string \<Rightarrow> string option" where
  "file_name p = (case rev (path_components p) of Normal s # _ \<Rightarrow> Some s | _ \<Rightarrow> None)"

definition protects :: "globber \<Rightarrow> read_protection \<Rightarrow> string \<Rightarrow> bool" where
  "protects glob rp p =
     (rp_enabled rp \<and>
      list_ex (\<lambda>pat.
        let target = (if CHR ''/'' \<in> set pat then p else (case file_name p of None \<Rightarrow> [] | Some b \<Rightarrow> b))
        in (case glob pat of None \<Rightarrow> False | Some m \<Rightarrow> m target)) (rp_deny rp))"

section \<open>Deciding a call\<close>

record session_deny =
  sd_tool :: string
  sd_pattern :: "string option"

datatype rule =
    RuleSessionTool string
  | RuleSessionPath string string
  | RuleNetwork string
  | RuleForbiddenPath string string
  | RuleForbiddenBinary string string
  | RuleUnlistedBinary string string string
  | RuleUnlistedPath string "string list" string
  | RuleMode string decision
  | RulePreset preset

record policy_decision =
  outcome :: decision
  rule_fired :: rule
  decided_by :: policy_source

definition source_for :: "policy_engine \<Rightarrow> string \<Rightarrow> policy_source" where
  "source_for e tool = (case map_of (sources e) tool of None \<Rightarrow> SrcPreset | Some s \<Rightarrow> s)"

fun session_denial :: "globber \<Rightarrow> string \<Rightarrow> string \<Rightarrow> string option \<Rightarrow> session_deny list \<Rightarrow> rule option" where
  "session_denial glob wd tool p [] = None"
| "session_denial glob wd tool p (deny # denies) =
     (if sd_tool deny = tool then
        (case (sd_pattern deny, p) of
           (None, _) \<Rightarrow> Some (RuleSessionTool tool)
         | (Some pat, Some q) \<Rightarrow>
             if glob_matches glob pat q wd then Some (RuleSessionPath tool pat)
             else session_denial glob wd tool p denies
         | (Some pat, None) \<Rightarrow> session_denial glob wd tool p denies)
      else session_denial glob wd tool p denies)"

definition forbidden_path :: "globber \<Rightarrow> string \<Rightarrow> string \<Rightarrow> tool_policy \<Rightarrow> string option \<Rightarrow> rule option" where
  "forbidden_path glob wd tool tp p =
     (case (tp_forbidden tp, p) of
        (Some gs, Some q) \<Rightarrow>
          map_option (RuleForbiddenPath tool) (List.find (\<lambda>g. glob_matches glob g q wd) gs)
      | _ \<Rightarrow> None)"

definition refused_binary :: "string \<Rightarrow> tool_policy \<Rightarrow> json \<Rightarrow> rule option" where
  "refused_binary tool tp args =
     (if tool \<noteq> ''execute_command'' then None
      else case json_get_str args ''command'' of
        None \<Rightarrow> None
      | Some cmd \<Rightarrow>
          (let candidates = binary_candidates cmd;
               bad = (case tp_forbidden_binaries tp of
                 None \<Rightarrow> None | Some fs \<Rightarrow> List.find (\<lambda>c. c \<in> set fs) candidates);
               unlisted = (case tp_binaries tp of
                 None \<Rightarrow> None | Some allow \<Rightarrow> List.find (\<lambda>c. c \<notin> set allow) candidates)
           in case bad of
                Some hit \<Rightarrow> Some (RuleForbiddenBinary tool hit)
              | None \<Rightarrow> map_option (\<lambda>hit. RuleUnlistedBinary tool hit cmd) unlisted))"

definition unlisted_path :: "globber \<Rightarrow> string \<Rightarrow> string \<Rightarrow> tool_policy \<Rightarrow> string option \<Rightarrow> rule option" where
  "unlisted_path glob wd tool tp p =
     (case (tp_paths tp, p) of
        (Some allowed, Some q) \<Rightarrow>
          if list_ex (\<lambda>g. glob_matches glob g q wd) allowed then None
          else Some (RuleUnlistedPath tool allowed q)
      | _ \<Rightarrow> None)"

definition tool_denial :: "globber \<Rightarrow> string \<Rightarrow> string \<Rightarrow> json \<Rightarrow> tool_policy \<Rightarrow> string option \<Rightarrow> rule option" where
  "tool_denial glob wd tool args tp p =
     (if tp_network tp = Some False then Some (RuleNetwork tool)
      else case forbidden_path glob wd tool tp p of
        Some r \<Rightarrow> Some r
      | None \<Rightarrow>
          (case refused_binary tool tp args of
             Some r \<Rightarrow> Some r
           | None \<Rightarrow> unlisted_path glob wd tool tp p))"

definition decide ::
  "globber \<Rightarrow> policy_engine \<Rightarrow> string \<Rightarrow> json \<Rightarrow> string \<Rightarrow> session_deny list \<Rightarrow> policy_decision" where
  "decide glob e tool args wd denies =
     (let p = map_option (resolve_path wd) (extract_path_arg args);
          fallback = \<lparr> outcome = preset_decision (pol_preset (effective e)) tool,
            rule_fired = RulePreset (pol_preset (effective e)), decided_by = SrcPreset \<rparr>
      in case session_denial glob wd tool p denies of
           Some r \<Rightarrow> \<lparr> outcome = Deny, rule_fired = r, decided_by = SrcSessionDeny \<rparr>
         | None \<Rightarrow>
             (case map_of (pol_tools (effective e)) tool of
                None \<Rightarrow> fallback
              | Some tp \<Rightarrow>
                  (case tool_denial glob wd tool args tp p of
                     Some r \<Rightarrow> \<lparr> outcome = Deny, rule_fired = r, decided_by = source_for e tool \<rparr>
                   | None \<Rightarrow>
                       (case tp_mode tp of
                          Some m \<Rightarrow> \<lparr> outcome = m, rule_fired = RuleMode tool m, decided_by = source_for e tool \<rparr>
                        | None \<Rightarrow> fallback))))"

section \<open>Reading the engine\<close>

definition forbidden_for :: "policy_engine \<Rightarrow> string \<Rightarrow> string list" where
  "forbidden_for e tool =
     (case Option.bind (map_of (pol_tools (effective e)) tool) tp_forbidden of None \<Rightarrow> [] | Some fs \<Rightarrow> fs)"

definition web_fetch_allowed_domains :: "policy_engine \<Rightarrow> string list" where
  "web_fetch_allowed_domains e =
     (case Option.bind (map_of (pol_tools (effective e)) ''web_fetch'') tp_domains of None \<Rightarrow> [] | Some ds \<Rightarrow> ds)"

definition git_history_protected :: "policy_engine \<Rightarrow> bool" where
  "git_history_protected e = history_protected (pol_git (effective e))"

fun show_preset :: "preset \<Rightarrow> string" where
  "show_preset ReadOnly = ''ReadOnly''"
| "show_preset Standard = ''Standard''"
| "show_preset Yolo = ''Yolo''"

fun show_decision :: "decision \<Rightarrow> string" where
  "show_decision Allow = ''Allow''"
| "show_decision Ask = ''Ask''"
| "show_decision Deny = ''Deny''"

definition describe :: "policy_engine \<Rightarrow> string" where
  "describe e =
     (let p = effective e;
          tool_line = (\<lambda>(name, tp). ''  '' @ name @ '': mode = ''
            @ (case tp_mode tp of None \<Rightarrow> ''(preset)'' | Some m \<Rightarrow> show_decision m));
          body = (if pol_tools p = [] then [''(no per-tool overrides)'']
                  else map tool_line (sort_key fst (pol_tools p)))
      in join_with [CHR 0x0A] ([''preset: '' @ show_preset (pol_preset p)] @ body
           @ [''git.history_protected: '' @ (if history_protected (pol_git p) then ''true'' else ''false'')]))"

section \<open>A project narrows\<close>

lemma preset_decision_antimono: "a \<le> b \<Longrightarrow> preset_decision b tool \<le> preset_decision a tool"
  by (cases a; cases b)
    (simp_all add: preset_decision_def less_eq_preset_def preset_rank_def less_eq_decision_def decision_rank_def)

lemma deny_is_top [simp]: "d \<le> Deny"
  by (cases d) (simp_all add: less_eq_decision_def decision_rank_def)

definition modes_narrow :: "policy \<Rightarrow> bool" where
  "modes_narrow p = (\<forall>tool tp m. map_of (pol_tools p) tool = Some tp \<longrightarrow> tp_mode tp = Some m
     \<longrightarrow> preset_decision (pol_preset p) tool \<le> m)"

lemma current_decision_narrow:
  "modes_narrow p \<Longrightarrow> preset_decision (pol_preset p) tool \<le> current_decision p tool"
  by (auto simp: modes_narrow_def current_decision_def split: option.splits bind_splits)

lemma merge_tool_narrow:
  assumes "modes_narrow (effective e)"
  shows "modes_narrow (effective (merge_tool e entry))"
proof -
  obtain tool tp where entry: "entry = (tool, tp)" by (cases entry)
  show ?thesis
    using assms current_decision_narrow [OF assms, of tool]
    by (auto simp: modes_narrow_def merge_tool_def entry Let_def update_conv' not_less
        split: option.splits if_splits)
qed

lemma merge_tool_preset [simp]: "pol_preset (effective (merge_tool e entry)) = pol_preset (effective e)"
  by (simp add: merge_tool_def split_beta Let_def)

lemma merge_tools_narrow:
  "modes_narrow (effective e) \<Longrightarrow> modes_narrow (effective (foldl merge_tool e entries))
     \<and> pol_preset (effective (foldl merge_tool e entries)) = pol_preset (effective e)"
  by (induction entries arbitrary: e) (simp_all add: merge_tool_narrow)

lemma merge_rest_keeps [simp]:
  "pol_tools (effective (merge_rest project e)) = pol_tools (effective e)"
  "pol_preset (effective (merge_rest project e)) = pol_preset (effective e)"
  "modes_narrow (effective (merge_rest project e)) = modes_narrow (effective e)"
  by (simp_all add: merge_rest_def modes_narrow_def)

lemma merge_project_narrow:
  "modes_narrow (effective (merge_project project (base_engine configured)))
   \<and> pol_preset (effective (merge_project project (base_engine configured))) \<le> global_preset configured"
proof -
  let ?m = "merge_preset project (base_engine configured)"
  have m: "modes_narrow (effective ?m)" "pol_preset (effective ?m) \<le> global_preset configured"
    by (auto simp: modes_narrow_def merge_preset_def base_engine_def default_policy_def)
  from merge_tools_narrow [OF m(1), of "sort_key fst (pol_tools project)"] m(2)
  show ?thesis
    by (simp add: merge_project_def)
qed

text \<open>
  C1. A project's policy file narrows and never widens: whatever it says, the decision on any
  call of any tool is at least as strict as it would be without the file (\<open>Allow\<close>, \<open>Ask\<close>,
  \<open>Deny\<close> in this order), for every configured preset and every session rule.
\<close>

theorem project_only_narrows:
  "outcome (decide glob (build_engine configured None None) tool args wd denies)
     \<le> outcome (decide glob (build_engine configured (Some project) None) tool args wd denies)"
proof -
  let ?e = "merge_project project (base_engine configured)"
  note n = conjunct1 [OF merge_project_narrow [of project configured]] conjunct2 [OF merge_project_narrow [of project configured]]
  have fallback: "preset_decision (global_preset configured) tool \<le> preset_decision (pol_preset (effective ?e)) tool"
    by (rule preset_decision_antimono) (rule n(2))
  have mode: "preset_decision (global_preset configured) tool \<le> m"
    if "map_of (pol_tools (effective ?e)) tool = Some tp" "tp_mode tp = Some m" for tp m
    using n(1) that fallback by (auto simp: modes_narrow_def intro: order_trans)
  have base: "pol_tools (effective (base_engine configured)) = []"
    "pol_preset (effective (base_engine configured)) = global_preset configured"
    by (simp_all add: base_engine_def default_policy_def)
  show ?thesis
    using fallback mode
    by (auto simp: decide_def Let_def build_engine_def merge_cli_def base split: option.splits)
qed

text \<open>
  The command line's preset does not bind a project: with a global \<open>yolo\<close>, a project that
  sets \<open>mode = "allow"\<close> for a tool keeps it allowed under \<open>--preset read-only\<close>, for every
  tool and every call.
\<close>

theorem project_allow_survives_cli_preset:
  "outcome (decide glob
      (build_engine (Some ''yolo'')
        (Some (default_policy\<lparr>pol_tools := [(tool, default_tool_policy\<lparr>tp_mode := Some Allow\<rparr>)]\<rparr>))
        (Some ReadOnly)) tool args wd []) = Allow"
proof -
  have "\<not> Allow < current_decision p tool'" if "current_decision p tool' = Allow" for p tool'
    using that by simp
  moreover have "current_decision (default_policy\<lparr>pol_preset := Yolo\<rparr>) tool = Allow"
    by (simp add: current_decision_def default_policy_def preset_decision_def)
  ultimately show ?thesis
    by (simp add: decide_def Let_def build_engine_def merge_cli_def merge_project_def merge_rest_def
        merge_preset_def base_engine_def global_preset_def merge_tool_def default_tool_policy_def
        default_policy_def tool_denial_def forbidden_path_def refused_binary_def unlisted_path_def
        current_decision_def preset_decision_def split: option.splits)
qed

text \<open>
  The protection of git history is taken from the project outright: whatever the user
  configured or passed, a project's \<open>[git] history_protected\<close> decides, off included.
\<close>

theorem project_decides_git_protection:
  "git_history_protected (build_engine configured (Some project) cli)
     = history_protected (pol_git project)"
  by (simp add: git_history_protected_def build_engine_def merge_cli_def merge_project_def merge_rest_def
      split: option.splits)

section \<open>A denial wins\<close>

lemma session_denial_hit:
  assumes "deny \<in> set denies" "sd_tool deny = tool"
    and "sd_pattern deny = None \<or> (\<exists>pat q. sd_pattern deny = Some pat \<and> p = Some q \<and> glob_matches glob pat q wd)"
  shows "session_denial glob wd tool p denies \<noteq> None"
  using assms by (induction denies) (auto split: option.splits)

lemma find_ex: "(\<exists>y. List.find P xs = Some y) \<longleftrightarrow> (\<exists>x \<in> set xs. P x)"
  by (induction xs) auto

text \<open>The rules of one tool entry that refuse a call, whatever its mode.\<close>

definition entry_refuses :: "globber \<Rightarrow> string \<Rightarrow> string \<Rightarrow> json \<Rightarrow> tool_policy \<Rightarrow> string option \<Rightarrow> bool" where
  "entry_refuses glob wd tool args tp p =
     (tp_network tp = Some False
      \<or> (\<exists>gs g q. tp_forbidden tp = Some gs \<and> g \<in> set gs \<and> p = Some q \<and> glob_matches glob g q wd)
      \<or> (tool = ''execute_command'' \<and> (\<exists>cmd c. json_get_str args ''command'' = Some cmd
          \<and> c \<in> set (binary_candidates cmd)
          \<and> ((\<exists>fs. tp_forbidden_binaries tp = Some fs \<and> c \<in> set fs)
             \<or> (\<exists>allow. tp_binaries tp = Some allow \<and> c \<notin> set allow))))
      \<or> (\<exists>allowed q. tp_paths tp = Some allowed \<and> p = Some q
          \<and> \<not> list_ex (\<lambda>g. glob_matches glob g q wd) allowed))"

lemma forbidden_path_iff:
  "(\<exists>r. forbidden_path glob wd tool tp p = Some r) \<longleftrightarrow>
     (\<exists>gs g q. tp_forbidden tp = Some gs \<and> g \<in> set gs \<and> p = Some q \<and> glob_matches glob g q wd)"
  using find_ex [of "\<lambda>g. glob_matches glob g (the p) wd" "the (tp_forbidden tp)"]
  by (auto simp: forbidden_path_def split: option.splits)

lemma refused_binary_iff:
  "(\<exists>r. refused_binary tool tp args = Some r) \<longleftrightarrow>
     tool = ''execute_command'' \<and> (\<exists>cmd c. json_get_str args ''command'' = Some cmd
       \<and> c \<in> set (binary_candidates cmd)
       \<and> ((\<exists>fs. tp_forbidden_binaries tp = Some fs \<and> c \<in> set fs)
          \<or> (\<exists>allow. tp_binaries tp = Some allow \<and> c \<notin> set allow)))"
proof (cases "json_get_str args ''command''")
  case (Some cmd)
  show ?thesis
    using find_ex [of "\<lambda>c. c \<in> set (the (tp_forbidden_binaries tp))" "binary_candidates cmd"]
      find_ex [of "\<lambda>c. c \<notin> set (the (tp_binaries tp))" "binary_candidates cmd"]
    by (cases "tp_forbidden_binaries tp"; cases "tp_binaries tp")
      (auto simp: refused_binary_def Let_def Some find_None_iff split: option.splits)
qed (simp add: refused_binary_def)

lemma unlisted_path_iff:
  "(\<exists>r. unlisted_path glob wd tool tp p = Some r) \<longleftrightarrow>
     (\<exists>allowed q. tp_paths tp = Some allowed \<and> p = Some q
        \<and> \<not> list_ex (\<lambda>g. glob_matches glob g q wd) allowed)"
  by (auto simp: unlisted_path_def split: option.splits)

lemma tool_denial_iff: "(\<exists>r. tool_denial glob wd tool args tp p = Some r) \<longleftrightarrow> entry_refuses glob wd tool args tp p"
proof -
  have "(\<exists>r. tool_denial glob wd tool args tp p = Some r) \<longleftrightarrow>
      tp_network tp = Some False \<or> (\<exists>r. forbidden_path glob wd tool tp p = Some r)
      \<or> (\<exists>r. refused_binary tool tp args = Some r) \<or> (\<exists>r. unlisted_path glob wd tool tp p = Some r)"
    by (auto simp: tool_denial_def split: option.splits)
  then show ?thesis
    unfolding entry_refuses_def forbidden_path_iff refused_binary_iff unlisted_path_iff .
qed

text \<open>
  Denials win over everything: a call matched by a session rule, or refused by its tool
  entry (network off, a forbidden path, a forbidden or unlisted binary, a path outside the
  allow-list), is denied whatever the mode and the preset; and a call that is not refused gets
  exactly its explicit mode or the preset's decision.
\<close>

theorem denials_win:
  "let p = map_option (resolve_path wd) (extract_path_arg args);
       denied = (\<exists>deny \<in> set denies. sd_tool deny = tool \<and>
         (sd_pattern deny = None
          \<or> (\<exists>pat q. sd_pattern deny = Some pat \<and> p = Some q \<and> glob_matches glob pat q wd)));
       base = preset_decision (pol_preset (effective e)) tool
   in outcome (decide glob e tool args wd denies) =
     (if denied then Deny
      else (case map_of (pol_tools (effective e)) tool of
              None \<Rightarrow> base
            | Some tp \<Rightarrow>
                if entry_refuses glob wd tool args tp p then Deny
                else (case tp_mode tp of None \<Rightarrow> base | Some m \<Rightarrow> m)))"
proof -
  define p where "p = map_option (resolve_path wd) (extract_path_arg args)"
  have s: "(session_denial glob wd tool p denies \<noteq> None) =
      (\<exists>deny \<in> set denies. sd_tool deny = tool \<and>
         (sd_pattern deny = None
          \<or> (\<exists>pat q. sd_pattern deny = Some pat \<and> p = Some q \<and> glob_matches glob pat q wd)))"
    by (induction denies) (auto split: option.splits)
  show ?thesis
    unfolding Let_def p_def [symmetric] s [symmetric]
    by (auto simp: decide_def Let_def p_def [symmetric] tool_denial_iff [symmetric] split: option.splits)
qed

section \<open>The resolved path\<close>

definition plain_segment :: "string \<Rightarrow> bool" where
  "plain_segment s = (s \<noteq> [] \<and> s \<noteq> ''.'' \<and> s \<noteq> ''..'' \<and> CHR ''/'' \<notin> set s)"

lemma split_on_no_sep: "x \<in> set (split_on c s) \<Longrightarrow> c \<notin> set x"
proof (induction s arbitrary: x)
  case (Cons a s)
  have "split_on c s \<noteq> []" by (induction s) (auto split: list.splits)
  with Cons show ?case by (cases "split_on c s") (auto split: if_splits)
qed simp

lemma path_components_normal: "Normal s \<in> set (path_components p) \<Longrightarrow> plain_segment s"
  by (auto simp: path_components_def Let_def plain_segment_def dest: split_on_no_sep split: if_splits)

lemma normalise_plain:
  assumes "list_all plain_segment stack" "\<forall>s. Normal s \<in> set cs \<longrightarrow> plain_segment s"
  shows "list_all plain_segment (normalise stack cs)"
  using assms
proof (induction stack cs rule: normalise.induct)
  case (3 stack cs)
  then show ?case by (auto simp: list_all_iff dest: in_set_butlastD)
qed auto

lemma components_of_rendered:
  assumes "list_all plain_segment segs"
  shows "path_components (render_path True segs) = RootDir # map Normal segs"
proof (cases "segs = []")
  case True
  then show ?thesis by (simp add: render_path_def path_components_def)
next
  case False
  have "split_on (CHR ''/'') (''/'' @ join_with ''/'' segs) = [] # segs"
    using False assms split_on_join [OF False] by (simp add: list_all_iff plain_segment_def)
  moreover have "filter (\<lambda>s. s \<noteq> [] \<and> s \<noteq> ''.'') segs = segs" "map (\<lambda>s. if s = ''..'' then ParentDir else Normal s) segs = map Normal segs"
    using assms by (auto simp: list_all_iff plain_segment_def filter_id_conv)
  ultimately show ?thesis by (simp add: render_path_def path_components_def)
qed

lemma normalise_normals: "normalise stack (map Normal segs) = stack @ segs"
  by (induction segs arbitrary: stack) auto

text \<open>
  The path a rule is matched against is absolute and has no \<open>.\<close> or \<open>..\<close> left, so a
  traversal cannot make it match lexically something else than it names; resolving it again
  changes nothing.
\<close>

theorem resolved_path_is_normal:
  assumes "prefix ''/'' wd"
  shows "\<exists>segs. path_components (resolve_path wd p) = RootDir # map Normal segs
    \<and> resolve_path wd (resolve_path wd p) = resolve_path wd p"
proof -
  let ?cs = "path_components (join_path wd p)"
  let ?segs = "normalise [] ?cs"
  have "prefix ''/'' (join_path wd p)" using assms by (auto simp: join_path_def prefix_def)
  then have root: "RootDir \<in> set ?cs" by (simp add: path_components_def Let_def)
  have plain: "list_all plain_segment ?segs"
    by (rule normalise_plain) (auto dest: path_components_normal)
  have res: "resolve_path wd p = render_path True ?segs" using root by (simp add: resolve_path_def Let_def)
  note comps = components_of_rendered [OF plain]
  have "prefix ''/'' (render_path True ?segs)" by (simp add: render_path_def)
  then have "join_path wd (render_path True ?segs) = render_path True ?segs" by (simp add: join_path_def)
  then have "resolve_path wd (render_path True ?segs) = render_path True ?segs"
    by (simp add: resolve_path_def Let_def comps normalise_normals)
  with comps res show ?thesis by auto
qed

theorem resolved_path_is_normal_witness:
  "resolve_path ''/work'' ''src/../secrets/./x'' = ''/work/secrets/x''
   \<and> resolve_path ''/work'' (resolve_path ''/work'' ''src/../secrets/./x'') = ''/work/secrets/x''"
proof -
  have r: "resolve_path ''/work'' ''src/../secrets/./x'' = ''/work/secrets/x''" by code_simp
  have "prefix ''/'' ''/work''" by simp
  from resolved_path_is_normal [OF this, of "''src/../secrets/./x''"] r show ?thesis by auto
qed

end
