(* ===== verification/Kod_Yield_Queue.thy ===== *)
theory Kod_Yield_Queue
  imports Kod_Prelude
begin

text \<open>
  The queue of asides, \<open>crates/kod-swarm/src/yield_queue.rs\<close>. A thunk is a function of the
  world \<open>'w\<close> it is run in, which is how its staleness check sees the state at the drain and
  not at the registration. A drain takes the whole queue under the lock, runs the thunks
  outside it and puts back what its mode skips, so drains, registrations and a clear interleave:
  the step relation below is that interleaving, one critical section or one thunk per step.
\<close>

section \<open>The queue\<close>

record 'w queued_yield =
  yield_kind :: string
  skip_idle_flush :: bool
  yield_render :: "'w \<Rightarrow> string option"

record drain_batch =
  messages :: "string list"
  dropped :: nat

definition empty_batch :: drain_batch where
  "empty_batch = \<lparr> messages = [], dropped = 0 \<rparr>"

definition batch_is_empty :: "drain_batch \<Rightarrow> bool" where
  "batch_is_empty b = (messages b = [])"

datatype flush_mode = FlushStreaming | FlushIdle

record 'w yield_queue =
  yields :: "'w queued_yield list"
  idle_flush_enabled :: bool

definition yield_queue_new :: "'w yield_queue" where
  "yield_queue_new = \<lparr> yields = [], idle_flush_enabled = True \<rparr>"

definition push_yield :: "'w queued_yield \<Rightarrow> 'w yield_queue \<Rightarrow> 'w yield_queue" where
  "push_yield y q = q\<lparr>yields := yields q @ [y]\<rparr>"

definition yield_register ::
  "string \<Rightarrow> bool \<Rightarrow> ('w \<Rightarrow> string option) \<Rightarrow> 'w yield_queue \<Rightarrow> 'w yield_queue" where
  "yield_register kind skip render q =
     push_yield \<lparr> yield_kind = kind, skip_idle_flush = skip, yield_render = render \<rparr> q"

definition yield_len :: "'w yield_queue \<Rightarrow> nat" where
  "yield_len q = length (yields q)"

definition yield_clear :: "'w yield_queue \<Rightarrow> 'w yield_queue" where
  "yield_clear q = q\<lparr>yields := []\<rparr>"

definition cancel_idle_flush_scheduling :: "'w yield_queue \<Rightarrow> 'w yield_queue" where
  "cancel_idle_flush_scheduling q = q\<lparr>idle_flush_enabled := False\<rparr>"

definition enable_idle_flush :: "'w yield_queue \<Rightarrow> 'w yield_queue" where
  "enable_idle_flush q = q\<lparr>idle_flush_enabled := True\<rparr>"

section \<open>A drain in its critical sections\<close>

record 'w drain_run =
  run_mode :: flush_mode
  run_todo :: "'w queued_yield list"
  run_keep :: "'w queued_yield list"
  run_batch :: drain_batch

definition pull_all :: "'w yield_queue \<Rightarrow> 'w queued_yield list \<times> 'w yield_queue" where
  "pull_all q = (yields q, q\<lparr>yields := []\<rparr>)"

definition start_run :: "flush_mode \<Rightarrow> 'w queued_yield list \<Rightarrow> 'w drain_run" where
  "start_run mode ys = \<lparr> run_mode = mode, run_todo = ys, run_keep = [], run_batch = empty_batch \<rparr>"

definition skipped :: "flush_mode \<Rightarrow> 'w queued_yield \<Rightarrow> bool" where
  "skipped mode y = (mode = FlushIdle \<and> skip_idle_flush y)"

definition render_into :: "'w \<Rightarrow> 'w queued_yield \<Rightarrow> drain_batch \<Rightarrow> drain_batch" where
  "render_into w y b =
     (case yield_render y w of
        Some msg \<Rightarrow> b\<lparr>messages := messages b @ [msg]\<rparr>
      | None \<Rightarrow> b\<lparr>dropped := dropped b + 1\<rparr>)"

text \<open>One turn of the loop: the entry at the front is kept back or run.\<close>

definition drain_turn :: "'w \<Rightarrow> 'w drain_run \<Rightarrow> 'w drain_run" where
  "drain_turn w r =
     (case run_todo r of
        [] \<Rightarrow> r
      | y # ys \<Rightarrow>
          if skipped (run_mode r) y then r\<lparr>run_todo := ys, run_keep := run_keep r @ [y]\<rparr>
          else r\<lparr>run_todo := ys, run_batch := render_into w y (run_batch r)\<rparr>)"

text \<open>The skipped entries go back one by one, last first, to the front.\<close>

definition put_back :: "'w queued_yield list \<Rightarrow> 'w yield_queue \<Rightarrow> 'w yield_queue" where
  "put_back keep q = foldl (\<lambda>q y. q\<lparr>yields := y # yields q\<rparr>) q (rev keep)"

definition drain_turns :: "'w \<Rightarrow> 'w drain_run \<Rightarrow> 'w drain_run" where
  "drain_turns w r = (drain_turn w ^^ length (run_todo r)) r"

definition yield_drain :: "'w \<Rightarrow> flush_mode \<Rightarrow> 'w yield_queue \<Rightarrow> drain_batch \<times> 'w yield_queue" where
  "yield_drain w mode q =
     (let (ys, q1) = pull_all q; r = drain_turns w (start_run mode ys)
      in (run_batch r, put_back (run_keep r) q1))"

definition drain_streaming :: "'w \<Rightarrow> 'w yield_queue \<Rightarrow> drain_batch \<times> 'w yield_queue" where
  "drain_streaming w q = yield_drain w FlushStreaming q"

definition drain_idle :: "'w \<Rightarrow> 'w yield_queue \<Rightarrow> drain_batch \<times> 'w yield_queue" where
  "drain_idle w q = (if idle_flush_enabled q then yield_drain w FlushIdle q else (empty_batch, q))"

section \<open>An undisturbed drain\<close>

lemma put_back_yields: "put_back keep q = q\<lparr>yields := keep @ yields q\<rparr>"
proof -
  have "foldl (\<lambda>q y. q\<lparr>yields := y # yields q\<rparr>) q ys = q\<lparr>yields := rev ys @ yields q\<rparr>" for ys
    by (induction ys arbitrary: q) simp_all
  then show ?thesis by (simp add: put_back_def)
qed

definition rendered :: "'w \<Rightarrow> 'w queued_yield list \<Rightarrow> string list" where
  "rendered w ys = List.map_filter (\<lambda>y. yield_render y w) ys"

definition stale :: "'w \<Rightarrow> 'w queued_yield list \<Rightarrow> nat" where
  "stale w ys = length (filter (\<lambda>y. yield_render y w = None) ys)"

lemma drain_turns_result:
  "drain_turns w r = r\<lparr>run_todo := [],
     run_keep := run_keep r @ filter (skipped (run_mode r)) (run_todo r),
     run_batch := \<lparr> messages = messages (run_batch r) @ rendered w (filter (\<lambda>y. \<not> skipped (run_mode r) y) (run_todo r)),
       dropped = dropped (run_batch r) + stale w (filter (\<lambda>y. \<not> skipped (run_mode r) y) (run_todo r)) \<rparr>\<rparr>"
proof (induction "run_todo r" arbitrary: r)
  case Nil
  then show ?case by (simp add: drain_turns_def rendered_def stale_def map_filter_simps)
next
  case (Cons y ys)
  let ?r = "drain_turn w r"
  have todo: "run_todo r = y # ys" using Cons.hyps(2) by simp
  then have next': "run_todo ?r = ys" "run_mode ?r = run_mode r"
    by (simp_all add: drain_turn_def)
  have "drain_turns w r = drain_turns w ?r"
    by (simp add: drain_turns_def todo next' funpow_swap1)
  also note Cons.hyps(1) [OF next'(1) [symmetric]]
  finally show ?case
    by (auto simp: next' todo drain_turn_def render_into_def rendered_def stale_def map_filter_simps split: option.splits)
qed

lemma skipped_modes [simp]: "skipped FlushIdle = skip_idle_flush" "skipped FlushStreaming = (\<lambda>_. False)"
  by (simp_all add: skipped_def fun_eq_iff)

text \<open>
  What a drain does to the queue: the messages are the thunks' renderings at the drain, in
  registration order, without the stale ones, which are counted; entries the mode skips stay
  queued in their order, and an idle drain with idle flush cancelled does nothing.
\<close>

theorem drain_is_exact:
  "drain_streaming w q = (\<lparr> messages = rendered w (yields q), dropped = stale w (yields q) \<rparr>, q\<lparr>yields := []\<rparr>)
   \<and> drain_idle w q =
     (if idle_flush_enabled q
      then (\<lparr> messages = rendered w (filter (Not \<circ> skip_idle_flush) (yields q)),
              dropped = stale w (filter (Not \<circ> skip_idle_flush) (yields q)) \<rparr>,
            q\<lparr>yields := filter skip_idle_flush (yields q)\<rparr>)
      else (\<lparr> messages = [], dropped = 0 \<rparr>, q))"
  by (simp_all add: drain_streaming_def drain_idle_def yield_drain_def pull_all_def start_run_def
      drain_turns_result put_back_yields skipped_modes empty_batch_def comp_def)

text \<open>The queue is a first-in first-out store between registration and pull.\<close>

interpretation yq: fifo_store yields push_yield pull_all
  by unfold_locales (simp_all add: push_yield_def pull_all_def)

section \<open>Interleaved drains\<close>

text \<open>
  The state of the whole system: the queue, the drains in progress, and as history what was
  registered, what was run (with the mode it was run under) and what a clear discarded.
\<close>

record 'w yield_system =
  sys_queue :: "'w yield_queue"
  sys_runs :: "'w drain_run list"
  sys_registered :: "'w queued_yield list"
  sys_run :: "(flush_mode \<times> 'w queued_yield) list"
  sys_cleared :: "'w queued_yield list"

definition yield_system_start :: "'w yield_system" where
  "yield_system_start =
     \<lparr> sys_queue = yield_queue_new, sys_runs = [], sys_registered = [], sys_run = [], sys_cleared = [] \<rparr>"

inductive yield_step :: "'w yield_system \<Rightarrow> 'w yield_system \<Rightarrow> bool" where
  Register: "yield_step s (s\<lparr>sys_queue := push_yield y (sys_queue s), sys_registered := y # sys_registered s\<rparr>)"
| Pull: "pull_all (sys_queue s) = (ys, q) \<Longrightarrow>
    yield_step s (s\<lparr>sys_queue := q, sys_runs := start_run mode ys # sys_runs s\<rparr>)"
| KeepBack: "\<lbrakk>i < length (sys_runs s); run_todo (sys_runs s ! i) = y # ys; skipped (run_mode (sys_runs s ! i)) y\<rbrakk> \<Longrightarrow>
    yield_step s (s\<lparr>sys_runs := (sys_runs s)[i := drain_turn w (sys_runs s ! i)]\<rparr>)"
| RunThunk: "\<lbrakk>i < length (sys_runs s); run_todo (sys_runs s ! i) = y # ys; \<not> skipped (run_mode (sys_runs s ! i)) y\<rbrakk> \<Longrightarrow>
    yield_step s (s\<lparr>sys_runs := (sys_runs s)[i := drain_turn w (sys_runs s ! i)],
      sys_run := (run_mode (sys_runs s ! i), y) # sys_run s\<rparr>)"
| PutBack: "\<lbrakk>sys_runs s = before @ r # after; run_todo r = []\<rbrakk> \<Longrightarrow>
    yield_step s (s\<lparr>sys_queue := put_back (run_keep r) (sys_queue s), sys_runs := before @ after\<rparr>)"
| Clear: "yield_step s (s\<lparr>sys_queue := yield_clear (sys_queue s), sys_cleared := yields (sys_queue s) @ sys_cleared s\<rparr>)"
| Switch: "yield_step s (s\<lparr>sys_queue := (sys_queue s)\<lparr>idle_flush_enabled := b\<rparr>\<rparr>)"

inductive_cases yield_stepE: "yield_step s t"

text \<open>The history only grows, and a step changes one drain at most.\<close>

lemma registered_grows: "yield_step s t \<Longrightarrow> \<exists>new. sys_registered t = new @ sys_registered s"
  by (erule yield_stepE) auto

definition held :: "'w drain_run \<Rightarrow> 'w queued_yield multiset" where
  "held r = mset (run_todo r) + mset (run_keep r)"

definition conserved :: "'w yield_system \<Rightarrow> bool" where
  "conserved s =
     (mset (sys_registered s) =
        mset (yields (sys_queue s)) + sum_list (map held (sys_runs s)) + mset (map snd (sys_run s)) + mset (sys_cleared s)
      \<and> (\<forall>(mode, y) \<in> set (sys_run s). \<not> skipped mode y))"

lemma sum_list_update_mset:
  "i < length xs \<Longrightarrow> sum_list (map f (xs[i := x])) + f (xs ! i) = sum_list (map f xs) + (f x :: 'a multiset)"
proof (induction xs arbitrary: i)
  case (Cons a xs)
  then show ?case by (cases i) (auto simp: ac_simps)
qed simp

lemma conserved_step: "yield_step s t \<Longrightarrow> conserved s \<Longrightarrow> conserved t"
proof (induction rule: yield_step.induct)
  case (KeepBack i s y ys w)
  let ?r = "sys_runs s ! i"
  have "held (drain_turn w ?r) = held ?r" using KeepBack.hyps by (simp add: held_def drain_turn_def)
  then have "sum_list (map held ((sys_runs s)[i := drain_turn w ?r])) = sum_list (map held (sys_runs s))"
    using sum_list_update_mset [OF KeepBack.hyps(1), of held "drain_turn w ?r"] by simp
  with KeepBack.prems show ?case by (simp add: conserved_def)
next
  case (RunThunk i s y ys w)
  let ?r = "sys_runs s ! i"
  have "held ?r = add_mset y (held (drain_turn w ?r))" using RunThunk.hyps by (simp add: held_def drain_turn_def)
  then have "sum_list (map held (sys_runs s)) = add_mset y (sum_list (map held ((sys_runs s)[i := drain_turn w ?r])))"
    using sum_list_update_mset [OF RunThunk.hyps(1), of held "drain_turn w ?r"] by simp
  with RunThunk show ?case by (simp add: conserved_def)
qed (auto simp: conserved_def push_yield_def pull_all_def start_run_def held_def put_back_yields yield_clear_def)

text \<open>
  No aside is lost or delivered twice, however drains, registrations and clears interleave:
  in every reachable state each registered entry is exactly once queued, held by a drain in
  progress, run, or discarded by a clear; and an entry marked \<open>skip_idle_flush\<close> was never
  run by an idle drain.
\<close>

theorem yields_conserved:
  assumes "yield_step\<^sup>*\<^sup>* yield_system_start s"
  shows "mset (sys_registered s) =
      mset (yields (sys_queue s)) + sum_list (map held (sys_runs s)) + mset (map snd (sys_run s)) + mset (sys_cleared s)
    \<and> (\<forall>(mode, y) \<in> set (sys_run s). \<not> (mode = FlushIdle \<and> skip_idle_flush y))"
proof -
  have "conserved s"
    using assms
  proof (induction rule: rtranclp_induct)
    case base
    then show ?case by (simp add: conserved_def yield_system_start_def yield_queue_new_def)
  next
    case (step t u)
    then show ?case by (auto intro: conserved_step)
  qed
  then show ?thesis by (simp add: conserved_def skipped_def)
qed

definition sample_yield :: "string \<Rightarrow> bool \<Rightarrow> unit queued_yield" where
  "sample_yield kind skip = \<lparr> yield_kind = kind, skip_idle_flush = skip, yield_render = (\<lambda>_. Some kind) \<rparr>"

lemma reach_one_more: "r\<^sup>*\<^sup>* a b \<Longrightarrow> r b c \<Longrightarrow> r\<^sup>*\<^sup>* a c"
  by (rule rtranclp.rtrancl_into_rtrancl)

theorem yields_conserved_witness:
  "let s = yield_system_start\<lparr>sys_queue := push_yield (sample_yield ''job'' False) yield_queue_new,
      sys_registered := [sample_yield ''job'' False]\<rparr>
   in yield_step\<^sup>*\<^sup>* yield_system_start s
      \<and> mset (sys_registered s) = mset (yields (sys_queue s)) + sum_list (map held (sys_runs s))
          + mset (map snd (sys_run s)) + mset (sys_cleared s)"
proof -
  let ?y = "sample_yield ''job'' False"
  let ?s = "yield_system_start\<lparr>sys_queue := push_yield ?y yield_queue_new, sys_registered := [?y]\<rparr>"
  have "yield_step yield_system_start ?s"
    using Register [of yield_system_start ?y] by (simp add: yield_system_start_def)
  then have reach: "yield_step\<^sup>*\<^sup>* yield_system_start ?s" by (rule r_into_rtranclp)
  from yields_conserved [OF this] reach show ?thesis unfolding Let_def by blast
qed

text \<open>
  Two idle drains that overlap put their skipped entries back in the wrong order: the first
  pulls \<open>a\<close>, \<open>b\<close> is registered, the second pulls \<open>b\<close>, and the first finishes first.
\<close>

lemma overlapping_idle_drains_swap:
  assumes "skip_idle_flush a" "skip_idle_flush b"
  shows "\<exists>s. yield_step\<^sup>*\<^sup>* yield_system_start s \<and> sys_registered s = [b, a] \<and> sys_runs s = []
    \<and> yields (sys_queue s) = [b, a]"
proof -
  define s1 where "s1 = yield_system_start\<lparr>sys_queue := push_yield a yield_queue_new, sys_registered := [a]\<rparr>"
  define s2 where "s2 = s1\<lparr>sys_queue := yield_queue_new, sys_runs := [start_run FlushIdle [a]]\<rparr>"
  define s3 where "s3 = s2\<lparr>sys_queue := push_yield b yield_queue_new, sys_registered := [b, a]\<rparr>"
  define s4 where "s4 = s3\<lparr>sys_queue := yield_queue_new, sys_runs := [start_run FlushIdle [b], start_run FlushIdle [a]]\<rparr>"
  define ra where "ra = (start_run FlushIdle [a])\<lparr>run_todo := [], run_keep := [a]\<rparr>"
  define rb where "rb = (start_run FlushIdle [b])\<lparr>run_todo := [], run_keep := [b]\<rparr>"
  define s5 where "s5 = s4\<lparr>sys_runs := [rb, start_run FlushIdle [a]]\<rparr>"
  define s6 where "s6 = s5\<lparr>sys_runs := [rb, ra]\<rparr>"
  define s7 where "s7 = s6\<lparr>sys_queue := put_back [a] (sys_queue s6), sys_runs := [rb]\<rparr>"
  define s8 where "s8 = s7\<lparr>sys_queue := put_back [b] (sys_queue s7), sys_runs := []\<rparr>"
  note unfold = s1_def s2_def s3_def s4_def s5_def s6_def ra_def rb_def start_run_def push_yield_def
    yield_queue_new_def yield_system_start_def pull_all_def drain_turn_def
  have 1: "yield_step yield_system_start s1"
    using Register [of yield_system_start a] by (simp add: unfold)
  have 2: "yield_step s1 s2"
    using Pull [of s1 "[a]" yield_queue_new FlushIdle] by (simp add: unfold)
  have 3: "yield_step s2 s3"
    using Register [of s2 b] by (simp add: unfold)
  have 4: "yield_step s3 s4"
    using Pull [of s3 "[b]" yield_queue_new FlushIdle] by (simp add: unfold)
  have 5: "yield_step s4 s5"
    using KeepBack [of 0 s4 b "[]"] assms by (simp add: unfold)
  have 6: "yield_step s5 s6"
    using KeepBack [of 1 s5 a "[]"] assms by (simp add: unfold)
  have 7: "yield_step s6 s7"
    using PutBack [of s6 "[rb]" ra "[]"] by (simp add: s7_def unfold)
  have 8: "yield_step s7 s8"
    using PutBack [of s7 "[]" rb "[]"] by (simp add: s8_def s7_def unfold)
  have "yield_step\<^sup>*\<^sup>* yield_system_start s8"
    using 1 2 3 4 5 6 7 8 by (meson reach_one_more rtranclp.rtrancl_refl)
  moreover have "sys_registered s8 = [b, a]" "sys_runs s8 = []" "yields (sys_queue s8) = [b, a]"
    by (simp_all add: s8_def s7_def unfold put_back_yields)
  ultimately show ?thesis by blast
qed

end
