(* ===== verification/Kod_Async_Delivery.thy ===== *)
theory Kod_Async_Delivery
  imports Kod_Text
begin

text \<open>
  The delivery of background results, \<open>crates/kod-core/src/async_delivery.rs\<close>: one queue per
  owning transcript, the session epoch that drops results of an earlier session, and the
  batched message of a drain. The lemmas show that every owner sees its own first-in first-out
  queue, emptied by a session transition and never touched by another owner's calls.
\<close>

section \<open>Results and their rendering\<close>

definition inline_cap :: nat where
  "inline_cap = 12000"

definition preview_len :: nat where
  "preview_len = 4000"

record async_result =
  job_id :: u64
  owner_id :: string
  job_kind :: string
  body :: string
  artifact :: "string option"
  result_epoch :: u64

text \<open>The two characters outside ASCII in the rendered text: an ellipsis and an em dash.\<close>

definition ellipsis :: string where
  "ellipsis = [CHR 0xE2, CHR 0x80, CHR 0xA6]"

definition em_dash :: string where
  "em_dash = [CHR 0xE2, CHR 0x80, CHR 0x94]"

definition newline :: string where
  "newline = [CHR 0x0A]"

definition render_header :: "async_result \<Rightarrow> string" where
  "render_header r = ''[job '' @ show_nat (unat (job_id r)) @ '' '' @ job_kind r @ '']''"

definition render_one :: "async_result \<Rightarrow> string" where
  "render_one r =
     (let count = char_count (body r)
      in if count \<le> inline_cap then render_header r @ newline @ body r
         else render_header r @ newline @ concat (take preview_len (utf8_chars (body r))) @ newline @ ellipsis
           @ ''['' @ show_nat (count - preview_len) @ '' chars elided]''
           @ (case artifact r of
                Some url \<Rightarrow> newline @ ''[full result: '' @ url @ '']''
              | None \<Rightarrow> newline @ ''[full result truncated '' @ em_dash @ '' no artifact was written]''))"

section \<open>The delivery queue\<close>

record async_delivery =
  queues :: "(string, async_result list) hmap"
  epoch :: u64

definition delivery_new :: async_delivery where
  "delivery_new = \<lparr> queues = [], epoch = 0 \<rparr>"

definition bump_epoch :: "async_delivery \<Rightarrow> u64 \<times> async_delivery" where
  "bump_epoch d = (epoch d + 1, d\<lparr>epoch := epoch d + 1, queues := []\<rparr>)"

definition queue_of :: "async_delivery \<Rightarrow> string \<Rightarrow> async_result list" where
  "queue_of d own = (case map_of (queues d) own of None \<Rightarrow> [] | Some q \<Rightarrow> q)"

definition enqueue :: "async_result \<Rightarrow> async_delivery \<Rightarrow> async_delivery" where
  "enqueue r d =
     (if result_epoch r < epoch d then d
      else d\<lparr>queues := AList.update (owner_id r) (queue_of d (owner_id r) @ [r]) (queues d)\<rparr>)"

definition discard_owner :: "string \<Rightarrow> async_delivery \<Rightarrow> nat \<times> async_delivery" where
  "discard_owner own d = (length (queue_of d own), d\<lparr>queues := AList.delete own (queues d)\<rparr>)"

definition queued_for :: "async_delivery \<Rightarrow> string \<Rightarrow> nat" where
  "queued_for d own = length (queue_of d own)"

definition delivery_is_empty :: "async_delivery \<Rightarrow> bool" where
  "delivery_is_empty d = list_all (\<lambda>(_, q). q = []) (queues d)"

definition batch_message :: "async_result list \<Rightarrow> string" where
  "batch_message rs =
     trim_end (show_nat (length rs) @ '' background job(s) finished:'' @ newline @ newline
       @ concat (map (\<lambda>r. render_one r @ newline @ newline) rs))"

definition delivery_drain :: "string \<Rightarrow> async_delivery \<Rightarrow> string option \<times> async_delivery" where
  "delivery_drain own d =
     (case map_of (queues d) own of
        None \<Rightarrow> (None, d)
      | Some rs \<Rightarrow>
          (if rs = [] then None else Some (batch_message rs), d\<lparr>queues := AList.delete own (queues d)\<rparr>))"

fun drain_owners :: "string list \<Rightarrow> async_delivery \<Rightarrow> (string \<times> string) list \<times> async_delivery" where
  "drain_owners [] d = ([], d)"
| "drain_owners (own # owners) d =
     (let (msg, d1) = delivery_drain own d; (out, d2) = drain_owners owners d1
      in (case msg of None \<Rightarrow> out | Some m \<Rightarrow> (own, m) # out, d2))"

definition drain_all :: "async_delivery \<Rightarrow> (string \<times> string) list \<times> async_delivery" where
  "drain_all d = drain_owners (sort (map fst (queues d))) d"

section \<open>One owner's queue\<close>

text \<open>Every call on the registry, and its effect on the state.\<close>

datatype delivery_call =
    CallEnqueue async_result
  | CallBump
  | CallDiscard string
  | CallDrain string
  | CallDrainAll

fun delivery_step :: "async_delivery \<Rightarrow> delivery_call \<Rightarrow> async_delivery" where
  "delivery_step d (CallEnqueue r) = enqueue r d"
| "delivery_step d CallBump = snd (bump_epoch d)"
| "delivery_step d (CallDiscard own) = snd (discard_owner own d)"
| "delivery_step d (CallDrain own) = snd (delivery_drain own d)"
| "delivery_step d CallDrainAll = snd (drain_all d)"

text \<open>
  What one owner's queue and the epoch are supposed to do: the specification never mentions
  another owner.
\<close>

fun owner_spec :: "string \<Rightarrow> u64 \<times> async_result list \<Rightarrow> delivery_call \<Rightarrow> u64 \<times> async_result list" where
  "owner_spec own (e, q) (CallEnqueue r) =
     (e, if owner_id r = own \<and> e \<le> result_epoch r then q @ [r] else q)"
| "owner_spec own (e, q) CallBump = (e + 1, [])"
| "owner_spec own (e, q) (CallDiscard o') = (e, if o' = own then [] else q)"
| "owner_spec own (e, q) (CallDrain o') = (e, if o' = own then [] else q)"
| "owner_spec own (e, q) CallDrainAll = (e, [])"

definition owner_view :: "string \<Rightarrow> async_delivery \<Rightarrow> u64 \<times> async_result list" where
  "owner_view own d = (epoch d, queue_of d own)"

lemma queue_of_enqueue:
  "queue_of (enqueue r d) own =
     (if owner_id r = own \<and> epoch d \<le> result_epoch r then queue_of d own @ [r] else queue_of d own)"
  by (auto simp: enqueue_def queue_of_def update_conv' not_less)

lemma queue_of_drain: "queue_of (snd (delivery_drain o' d)) own = (if own = o' then [] else queue_of d own)"
  by (auto simp: delivery_drain_def queue_of_def delete_conv' split: option.splits)

lemma epoch_frame [simp]:
  "epoch (enqueue r d) = epoch d"
  "epoch (snd (discard_owner own d)) = epoch d"
  "epoch (snd (delivery_drain own d)) = epoch d"
  by (auto simp: enqueue_def discard_owner_def delivery_drain_def split: option.splits)

lemma epoch_drain_owners [simp]: "epoch (snd (drain_owners owners d)) = epoch d"
  by (induction owners arbitrary: d) (simp_all add: split_beta Let_def)

lemma queue_of_drain_owners:
  "queue_of (snd (drain_owners owners d)) own = (if own \<in> set owners then [] else queue_of d own)"
  by (induction owners arbitrary: d) (auto simp: split_beta Let_def queue_of_drain)

lemma queue_of_unkeyed: "own \<notin> set (map fst (queues d)) \<Longrightarrow> queue_of d own = []"
  using map_of_eq_None_iff [of "queues d" own] by (simp add: queue_of_def)

lemma queue_of_drain_all [simp]: "queue_of (snd (drain_all d)) own = []"
  using queue_of_unkeyed [of own d] by (auto simp: drain_all_def queue_of_drain_owners)

lemma queue_of_bump [simp]: "queue_of (snd (bump_epoch d)) own = []"
  by (simp add: bump_epoch_def queue_of_def)

lemma queue_of_discard: "queue_of (snd (discard_owner o' d)) own = (if own = o' then [] else queue_of d own)"
  by (simp add: discard_owner_def queue_of_def delete_conv')

lemma epoch_moves [simp]: "epoch (snd (bump_epoch d)) = epoch d + 1" "epoch (snd (drain_all d)) = epoch d"
  by (simp_all add: bump_epoch_def drain_all_def)

lemma owner_step: "owner_view own (delivery_step d c) = owner_spec own (owner_view own d) c"
  by (cases c) (simp_all add: owner_view_def queue_of_enqueue queue_of_drain queue_of_discard)

text \<open>
  Every owner has a queue of its own: over any sequence of calls, what is queued for one
  owner is given by a specification that looks at that owner's results, drains and discards and
  at the session transitions only. A sibling's drain or discard never touches it, and results
  come out in the order they went in.
\<close>

theorem owner_queues_independent:
  "owner_view own (foldl delivery_step d cs) = foldl (owner_spec own) (owner_view own d) cs"
  by (induction cs arbitrary: d) (simp_all add: owner_step)

section \<open>Epochs\<close>

definition delivery_ok :: "async_delivery \<Rightarrow> bool" where
  "delivery_ok d = (\<forall>own r. r \<in> set (queue_of d own) \<longrightarrow> owner_id r = own \<and> epoch d \<le> result_epoch r)"

lemma delivery_new_ok [kod_inv]: "delivery_ok delivery_new"
  by (simp add: delivery_ok_def delivery_new_def queue_of_def)

lemma delivery_step_ok [kod_inv]:
  assumes "delivery_ok d"
  shows "delivery_ok (delivery_step d c)"
proof -
  have "owner_id r = own \<and> epoch (delivery_step d c) \<le> result_epoch r"
    if "r \<in> set (queue_of (delivery_step d c) own)" for own r
  proof -
    have "(epoch (delivery_step d c), queue_of (delivery_step d c) own)
        = owner_spec own (epoch d, queue_of d own) c"
      using owner_step [of own d c] by (simp add: owner_view_def)
    then show ?thesis
      using that assms by (cases c) (auto simp: delivery_ok_def split: if_splits)
  qed
  then show ?thesis by (simp add: delivery_ok_def)
qed

interpretation delivery: counter_system delivery_step delivery_ok epoch
proof unfold_locales
  show "delivery_ok (delivery_step s e)" if "delivery_ok s" for s e
    using that by (rule delivery_step_ok)
  show "epoch (delivery_step s e) = epoch s \<or> epoch (delivery_step s e) = epoch s + 1" for s e
    by (cases e) simp_all
qed

text \<open>
  C19. No result of a session that ended is delivered: whatever calls were made before a session
  transition, after it and any further calls a drain returns only results of its own owner
  tagged with an epoch no older than the current one, which is newer than the one before the
  transition (unless \<open>2 ^ 64\<close> calls were made).
\<close>

theorem old_session_never_delivered:
  assumes "length before + length after + 1 < 2 ^ 64"
  shows "let d = foldl delivery_step delivery_new before; d' = foldl delivery_step d (CallBump # after)
    in epoch d < epoch d'
       \<and> (\<forall>own r. r \<in> set (queue_of d' own) \<longrightarrow> owner_id r = own \<and> epoch d < result_epoch r)"
proof -
  define d where "d = foldl delivery_step delivery_new before"
  define d1 where "d1 = delivery_step d CallBump"
  define d' where "d' = foldl delivery_step d1 after"
  have ok: "delivery_ok d" unfolding d_def by (intro delivery.run_keeps delivery_new_ok)
  then have ok1: "delivery_ok d1" unfolding d1_def by (rule delivery_step_ok)
  have start: "unat (epoch delivery_new) = 0" by (simp add: delivery_new_def)
  have "unat (epoch d) \<le> length before"
    using delivery.run_counter [OF delivery_new_ok, of before] assms by (simp add: start d_def)
  moreover have "epoch d1 = epoch d + 1" by (simp add: d1_def bump_epoch_def)
  moreover have "unat (epoch d + 1) = unat (epoch d) + 1" if "unat (epoch d) + 1 < 2 ^ 64"
    using that by (simp add: unat_word_ariths)
  ultimately have e1: "unat (epoch d1) = unat (epoch d) + 1" and small: "unat (epoch d1) + length after < 2 ^ 64"
    using assms by auto
  have le: "unat (epoch d1) \<le> unat (epoch d')"
    using delivery.run_counter [OF ok1 small] by (simp add: d'_def)
  have lt: "epoch d < epoch d'" using e1 le by (simp add: word_less_nat_alt)
  have "delivery_ok d'" unfolding d'_def using ok1 by (rule delivery.run_keeps)
  then have "owner_id r = own \<and> epoch d < result_epoch r" if "r \<in> set (queue_of d' own)" for own r
    using that lt by (auto simp: delivery_ok_def intro: order.strict_trans2)
  with lt show ?thesis by (simp add: Let_def d_def d1_def d'_def)
qed

definition sample_result :: "string \<Rightarrow> u64 \<Rightarrow> async_result" where
  "sample_result own e = \<lparr> job_id = 1, owner_id = own, job_kind = ''shell'', body = ''ok'', artifact = None,
     result_epoch = e \<rparr>"

theorem old_session_never_delivered_witness:
  "let d = foldl delivery_step delivery_new [CallEnqueue (sample_result ''a'' 0)];
       d' = foldl delivery_step d [CallBump, CallEnqueue (sample_result ''a'' 0), CallEnqueue (sample_result ''a'' 1)]
   in queue_of d ''a'' = [sample_result ''a'' 0] \<and> queue_of d' ''a'' = [sample_result ''a'' 1]
      \<and> (\<forall>r \<in> set (queue_of d' ''a''). epoch d < result_epoch r)"
proof -
  let ?before = "[CallEnqueue (sample_result ''a'' 0)]"
  let ?after = "[CallEnqueue (sample_result ''a'' 0), CallEnqueue (sample_result ''a'' 1)]"
  have "length ?before + length ?after + 1 < 2 ^ 64" by simp
  from old_session_never_delivered [OF this]
  have "\<forall>r \<in> set (queue_of (foldl delivery_step (foldl delivery_step delivery_new ?before) (CallBump # ?after)) ''a'').
      epoch (foldl delivery_step delivery_new ?before) < result_epoch r"
    unfolding Let_def by blast
  moreover have "queue_of (foldl delivery_step delivery_new ?before) ''a'' = [sample_result ''a'' 0]"
    "queue_of (foldl delivery_step (foldl delivery_step delivery_new ?before) (CallBump # ?after)) ''a''
       = [sample_result ''a'' 1]"
    by code_simp+
  ultimately show ?thesis unfolding Let_def by blast
qed

section \<open>The message\<close>

text \<open>A drain answers exactly when something is queued, and leaves nothing queued for the owner.\<close>

lemma drain_answers:
  "fst (delivery_drain own d) = (if queue_of d own = [] then None else Some (batch_message (queue_of d own)))"
  by (auto simp: delivery_drain_def queue_of_def split: option.splits)

text \<open>A result over the cap contributes its preview, not its body, on well-formed UTF-8.\<close>

lemma render_long:
  assumes "inline_cap < char_count (body r)"
  shows "\<exists>rest. render_one r = render_header r @ newline @ concat (take preview_len (utf8_chars (body r))) @ rest
    \<and> length rest \<le> 40 + length (show_nat (char_count (body r) - preview_len))
        + (case artifact r of None \<Rightarrow> 50 | Some url \<Rightarrow> length url)"
  using assms
  by (auto simp: render_one_def Let_def newline_def ellipsis_def em_dash_def split: option.splits)

end
