(* ===== verification/Kod_Work_Pool.thy ===== *)
theory Kod_Work_Pool
  imports Kod_Text "HOL-Library.Product_Lexorder"
begin

text \<open>
  The pool of keep-alive workers, \<open>crates/kod-swarm/src/work_pool.rs\<close>: slots with their queues,
  the dispatch policy, batches and yields. A load ratio is an \<open>f64\<close> quotient of two 32-bit
  integers in the source; here it is that quotient, rounded to 53 bits the way the hardware
  rounds, in units of \<open>2 ^ -84\<close>, so that comparing two ratios gives what comparing the floats
  gives.
\<close>

section \<open>Slots\<close>

record work_item =
  item_id :: string
  payload :: json

datatype slot_state = SlotIdle | SlotRunning | SlotUnavailable

record worker_slot =
  slot_agent :: string
  slot_state :: slot_state
  slot_queue :: "work_item list"
  context_tokens :: u64
  context_window :: u64

definition worker_slot_new :: "string \<Rightarrow> u64 \<Rightarrow> worker_slot" where
  "worker_slot_new agent window =
     \<lparr> slot_agent = agent, slot_state = SlotIdle, slot_queue = [], context_tokens = 0, context_window = window \<rparr>"

text \<open>\<open>u32::try_from(x).unwrap_or(u32::MAX)\<close>.\<close>

definition clamp_u32 :: "u64 \<Rightarrow> nat" where
  "clamp_u32 x = min (unat x) (2 ^ 32 - 1)"

fun bit_len :: "nat \<Rightarrow> nat" where
  "bit_len n = (if n = 0 then 0 else 1 + bit_len (n div 2))"

declare bit_len.simps [simp del]

text \<open>Round half to even at 53 significant bits; the quotient has at least 53 bits in these units.\<close>

definition round53 :: "nat \<Rightarrow> bool \<Rightarrow> nat" where
  "round53 q sticky =
     (let drop_bits = bit_len q - 53; m = q div 2 ^ drop_bits; r = q mod 2 ^ drop_bits; half = 2 ^ drop_bits div 2
      in (if drop_bits = 0 then q
          else if half < r \<or> (r = half \<and> (sticky \<or> odd m)) then (m + 1) * 2 ^ drop_bits
          else m * 2 ^ drop_bits))"

definition f64_div :: "nat \<Rightarrow> nat \<Rightarrow> nat" where
  "f64_div a b = (if a = 0 then 0 else round53 (a * 2 ^ 84 div b) (a * 2 ^ 84 mod b \<noteq> 0))"

definition load_ratio :: "worker_slot \<Rightarrow> nat" where
  "load_ratio s =
     (if context_window s = 0 then 2 ^ 84 else f64_div (clamp_u32 (context_tokens s)) (clamp_u32 (context_window s)))"

section \<open>The pool\<close>

datatype dispatch_policy = Batched | FreshAgents

record batch_assignment =
  batch_agent :: string
  batch_items :: "work_item list"

datatype dispatch_result = Queued string | Spawn string | Rejected

record work_pool =
  dispatch_policy :: dispatch_policy
  max_agents :: nat
  pool_slots :: "(string, worker_slot) hmap"
  pool_cursor :: u64
  next_agent_seq :: u64
  batch_budget :: nat

definition work_pool_new :: "nat \<Rightarrow> nat \<Rightarrow> work_pool" where
  "work_pool_new agents budget =
     \<lparr> dispatch_policy = Batched, max_agents = agents, pool_slots = [], pool_cursor = 0, next_agent_seq = 1,
       batch_budget = budget \<rparr>"

definition with_policy :: "dispatch_policy \<Rightarrow> work_pool \<Rightarrow> work_pool" where
  "with_policy policy p = p\<lparr>dispatch_policy := policy\<rparr>"

definition record_spawned :: "string \<Rightarrow> u64 \<Rightarrow> work_pool \<Rightarrow> work_pool" where
  "record_spawned agent window p =
     (case map_of (pool_slots p) agent of
        Some _ \<Rightarrow> p
      | None \<Rightarrow> p\<lparr>pool_slots := AList.update agent (worker_slot_new agent window) (pool_slots p)\<rparr>)"

definition slot_count :: "work_pool \<Rightarrow> nat" where
  "slot_count p = length (pool_slots p)"

definition slot_ids :: "work_pool \<Rightarrow> string list" where
  "slot_ids p = sort (map fst (pool_slots p))"

definition worker_name :: "u64 \<Rightarrow> string" where
  "worker_name k = ''worker-'' @ show_nat (unat k)"

definition next_agent_id :: "work_pool \<Rightarrow> string \<times> work_pool" where
  "next_agent_id p = (worker_name (next_agent_seq p), p\<lparr>next_agent_seq := next_agent_seq p + 1\<rparr>)"

text \<open>
  The candidates sorted by load and id, and the slot the cursor picks among those tied at the
  smallest load.
\<close>

definition sorted_candidates :: "slot_state \<Rightarrow> work_pool \<Rightarrow> (string \<times> worker_slot) list" where
  "sorted_candidates st p =
     sort_key (\<lambda>(agent, s). (load_ratio s, agent)) (filter (\<lambda>(_, s). slot_state s = st) (pool_slots p))"

definition pick_slot :: "slot_state \<Rightarrow> work_pool \<Rightarrow> string option \<times> work_pool" where
  "pick_slot st p =
     (let cs = sorted_candidates st p
      in if cs = [] then (None, p)
         else (let tied = takeWhile (\<lambda>(_, s). load_ratio s = load_ratio (snd (hd cs))) cs;
                   i = unat (pool_cursor p) mod max (length tied) 1
               in (Some (fst (cs ! i)), p\<lparr>pool_cursor := pool_cursor p + 1\<rparr>)))"

definition slot_push :: "work_item \<Rightarrow> worker_slot \<Rightarrow> worker_slot" where
  "slot_push item s = s\<lparr>slot_queue := slot_queue s @ [item]\<rparr>"

definition queue_onto :: "string \<Rightarrow> work_item \<Rightarrow> work_pool \<Rightarrow> work_pool" where
  "queue_onto agent item p =
     (case map_of (pool_slots p) agent of
        None \<Rightarrow> p
      | Some s \<Rightarrow> p\<lparr>pool_slots := AList.update agent (slot_push item s) (pool_slots p)\<rparr>)"

definition spawn_slot :: "slot_state \<Rightarrow> work_item \<Rightarrow> work_pool \<Rightarrow> dispatch_result \<times> work_pool" where
  "spawn_slot st item p =
     (let (agent, p1) = next_agent_id p;
          s = slot_push item ((worker_slot_new agent 0)\<lparr>slot_state := st\<rparr>)
      in (Spawn agent, p1\<lparr>pool_slots := AList.update agent s (pool_slots p1)\<rparr>))"

definition dispatch :: "work_item \<Rightarrow> work_pool \<Rightarrow> dispatch_result \<times> work_pool" where
  "dispatch item p =
     (if dispatch_policy p = FreshAgents then spawn_slot SlotRunning item p
      else
        (case pick_slot SlotIdle p of
           (Some agent, p1) \<Rightarrow> (Queued agent, queue_onto agent item p1)
         | (None, p1) \<Rightarrow>
             if length (pool_slots p1) < max_agents p1 then spawn_slot SlotIdle item p1
             else
               (case pick_slot SlotRunning p1 of
                  (Some agent, p2) \<Rightarrow> (Queued agent, queue_onto agent item p2)
                | (None, p2) \<Rightarrow> (Rejected, p2))))"

definition slot_take :: "nat \<Rightarrow> worker_slot \<Rightarrow> work_item list \<times> worker_slot" where
  "slot_take budget s =
     (let n = min (length (slot_queue s)) budget
      in if slot_state s = SlotUnavailable \<or> n = 0 then ([], s)
         else (take n (slot_queue s), s\<lparr>slot_queue := drop n (slot_queue s), slot_state := SlotRunning\<rparr>))"

definition take_batch :: "string \<Rightarrow> work_pool \<Rightarrow> batch_assignment option \<times> work_pool" where
  "take_batch agent p =
     (case map_of (pool_slots p) agent of
        None \<Rightarrow> (None, p)
      | Some s \<Rightarrow>
          (let (items, s1) = slot_take (batch_budget p) s
           in if items = [] then (None, p)
              else (Some \<lparr> batch_agent = agent, batch_items = items \<rparr>,
                    p\<lparr>pool_slots := AList.update agent s1 (pool_slots p)\<rparr>)))"

definition record_yield :: "string \<Rightarrow> u64 \<Rightarrow> bool \<Rightarrow> work_pool \<Rightarrow> work_pool" where
  "record_yield agent tokens satisfied p =
     (case map_of (pool_slots p) agent of
        None \<Rightarrow> p
      | Some s \<Rightarrow> p\<lparr>pool_slots := AList.update agent
          (s\<lparr>context_tokens := sat_add (context_tokens s) tokens,
             slot_state := if satisfied then SlotIdle else SlotUnavailable\<rparr>) (pool_slots p)\<rparr>)"

definition is_drained :: "work_pool \<Rightarrow> bool" where
  "is_drained p = list_all (\<lambda>(_, s). slot_state s = SlotIdle \<and> slot_queue s = []) (pool_slots p)"

definition queued_len :: "work_pool \<Rightarrow> nat" where
  "queued_len p = hm_sum (\<lambda>s. length (slot_queue s)) (pool_slots p)"

definition remove_slot :: "string \<Rightarrow> work_pool \<Rightarrow> worker_slot option \<times> work_pool" where
  "remove_slot agent p = (map_of (pool_slots p) agent, p\<lparr>pool_slots := AList.delete agent (pool_slots p)\<rparr>)"

definition build_batch_output_schema :: "work_item list \<Rightarrow> json" where
  "build_batch_output_schema items =
     JObject [(''type'', JString ''object''), (''required'', JArray (map (\<lambda>i. JString (item_id i)) items)),
       (''additionalProperties'', JBool True)]"

definition yield_contract_satisfied :: "json \<Rightarrow> work_item list \<Rightarrow> bool" where
  "yield_contract_satisfied response items =
     (case response of
        JObject members \<Rightarrow> list_all (\<lambda>i. item_id i \<in> fst ` set members) items
      | _ \<Rightarrow> False)"

section \<open>Picking a slot\<close>

lemma set_candidates: "set (sorted_candidates st p) = {(agent, s) \<in> set (pool_slots p). slot_state s = st}"
  by (auto simp: sorted_candidates_def)

lemma candidates_hd_min:
  assumes "(agent, s) \<in> set (sorted_candidates st p)"
  shows "load_ratio (snd (hd (sorted_candidates st p))) \<le> load_ratio s"
proof -
  let ?f = "\<lambda>(agent, s). (load_ratio s, agent)"
  have "sorted (map ?f (sorted_candidates st p))" by (simp add: sorted_candidates_def)
  moreover obtain c cs where cs: "sorted_candidates st p = c # cs" using assms by (cases "sorted_candidates st p") auto
  ultimately have "?f c \<le> ?f (agent, s)" using assms by auto
  then have "load_ratio (snd c) \<le> load_ratio s" by (cases c) (auto simp: less_eq_prod_def)
  with cs show ?thesis by simp
qed

lemma pick_slot_None: "fst (pick_slot st p) = None \<longleftrightarrow> (\<forall>(_, s) \<in> set (pool_slots p). slot_state s \<noteq> st)"
proof -
  have "sorted_candidates st p = [] \<longleftrightarrow> set (sorted_candidates st p) = {}" by simp
  then show ?thesis by (auto simp: pick_slot_def Let_def set_candidates)
qed

lemma pick_slot_frame [simp]:
  "pool_slots (snd (pick_slot st p)) = pool_slots p"
  "max_agents (snd (pick_slot st p)) = max_agents p"
  "next_agent_seq (snd (pick_slot st p)) = next_agent_seq p"
  "batch_budget (snd (pick_slot st p)) = batch_budget p"
  "dispatch_policy (snd (pick_slot st p)) = dispatch_policy p"
  by (simp_all add: pick_slot_def Let_def)

lemma pick_slot_min:
  assumes "keys_distinct (pool_slots p)" "fst (pick_slot st p) = Some agent"
  shows "\<exists>s. map_of (pool_slots p) agent = Some s \<and> slot_state s = st
    \<and> (\<forall>(_, s') \<in> set (pool_slots p). slot_state s' = st \<longrightarrow> load_ratio s \<le> load_ratio s')"
proof -
  let ?cs = "sorted_candidates st p"
  let ?tied = "takeWhile (\<lambda>(_, s). load_ratio s = load_ratio (snd (hd ?cs))) ?cs"
  let ?i = "unat (pool_cursor p) mod max (length ?tied) 1"
  have ne: "?cs \<noteq> []" and agent: "agent = fst (?cs ! ?i)"
    using assms(2) by (auto simp: pick_slot_def Let_def split: if_splits)
  have pos: "0 < length ?tied" using ne by (cases ?cs) auto
  then have "max (length ?tied) 1 = length ?tied" by linarith
  with pos have i: "?i < length ?tied" by simp
  moreover have le: "length ?tied \<le> length ?cs" by (rule length_takeWhile_le)
  ultimately have mem: "?cs ! ?i \<in> set ?cs" by (intro nth_mem) linarith
  have "?tied ! ?i \<in> set ?tied" using i by (rule nth_mem)
  moreover have "?tied ! ?i = ?cs ! ?i" using i by (rule takeWhile_nth)
  ultimately have min: "load_ratio (snd (?cs ! ?i)) = load_ratio (snd (hd ?cs))"
    by (auto dest: set_takeWhileD simp: split_beta)
  obtain s where s: "?cs ! ?i = (agent, s)" using agent by (cases "?cs ! ?i") auto
  from mem s have "(agent, s) \<in> set (pool_slots p)" and st: "slot_state s = st" by (auto simp: set_candidates)
  then have "map_of (pool_slots p) agent = Some s" by (simp only: set_alist_iff [OF assms(1)])
  moreover have "load_ratio s \<le> load_ratio s'" if "(a, s') \<in> set (pool_slots p)" "slot_state s' = st" for a s'
    using candidates_hd_min [of a s' st p] that min s by (simp add: set_candidates)
  ultimately show ?thesis using st by blast
qed

text \<open>
  A picked slot is in the state asked for, and no other slot in that state has a smaller
  load ratio: the round-robin cursor chooses only among the least loaded.
\<close>

theorem pick_slot_least_loaded:
  assumes "keys_distinct (pool_slots p)" "fst (pick_slot st p) = Some agent"
  shows "\<exists>s. map_of (pool_slots p) agent = Some s \<and> slot_state s = st
    \<and> (\<forall>(_, s') \<in> set (pool_slots p). slot_state s' = st \<longrightarrow> load_ratio s \<le> load_ratio s')"
  using assms by (rule pick_slot_min)

text \<open>When a dispatch is rejected, and where the item goes otherwise.\<close>

text \<open>
  A batched pool rejects an item exactly when it is full and every slot is tombstoned:
  the length of the queues and the batch budget play no part.
\<close>

theorem dispatch_rejects_iff:
  assumes "dispatch_policy p = Batched"
  shows "fst (dispatch item p) = Rejected \<longleftrightarrow>
    max_agents p \<le> slot_count p \<and> (\<forall>(_, s) \<in> set (pool_slots p). slot_state s = SlotUnavailable)"
proof -
  have r1: "fst (pick_slot SlotIdle p) = None \<longleftrightarrow> (\<forall>(_, s) \<in> set (pool_slots p). slot_state s \<noteq> SlotIdle)"
    by (rule pick_slot_None)
  have r2: "fst (pick_slot SlotRunning (snd (pick_slot SlotIdle p))) = None
      \<longleftrightarrow> (\<forall>(_, s) \<in> set (pool_slots p). slot_state s \<noteq> SlotRunning)"
    using pick_slot_None [of SlotRunning "snd (pick_slot SlotIdle p)"] by simp
  have r: "fst (dispatch item p) = Rejected \<longleftrightarrow>
      fst (pick_slot SlotIdle p) = None \<and> max_agents p \<le> slot_count p
      \<and> fst (pick_slot SlotRunning (snd (pick_slot SlotIdle p))) = None"
    using assms
    by (cases "pick_slot SlotIdle p"; cases "pick_slot SlotRunning (snd (pick_slot SlotIdle p))")
      (use pick_slot_frame [of SlotIdle p] in \<open>auto simp: dispatch_def spawn_slot_def Let_def slot_count_def split_beta split: option.splits\<close>)
  have "slot_state s = SlotUnavailable \<longleftrightarrow> slot_state s \<noteq> SlotIdle \<and> slot_state s \<noteq> SlotRunning" for s
    by (cases "slot_state s") simp_all
  with r r1 r2 show ?thesis by fast
qed

section \<open>One slot's queue\<close>

text \<open>Batches leave a slot in the order the items were queued, whatever the batch budget.\<close>

interpretation slot: fifo_store slot_queue slot_push "slot_take budget" for budget
  by unfold_locales (simp_all add: slot_push_def slot_take_def Let_def)

section \<open>No item is lost\<close>

datatype pool_call =
    CallDispatch work_item
  | CallSpawned string u64
  | CallTake string
  | CallYield string u64 bool
  | CallRemove string

record pool_history =
  hist_pool :: work_pool
  hist_accepted :: "work_item list"
  hist_handed :: "work_item list"
  hist_removed :: "work_item list"

definition history_new :: "work_pool \<Rightarrow> pool_history" where
  "history_new p = \<lparr> hist_pool = p, hist_accepted = [], hist_handed = [], hist_removed = [] \<rparr>"

fun pool_step :: "pool_history \<Rightarrow> pool_call \<Rightarrow> pool_history" where
  "pool_step h (CallDispatch item) =
     (let (r, p) = dispatch item (hist_pool h)
      in h\<lparr>hist_pool := p, hist_accepted := (if r = Rejected then [] else [item]) @ hist_accepted h\<rparr>)"
| "pool_step h (CallSpawned agent window) = h\<lparr>hist_pool := record_spawned agent window (hist_pool h)\<rparr>"
| "pool_step h (CallTake agent) =
     (let (b, p) = take_batch agent (hist_pool h)
      in h\<lparr>hist_pool := p, hist_handed := hist_handed h @ (case b of None \<Rightarrow> [] | Some b \<Rightarrow> batch_items b)\<rparr>)"
| "pool_step h (CallYield agent tokens ok) = h\<lparr>hist_pool := record_yield agent tokens ok (hist_pool h)\<rparr>"
| "pool_step h (CallRemove agent) =
     (let (s, p) = remove_slot agent (hist_pool h)
      in h\<lparr>hist_pool := p, hist_removed := hist_removed h @ (case s of None \<Rightarrow> [] | Some s \<Rightarrow> slot_queue s)\<rparr>)"

text \<open>The ids the pool has given out; a caller reports only those as spawned.\<close>

definition issued :: "work_pool \<Rightarrow> string \<Rightarrow> bool" where
  "issued p agent = list_ex (\<lambda>k. agent = worker_name (of_nat k)) [0..<unat (next_agent_seq p)]"

fun well_reported :: "pool_history \<Rightarrow> pool_call list \<Rightarrow> bool" where
  "well_reported h [] = True"
| "well_reported h (c # cs) =
     ((case c of CallSpawned agent _ \<Rightarrow> issued (hist_pool h) agent | _ \<Rightarrow> True) \<and> well_reported (pool_step h c) cs)"

definition queued_count :: "work_item \<Rightarrow> work_pool \<Rightarrow> nat" where
  "queued_count x p = hm_sum (\<lambda>s. count_list (slot_queue s) x) (pool_slots p)"

text \<open>The slots are named apart by the sequence number, which has not wrapped.\<close>

definition pool_ok :: "nat \<Rightarrow> work_pool \<Rightarrow> bool" where
  "pool_ok n p =
     (keys_distinct (pool_slots p) \<and> unat (next_agent_seq p) \<le> n + 1
      \<and> (\<forall>agent \<in> fst ` set (pool_slots p). issued p agent))"

definition balanced :: "pool_history \<Rightarrow> bool" where
  "balanced h = (\<forall>x. count_list (hist_accepted h) x =
     count_list (hist_handed h) x + count_list (hist_removed h) x + queued_count x (hist_pool h))"

lemma worker_name_inject: "worker_name j = worker_name k \<Longrightarrow> j = k"
  unfolding worker_name_def using show_nat_inject [of "unat j" "unat k"] by (simp add: word_unat_eq_iff)

lemma issued_iff: "issued p agent \<longleftrightarrow> (\<exists>k < next_agent_seq p. agent = worker_name k)"
proof
  assume "issued p agent"
  then obtain k where k: "k < unat (next_agent_seq p)" "agent = worker_name (of_nat k)"
    by (auto simp: issued_def list_ex_iff)
  have "unat (next_agent_seq p) < 2 ^ LENGTH(64)" by (rule unsigned_less)
  with k(1) have "k < 2 ^ LENGTH(64)" by linarith
  then have "unat (of_nat k :: u64) = k" by (simp add: unat_of_nat)
  with k show "\<exists>k < next_agent_seq p. agent = worker_name k"
    by (intro exI [of _ "of_nat k"]) (simp add: word_less_nat_alt)
next
  assume "\<exists>k < next_agent_seq p. agent = worker_name k"
  then obtain k where "k < next_agent_seq p" "agent = worker_name k" by blast
  then show "issued p agent"
    unfolding issued_def list_ex_iff by (intro bexI [of _ "unat k"]) (auto simp: word_less_nat_alt)
qed

lemma next_not_issued: "\<not> issued p (worker_name (next_agent_seq p))"
  unfolding issued_iff using worker_name_inject by blast

lemma issued_cong: "next_agent_seq p = next_agent_seq q \<Longrightarrow> issued p = issued q"
  by (simp add: issued_def fun_eq_iff)

lemma issued_next:
  assumes "unat (next_agent_seq p) + 1 < 2 ^ 64" and "next_agent_seq q = next_agent_seq p + 1"
  shows "issued q agent \<longleftrightarrow> issued p agent \<or> agent = worker_name (next_agent_seq p)"
proof -
  have "unat (next_agent_seq q) = Suc (unat (next_agent_seq p))"
    using assms by (simp add: unat_word_ariths)
  then show ?thesis by (auto simp: issued_def)
qed

text \<open>A call leaves the slots alone, updates one, adds the next named one, or removes one.\<close>

lemma pool_same:
  assumes "pool_slots q = pool_slots p" "next_agent_seq q = next_agent_seq p"
  shows "pool_ok n q = pool_ok n p" "queued_count x q = queued_count x p"
  using assms by (simp_all add: pool_ok_def queued_count_def issued_cong [OF assms(2)])

lemma pool_updated:
  assumes "pool_ok n p" "map_of (pool_slots p) agent = Some s"
    and "pool_slots q = AList.update agent s' (pool_slots p)" "next_agent_seq q = next_agent_seq p"
  shows "pool_ok n q"
    and "queued_count x q + count_list (slot_queue s) x = queued_count x p + count_list (slot_queue s') x"
proof -
  have "agent \<in> fst ` set (pool_slots p)" using assms(2) by (force dest: map_of_SomeD)
  then have "fst ` set (pool_slots q) = fst ` set (pool_slots p)"
    by (simp add: assms(3) dom_update insert_absorb)
  then show "pool_ok n q"
    using assms(1) by (simp add: pool_ok_def keys_distinct_update issued_cong [OF assms(4)] assms(3,4))
  show "queued_count x q + count_list (slot_queue s) x = queued_count x p + count_list (slot_queue s') x"
    using hm_sum_update_old [OF _ assms(2), of "\<lambda>s. count_list (slot_queue s) x" s'] assms(1)
    by (simp add: queued_count_def assms(3) pool_ok_def)
qed

lemma pool_inserted:
  assumes "pool_ok n p" "map_of (pool_slots p) agent = None" "pool_slots q = AList.update agent s (pool_slots p)"
    and "issued q agent" "\<And>a. issued p a \<Longrightarrow> issued q a" "unat (next_agent_seq q) \<le> m + 1"
  shows "pool_ok m q" "queued_count x q = queued_count x p + count_list (slot_queue s) x"
  using assms hm_sum_update_new [OF assms(2), of "\<lambda>s. count_list (slot_queue s) x" s]
  by (auto simp: pool_ok_def keys_distinct_update dom_update queued_count_def)

lemma pool_removed:
  assumes "pool_ok n p" "map_of (pool_slots p) agent = Some s"
    and "pool_slots q = AList.delete agent (pool_slots p)" "next_agent_seq q = next_agent_seq p"
  shows "pool_ok n q" "queued_count x q + count_list (slot_queue s) x = queued_count x p"
proof -
  show "pool_ok n q"
    using assms(1) by (auto simp: pool_ok_def keys_distinct_delete issued_cong [OF assms(4)] assms(3,4)
        dest!: subsetD [OF set_delete_subset])
  show "queued_count x q + count_list (slot_queue s) x = queued_count x p"
    using hm_sum_delete [OF _ assms(2), of "\<lambda>s. count_list (slot_queue s) x"] assms(1)
    by (simp add: queued_count_def assms(3) pool_ok_def)
qed

lemma picked_is_slot:
  "keys_distinct (pool_slots p) \<Longrightarrow> fst (pick_slot st p) = Some agent \<Longrightarrow> \<exists>s. map_of (pool_slots p) agent = Some s"
  using pick_slot_min by blast

text \<open>The three ways a dispatch ends.\<close>

lemma dispatch_cases:
  assumes "keys_distinct (pool_slots p)"
  obtains (queued) agent s where "map_of (pool_slots p) agent = Some s" "fst (dispatch item p) = Queued agent"
      "pool_slots (snd (dispatch item p)) = AList.update agent (slot_push item s) (pool_slots p)"
      "next_agent_seq (snd (dispatch item p)) = next_agent_seq p"
  | (spawned) s where "fst (dispatch item p) = Spawn (worker_name (next_agent_seq p))" "slot_queue s = [item]"
      "pool_slots (snd (dispatch item p)) = AList.update (worker_name (next_agent_seq p)) s (pool_slots p)"
      "next_agent_seq (snd (dispatch item p)) = next_agent_seq p + 1"
  | (rejected) "fst (dispatch item p) = Rejected" "pool_slots (snd (dispatch item p)) = pool_slots p"
      "next_agent_seq (snd (dispatch item p)) = next_agent_seq p"
proof -
  let ?p1 = "snd (pick_slot SlotIdle p)"
  have slots: "pool_slots ?p1 = pool_slots p" by simp
  show ?thesis
  proof (cases "dispatch_policy p = FreshAgents")
    case True
    then show ?thesis
      using spawned [of "slot_push item ((worker_slot_new (worker_name (next_agent_seq p)) 0)\<lparr>slot_state := SlotRunning\<rparr>)"]
      by (simp add: dispatch_def spawn_slot_def next_agent_id_def slot_push_def worker_slot_new_def)
  next
    case False
    consider (idle) agent where "fst (pick_slot SlotIdle p) = Some agent"
      | (spawn) "fst (pick_slot SlotIdle p) = None" "length (pool_slots p) < max_agents p"
      | (running) agent where "fst (pick_slot SlotIdle p) = None" "\<not> length (pool_slots p) < max_agents p"
          "fst (pick_slot SlotRunning ?p1) = Some agent"
      | (full) "fst (pick_slot SlotIdle p) = None" "\<not> length (pool_slots p) < max_agents p"
          "fst (pick_slot SlotRunning ?p1) = None"
      by (cases "fst (pick_slot SlotIdle p)"; cases "fst (pick_slot SlotRunning ?p1)") blast+
    then show ?thesis
    proof cases
      case idle
      obtain s where "map_of (pool_slots p) agent = Some s" using picked_is_slot [OF assms idle] by blast
      with idle False show ?thesis
        by (intro queued [of agent s]) (simp_all add: dispatch_def queue_onto_def split_beta)
    next
      case spawn
      with False show ?thesis
        by (intro spawned [of "slot_push item ((worker_slot_new (worker_name (next_agent_seq p)) 0)\<lparr>slot_state := SlotIdle\<rparr>)"])
          (simp_all add: dispatch_def spawn_slot_def next_agent_id_def slot_push_def worker_slot_new_def split_beta)
    next
      case running
      obtain s where "map_of (pool_slots p) agent = Some s"
        using picked_is_slot [OF _ running(3)] assms by auto
      with running False show ?thesis
        by (intro queued [of agent s]) (simp_all add: dispatch_def queue_onto_def split_beta)
    next
      case full
      with False show ?thesis by (intro rejected) (simp_all add: dispatch_def split_beta)
    qed
  qed
qed

lemma new_slot_queue [simp]: "slot_queue (worker_slot_new agent window) = []"
  by (simp add: worker_slot_new_def)

definition step_ok :: "nat \<Rightarrow> pool_history \<Rightarrow> bool" where
  "step_ok n h = (pool_ok n (hist_pool h) \<and> balanced h)"

lemma slot_take_split: "slot_queue s = fst (slot_take b s) @ slot_queue (snd (slot_take b s))"
  by (rule slot.items_take)

lemma step_ok_dispatch:
  assumes "step_ok n h" "n + 2 < 2 ^ 64"
  shows "step_ok (n + 1) (pool_step h (CallDispatch item))"
proof -
  let ?p = "hist_pool h" and ?q = "snd (dispatch item (hist_pool h))"
  have ok: "pool_ok n ?p" and bal: "balanced h" using assms(1) by (simp_all add: step_ok_def)
  then have "keys_distinct (pool_slots ?p)" by (simp add: pool_ok_def)
  then show ?thesis
  proof (cases rule: dispatch_cases [of ?p item])
    case (queued agent s)
    note u = pool_updated [OF ok queued(1,3,4)]
    from u(1) have "pool_ok (n + 1) ?q" by (simp add: pool_ok_def)
    moreover have "queued_count x ?q = queued_count x ?p + count_list [item] x" for x
      using u(2) [of x] by (simp add: slot_push_def count_list_append)
    ultimately show ?thesis using bal queued(2) by (simp add: step_ok_def balanced_def split_beta Let_def)
  next
    case (spawned s)
    have small: "unat (next_agent_seq ?p) + 1 < 2 ^ 64" using ok assms(2) by (simp add: pool_ok_def)
    note i = issued_next [OF small spawned(4)]
    have none: "map_of (pool_slots ?p) (worker_name (next_agent_seq ?p)) = None"
      using ok next_not_issued [of ?p] by (auto simp: pool_ok_def map_of_eq_None_iff)
    have seq: "unat (next_agent_seq ?q) \<le> n + 1 + 1"
      using small ok by (simp add: spawned(4) pool_ok_def unat_word_ariths)
    note ins = pool_inserted [OF ok none spawned(3) _ _ seq]
    show ?thesis
      using ins i spawned(1,2) bal by (simp add: step_ok_def balanced_def split_beta Let_def)
  next
    case rejected
    from pool_same [OF rejected(2,3)] ok bal rejected(1) show ?thesis
      by (simp add: step_ok_def balanced_def pool_ok_def split_beta Let_def)
  qed
qed

lemma pool_ok_mono: "pool_ok n p \<Longrightarrow> n \<le> m \<Longrightarrow> pool_ok m p"
  by (simp add: pool_ok_def)

lemma step_ok_other:
  assumes "step_ok n h" "case c of CallSpawned agent _ \<Rightarrow> issued (hist_pool h) agent | _ \<Rightarrow> True"
    and "\<forall>item. c \<noteq> CallDispatch item"
  shows "step_ok n (pool_step h c)"
proof -
  let ?p = "hist_pool h"
  have ok: "pool_ok n ?p" and bal: "balanced h" using assms(1) by (simp_all add: step_ok_def)
  show ?thesis
  proof (cases c)
    case (CallDispatch item)
    with assms(3) show ?thesis by blast
  next
    case (CallSpawned agent window)
    let ?q = "record_spawned agent window ?p"
    show ?thesis
    proof (cases "map_of (pool_slots ?p) agent")
      case None
      let ?q = "?p\<lparr>pool_slots := AList.update agent (worker_slot_new agent window) (pool_slots ?p)\<rparr>"
      have q: "issued ?q = issued ?p" by (rule issued_cong) simp
      have iss: "issued ?q agent" using assms(2) CallSpawned by (simp add: q)
      have seq: "unat (next_agent_seq ?q) \<le> n + 1" using ok by (simp add: pool_ok_def)
      have "pool_ok n ?q" "queued_count x ?q = queued_count x ?p" for x
        using pool_inserted [OF ok None _ iss _ seq] by (simp_all add: q)
      with bal None CallSpawned show ?thesis by (simp add: step_ok_def balanced_def record_spawned_def)
    next
      case (Some s)
      with CallSpawned ok bal show ?thesis by (simp add: step_ok_def balanced_def record_spawned_def)
    qed
  next
    case (CallTake agent)
    show ?thesis
    proof (cases "map_of (pool_slots ?p) agent")
      case None
      with CallTake ok bal show ?thesis by (simp add: step_ok_def balanced_def take_batch_def)
    next
      case (Some s)
      let ?t = "slot_take (batch_budget ?p) s"
      let ?q = "?p\<lparr>pool_slots := AList.update agent (snd ?t) (pool_slots ?p)\<rparr>"
      note u = pool_updated [OF ok Some, of ?q "snd ?t"]
      have split: "count_list (slot_queue s) x = count_list (fst ?t) x + count_list (slot_queue (snd ?t)) x" for x
        by (subst slot_take_split [of s "batch_budget ?p"]) (rule count_list_append)
      have upd: "queued_count x ?q + count_list (slot_queue s) x
          = queued_count x ?p + count_list (slot_queue (snd ?t)) x" for x
        by (rule u(2)) simp_all
      have q: "queued_count x ?p = count_list (fst ?t) x + queued_count x ?q" for x
        using split [of x] upd [of x] by linarith
      show ?thesis
        using CallTake Some ok bal u(1) q
        by (auto simp: step_ok_def balanced_def take_batch_def Let_def split_beta count_list_append)
    qed
  next
    case (CallYield agent tokens satisfied)
    show ?thesis
    proof (cases "map_of (pool_slots ?p) agent")
      case None
      with CallYield ok bal show ?thesis by (simp add: step_ok_def balanced_def record_yield_def)
    next
      case (Some s)
      let ?s = "s\<lparr>context_tokens := sat_add (context_tokens s) tokens,
        slot_state := if satisfied then SlotIdle else SlotUnavailable\<rparr>"
      let ?q = "?p\<lparr>pool_slots := AList.update agent ?s (pool_slots ?p)\<rparr>"
      note u = pool_updated [OF ok Some, of ?q ?s]
      show ?thesis using CallYield Some bal u by (simp add: step_ok_def balanced_def record_yield_def)
    qed
  next
    case (CallRemove agent)
    show ?thesis
    proof (cases "map_of (pool_slots ?p) agent")
      case None
      let ?q = "?p\<lparr>pool_slots := AList.delete agent (pool_slots ?p)\<rparr>"
      have "AList.delete agent (pool_slots ?p) = pool_slots ?p"
        using None by (simp add: map_of_eq_None_iff delete_id)
      with None CallRemove ok bal show ?thesis by (simp add: step_ok_def balanced_def remove_slot_def)
    next
      case (Some s)
      let ?q = "?p\<lparr>pool_slots := AList.delete agent (pool_slots ?p)\<rparr>"
      have u: "pool_ok n ?q" "queued_count x ?q + count_list (slot_queue s) x = queued_count x ?p" for x
        by (rule pool_removed [OF ok Some]; simp)+
      then have "queued_count x ?p = count_list (slot_queue s) x + queued_count x ?q" for x
        by (metis add.commute)
      with CallRemove Some bal u(1) show ?thesis
        by (auto simp: step_ok_def balanced_def remove_slot_def count_list_append)
    qed
  qed
qed

lemma run_ok:
  "step_ok n h \<Longrightarrow> n + length cs + 1 < 2 ^ 64 \<Longrightarrow> well_reported h cs \<Longrightarrow>
     step_ok (n + length cs) (foldl pool_step h cs)"
proof (induction cs arbitrary: n h)
  case Nil
  then show ?case by simp
next
  case (Cons c cs)
  have "step_ok (n + 1) (pool_step h c)"
  proof (cases "\<exists>item. c = CallDispatch item")
    case True
    then obtain item where c: "c = CallDispatch item" by blast
    show ?thesis unfolding c by (rule step_ok_dispatch [OF Cons.prems(1)]) (use Cons.prems(2) in simp)
  next
    case False
    with Cons.prems(1,3) have "step_ok n (pool_step h c)" by (intro step_ok_other) auto
    then show ?thesis by (auto simp: step_ok_def intro: pool_ok_mono)
  qed
  from Cons.IH [OF this] Cons.prems(2,3) show ?case by simp
qed

text \<open>
  C24. The pool loses and duplicates no item: after any sequence of calls, every item accepted
  by a dispatch is counted exactly once among those handed out in batches, those left in a slot
  that was removed, and those still queued, provided the caller reports as spawned only ids the
  pool gave out (fewer than \<open>2 ^ 64\<close> calls).
\<close>

theorem pool_items_conserved:
  assumes "well_reported (history_new (with_policy policy (work_pool_new agents budget))) cs"
    and "length cs + 1 < 2 ^ 64"
  shows "let h = foldl pool_step (history_new (with_policy policy (work_pool_new agents budget))) cs
    in count_list (hist_accepted h) x =
         count_list (hist_handed h) x + count_list (hist_removed h) x + queued_count x (hist_pool h)"
proof -
  let ?h = "history_new (with_policy policy (work_pool_new agents budget))"
  have "step_ok 0 ?h"
    by (simp add: step_ok_def pool_ok_def balanced_def history_new_def with_policy_def work_pool_new_def queued_count_def)
  from run_ok [OF this] assms show ?thesis by (simp add: step_ok_def balanced_def Let_def)
qed

definition sample_item :: "string \<Rightarrow> work_item" where
  "sample_item i = \<lparr> item_id = i, payload = JNull \<rparr>"

theorem pool_items_conserved_witness:
  "let h = foldl pool_step (history_new (with_policy Batched (work_pool_new 1 1)))
      [CallDispatch (sample_item ''a''), CallSpawned ''worker-1'' 1000, CallDispatch (sample_item ''b''), CallTake ''worker-1'']
   in hist_accepted h = [sample_item ''b'', sample_item ''a''] \<and> hist_handed h = [sample_item ''a'']
      \<and> count_list (hist_accepted h) (sample_item ''b'') =
          count_list (hist_handed h) (sample_item ''b'') + count_list (hist_removed h) (sample_item ''b'')
          + queued_count (sample_item ''b'') (hist_pool h)"
proof -
  let ?h = "history_new (with_policy Batched (work_pool_new 1 1))"
  let ?cs = "[CallDispatch (sample_item ''a''), CallSpawned ''worker-1'' 1000, CallDispatch (sample_item ''b''), CallTake ''worker-1'']"
  have "well_reported ?h ?cs" by code_simp
  from pool_items_conserved [OF this, of "sample_item ''b''"]
  have "let h = foldl pool_step ?h ?cs in count_list (hist_accepted h) (sample_item ''b'') =
      count_list (hist_handed h) (sample_item ''b'') + count_list (hist_removed h) (sample_item ''b'')
      + queued_count (sample_item ''b'') (hist_pool h)" by simp
  moreover have "hist_accepted (foldl pool_step ?h ?cs) = [sample_item ''b'', sample_item ''a'']"
    "hist_handed (foldl pool_step ?h ?cs) = [sample_item ''a'']"
    by code_simp+
  ultimately show ?thesis unfolding Let_def by blast
qed

text \<open>
  The slot of a spawn is inserted by the dispatch, with no window; the report of the caller
  finds it there and is dropped, so the window is never set and the load never anything but
  full.
\<close>

lemma reported_window_is_dropped:
  assumes "fst (dispatch item p) = Spawn agent"
  shows "record_spawned agent window (snd (dispatch item p)) = snd (dispatch item p)
    \<and> map_option load_ratio (map_of (pool_slots (snd (dispatch item p))) agent) = Some (2 ^ 84)"
proof -
  have "(\<exists>s. map_of (pool_slots (snd (dispatch item p))) agent = Some s \<and> context_window s = 0)"
    using assms
    by (auto simp: dispatch_def spawn_slot_def next_agent_id_def slot_push_def worker_slot_new_def Let_def split_beta
        split: if_splits option.splits prod.splits)
  then show ?thesis by (auto simp: record_spawned_def load_ratio_def)
qed

text \<open>The output contract holds of an object with a member for each item, whatever else it has.\<close>

lemma contract_of_covering_object:
  "yield_contract_satisfied (JObject (map (\<lambda>i. (item_id i, v i)) items @ extra)) items"
  by (auto simp: yield_contract_satisfied_def list_all_iff image_Un image_image)

theorem dispatch_rejects_iff_witness:
  "fst (dispatch (sample_item ''a'') (record_yield ''w1'' 0 False (record_spawned ''w1'' 9 (work_pool_new 1 5)))) = Rejected"
proof -
  let ?p = "record_yield ''w1'' 0 False (record_spawned ''w1'' 9 (work_pool_new 1 5))"
  have b: "dispatch_policy ?p = Batched" by code_simp
  have "max_agents ?p \<le> slot_count ?p \<and> list_all (\<lambda>(_, s). slot_state s = SlotUnavailable) (pool_slots ?p)"
    by code_simp
  with dispatch_rejects_iff [OF b] show ?thesis by (simp add: list_all_iff)
qed

definition sample_pool :: work_pool where
  "sample_pool = record_spawned ''w1'' 0 (record_spawned ''w2'' 100 (work_pool_new 2 1))"

theorem pick_slot_least_loaded_witness:
  "fst (pick_slot SlotIdle sample_pool) = Some ''w2''
   \<and> (\<exists>s. map_of (pool_slots sample_pool) ''w2'' = Some s \<and> slot_state s = SlotIdle
      \<and> (\<forall>(_, s') \<in> set (pool_slots sample_pool). slot_state s' = SlotIdle \<longrightarrow> load_ratio s \<le> load_ratio s'))"
proof -
  have d: "keys_distinct (pool_slots sample_pool)" by code_simp
  have p: "fst (pick_slot SlotIdle sample_pool) = Some ''w2''" by code_simp
  from pick_slot_least_loaded [OF d p] p show ?thesis by blast
qed

text \<open>The quotients are those of the hardware: \<open>50 / 100\<close> is exact, \<open>1 / 3\<close> has the bits of the double.\<close>

lemma f64_div_samples: "f64_div 50 100 = 2 ^ 83" "f64_div 1 3 = 6004799503160661 * 2 ^ 30" "f64_div 2 3 = 6004799503160661 * 2 ^ 31"
  by (simp_all add: f64_div_def round53_def Let_def bit_len.simps)

end
