(* ===== verification/Kod_Agent_Registry.thy ===== *)
theory Kod_Agent_Registry
  imports Kod_Text
begin

text \<open>
  The park/revive registry of agents, \<open>crates/kod-swarm/src/agent_registry.rs\<close>. The clock is
  an argument in milliseconds; the JSON file of a persisted registry is what reading and parsing
  it gives. The lemmas show that a tombstone is final, that a park request of an older
  generation is refused for good once the agent was revived, and where an agent comes back to
  life without a new generation.
\<close>

section \<open>Agents\<close>

datatype agent_kind = MainAgent | SubAgent | AdvisorAgent

datatype lifecycle = LifeIdle | LifeActive | LifeParked | LifeDead

record agent_history =
  resolved_model :: "string option"
  history_tokens :: u64
  turns :: u64

record agent_ref =
  agent_id :: string
  agent_kind :: agent_kind
  lifecycle :: lifecycle
  session_file :: "string option"
  parent :: "string option"
  generation :: u64
  agent_history :: agent_history
  last_state_change_ms :: nat

definition immediate_depth :: "agent_ref \<Rightarrow> u32" where
  "immediate_depth a = (if parent a = None then 0 else 1)"

datatype registry_error =
    UnknownAgent
  | Tombstoned
  | StaleGeneration u64 u64

fun show_registry_error :: "registry_error \<Rightarrow> string" where
  "show_registry_error UnknownAgent = ''no such agent''"
| "show_registry_error Tombstoned = ''agent has been killed''"
| "show_registry_error (StaleGeneration expected got) =
     ''stale generation: expected '' @ show_nat (unat expected) @ '', got '' @ show_nat (unat got)"

record agent_registry =
  agents :: "(string, agent_ref) hmap"
  park_after_ms :: "nat option"

definition registry_new :: agent_registry where
  "registry_new = \<lparr> agents = [], park_after_ms = None \<rparr>"

definition with_park_ttl :: "nat \<Rightarrow> agent_registry \<Rightarrow> agent_registry" where
  "with_park_ttl ms r = r\<lparr>park_after_ms := Some ms\<rparr>"

section \<open>Registration\<close>

definition fresh_agent :: "string \<Rightarrow> agent_kind \<Rightarrow> string option \<Rightarrow> nat \<Rightarrow> agent_ref" where
  "fresh_agent i kind par now =
     \<lparr> agent_id = i, agent_kind = kind, lifecycle = LifeIdle, session_file = None, parent = par, generation = 0,
       agent_history = \<lparr> resolved_model = None, history_tokens = 0, turns = 0 \<rparr>, last_state_change_ms = now \<rparr>"

definition insert_vacant :: "string \<Rightarrow> agent_ref \<Rightarrow> agent_registry \<Rightarrow> agent_registry" where
  "insert_vacant i a r =
     (case map_of (agents r) i of
        Some _ \<Rightarrow> r
      | None \<Rightarrow> r\<lparr>agents := AList.update i a (agents r)\<rparr>)"

definition registry_register :: "string \<Rightarrow> agent_kind \<Rightarrow> nat \<Rightarrow> agent_registry \<Rightarrow> agent_registry" where
  "registry_register i kind now r = insert_vacant i (fresh_agent i kind None now) r"

definition register_child :: "string \<Rightarrow> agent_kind \<Rightarrow> string \<Rightarrow> nat \<Rightarrow> agent_registry \<Rightarrow> agent_registry" where
  "register_child i kind par now r = insert_vacant i (fresh_agent i kind (Some par) now) r"

section \<open>The lifecycle\<close>

text \<open>
  Every call but \<open>kill\<close> looks the agent up and refuses a tombstone; \<open>with_living\<close> is that
  shared frame: \<open>f\<close> gives the result and the new ref.
\<close>

definition with_living ::
  "string \<Rightarrow> agent_registry \<Rightarrow> (agent_ref \<Rightarrow> (registry_error + agent_ref)) \<Rightarrow> (registry_error + agent_ref) \<times> agent_registry" where
  "with_living i r f =
     (case map_of (agents r) i of
        None \<Rightarrow> (Inl UnknownAgent, r)
      | Some a \<Rightarrow>
          if lifecycle a = LifeDead then (Inl Tombstoned, r)
          else (case f a of
                  Inl e \<Rightarrow> (Inl e, r)
                | Inr a' \<Rightarrow> (Inr a', r\<lparr>agents := AList.update i a' (agents r)\<rparr>)))"

definition set_session_file :: "string \<Rightarrow> string \<Rightarrow> agent_registry \<Rightarrow> (registry_error + agent_ref) \<times> agent_registry" where
  "set_session_file i path r = with_living i r (\<lambda>a. Inr (a\<lparr>session_file := Some path\<rparr>))"

definition mark_active :: "string \<Rightarrow> nat \<Rightarrow> agent_registry \<Rightarrow> (registry_error + agent_ref) \<times> agent_registry" where
  "mark_active i now r =
     with_living i r (\<lambda>a. Inr (a\<lparr>lifecycle := LifeActive, last_state_change_ms := now\<rparr>))"

definition mark_idle :: "string \<Rightarrow> nat \<Rightarrow> agent_registry \<Rightarrow> (registry_error + agent_ref) \<times> agent_registry" where
  "mark_idle i now r =
     with_living i r (\<lambda>a. Inr (a\<lparr>lifecycle := LifeIdle, last_state_change_ms := now\<rparr>))"

definition park :: "string \<Rightarrow> u64 \<Rightarrow> nat \<Rightarrow> agent_registry \<Rightarrow> (registry_error + agent_ref) \<times> agent_registry" where
  "park i expected now r =
     with_living i r (\<lambda>a.
       if generation a \<noteq> expected then Inl (StaleGeneration (generation a) expected)
       else Inr (a\<lparr>lifecycle := LifeParked, last_state_change_ms := now\<rparr>))"

definition revive :: "string \<Rightarrow> nat \<Rightarrow> agent_registry \<Rightarrow> (registry_error + agent_ref) \<times> agent_registry" where
  "revive i now r =
     with_living i r (\<lambda>a.
       if lifecycle a = LifeParked
       then Inr (a\<lparr>generation := generation a + 1, lifecycle := LifeIdle, last_state_change_ms := now\<rparr>)
       else Inr a)"

definition ensure_live :: "string \<Rightarrow> nat \<Rightarrow> agent_registry \<Rightarrow> (registry_error + agent_ref) \<times> agent_registry" where
  "ensure_live i now r = revive i now r"

definition registry_kill :: "string \<Rightarrow> nat \<Rightarrow> agent_registry \<Rightarrow> (registry_error + unit) \<times> agent_registry" where
  "registry_kill i now r =
     (case map_of (agents r) i of
        None \<Rightarrow> (Inl UnknownAgent, r)
      | Some a \<Rightarrow>
          (Inr (), r\<lparr>agents := AList.update i (a\<lparr>lifecycle := LifeDead, last_state_change_ms := now\<rparr>) (agents r)\<rparr>))"

section \<open>Reading the registry\<close>

text \<open>The walk up the parent chain, with the set of ids already seen as its cycle guard.\<close>

function depth_walk :: "(string, agent_ref) hmap \<Rightarrow> string list \<Rightarrow> u32 \<Rightarrow> string \<Rightarrow> u32" where
  "depth_walk m seen depth cur =
     (case map_of m cur of
        None \<Rightarrow> depth
      | Some a \<Rightarrow>
          if cur \<in> set seen then depth
          else (case parent a of
                  None \<Rightarrow> depth
                | Some p \<Rightarrow> depth_walk m (cur # seen) (depth + 1) p))"
  by pat_completeness auto
termination
proof (relation "measure (\<lambda>(m, seen, _, _). card (fst ` set m - set seen))")
  fix m seen depth cur a p
  assume "map_of m cur = Some (a :: agent_ref)" "cur \<notin> set seen"
  then have "cur \<in> fst ` set m - set seen" by (force dest: map_of_SomeD)
  then have "fst ` set m - set (cur # seen) \<subset> fst ` set m - set seen" by auto
  then have "card (fst ` set m - set (cur # seen)) < card (fst ` set m - set seen)"
    by (intro psubset_card_mono) auto
  then show "((m, cur # seen, depth + 1, p), m, seen, depth, cur) \<in>
      measure (\<lambda>(m, seen, _, _). card (fst ` set m - set seen))"
    by simp
qed simp

declare depth_walk.simps [simp del]

definition depth_of :: "agent_registry \<Rightarrow> string \<Rightarrow> u32" where
  "depth_of r i = depth_walk (agents r) [] 0 i"

definition park_candidates :: "nat \<Rightarrow> agent_registry \<Rightarrow> string list" where
  "park_candidates now r =
     (case park_after_ms r of
        None \<Rightarrow> []
      | Some ttl \<Rightarrow> sort (map agent_id
          (filter (\<lambda>a. lifecycle a = LifeIdle \<and> ttl \<le> now - last_state_change_ms a) (map snd (agents r)))))"

definition live_ids :: "agent_registry \<Rightarrow> string list" where
  "live_ids r = sort (map agent_id (filter (\<lambda>a. lifecycle a \<noteq> LifeDead) (map snd (agents r))))"

definition count_in :: "lifecycle \<Rightarrow> agent_registry \<Rightarrow> nat" where
  "count_in l r = length (filter (\<lambda>(_, a). lifecycle a = l) (agents r))"

definition registry_counts :: "agent_registry \<Rightarrow> nat \<times> nat \<times> nat \<times> nat" where
  "registry_counts r = (count_in LifeIdle r, count_in LifeActive r, count_in LifeParked r, count_in LifeDead r)"

section \<open>Persistence\<close>

text \<open>What reading the file gives: nothing there, an I/O error, no JSON of refs, or refs.\<close>

datatype registry_file = FileMissing | FileUnreadable | FileCorrupt | FileRefs "(string, agent_ref) hmap"

definition park_on_load :: "agent_ref \<Rightarrow> agent_ref" where
  "park_on_load a = (if lifecycle a = LifeDead then a else a\<lparr>lifecycle := LifeParked\<rparr>)"

definition load_registry :: "registry_file \<Rightarrow> agent_registry option" where
  "load_registry f =
     (case f of
        FileMissing \<Rightarrow> Some registry_new
      | FileUnreadable \<Rightarrow> None
      | FileCorrupt \<Rightarrow> None
      | FileRefs refs \<Rightarrow> Some \<lparr> agents = map (\<lambda>(i, a). (i, park_on_load a)) refs, park_after_ms = None \<rparr>)"

definition merge_loaded :: "agent_registry \<Rightarrow> agent_registry \<Rightarrow> agent_registry" where
  "merge_loaded loaded r = foldl (\<lambda>r (i, a). insert_vacant i a r) r (agents loaded)"

definition cold_revive ::
  "string \<Rightarrow> registry_file \<Rightarrow> nat \<Rightarrow> agent_registry \<Rightarrow> (registry_error + agent_ref) \<times> agent_registry" where
  "cold_revive i f now r =
     (if map_of (agents r) i \<noteq> None then revive i now r
      else case load_registry f of
        None \<Rightarrow> (Inl UnknownAgent, r)
      | Some loaded \<Rightarrow> revive i now (merge_loaded loaded r))"

section \<open>The calls\<close>

datatype registry_call =
    RegRegister string agent_kind nat
  | RegChild string agent_kind string nat
  | RegSession string string
  | RegActive string nat
  | RegIdle string nat
  | RegPark string u64 nat
  | RegRevive string nat
  | RegKill string nat
  | RegCold string registry_file nat

fun registry_step :: "agent_registry \<Rightarrow> registry_call \<Rightarrow> agent_registry" where
  "registry_step r (RegRegister i kind now) = registry_register i kind now r"
| "registry_step r (RegChild i kind par now) = register_child i kind par now r"
| "registry_step r (RegSession i path) = snd (set_session_file i path r)"
| "registry_step r (RegActive i now) = snd (mark_active i now r)"
| "registry_step r (RegIdle i now) = snd (mark_idle i now r)"
| "registry_step r (RegPark i g now) = snd (park i g now r)"
| "registry_step r (RegRevive i now) = snd (revive i now r)"
| "registry_step r (RegKill i now) = snd (registry_kill i now r)"
| "registry_step r (RegCold i f now) = snd (cold_revive i f now r)"

lemma insert_vacant_keeps: "map_of (agents r) i = Some a \<Longrightarrow> map_of (agents (insert_vacant j b r)) i = Some a"
  by (auto simp: insert_vacant_def update_conv' split: option.splits)

lemma merge_loaded_keeps: "map_of (agents r) i = Some a \<Longrightarrow> map_of (agents (merge_loaded loaded r)) i = Some a"
proof -
  have "map_of (agents (foldl (\<lambda>r (i, a). insert_vacant i a r) r xs)) i = Some a"
    if "map_of (agents r) i = Some a" for xs
    using that by (induction xs arbitrary: r) (auto simp: insert_vacant_keeps)
  then show "map_of (agents r) i = Some a \<Longrightarrow> ?thesis" by (simp add: merge_loaded_def)
qed

text \<open>What one call does to a registered agent: nothing, or what its own operation does.\<close>

lemma with_living_agent:
  assumes "map_of (agents r) i = Some a"
  shows "map_of (agents (snd (with_living j r f))) i =
    Some (if i = j \<and> lifecycle a \<noteq> LifeDead then (case f a of Inl _ \<Rightarrow> a | Inr a' \<Rightarrow> a') else a)"
  using assms by (auto simp: with_living_def update_conv' split: option.splits sum.splits)

lemmas living_ops = set_session_file_def mark_active_def mark_idle_def park_def revive_def

lemma step_agent:
  assumes "map_of (agents r) i = Some a"
  shows "\<exists>a'. map_of (agents (registry_step r c)) i = Some a'
    \<and> (lifecycle a = LifeDead \<longrightarrow> lifecycle a' = LifeDead)
    \<and> (generation a' = generation a \<or> generation a' = generation a + 1)"
proof (cases c)
  case (RegCold j f now)
  have "cold_revive j f now r = (Inl UnknownAgent, r) \<or> (\<exists>q. cold_revive j f now r = revive j now q
      \<and> map_of (agents q) i = Some a)"
    using assms merge_loaded_keeps [OF assms] by (auto simp: cold_revive_def split: option.splits)
  with assms RegCold show ?thesis by (auto simp: revive_def with_living_agent split: if_splits)
qed (use assms in \<open>auto simp: registry_register_def register_child_def insert_vacant_keeps living_ops
      with_living_agent registry_kill_def update_conv' split: option.splits\<close>)

definition agent_dead :: "string \<Rightarrow> agent_registry \<Rightarrow> bool" where
  "agent_dead i r = (map_option lifecycle (map_of (agents r) i) = Some LifeDead)"

definition agent_known :: "string \<Rightarrow> agent_registry \<Rightarrow> bool" where
  "agent_known i r = (map_of (agents r) i \<noteq> None)"

definition generation_of :: "string \<Rightarrow> agent_registry \<Rightarrow> u64" where
  "generation_of i r = (case map_of (agents r) i of None \<Rightarrow> 0 | Some a \<Rightarrow> generation a)"

interpretation tombstone: invariant_system registry_step "agent_dead i" for i
  using step_agent by unfold_locales (fastforce simp: agent_dead_def)

interpretation generations: counter_system registry_step "agent_known i" "generation_of i" for i
proof unfold_locales
  fix r c
  assume "agent_known i r"
  then obtain a where "map_of (agents r) i = Some a" by (auto simp: agent_known_def)
  then obtain a' where "map_of (agents r) i = Some a" "map_of (agents (registry_step r c)) i = Some a'"
    "generation a' = generation a \<or> generation a' = generation a + 1"
    using step_agent by blast
  then show "agent_known i (registry_step r c)"
    "generation_of i (registry_step r c) = generation_of i r \<or> generation_of i (registry_step r c) = generation_of i r + 1"
    by (auto simp: agent_known_def generation_of_def)
qed

section \<open>A tombstone is final\<close>

lemma dead_refused:
  assumes "agent_dead i r"
  shows "with_living i r f = (Inl Tombstoned, r)"
  using assms by (auto simp: agent_dead_def with_living_def split: option.splits)

text \<open>
  C12. A killed agent stays killed: after any further calls (registering its id again, loading
  a persisted registry and reviving it cold included) every operation on it answers
  \<open>Tombstoned\<close> and changes nothing.
\<close>

theorem dead_is_final:
  assumes "agent_dead i r"
  shows "let q = foldl registry_step r cs in
    revive i now q = (Inl Tombstoned, q) \<and> park i g now q = (Inl Tombstoned, q)
    \<and> mark_active i now q = (Inl Tombstoned, q) \<and> mark_idle i now q = (Inl Tombstoned, q)
    \<and> set_session_file i path q = (Inl Tombstoned, q) \<and> cold_revive i f now q = (Inl Tombstoned, q)"
proof -
  let ?q = "foldl registry_step r cs"
  have d: "agent_dead i ?q" using assms by (rule tombstone.run_keeps)
  then have "map_of (agents ?q) i \<noteq> None" by (auto simp: agent_dead_def)
  then show ?thesis by (simp add: Let_def living_ops cold_revive_def dead_refused [OF d])
qed

theorem dead_is_final_witness:
  "let r = snd (registry_kill ''a'' 5 (registry_register ''a'' SubAgent 1 registry_new));
       q = foldl registry_step r [RegRegister ''a'' SubAgent 7, RegCold ''a'' FileMissing 8]
   in revive ''a'' 9 q = (Inl Tombstoned, q)"
proof -
  have "agent_dead ''a'' (snd (registry_kill ''a'' 5 (registry_register ''a'' SubAgent 1 registry_new)))"
    by code_simp
  from dead_is_final [OF this, of "[RegRegister ''a'' SubAgent 7, RegCold ''a'' FileMissing 8]" 9]
  show ?thesis unfolding Let_def by blast
qed

section \<open>Generations\<close>

lemma park_ok:
  assumes "fst (park i g now r) = Inr b"
  shows "\<exists>a. map_of (agents r) i = Some a \<and> generation a = g
    \<and> map_of (agents (snd (park i g now r))) i = Some b \<and> generation b = g \<and> lifecycle b = LifeParked"
  using assms by (auto simp: park_def with_living_def split: option.splits if_splits)

text \<open>
  A park request bound to a generation cannot touch a later session: once an agent parked
  at generation \<open>g\<close> has been revived, a park for \<open>g\<close> is refused ever after, whatever calls
  come between (fewer than \<open>2 ^ 64\<close>).
\<close>

theorem stale_park_refused:
  assumes parked: "fst (park i g t0 r) = Inr b"
    and small: "unat g + 1 + length cs < 2 ^ 64"
  shows "let q = foldl registry_step (snd (revive i t1 (snd (park i g t0 r)))) cs in
    park i g t2 q = (Inl Tombstoned, q)
    \<or> (generation_of i q \<noteq> g \<and> park i g t2 q = (Inl (StaleGeneration (generation_of i q) g), q))"
proof -
  let ?r1 = "snd (park i g t0 r)"
  let ?r2 = "snd (revive i t1 ?r1)"
  let ?q = "foldl registry_step ?r2 cs"
  have b: "map_of (agents ?r1) i = Some b" "generation b = g" "lifecycle b = LifeParked"
    using park_ok [OF parked] by auto
  then have "map_of (agents ?r2) i = Some (b\<lparr>generation := g + 1, lifecycle := LifeIdle, last_state_change_ms := t1\<rparr>)"
    by (simp add: revive_def with_living_def)
  then have k: "agent_known i ?r2" and gen: "generation_of i ?r2 = g + 1"
    by (simp_all add: agent_known_def generation_of_def)
  have g1: "unat (g + 1) = unat g + 1" using small by (simp add: unat_word_ariths)
  have "unat (generation_of i ?r2) \<le> unat (generation_of i ?q)"
    using generations.run_counter [OF k, of cs] small by (simp add: gen g1)
  then have ne: "generation_of i ?q \<noteq> g" by (auto simp: gen g1)
  have "agent_known i ?q" using k by (rule generations.run_keeps)
  then obtain a where a: "map_of (agents ?q) i = Some a" by (auto simp: agent_known_def)
  then have "generation_of i ?q = generation a" by (simp add: generation_of_def)
  with a ne show ?thesis by (auto simp: Let_def park_def with_living_def)
qed

definition one_agent :: agent_registry where
  "one_agent = registry_register ''a'' SubAgent 1 registry_new"

theorem stale_park_refused_witness:
  "let q = foldl registry_step (snd (revive ''a'' 3 (snd (park ''a'' 0 2 one_agent)))) [RegActive ''a'' 4]
   in park ''a'' 0 5 q = (Inl (StaleGeneration 1 0), q)"
proof -
  have p: "fst (park ''a'' 0 2 one_agent) = Inr ((fresh_agent ''a'' SubAgent None 1)\<lparr>lifecycle := LifeParked,
      last_state_change_ms := 2\<rparr>)"
    by code_simp
  let ?q = "foldl registry_step (snd (revive ''a'' 3 (snd (park ''a'' 0 2 one_agent)))) [RegActive ''a'' 4]"
  have "unat (0 :: u64) + 1 + length [RegActive ''a'' 4] < 2 ^ 64" by simp
  from stale_park_refused [OF p this, of 3 5]
  have "park ''a'' 0 5 ?q = (Inl Tombstoned, ?q)
      \<or> (generation_of ''a'' ?q \<noteq> 0 \<and> park ''a'' 0 5 ?q = (Inl (StaleGeneration (generation_of ''a'' ?q) 0), ?q))"
    unfolding Let_def .
  moreover have "fst (park ''a'' 0 5 ?q) \<noteq> Inl Tombstoned" "generation_of ''a'' ?q = 1" by code_simp+
  ultimately show ?thesis unfolding Let_def by (metis fst_conv)
qed

text \<open>
  Marking an agent active or idle brings a parked one back to life without a new
  generation, so the park request of the disposed session still goes through and parks it in
  the middle of its turn.
\<close>

theorem mark_active_lets_old_park_through:
  assumes "map_of (agents r) i = Some a" and "lifecycle a = LifeParked"
  shows "let q = snd (mark_active i t1 r) in
    map_option lifecycle (map_of (agents q) i) = Some LifeActive
    \<and> fst (park i (generation a) t2 q) = Inr (a\<lparr>lifecycle := LifeParked, last_state_change_ms := t2\<rparr>)"
  using assms by (simp add: Let_def mark_active_def park_def with_living_def)

theorem mark_active_lets_old_park_through_witness:
  "let r = snd (park ''a'' 0 2 one_agent); q = snd (mark_active ''a'' 3 r)
   in fst (park ''a'' 0 4 q) = Inr ((fresh_agent ''a'' SubAgent None 1)\<lparr>lifecycle := LifeParked,
        last_state_change_ms := 4\<rparr>)"
proof -
  let ?a = "(fresh_agent ''a'' SubAgent None 1)\<lparr>lifecycle := LifeParked, last_state_change_ms := 2\<rparr>"
  have "map_of (agents (snd (park ''a'' 0 2 one_agent))) ''a'' = Some ?a" "lifecycle ?a = LifeParked"
    by code_simp+
  from mark_active_lets_old_park_through [OF this, of 3 4]
  have "fst (park ''a'' (generation ?a) 4 (snd (mark_active ''a'' 3 (snd (park ''a'' 0 2 one_agent)))))
      = Inr (?a\<lparr>lifecycle := LifeParked, last_state_change_ms := 4\<rparr>)"
    unfolding Let_def by blast
  then show ?thesis by (simp add: fresh_agent_def)
qed

section \<open>Loading, and the depth of a cycle\<close>

text \<open>A loaded registry has no live agent, and keeps the tombstones and the generations.\<close>

lemma loaded_agents:
  "load_registry (FileRefs refs) = Some r \<Longrightarrow> map_of (agents r) i = map_option park_on_load (map_of refs i)"
  by (auto simp: load_registry_def map_of_map)

lemma cold_revive_after_restart:
  assumes "map_of refs i = Some a" "lifecycle a \<noteq> LifeDead"
  shows "fst (cold_revive i (FileRefs refs) now registry_new) =
    Inr (a\<lparr>generation := generation a + 1, lifecycle := LifeIdle, last_state_change_ms := now\<rparr>)"
proof -
  have "map_of (agents (merge_loaded \<lparr>agents = xs, park_after_ms = None\<rparr> r)) i
      = (case map_of (agents r) i of None \<Rightarrow> map_of xs i | Some b \<Rightarrow> Some b)" for xs r
  proof (induction xs arbitrary: r)
    case (Cons x xs)
    show ?case
      using Cons.IH [of "insert_vacant (fst x) (snd x) r"]
      by (auto simp: merge_loaded_def split_beta insert_vacant_def update_conv' split: option.splits)
  qed (simp add: merge_loaded_def split: option.splits)
  moreover have "map_of (map (\<lambda>(i, a). (i, park_on_load a)) refs) i = Some (park_on_load a)"
    using assms(1) by (simp add: map_of_map)
  ultimately show ?thesis
    using assms(2) by (simp add: cold_revive_def registry_new_def load_registry_def revive_def with_living_def park_on_load_def)
qed

text \<open>The interface can make a cycle, and its depth is the length of the walk, not zero.\<close>

lemma self_parent_depth:
  "depth_of (register_child ''a'' SubAgent ''a'' 1 registry_new) ''a'' = 1"
  by code_simp

end
