(* ===== verification/Kod_Coordination.thy ===== *)
theory Kod_Coordination
  imports Kod_Prelude
begin

text \<open>
  The task coordinator of the swarm, \<open>crates/kod-swarm/src/coordination.rs\<close>. Its three maps
  have a lock each. \<open>assign_task\<close> holds the lock of the tasks over its three writes, so it is
  one step; \<open>finish_task\<close> and \<open>unassign_task\<close> release it after the change of status, so they
  are a first step and continuations that run later: the step relation \<open>coord_step\<close> lets any
  other call come in between. The functional form of each call is its steps run at once.
\<close>

section \<open>Tasks\<close>

datatype priority = PrioLow | PrioMedium | PrioHigh | PrioCritical

datatype task_status = TaskPending | TaskInProgress | TaskBlocked | TaskCompleted | TaskFailed

record task =
  task_id :: string
  description :: string
  priority :: priority
  task_status :: task_status
  assigned_to :: "string option"
  dependencies :: "string list"

definition task_new :: "string \<Rightarrow> string \<Rightarrow> priority \<Rightarrow> task" where
  "task_new i desc prio =
     \<lparr> task_id = i, description = desc, priority = prio, task_status = TaskPending, assigned_to = None,
       dependencies = [] \<rparr>"

record task_assignment =
  asg_task :: string
  asg_agent :: string
  assigned_at :: nat
  capabilities_required :: "string list"

datatype task_finish = Transitioned task_status | AlreadyInState

datatype coord_error =
    AlreadyRegistered string
  | TaskNotFound string
  | NotAssignable string task_status
  | AlreadyTerminal string task_status

record coordinator =
  tasks :: "(string, task) hmap"
  assignments :: "(string, task_assignment) hmap"
  loads :: "(string, nat) hmap"

definition coordinator_new :: coordinator where
  "coordinator_new = \<lparr> tasks = [], assignments = [], loads = [] \<rparr>"

definition is_terminal_status :: "task_status \<Rightarrow> bool" where
  "is_terminal_status st = (st = TaskCompleted \<or> st = TaskFailed)"

section \<open>The critical sections\<close>

definition register_task :: "task \<Rightarrow> coordinator \<Rightarrow> (coord_error + unit) \<times> coordinator" where
  "register_task t c =
     (if map_of (tasks c) (task_id t) \<noteq> None then (Inl (AlreadyRegistered (task_id t)), c)
      else (Inr (), c\<lparr>tasks := AList.update (task_id t) t (tasks c)\<rparr>))"

definition load_of :: "coordinator \<Rightarrow> string \<Rightarrow> nat" where
  "load_of c agent = (case map_of (loads c) agent of None \<Rightarrow> 0 | Some n \<Rightarrow> n)"

definition assign_task :: "string \<Rightarrow> string \<Rightarrow> nat \<Rightarrow> coordinator \<Rightarrow> (coord_error + unit) \<times> coordinator" where
  "assign_task i agent now c =
     (case map_of (tasks c) i of
        None \<Rightarrow> (Inl (TaskNotFound i), c)
      | Some t \<Rightarrow>
          if task_status t \<noteq> TaskPending then (Inl (NotAssignable i (task_status t)), c)
          else (Inr (), c\<lparr>
            tasks := AList.update i (t\<lparr>assigned_to := Some agent, task_status := TaskInProgress\<rparr>) (tasks c),
            assignments := AList.update i
              \<lparr> asg_task = i, asg_agent = agent, assigned_at = now, capabilities_required = [] \<rparr> (assignments c),
            loads := AList.update agent (load_of c agent + 1) (loads c)\<rparr>))"

text \<open>\<open>if let Some(slot) = load.get_mut(..) { *slot = slot.saturating_sub(1) }\<close>\<close>

definition release_load :: "string \<Rightarrow> coordinator \<Rightarrow> coordinator" where
  "release_load agent c =
     (case map_of (loads c) agent of
        None \<Rightarrow> c
      | Some n \<Rightarrow> c\<lparr>loads := AList.update agent (n - 1) (loads c)\<rparr>)"

text \<open>
  What is left to do after the first section of a call: release the load of the assignee read
  there; or, for an unassigned task, release the load of whoever the assignment then names, and
  remove the assignment.
\<close>

datatype continuation = ReleaseLoad string | ReleaseAssignee string | RemoveAssignment string

definition finish_first ::
  "string \<Rightarrow> task_status \<Rightarrow> coordinator \<Rightarrow> (coord_error + task_finish) \<times> continuation list \<times> coordinator" where
  "finish_first i st c =
     (case map_of (tasks c) i of
        None \<Rightarrow> (Inl (TaskNotFound i), [], c)
      | Some t \<Rightarrow>
          if task_status t = st then (Inr AlreadyInState, [], c)
          else if is_terminal_status (task_status t) then (Inl (AlreadyTerminal i (task_status t)), [], c)
          else (Inr (Transitioned (task_status t)),
                (case assigned_to t of None \<Rightarrow> [] | Some agent \<Rightarrow> [ReleaseLoad agent]),
                c\<lparr>tasks := AList.update i (t\<lparr>task_status := st\<rparr>) (tasks c)\<rparr>))"

definition unassign_first ::
  "string \<Rightarrow> coordinator \<Rightarrow> (coord_error + task_finish) \<times> continuation list \<times> coordinator" where
  "unassign_first i c =
     (case map_of (tasks c) i of
        None \<Rightarrow> (Inl (TaskNotFound i), [], c)
      | Some t \<Rightarrow>
          if is_terminal_status (task_status t) then (Inl (AlreadyTerminal i (task_status t)), [], c)
          else if task_status t = TaskPending then (Inr AlreadyInState, [], c)
          else (Inr (Transitioned (task_status t)),
                (if assigned_to t = None then [] else [ReleaseAssignee i]) @ [RemoveAssignment i],
                c\<lparr>tasks := AList.update i (t\<lparr>assigned_to := None, task_status := TaskPending\<rparr>) (tasks c)\<rparr>))"

fun run_continuation :: "continuation \<Rightarrow> coordinator \<Rightarrow> coordinator" where
  "run_continuation (ReleaseLoad agent) c = release_load agent c"
| "run_continuation (ReleaseAssignee i) c =
     (case map_of (assignments c) i of None \<Rightarrow> c | Some a \<Rightarrow> release_load (asg_agent a) c)"
| "run_continuation (RemoveAssignment i) c = c\<lparr>assignments := AList.delete i (assignments c)\<rparr>"

definition run_at_once ::
  "(coord_error + task_finish) \<times> continuation list \<times> coordinator \<Rightarrow> (coord_error + task_finish) \<times> coordinator" where
  "run_at_once x = (let (res, ks, c) = x in (res, foldl (\<lambda>c k. run_continuation k c) c ks))"

definition finish_task :: "string \<Rightarrow> task_status \<Rightarrow> coordinator \<Rightarrow> (coord_error + task_finish) \<times> coordinator" where
  "finish_task i st c = run_at_once (finish_first i st c)"

definition complete_task :: "string \<Rightarrow> coordinator \<Rightarrow> (coord_error + task_finish) \<times> coordinator" where
  "complete_task i c = finish_task i TaskCompleted c"

definition fail_task :: "string \<Rightarrow> coordinator \<Rightarrow> (coord_error + task_finish) \<times> coordinator" where
  "fail_task i c = finish_task i TaskFailed c"

definition unassign_task :: "string \<Rightarrow> coordinator \<Rightarrow> (coord_error + task_finish) \<times> coordinator" where
  "unassign_task i c = run_at_once (unassign_first i c)"

section \<open>Reading\<close>

definition task_status_of :: "string \<Rightarrow> coordinator \<Rightarrow> task_status option" where
  "task_status_of i c = map_option task_status (map_of (tasks c) i)"

definition pending_tasks :: "coordinator \<Rightarrow> task list" where
  "pending_tasks c = filter (\<lambda>t. task_status t = TaskPending) (btree_values (tasks c))"

definition tasks_for_agent :: "string \<Rightarrow> coordinator \<Rightarrow> task list" where
  "tasks_for_agent agent c = filter (\<lambda>t. assigned_to t = Some agent) (btree_values (tasks c))"

definition all_assignments :: "coordinator \<Rightarrow> task_assignment list" where
  "all_assignments c = btree_values (assignments c)"

text \<open>\<open>min_by_key\<close> returns the first of the smallest.\<close>

definition least_loaded_agent :: "string list \<Rightarrow> coordinator \<Rightarrow> string option" where
  "least_loaded_agent ags c =
     (case ags of
        [] \<Rightarrow> None
      | a # as \<Rightarrow> Some (foldl (\<lambda>best x. if load_of c x < load_of c best then x else best) a as))"

section \<open>The load of an agent\<close>

definition holds_slot :: "string \<Rightarrow> task \<Rightarrow> bool" where
  "holds_slot agent t = (assigned_to t = Some agent \<and> \<not> is_terminal_status (task_status t))"

definition slots_held :: "string \<Rightarrow> coordinator \<Rightarrow> nat" where
  "slots_held agent c = hm_sum (\<lambda>t. if holds_slot agent t then 1 else 0) (tasks c)"

definition owed :: "string \<Rightarrow> continuation list \<Rightarrow> nat" where
  "owed agent ks = count_list ks (ReleaseLoad agent)"

text \<open>
  What every state satisfies: loads count the unfinished tasks of an agent and the releases
  still to run; a pending task is nobody's; an unfinished assigned task has its assignment.
\<close>

definition tasks_ok :: "coordinator \<Rightarrow> bool" where
  "tasks_ok c =
     (keys_distinct (tasks c)
      \<and> (\<forall>i t. map_of (tasks c) i = Some t \<longrightarrow>
           (task_status t = TaskPending \<longrightarrow> assigned_to t = None)
           \<and> (\<forall>agent. holds_slot agent t \<longrightarrow> map_option asg_agent (map_of (assignments c) i) = Some agent)))"

definition coord_ok :: "coordinator \<Rightarrow> continuation list \<Rightarrow> bool" where
  "coord_ok c ks = (tasks_ok c \<and> (\<forall>agent. load_of c agent = slots_held agent c + owed agent ks))"

lemma load_of_update: "load_of (c\<lparr>loads := AList.update a n (loads c)\<rparr>) b = (if a = b then n else load_of c b)"
  by (simp add: load_of_def update_conv')

lemma load_of_release: "load_of (release_load a c) b = (if a = b then load_of c b - 1 else load_of c b)"
  by (auto simp: release_load_def load_of_def update_conv' split: option.splits)

lemma release_frame [simp]: "tasks (release_load a c) = tasks c" "assignments (release_load a c) = assignments c"
  by (simp_all add: release_load_def split: option.splits)

lemma slots_held_new:
  "map_of (tasks c) i = None \<Longrightarrow>
     slots_held agent (c\<lparr>tasks := AList.update i t (tasks c)\<rparr>) = slots_held agent c + (if holds_slot agent t then 1 else 0)"
  by (simp add: slots_held_def hm_sum_update_new)

lemma slots_held_old:
  "keys_distinct (tasks c) \<Longrightarrow> map_of (tasks c) i = Some t \<Longrightarrow>
     slots_held agent (c\<lparr>tasks := AList.update i t' (tasks c)\<rparr>) + (if holds_slot agent t then 1 else 0)
       = slots_held agent c + (if holds_slot agent t' then 1 else 0)"
  using hm_sum_update_old [of "tasks c" i t "\<lambda>t. if holds_slot agent t then 1 else 0" t']
  by (simp add: slots_held_def)

lemma slots_held_cong: "tasks c = tasks d \<Longrightarrow> slots_held agent c = slots_held agent d"
  by (simp add: slots_held_def)

lemma coord_new_ok [kod_inv]: "coord_ok coordinator_new []"
  by (simp add: coord_ok_def tasks_ok_def coordinator_new_def load_of_def slots_held_def owed_def)

lemma register_ok:
  assumes "coord_ok c ks" "task_status t = TaskPending" "assigned_to t = None"
  shows "coord_ok (snd (register_task t c)) ks"
proof (cases "map_of (tasks c) (task_id t)")
  case None
  have "\<not> holds_slot agent t" for agent using assms(3) by (simp add: holds_slot_def)
  moreover have "load_of (c\<lparr>tasks := x\<rparr>) agent = load_of c agent" for x agent by (simp add: load_of_def)
  ultimately show ?thesis
    using assms None
    by (auto simp: coord_ok_def tasks_ok_def register_task_def slots_held_new keys_distinct_update update_conv')
qed (use assms in \<open>simp add: register_task_def\<close>)

lemma assign_ok:
  assumes "coord_ok c ks"
  shows "coord_ok (snd (assign_task i agent now c)) ks"
proof (cases "\<exists>t. map_of (tasks c) i = Some t \<and> task_status t = TaskPending")
  case True
  then obtain t where t: "map_of (tasks c) i = Some t" "task_status t = TaskPending" by blast
  let ?t = "t\<lparr>assigned_to := Some agent, task_status := TaskInProgress\<rparr>"
  let ?c = "snd (assign_task i agent now c)"
  have dist: "keys_distinct (tasks c)" using assms by (simp add: coord_ok_def tasks_ok_def)
  have none: "\<not> holds_slot b t" for b
    using assms t by (auto simp: coord_ok_def tasks_ok_def holds_slot_def)
  have some: "holds_slot b ?t \<longleftrightarrow> b = agent" for b by (auto simp: holds_slot_def is_terminal_status_def)
  have tk: "tasks ?c = AList.update i ?t (tasks c)" using t by (simp add: assign_task_def)
  have "slots_held b ?c = slots_held b c + (if b = agent then 1 else 0)" for b
    using slots_held_old [OF dist t(1), of b ?t] slots_held_cong [of ?c "c\<lparr>tasks := AList.update i ?t (tasks c)\<rparr>" b]
    by (simp add: none some tk)
  moreover have "load_of ?c b = (if b = agent then load_of c b + 1 else load_of c b)" for b
    using t by (simp add: assign_task_def load_of_def update_conv')
  moreover have "tasks_ok ?c"
    using assms t by (auto simp: coord_ok_def tasks_ok_def assign_task_def keys_distinct_update update_conv'
        holds_slot_def is_terminal_status_def)
  ultimately show ?thesis using assms by (simp add: coord_ok_def)
next
  case False
  then have "snd (assign_task i agent now c) = c" by (auto simp: assign_task_def split: option.splits)
  with assms show ?thesis by simp
qed

lemma finish_first_ok:
  assumes "coord_ok c ks" "is_terminal_status st" and f: "finish_first i st c = (res, new, c')"
  shows "coord_ok c' (new @ ks)"
proof (cases "\<exists>t. map_of (tasks c) i = Some t \<and> \<not> is_terminal_status (task_status t)")
  case True
  then obtain t where t: "map_of (tasks c) i = Some t" "\<not> is_terminal_status (task_status t)" by blast
  let ?t = "t\<lparr>task_status := st\<rparr>"
  have dist: "keys_distinct (tasks c)" using assms(1) by (simp add: coord_ok_def tasks_ok_def)
  have ne: "task_status t \<noteq> st" using t(2) assms(2) by auto
  then have c': "c' = c\<lparr>tasks := AList.update i ?t (tasks c)\<rparr>"
    and new: "new = (case assigned_to t of None \<Rightarrow> [] | Some agent \<Rightarrow> [ReleaseLoad agent])"
    using f t by (auto simp: finish_first_def)
  have "holds_slot b t \<longleftrightarrow> assigned_to t = Some b" "\<not> holds_slot b ?t" for b
    using t(2) assms(2) by (simp_all add: holds_slot_def)
  then have "slots_held b c' + (if assigned_to t = Some b then 1 else 0) = slots_held b c" for b
    using slots_held_old [OF dist t(1), of b ?t] by (simp add: c')
  moreover have "owed b (new @ ks) = (if assigned_to t = Some b then 1 else 0) + owed b ks" for b
    by (simp add: new owed_def split: option.splits)
  moreover have "load_of c' b = load_of c b" for b by (simp add: c' load_of_def)
  moreover have "tasks_ok c'"
    using assms(1,2) t by (auto simp: c' coord_ok_def tasks_ok_def keys_distinct_update update_conv'
        holds_slot_def is_terminal_status_def)
  ultimately show ?thesis using assms(1) unfolding coord_ok_def
    by (metis add.assoc add.commute)
next
  case False
  then have "c' = c \<and> new = []"
    using f by (auto simp: finish_first_def split: option.splits if_splits)
  with assms show ?thesis by simp
qed

lemma release_ok:
  assumes "coord_ok c ks" "mset ks = add_mset (ReleaseLoad agent) (mset ks')"
  shows "coord_ok (release_load agent c) ks'"
proof -
  have "owed b ks = (if b = agent then 1 else 0) + owed b ks'" for b
    using arg_cong [OF assms(2), of "\<lambda>m. count m (ReleaseLoad b)"] by (simp add: owed_def count_mset split: if_splits)
  moreover have "slots_held b (release_load agent c) = slots_held b c" for b by (rule slots_held_cong) simp
  ultimately show ?thesis
    using assms(1) by (auto simp: coord_ok_def tasks_ok_def load_of_release)
qed

lemma finish_ok:
  assumes "coord_ok c ks" "is_terminal_status st"
  shows "coord_ok (snd (finish_task i st c)) ks"
proof -
  obtain res new c' where f: "finish_first i st c = (res, new, c')" by (cases "finish_first i st c")
  have ok: "coord_ok c' (new @ ks)" using finish_first_ok [OF assms f] .
  have "new = [] \<or> (\<exists>agent. new = [ReleaseLoad agent])"
    using f by (auto simp: finish_first_def split: option.splits if_splits)
  then show ?thesis
    using ok release_ok [OF ok] by (auto simp: finish_task_def run_at_once_def f)
qed

lemma unassign_ok:
  assumes "coord_ok c ks"
  shows "coord_ok (snd (unassign_task i c)) ks"
proof (cases "\<exists>t. map_of (tasks c) i = Some t \<and> \<not> is_terminal_status (task_status t) \<and> task_status t \<noteq> TaskPending")
  case True
  then obtain t where t: "map_of (tasks c) i = Some t" "\<not> is_terminal_status (task_status t)" "task_status t \<noteq> TaskPending"
    by blast
  let ?t = "t\<lparr>assigned_to := None, task_status := TaskPending\<rparr>"
  let ?c1 = "c\<lparr>tasks := AList.update i ?t (tasks c)\<rparr>" and ?c = "snd (unassign_task i c)"
  have dist: "keys_distinct (tasks c)" using assms by (simp add: coord_ok_def tasks_ok_def)
  have tk: "tasks ?c = tasks ?c1" and asg: "assignments ?c = AList.delete i (assignments c)"
    using t by (auto simp: unassign_task_def run_at_once_def unassign_first_def split: option.splits)
  have held: "holds_slot b t \<longleftrightarrow> assigned_to t = Some b" "\<not> holds_slot b ?t" for b
    using t(2) by (simp_all add: holds_slot_def)
  have "slots_held b ?c = slots_held b ?c1" for b by (rule slots_held_cong) (rule tk)
  then have slots: "slots_held b ?c + (if assigned_to t = Some b then 1 else 0) = slots_held b c" for b
    using slots_held_old [OF dist t(1), of b ?t] by (simp add: held)
  have "assigned_to t = Some b \<Longrightarrow> map_option asg_agent (map_of (assignments c) i) = Some b" for b
    using assms t(1) held(1) by (simp add: coord_ok_def tasks_ok_def)
  moreover have "load_of ?c1 b = load_of c b" for b by (simp add: load_of_def)
  moreover have "load_of (d\<lparr>assignments := x\<rparr>) b = load_of d b" for d x b by (simp add: load_of_def)
  ultimately have load: "load_of ?c b = (if assigned_to t = Some b then load_of c b - 1 else load_of c b)" for b
    using t by (auto simp: unassign_task_def run_at_once_def unassign_first_def load_of_release)
  have ok: "tasks_ok ?c"
    using assms t unfolding tasks_ok_def tk asg
    by (auto simp: coord_ok_def tasks_ok_def keys_distinct_update update_conv' delete_conv' holds_slot_def)
  have "load_of ?c b = slots_held b ?c + owed b ks" for b
    using assms load [of b] slots [of b] by (auto simp: coord_ok_def split: if_splits)
  with ok show ?thesis by (simp add: coord_ok_def)
next
  case False
  then have "snd (unassign_task i c) = c"
    by (auto simp: unassign_task_def run_at_once_def unassign_first_def split: option.splits)
  with assms show ?thesis by simp
qed

section \<open>Calls one after another\<close>

datatype coord_request =
    CoordRegister string string priority
  | CoordAssign string string nat
  | CoordComplete string
  | CoordFail string
  | CoordUnassign string

fun coord_call :: "coordinator \<Rightarrow> coord_request \<Rightarrow> coordinator" where
  "coord_call c (CoordRegister i desc prio) = snd (register_task (task_new i desc prio) c)"
| "coord_call c (CoordAssign i agent now) = snd (assign_task i agent now c)"
| "coord_call c (CoordComplete i) = snd (complete_task i c)"
| "coord_call c (CoordFail i) = snd (fail_task i c)"
| "coord_call c (CoordUnassign i) = snd (unassign_task i c)"

interpretation coord: invariant_system coord_call "\<lambda>c. coord_ok c []"
proof unfold_locales
  fix c e
  assume ok: "coord_ok c []"
  show "coord_ok (coord_call c e) []"
    by (cases e) (use ok in \<open>simp_all add: register_ok assign_ok unassign_ok finish_ok complete_task_def
      fail_task_def task_new_def is_terminal_status_def\<close>)
qed

text \<open>
  The load the routing reads is exact: after any sequence of whole calls (assign, complete,
  fail, unassign, in any order, on any tasks, refused calls included) the load counter of every
  agent is the number of unfinished tasks assigned to it.
\<close>

theorem loads_count_unfinished_tasks:
  "load_of (foldl coord_call coordinator_new cs) agent
     = hm_sum (\<lambda>t. if assigned_to t = Some agent \<and> task_status t \<noteq> TaskCompleted \<and> task_status t \<noteq> TaskFailed
         then 1 else 0) (tasks (foldl coord_call coordinator_new cs))"
  using coord.run_keeps [OF coord_new_ok, of cs]
  by (simp add: coord_ok_def owed_def slots_held_def holds_slot_def is_terminal_status_def)

section \<open>Calls that interleave\<close>

text \<open>
  The coordinator and the calls in progress, each as what it still has to run. \<open>un\<close> says
  whether \<open>unassign_task\<close> is among the calls made.
\<close>

inductive coord_step ::
  "bool \<Rightarrow> coordinator \<times> continuation list list \<Rightarrow> coordinator \<times> continuation list list \<Rightarrow> bool" for un where
  StepRegister: "coord_step un (c, ps) (snd (register_task (task_new i desc prio) c), ps)"
| StepAssign: "coord_step un (c, ps) (snd (assign_task i agent now c), ps)"
| StepFinish: "\<lbrakk>is_terminal_status st; finish_first i st c = (res, ks, c')\<rbrakk> \<Longrightarrow> coord_step un (c, ps) (c', ks # ps)"
| StepUnassign: "\<lbrakk>un; unassign_first i c = (res, ks, c')\<rbrakk> \<Longrightarrow> coord_step un (c, ps) (c', ks # ps)"
| StepContinue: "coord_step un (c, before @ (k # ks) # after) (run_continuation k c, before @ ks # after)"

inductive_cases coord_stepE: "coord_step un (c, ps) (c', ps')"

definition only_releases :: "continuation list list \<Rightarrow> bool" where
  "only_releases ps = (\<forall>k \<in> set (concat ps). \<exists>agent. k = ReleaseLoad agent)"

lemma coord_step_ok:
  assumes "coord_step False s t" "coord_ok (fst s) (concat (snd s))" "only_releases (snd s)"
  shows "coord_ok (fst t) (concat (snd t)) \<and> only_releases (snd t)"
  using assms(1)
proof (cases rule: coord_step.cases)
  case (StepFinish st i c res ks c' ps)
  moreover have "\<forall>k \<in> set ks. \<exists>agent. k = ReleaseLoad agent"
    using StepFinish(4) by (auto simp: finish_first_def split: option.splits if_splits)
  ultimately show ?thesis
    using assms(2,3) finish_first_ok [OF _ StepFinish(3,4), of "concat ps"] by (auto simp: only_releases_def)
next
  case (StepContinue c before k ks after)
  with assms(3) obtain agent where k: "k = ReleaseLoad agent" by (auto simp: only_releases_def)
  have "mset (concat (before @ (k # ks) # after)) = add_mset (ReleaseLoad agent) (mset (concat (before @ ks # after)))"
    by (simp add: k)
  with release_ok [OF _ this] StepContinue assms(2,3) show ?thesis by (auto simp: k only_releases_def)
qed (use assms(2,3) in \<open>auto simp: register_ok assign_ok task_new_def\<close>)

text \<open>
  C11. Without \<open>unassign_task\<close> the loads stay exact however calls interleave: in every
  reachable state the load of an agent is its unfinished tasks plus the releases still to run,
  so once every call has returned it is the number of its unfinished tasks.
\<close>

theorem interleaved_loads_exact:
  assumes "(coord_step False)\<^sup>*\<^sup>* (coordinator_new, []) (c, ps)"
  shows "load_of c agent = slots_held agent c + owed agent (concat ps)"
proof -
  have "coord_ok (fst (c, ps)) (concat (snd (c, ps))) \<and> only_releases (snd (c, ps))"
    using assms
  proof (induction rule: rtranclp_induct)
    case base
    then show ?case using coord_new_ok by (simp add: only_releases_def)
  next
    case (step s t)
    then show ?case using coord_step_ok [OF step.hyps(2)] by blast
  qed
  then show ?thesis by (simp add: coord_ok_def)
qed

definition two_agents :: coordinator where
  "two_agents = foldl coord_call coordinator_new [CoordRegister ''t'' ''job'' PrioLow, CoordAssign ''t'' ''a'' 1]"

lemma two_agents_reachable: "(coord_step un)\<^sup>*\<^sup>* (coordinator_new, []) (two_agents, [])"
proof -
  let ?c = "snd (register_task (task_new ''t'' ''job'' PrioLow) coordinator_new)"
  have "coord_step un (coordinator_new, []) (?c, [])" by (rule StepRegister)
  moreover have "coord_step un (?c, []) (snd (assign_task ''t'' ''a'' 1 ?c), [])" by (rule StepAssign)
  moreover have "two_agents = snd (assign_task ''t'' ''a'' 1 ?c)" by (simp add: two_agents_def)
  ultimately show ?thesis by (simp add: converse_rtranclp_into_rtranclp)
qed

theorem interleaved_loads_exact_witness:
  "(coord_step False)\<^sup>*\<^sup>* (coordinator_new, []) (two_agents, []) \<and> load_of two_agents ''a'' = 1
   \<and> load_of two_agents ''a'' = slots_held ''a'' two_agents + owed ''a'' []"
proof -
  have "load_of two_agents ''a'' = 1" by code_simp
  moreover have "load_of two_agents ''a'' = slots_held ''a'' two_agents + owed ''a'' []"
    using interleaved_loads_exact [OF two_agents_reachable, of "''a''"] by simp
  ultimately show ?thesis using two_agents_reachable by blast
qed

text \<open>
  With \<open>unassign_task\<close> they do not: the task is unassigned from \<open>a\<close>, and before the call
  goes on to read the assignment another call assigns it to \<open>b\<close>. When both have returned,
  \<open>a\<close> has a load of one and no task, \<open>b\<close> has a task, no load and no assignment, for good.
\<close>

theorem unassign_race_leaks_load:
  "\<exists>c. (coord_step True)\<^sup>*\<^sup>* (coordinator_new, []) (c, [[]])
     \<and> load_of c ''a'' = 1 \<and> slots_held ''a'' c = 0
     \<and> load_of c ''b'' = 0 \<and> slots_held ''b'' c = 1 \<and> assignments c = []"
proof -
  define c1 where "c1 = snd (snd (unassign_first ''t'' two_agents))"
  define c2 where "c2 = snd (assign_task ''t'' ''b'' 2 c1)"
  define c3 where "c3 = run_continuation (ReleaseAssignee ''t'') c2"
  define c4 where "c4 = run_continuation (RemoveAssignment ''t'') c3"
  let ?ks = "[ReleaseAssignee ''t'', RemoveAssignment ''t'']"
  have "unassign_first ''t'' two_agents = (Inr (Transitioned TaskInProgress), ?ks, c1)"
    unfolding c1_def by code_simp
  then have "coord_step True (two_agents, []) (c1, [?ks])" by (rule StepUnassign [OF TrueI])
  moreover have "coord_step True (c1, [?ks]) (c2, [?ks])" unfolding c2_def by (rule StepAssign)
  moreover have "coord_step True (c2, [] @ ?ks # []) (c3, [] @ [RemoveAssignment ''t''] # [])"
    unfolding c3_def by (rule StepContinue)
  moreover have "coord_step True (c3, [] @ [RemoveAssignment ''t''] # []) (c4, [] @ [] # [])"
    unfolding c4_def by (rule StepContinue)
  ultimately have "(coord_step True)\<^sup>*\<^sup>* (two_agents, []) (c4, [[]])"
    by (simp add: converse_rtranclp_into_rtranclp)
  then have reach: "(coord_step True)\<^sup>*\<^sup>* (coordinator_new, []) (c4, [[]])"
    using two_agents_reachable by (rule rtranclp_trans [rotated])
  have "load_of c4 ''a'' = 1 \<and> slots_held ''a'' c4 = 0 \<and> load_of c4 ''b'' = 0 \<and> slots_held ''b'' c4 = 1
      \<and> assignments c4 = []"
    unfolding c4_def c3_def c2_def c1_def by code_simp
  with reach show ?thesis by blast
qed

section \<open>Terminal tasks, and the least loaded agent\<close>

lemma terminal_step:
  assumes "coord_step un (c, ps) (c', ps')" "map_of (tasks c) i = Some t" "is_terminal_status (task_status t)"
  shows "map_of (tasks c') i = Some t"
  using assms(1)
proof (rule coord_stepE)
  fix before k ks after
  assume "c' = run_continuation k c"
  moreover have "tasks (run_continuation k c) = tasks c" by (cases k) (auto split: option.splits)
  ultimately show ?thesis using assms(2) by simp
qed (use assms(2,3) in \<open>auto simp: register_task_def assign_task_def finish_first_def unassign_first_def
      is_terminal_status_def update_conv' split: option.splits if_splits\<close>)

text \<open>
  Terminal is terminal: once a task is completed or failed its record never changes again,
  whatever calls interleave, unassignments included.
\<close>

theorem finished_task_is_final:
  assumes "(coord_step un)\<^sup>*\<^sup>* (c, ps) (c', ps')"
    and "map_of (tasks c) i = Some t" "task_status t \<in> {TaskCompleted, TaskFailed}"
  shows "map_of (tasks c') i = Some t"
proof -
  have "map_of (tasks (fst (c', ps'))) i = Some t"
    using assms(1)
  proof (induction rule: rtranclp_induct)
    case base
    then show ?case using assms(2) by simp
  next
    case (step s u)
    then show ?case
      using terminal_step [of un "fst s" "snd s" "fst u" "snd u" i t] assms(3) by (simp add: is_terminal_status_def)
  qed
  then show ?thesis by simp
qed

theorem finished_task_is_final_witness:
  "let c = snd (complete_task ''t'' two_agents); c' = snd (assign_task ''t'' ''b'' 3 c)
   in task_status_of ''t'' c' = Some TaskCompleted"
proof -
  let ?c = "snd (complete_task ''t'' two_agents)"
  let ?t = "(task_new ''t'' ''job'' PrioLow)\<lparr>task_status := TaskCompleted, assigned_to := Some ''a''\<rparr>"
  have "coord_step True (?c, []) (snd (assign_task ''t'' ''b'' 3 ?c), [])" by (rule StepAssign)
  then have "(coord_step True)\<^sup>*\<^sup>* (?c, []) (snd (assign_task ''t'' ''b'' 3 ?c), [])" by (rule r_into_rtranclp)
  moreover have "map_of (tasks ?c) ''t'' = Some ?t" by code_simp
  moreover have "task_status ?t \<in> {TaskCompleted, TaskFailed}" by simp
  ultimately have "map_of (tasks (snd (assign_task ''t'' ''b'' 3 ?c))) ''t'' = Some ?t"
    by (rule finished_task_is_final)
  then show ?thesis by (simp add: Let_def task_status_of_def)
qed

lemma least_fold:
  "load_of c (foldl (\<lambda>best x. if load_of c x < load_of c best then x else best) a xs) \<le> load_of c a
   \<and> (\<forall>x \<in> set xs. load_of c (foldl (\<lambda>best x. if load_of c x < load_of c best then x else best) a xs) \<le> load_of c x)
   \<and> foldl (\<lambda>best x. if load_of c x < load_of c best then x else best) a xs \<in> set (a # xs)"
proof (induction xs arbitrary: a)
  case (Cons x xs)
  show ?case using Cons [of "if load_of c x < load_of c a then x else a"] by (auto split: if_splits)
qed simp

lemma least_loaded_is_least:
  "least_loaded_agent ags c = Some a \<Longrightarrow> a \<in> set ags \<and> (\<forall>b \<in> set ags. load_of c a \<le> load_of c b)"
  using least_fold [of c "hd ags" "tl ags"] by (cases ags) (auto simp: least_loaded_agent_def)

end
