(* ===== verification/Kod_Path_Lock.thy ===== *)
theory Kod_Path_Lock
  imports Kod_Prelude
begin

text \<open>
  The table of per-path write locks, \<open>crates/kod-tools/src/path_lock.rs\<close>. A lock cell is an
  \<open>Arc<Mutex<()>>\<close>: here an address, with a reference from the table, from every acquire
  that cloned it and waits, and from every guard. An acquire is two steps, the lookup of its
  cell and the locking of it, and any other caller may run in between, \<open>release_all\<close>
  included. The lemmas show that two writers never hold the same path.
\<close>

section \<open>The table\<close>

type_synonym cell = nat

record path_claim =
  claim_path :: string
  claim_cell :: cell
  claim_holder :: string

datatype lock_error = LockTimeout string nat

record lock_table =
  cells :: "(string, cell) hmap"
  next_cell :: cell
  waiting :: "path_claim list"
  guards :: "path_claim list"

definition lock_table_new :: lock_table where
  "lock_table_new = \<lparr> cells = [], next_cell = 0, waiting = [], guards = [] \<rparr>"

text \<open>
  \<open>Arc::strong_count\<close> of a cell: the table's own reference, one for each acquire in flight
  and one for each guard.
\<close>

definition strong_count :: "cell \<Rightarrow> lock_table \<Rightarrow> nat" where
  "strong_count c t =
     length (filter (\<lambda>(_, d). d = c) (cells t))
     + length (filter (\<lambda>w. claim_cell w = c) (waiting t))
     + length (filter (\<lambda>g. claim_cell g = c) (guards t))"

definition lock_release_all :: "lock_table \<Rightarrow> lock_table" where
  "lock_release_all t = t\<lparr>cells := filter (\<lambda>(_, c). 1 < strong_count c t) (cells t)\<rparr>"

text \<open>
  The first half of \<open>acquire\<close>: the cell of the path, created if there is none. A caller that
  finds no cell under the read lock looks again under the write lock, so what counts is that
  second lookup.
\<close>

definition acquire_cell :: "string \<Rightarrow> string \<Rightarrow> lock_table \<Rightarrow> lock_table" where
  "acquire_cell p holder t =
     (let (c, t1) = (case map_of (cells t) p of
            Some c \<Rightarrow> (c, t)
          | None \<Rightarrow> (next_cell t, t\<lparr>cells := AList.update p (next_cell t) (cells t), next_cell := next_cell t + 1\<rparr>))
      in t1\<lparr>waiting := \<lparr> claim_path = p, claim_cell = c, claim_holder = holder \<rparr> # waiting t1\<rparr>)"

definition is_locked :: "cell \<Rightarrow> lock_table \<Rightarrow> bool" where
  "is_locked c t = list_ex (\<lambda>g. claim_cell g = c) (guards t)"

text \<open>The second half: the mutex is granted when it is free, or the wait times out.\<close>

definition acquire_lock :: "path_claim \<Rightarrow> lock_table \<Rightarrow> lock_table option" where
  "acquire_lock w t =
     (if is_locked (claim_cell w) t then None
      else Some (t\<lparr>waiting := remove1 w (waiting t), guards := w # guards t\<rparr>))"

definition acquire_timeout :: "path_claim \<Rightarrow> nat \<Rightarrow> lock_table \<Rightarrow> lock_error \<times> lock_table" where
  "acquire_timeout w waited t = (LockTimeout (claim_path w) waited, t\<lparr>waiting := remove1 w (waiting t)\<rparr>)"

definition drop_guard :: "path_claim \<Rightarrow> lock_table \<Rightarrow> lock_table" where
  "drop_guard g t = t\<lparr>guards := remove1 g (guards t)\<rparr>"

section \<open>Callers that interleave\<close>

inductive lock_step :: "lock_table \<Rightarrow> lock_table \<Rightarrow> bool" where
  Lookup: "lock_step t (acquire_cell p holder t)"
| Granted: "\<lbrakk>w \<in> set (waiting t); acquire_lock w t = Some t'\<rbrakk> \<Longrightarrow> lock_step t t'"
| TimedOut: "w \<in> set (waiting t) \<Longrightarrow> lock_step t (snd (acquire_timeout w waited t))"
| Dropped: "g \<in> set (guards t) \<Longrightarrow> lock_step t (drop_guard g t)"
| ReleaseAll: "lock_step t (lock_release_all t)"

definition lock_ok :: "lock_table \<Rightarrow> bool" where
  "lock_ok t =
     (keys_distinct (cells t)
      \<and> distinct (map snd (cells t))
      \<and> (\<forall>c \<in> snd ` set (cells t). c < next_cell t)
      \<and> (\<forall>w \<in> set (waiting t) \<union> set (guards t). map_of (cells t) (claim_path w) = Some (claim_cell w))
      \<and> distinct (map claim_cell (guards t)))"

lemma lock_new_ok [kod_inv]: "lock_ok lock_table_new"
  by (simp add: lock_ok_def lock_table_new_def)

lemma distinct_remove1_map: "distinct (map f xs) \<Longrightarrow> distinct (map f (remove1 x xs))"
  by (induction xs) (auto dest!: subsetD [OF set_remove1_subset])

lemma cell_in_use_counts:
  assumes "w \<in> set (waiting t) \<union> set (guards t)" "(p, claim_cell w) \<in> set (cells t)"
  shows "1 < strong_count (claim_cell w) t"
proof -
  have "0 < length (filter (\<lambda>(_, d). d = claim_cell w) (cells t))"
    using assms(2) by (auto simp: filter_empty_conv)
  moreover have "0 < length (filter (\<lambda>v. claim_cell v = claim_cell w) (waiting t))
      + length (filter (\<lambda>v. claim_cell v = claim_cell w) (guards t))"
    using assms(1) by (auto simp: filter_empty_conv)
  ultimately show ?thesis unfolding strong_count_def by linarith
qed

lemma map_of_filter_keep:
  "keys_distinct m \<Longrightarrow> map_of m k = Some v \<Longrightarrow> P (k, v) \<Longrightarrow> map_of (filter P m) k = Some v"
  by (induction m) (auto split: if_splits simp: map_of_eq_None_iff image_iff dest: map_of_SomeD)

lemma release_all_ok:
  assumes "lock_ok t"
  shows "lock_ok (lock_release_all t)"
proof -
  have "map_of (cells (lock_release_all t)) (claim_path w) = Some (claim_cell w)"
    if "w \<in> set (waiting t) \<union> set (guards t)" for w
  proof -
    have m: "map_of (cells t) (claim_path w) = Some (claim_cell w)" using assms that by (simp add: lock_ok_def)
    then have "1 < strong_count (claim_cell w) t" by (intro cell_in_use_counts [OF that]) (rule map_of_SomeD)
    with m assms show ?thesis
      unfolding lock_release_all_def by (simp add: lock_ok_def map_of_filter_keep)
  qed
  moreover have "keys_distinct (filter P (cells t))" "distinct (map snd (filter P (cells t)))" for P
    using assms by (simp_all add: lock_ok_def distinct_map_filter)
  ultimately show ?thesis
    using assms by (auto simp: lock_ok_def lock_release_all_def)
qed

lemma acquire_cell_ok:
  assumes "lock_ok t"
  shows "lock_ok (acquire_cell p holder t)"
proof (cases "map_of (cells t) p")
  case None
  let ?cells = "cells t @ [(p, next_cell t)]"
  have fresh: "next_cell t \<notin> snd ` set (cells t)" "p \<notin> fst ` set (cells t)"
    using assms None by (auto simp: lock_ok_def map_of_eq_None_iff)
  have e: "acquire_cell p holder t = t\<lparr>cells := ?cells, next_cell := next_cell t + 1,
      waiting := \<lparr> claim_path = p, claim_cell = next_cell t, claim_holder = holder \<rparr> # waiting t\<rparr>"
    using None by (simp add: acquire_cell_def update_new)
  have old: "map_of ?cells (claim_path w) = Some (claim_cell w)" if "w \<in> set (waiting t) \<union> set (guards t)" for w
    using assms that by (simp add: lock_ok_def map_add_Some_iff)
  have new: "map_of ?cells p = Some (next_cell t)" using None by (simp add: map_add_Some_iff)
  show ?thesis
    using assms fresh old new unfolding lock_ok_def e by (auto simp: less_Suc_eq)
qed (use assms in \<open>auto simp: lock_ok_def acquire_cell_def\<close>)

lemma lock_step_ok: "lock_step t t' \<Longrightarrow> lock_ok t \<Longrightarrow> lock_ok t'"
proof (induction rule: lock_step.induct)
  case (Granted w t t')
  then have "\<not> is_locked (claim_cell w) t" and t': "t' = t\<lparr>waiting := remove1 w (waiting t), guards := w # guards t\<rparr>"
    by (auto simp: acquire_lock_def split: if_splits)
  then have "claim_cell w \<notin> set (map claim_cell (guards t))" by (auto simp: is_locked_def list_ex_iff)
  with Granted show ?case by (auto simp: t' lock_ok_def dest!: subsetD [OF set_remove1_subset])
next
  case (TimedOut w t waited)
  then show ?case by (auto simp: lock_ok_def acquire_timeout_def dest!: subsetD [OF set_remove1_subset])
next
  case (Dropped g t)
  then show ?case
    by (auto simp: lock_ok_def drop_guard_def distinct_remove1_map dest!: subsetD [OF set_remove1_subset])
qed (simp_all add: acquire_cell_ok release_all_ok)

lemma reachable_lock_ok: "lock_step\<^sup>*\<^sup>* lock_table_new t \<Longrightarrow> lock_ok t"
  by (induction rule: rtranclp_induct) (auto intro: lock_new_ok lock_step_ok)

text \<open>
  C20. Mutual exclusion: in every reachable state of the table no two guards hold the same path,
  whatever acquires, timeouts, drops and \<open>release_all\<close> calls interleave, an acquire that has
  looked up its cell and not yet locked it included.
\<close>

theorem no_two_writers:
  assumes "lock_step\<^sup>*\<^sup>* lock_table_new t"
  shows "distinct (map claim_path (guards t))"
proof -
  note ok = reachable_lock_ok [OF assms]
  have cell: "map_of (cells t) (claim_path g) = Some (claim_cell g)" if "g \<in> set (guards t)" for g
    using ok that by (simp add: lock_ok_def)
  have "inj_on claim_path (set (guards t))"
  proof (rule inj_onI)
    fix g h
    assume gh: "g \<in> set (guards t)" "h \<in> set (guards t)" "claim_path g = claim_path h"
    then have "claim_cell g = claim_cell h" using cell [of g] cell [of h] by simp
    moreover have "inj_on claim_cell (set (guards t))" using ok by (simp add: lock_ok_def distinct_map)
    ultimately show "g = h" using gh by (auto dest: inj_onD)
  qed
  moreover have "distinct (guards t)" using ok by (simp add: lock_ok_def distinct_map)
  ultimately show ?thesis by (simp add: distinct_map)
qed

definition claim0 :: "string \<Rightarrow> path_claim" where
  "claim0 holder = \<lparr> claim_path = ''a.rs'', claim_cell = 0, claim_holder = holder \<rparr>"

definition one_writer :: lock_table where
  "one_writer = \<lparr> cells = [(''a.rs'', 0)], next_cell = 1, waiting = [claim0 ''y''], guards = [claim0 ''x''] \<rparr>"

lemma one_writer_reachable: "lock_step\<^sup>*\<^sup>* lock_table_new one_writer"
proof -
  let ?t1 = "acquire_cell ''a.rs'' ''x'' lock_table_new"
  let ?t2 = "\<lparr> cells = [(''a.rs'', 0)], next_cell = 1, waiting = [], guards = [claim0 ''x''] \<rparr>"
  have t1: "?t1 = \<lparr> cells = [(''a.rs'', 0)], next_cell = 1, waiting = [claim0 ''x''], guards = [] \<rparr>"
    by (simp add: acquire_cell_def lock_table_new_def claim0_def)
  have 1: "lock_step lock_table_new ?t1" by (rule Lookup)
  have 2: "lock_step ?t1 ?t2"
    by (rule Granted [of "claim0 ''x''"]) (simp_all add: t1 acquire_lock_def is_locked_def)
  have "acquire_cell ''a.rs'' ''y'' ?t2 = one_writer" by (simp add: acquire_cell_def one_writer_def claim0_def)
  then have 3: "lock_step ?t2 one_writer" using Lookup [of ?t2 "''a.rs''" "''y''"] by simp
  from 1 2 3 show ?thesis by (meson rtranclp.rtrancl_refl rtranclp.rtrancl_into_rtrancl)
qed

theorem no_two_writers_witness:
  "lock_step\<^sup>*\<^sup>* lock_table_new one_writer \<and> distinct (map claim_path (guards one_writer))
   \<and> guards one_writer = [claim0 ''x''] \<and> waiting one_writer = [claim0 ''y'']"
  using one_writer_reachable no_two_writers [OF one_writer_reachable] by (simp add: one_writer_def)

section \<open>A waiter gets in\<close>

text \<open>
  C21. No waiter is stuck: in every reachable state where an acquire waits for its path, once
  the guard on that path (there is at most one) is dropped, that acquire is granted the lock in
  one more step, even if \<open>release_all\<close> runs in between.
\<close>

theorem waiter_gets_lock:
  assumes "lock_step\<^sup>*\<^sup>* lock_table_new t" and "w \<in> set (waiting t)"
  shows "\<exists>t1 t2. (t1 = t \<or> (\<exists>g \<in> set (guards t). claim_path g = claim_path w \<and> t1 = drop_guard g t))
    \<and> acquire_lock w (lock_release_all t1) = Some t2 \<and> w \<in> set (guards t2)"
proof -
  note ok = reachable_lock_ok [OF assms(1)]
  have cw: "map_of (cells t) (claim_path w) = Some (claim_cell w)" using ok assms(2) by (simp add: lock_ok_def)
  show ?thesis
  proof (cases "is_locked (claim_cell w) t")
    case False
    then have "acquire_lock w (lock_release_all t)
        = Some ((lock_release_all t)\<lparr>waiting := remove1 w (waiting t), guards := w # guards t\<rparr>)"
      by (simp add: acquire_lock_def lock_release_all_def is_locked_def)
    then show ?thesis by (intro exI [of _ t] exI conjI) auto
  next
    case True
    then obtain g where g: "g \<in> set (guards t)" "claim_cell g = claim_cell w"
      by (auto simp: is_locked_def list_ex_iff)
    have cg: "map_of (cells t) (claim_path g) = Some (claim_cell w)" using ok g by (auto simp: lock_ok_def)
    have "inj_on snd (set (cells t))" using ok by (simp add: lock_ok_def distinct_map)
    from inj_onD [OF this _ map_of_SomeD [OF cg] map_of_SomeD [OF cw]]
    have path: "claim_path g = claim_path w" by simp
    have "distinct (guards t)" and inj: "inj_on claim_cell (set (guards t))"
      using ok by (auto simp: lock_ok_def distinct_map)
    have "h = g" if "h \<in> set (guards t)" "claim_cell h = claim_cell w" for h
      by (rule inj_onD [OF inj]) (use that g in simp_all)
    then have "\<not> is_locked (claim_cell w) (drop_guard g t)"
      using \<open>distinct (guards t)\<close> by (auto simp: is_locked_def list_ex_iff drop_guard_def set_remove1_eq)
    then have "acquire_lock w (lock_release_all (drop_guard g t))
        = Some ((lock_release_all (drop_guard g t))\<lparr>waiting := remove1 w (waiting t), guards := w # remove1 g (guards t)\<rparr>)"
      by (simp add: acquire_lock_def lock_release_all_def is_locked_def drop_guard_def)
    with g(1) path show ?thesis by (intro exI [of _ "drop_guard g t"] exI conjI) auto
  qed
qed

theorem waiter_gets_lock_witness:
  "\<exists>t1 t2. (t1 = one_writer \<or> (\<exists>g \<in> set (guards one_writer). claim_path g = ''a.rs'' \<and> t1 = drop_guard g one_writer))
    \<and> acquire_lock (claim0 ''y'') (lock_release_all t1) = Some t2 \<and> claim0 ''y'' \<in> set (guards t2)"
proof -
  have "claim0 ''y'' \<in> set (waiting one_writer)" by (simp add: one_writer_def)
  from waiter_gets_lock [OF one_writer_reachable this] show ?thesis by (simp add: claim0_def)
qed

text \<open>A quiescent table is emptied, and a cell in use stays.\<close>

lemma release_all_quiescent:
  assumes "waiting t = []" "guards t = []" "distinct (map snd (cells t))"
  shows "cells (lock_release_all t) = []"
proof -
  have "length (filter (\<lambda>(_, d). d = c) m) \<le> 1" if "distinct (map snd m)" for c and m :: "(string \<times> cell) list"
    using that
  proof (induction m)
    case (Cons x m)
    then show ?case by (cases "snd x = c") (auto simp: filter_empty_conv split_beta image_iff)
  qed simp
  from this [OF assms(3)] have "\<not> 1 < strong_count c t" for c
    using assms(1,2) by (simp add: strong_count_def not_less)
  then show ?thesis by (simp add: lock_release_all_def)
qed

end
