(* ===== verification/Kod_Secret_Vault.thy ===== *)
theory Kod_Secret_Vault
  imports Kod_Text
begin

text \<open>
  Reversible secret placeholders, \<open>crates/kod-types/src/secret_placeholder.rs\<close>: the vault,
  the obfuscation of a text on its way to the model, and the restoring of what the model sends
  back. HMAC-SHA256 is an argument. A \<open>HashMap\<close> is read in the order of its list, whatever
  it is. The lemmas show that no registered secret is left in an obfuscated text and that
  restoring it gives the text back, on texts and secrets the placeholders do not interfere with,
  and that the cached order of the secrets can go stale under a concurrent registration.
\<close>

section \<open>Replacing\<close>

text \<open>
  \<open>str::replace\<close> for a nonempty pattern: leftmost occurrences, left to right. It is defined
  on lists of any type.
\<close>

function replace_all :: "'a list \<Rightarrow> 'a list \<Rightarrow> 'a list \<Rightarrow> 'a list" where
  "replace_all p r [] = []"
| "replace_all p r (x # xs) =
     (if p \<noteq> [] \<and> prefix p (x # xs) then r @ replace_all p r (drop (length p) (x # xs))
      else x # replace_all p r xs)"
  by pat_completeness auto
termination
  by (relation "measure (\<lambda>(_, _, xs). length xs)") (auto simp: drop_Cons' split: if_splits)

text \<open>An empty pattern matches at every character boundary.\<close>

definition str_replace :: "string \<Rightarrow> string \<Rightarrow> string \<Rightarrow> string" where
  "str_replace p r s = (if p = [] then r @ concat (map (\<lambda>c. c @ r) (utf8_chars s)) else replace_all p r s)"

text \<open>\<open>matches(pat).count()\<close>.\<close>

function count_matches :: "'a list \<Rightarrow> 'a list \<Rightarrow> nat" where
  "count_matches p [] = 0"
| "count_matches p (x # xs) =
     (if p \<noteq> [] \<and> prefix p (x # xs) then 1 + count_matches p (drop (length p) (x # xs))
      else count_matches p xs)"
  by pat_completeness auto
termination
  by (relation "measure (\<lambda>(_, xs). length xs)") (auto simp: drop_Cons' split: if_splits)

section \<open>The vault\<close>

definition digest_bytes :: nat where
  "digest_bytes = 8"

definition open_mark :: string where
  "open_mark = [CHR 0xC2, CHR 0xAB]"

definition close_mark :: string where
  "close_mark = [CHR 0xC2, CHR 0xBB]"

definition credential_prefix :: string where
  "credential_prefix = ''Credential-''"

record secret_vault =
  vault_key :: string
  vault_forward :: "(string, string) hmap"
  vault_reverse :: "(string, string) hmap"
  vault_sorted :: "(string \<times> string) list option"

datatype secret_source = SecretEnv | SecretVendor | SecretConnectionUrl

record registered_secret =
  reg_placeholder :: string
  reg_source :: secret_source

definition vault_with_key :: "string \<Rightarrow> secret_vault" where
  "vault_with_key key = \<lparr> vault_key = key, vault_forward = [], vault_reverse = [], vault_sorted = None \<rparr>"

definition lower_hex_digit :: "nat \<Rightarrow> char" where
  "lower_hex_digit n = (if n < 10 then char_of (48 + n) else char_of (87 + n))"

definition hex_byte :: "char \<Rightarrow> string" where
  "hex_byte b = [lower_hex_digit (of_char b div 16), lower_hex_digit (of_char b mod 16)]"

definition placeholder_for :: "(string \<Rightarrow> string \<Rightarrow> string) \<Rightarrow> secret_vault \<Rightarrow> string \<Rightarrow> string" where
  "placeholder_for hmac v secret =
     open_mark @ credential_prefix @ concat (map hex_byte (take digest_bytes (hmac (vault_key v) secret))) @ close_mark"

definition vault_register :: "(string \<Rightarrow> string \<Rightarrow> string) \<Rightarrow> string \<Rightarrow> secret_vault \<Rightarrow> string \<times> secret_vault" where
  "vault_register hmac secret v =
     (case map_of (vault_forward v) secret of
        Some p \<Rightarrow> (p, v)
      | None \<Rightarrow>
          (let p = placeholder_for hmac v secret
           in (p, v\<lparr>vault_forward := AList.update secret p (vault_forward v),
                    vault_reverse := AList.update p secret (vault_reverse v),
                    vault_sorted := None\<rparr>)))"

fun register_secrets ::
  "(string \<Rightarrow> string \<Rightarrow> string) \<Rightarrow> (string \<times> secret_source) list \<Rightarrow> secret_vault \<Rightarrow> registered_secret list \<times> secret_vault" where
  "register_secrets hmac [] v = ([], v)"
| "register_secrets hmac ((s, src) # rest) v =
     (if s = [] then register_secrets hmac rest v
      else
        (let is_new = (map_of (vault_forward v) s = None);
             (p, v1) = vault_register hmac s v;
             (out, v2) = register_secrets hmac rest v1
         in ((if is_new then [\<lparr> reg_placeholder = p, reg_source = src \<rparr>] else []) @ out, v2)))"

definition vault_len :: "secret_vault \<Rightarrow> nat" where
  "vault_len v = length (vault_forward v)"

text \<open>Longest secret first; \<open>sort_by_key\<close> is stable.\<close>

definition longest_first :: "(string, string) hmap \<Rightarrow> (string \<times> string) list" where
  "longest_first m = sort_key (\<lambda>(s, _). - int (length s)) m"

definition vault_view :: "secret_vault \<Rightarrow> (string \<times> string) list" where
  "vault_view v = (case vault_sorted v of Some xs \<Rightarrow> xs | None \<Rightarrow> longest_first (vault_forward v))"

definition obfuscate_with :: "(string \<times> string) list \<Rightarrow> string \<Rightarrow> string" where
  "obfuscate_with view text = foldl (\<lambda>out (secret, p). if contains_str secret out then str_replace secret p out else out) text view"

definition vault_obfuscate :: "string \<Rightarrow> secret_vault \<Rightarrow> string \<times> secret_vault" where
  "vault_obfuscate text v = (obfuscate_with (vault_view v) text, v\<lparr>vault_sorted := Some (vault_view v)\<rparr>)"

definition vault_deobfuscate :: "string \<Rightarrow> secret_vault \<Rightarrow> string \<times> nat" where
  "vault_deobfuscate text v =
     foldl (\<lambda>(out, n) (p, secret). if contains_str p out then (str_replace p secret out, n + count_matches p out) else (out, n))
       (text, 0) (vault_reverse v)"

definition contains_placeholder :: "string \<Rightarrow> secret_vault \<Rightarrow> bool" where
  "contains_placeholder text v = list_ex (\<lambda>(p, _). contains_str p text) (vault_reverse v)"

section \<open>Texts with holes\<close>

text \<open>
  An obfuscated text is a list of pieces, raw bytes and holes, and a hole prints as the
  placeholder of its secret. Replacing on the printed text is replacing on the pieces, as long
  as no secret reaches into a placeholder.
\<close>

datatype piece = Raw char | Hole string

definition ascii :: "string \<Rightarrow> bool" where
  "ascii s = list_all (\<lambda>c. of_char c < (128 :: nat)) s"

definition holes :: "piece list \<Rightarrow> string set" where
  "holes ts = {s. Hole s \<in> set ts}"

definition fill :: "piece list \<Rightarrow> string" where
  "fill ts = concat (map (\<lambda>t. case t of Raw c \<Rightarrow> [c] | Hole s \<Rightarrow> s) ts)"

lemma ascii_simps [simp]:
  "ascii []" "ascii (c # s) \<longleftrightarrow> of_char c < (128 :: nat) \<and> ascii s" "ascii (s @ t) \<longleftrightarrow> ascii s \<and> ascii t"
  by (simp_all add: ascii_def)

lemma fill_simps [simp]:
  "fill [] = []" "fill (Raw c # ts) = c # fill ts" "fill (Hole s # ts) = s @ fill ts" "fill (ts @ us) = fill ts @ fill us"
  by (simp_all add: fill_def)

lemma fill_raw [simp]: "fill (map Raw s) = s"
  by (induction s) simp_all

lemma raw_sublist_fill: "sublist (map Raw q) ts \<Longrightarrow> sublist q (fill ts)"
proof -
  assume "sublist (map Raw q) ts"
  then obtain ps ss where "ts = ps @ map Raw q @ ss" by (auto simp: sublist_def)
  then have "fill ts = fill ps @ q @ fill ss" by simp
  then show ?thesis by (metis sublist_def)
qed

lemma holes_simps [simp]:
  "holes [] = {}" "holes (Raw c # ts) = holes ts" "holes (Hole s # ts) = insert s (holes ts)"
  "holes (ts @ us) = holes ts \<union> holes us" "holes (map Raw s) = {}"
  by (auto simp: holes_def)

lemma replace_all_absent: "\<not> contains_str p s \<Longrightarrow> replace_all p r s = s"
  by (induction p r s rule: replace_all.induct) auto

lemma replace_all_match:
  "p \<noteq> [] \<Longrightarrow> replace_all p r (p @ xs) = r @ replace_all p r xs"
  by (cases p) (simp_all add: prefix_def)

text \<open>Secrets become holes, and holes secrets; what the holes stand for stays the same.\<close>

lemma fill_hide: "fill (replace_all (map Raw s) [Hole s] ts) = fill ts"
proof (induction "map Raw s" "[Hole s]" ts rule: replace_all.induct)
  case (2 x xs)
  show ?case
  proof (cases "map Raw s \<noteq> [] \<and> prefix (map Raw s) (x # xs)")
    case True
    then obtain rest where "x # xs = map Raw s @ rest" by (auto simp: prefix_def)
    then have "drop (length (map Raw s)) (x # xs) = rest" "fill (x # xs) = s @ fill rest" by simp_all
    with True 2 show ?thesis by simp
  next
    case False
    with 2 show ?thesis by (cases x) auto
  qed
qed simp

lemma fill_show: "fill (replace_all [Hole s] (map Raw s) ts) = fill ts"
proof (induction "[Hole s]" "map Raw s" ts rule: replace_all.induct)
  case (2 x xs)
  then show ?case by (cases x) auto
qed simp

lemma holes_hide: "holes (replace_all (map Raw s) [Hole s] ts) \<subseteq> insert s (holes ts)"
proof (induction "map Raw s" "[Hole s]" ts rule: replace_all.induct)
  case (2 x xs)
  have "holes (drop n (x # xs)) \<subseteq> holes (x # xs)" for n by (auto simp: holes_def dest: in_set_dropD)
  with 2 show ?case by (cases x) (auto split: if_splits)
qed simp

lemma holes_show: "holes (replace_all [Hole s] (map Raw s) ts) = holes ts - {s}"
proof (induction "[Hole s]" "map Raw s" ts rule: replace_all.induct)
  case (2 x xs)
  then show ?case by (cases x) auto
qed simp

text \<open>After a secret is hidden it is gone from the raw bytes, and no other one appears.\<close>

lemma prefix_hide: "prefix (map Raw q) (replace_all p [Hole s] ts) \<Longrightarrow> prefix (map Raw q) ts"
proof (induction q arbitrary: ts)
  case (Cons c q)
  then show ?case by (cases ts) (auto split: if_splits)
qed simp

lemma sublist_hide: "sublist (map Raw q) (replace_all p [Hole s] ts) \<Longrightarrow> q \<noteq> [] \<Longrightarrow> sublist (map Raw q) ts"
proof (induction p "[Hole s]" ts rule: replace_all.induct)
  case (2 p x xs)
  show ?case
  proof (cases "p \<noteq> [] \<and> prefix p (x # xs)")
    case True
    have "\<not> prefix (map Raw q) (Hole s # us)" for us using 2(4) by (cases q) auto
    with True 2 have "sublist (map Raw q) (drop (length p) (x # xs))" by (auto simp: sublist_Cons_right)
    then show ?thesis by (meson sublist_drop sublist_order.order.trans)
  next
    case False
    with 2 have "prefix (map Raw q) (replace_all p [Hole s] (x # xs)) \<or> sublist (map Raw q) (replace_all p [Hole s] xs)"
      by (auto simp: sublist_Cons_right)
    then show ?thesis
      using 2(2)[OF False] 2(4) prefix_hide [of q p s "x # xs"] by (auto simp: sublist_Cons_right)
  qed
qed simp

lemma hidden_is_gone: "q \<noteq> [] \<Longrightarrow> \<not> sublist (map Raw q) (replace_all (map Raw q) [Hole s] ts)"
proof (induction "map Raw q" "[Hole s]" ts rule: replace_all.induct)
  case (2 x xs)
  show ?case
  proof (cases "prefix (map Raw q) (x # xs)")
    case True
    have "\<not> prefix (map Raw q) (Hole s # us)" for us using 2(3) by (cases q) auto
    with True 2 show ?thesis by (auto simp: sublist_Cons_right)
  next
    case False
    with 2 prefix_hide [of q "map Raw q" s "x # xs"] show ?thesis by (auto simp: sublist_Cons_right)
  qed
qed simp

section \<open>Printing the holes\<close>

text \<open>What the lemmas need of a placeholder: its brackets, and nothing beyond ASCII between them.\<close>

locale hole_printing =
  fixes print_hole :: "string \<Rightarrow> string"
  assumes hole_shape: "\<exists>inner. print_hole s = open_mark @ inner @ close_mark \<and> ascii inner"
begin

fun print_piece :: "piece \<Rightarrow> string" where
  "print_piece (Raw c) = [c]"
| "print_piece (Hole s) = print_hole s"

definition print_pieces :: "piece list \<Rightarrow> string" where
  "print_pieces ts = concat (map print_piece ts)"

lemma print_pieces_simps [simp]:
  "print_pieces [] = []"
  "print_pieces (Raw c # ts) = c # print_pieces ts"
  "print_pieces (Hole s # ts) = print_hole s @ print_pieces ts"
  "print_pieces (ts @ us) = print_pieces ts @ print_pieces us"
  by (simp_all add: print_pieces_def)

lemma print_raw [simp]: "print_pieces (map Raw s) = s"
  by (induction s) simp_all

lemma print_no_holes: "holes ts = {} \<Longrightarrow> print_pieces ts = fill ts"
proof (induction ts)
  case (Cons t ts)
  then show ?case by (cases t) simp_all
qed simp

lemma hole_head: "\<exists>rest. print_hole s = CHR 0xC2 # CHR 0xAB # rest"
  using hole_shape [of s] by (auto simp: open_mark_def)

lemma hole_last: "print_hole s \<noteq> [] \<and> last (print_hole s) = CHR 0xBB"
  using hole_shape [of s] by (auto simp: close_mark_def open_mark_def)

lemma prefix_raw: "ascii s \<Longrightarrow> prefix s (print_pieces ts) \<longleftrightarrow> prefix (map Raw s) ts"
proof (induction s arbitrary: ts)
  case (Cons a s)
  show ?case
  proof (cases ts)
    case (Cons t us)
    show ?thesis
    proof (cases t)
      case (Raw c)
      with Cons Cons.IH [of us] Cons.prems show ?thesis by simp
    next
      case (Hole h)
      obtain rest where "print_hole h = CHR 0xC2 # CHR 0xAB # rest" using hole_head by blast
      with Hole Cons Cons.prems show ?thesis by auto
    qed
  qed simp
qed simp

lemma replace_all_skip:
  "(\<And>v. suffix v u \<Longrightarrow> v \<noteq> [] \<Longrightarrow> \<not> prefix s (v @ w)) \<Longrightarrow> replace_all s r (u @ w) = u @ replace_all s r w"
proof (induction u)
  case (Cons a u)
  have "\<not> prefix s ((a # u) @ w)" using Cons.prems [of "a # u"] by simp
  moreover have "\<not> prefix s (v @ w)" if "suffix v u" "v \<noteq> []" for v
    using Cons.prems [of v] that by (simp add: suffix_Cons)
  ultimately show ?case using Cons.IH by simp
qed simp

lemma replace_hide:
  "s \<noteq> [] \<Longrightarrow> ascii s \<Longrightarrow> (\<And>h. h \<in> holes ts \<Longrightarrow> \<not> sublist s (print_hole h)) \<Longrightarrow>
     replace_all s (print_hole s) (print_pieces ts) = print_pieces (replace_all (map Raw s) [Hole s] ts)"
proof (induction "map Raw s" "[Hole s]" ts rule: replace_all.induct)
  case (2 x xs)
  show ?case
  proof (cases "prefix (map Raw s) (x # xs)")
    case True
    then obtain rest where rest: "x # xs = map Raw s @ rest" by (auto simp: prefix_def)
    then have drop: "drop (length (map Raw s)) (x # xs) = rest" by simp
    have "holes rest \<subseteq> holes (x # xs)" by (simp add: rest)
    then have "replace_all s (print_hole s) (print_pieces rest) = print_pieces (replace_all (map Raw s) [Hole s] rest)"
      using 2(1) True 2(3-5) drop by auto
    moreover have "replace_all s (print_hole s) (print_pieces (x # xs)) = print_hole s @ replace_all s (print_hole s) (print_pieces rest)"
      using replace_all_match [OF 2(3)] by (simp add: rest)
    moreover have "replace_all (map Raw s) [Hole s] (x # xs) = Hole s # replace_all (map Raw s) [Hole s] rest"
      using replace_all_match [of "map Raw s" "[Hole s]" rest] 2(3) by (simp add: rest)
    ultimately show ?thesis by simp
  next
    case False
    then have tok: "replace_all (map Raw s) [Hole s] (x # xs) = x # replace_all (map Raw s) [Hole s] xs" by simp
    have IH: "replace_all s (print_hole s) (print_pieces xs) = print_pieces (replace_all (map Raw s) [Hole s] xs)"
      by (rule 2(2)) (use False 2(3-5) in \<open>auto simp: holes_def\<close>)
    show ?thesis
    proof (cases x)
      case (Raw c)
      have "\<not> prefix s (print_pieces (x # xs))" using prefix_raw [OF 2(4)] False by blast
      with IH tok Raw show ?thesis by simp
    next
      case (Hole h)
      have absent: "\<not> sublist s (print_hole h)" by (rule 2(5)) (simp add: Hole)
      have "\<not> prefix s (v @ w)" if v: "suffix v (print_hole h)" "v \<noteq> []" for v w
      proof
        assume "prefix s (v @ w)"
        then consider "prefix s v" | t where "s = v @ t" by (auto simp: prefix_append)
        then show False
        proof cases
          case 1
          with v absent show False by (meson prefix_imp_sublist suffix_imp_sublist sublist_order.order.trans)
        next
          case 2
          have "last v = CHR 0xBB" using v hole_last [of h] by (auto simp: suffix_def)
          then have "CHR 0xBB \<in> set s" using 2 v(2) last_in_set [of v] by auto
          with \<open>ascii s\<close> show False by (auto simp: ascii_def list_all_iff)
        qed
      qed
      with replace_all_skip [of "print_hole h" s "print_pieces xs"] IH tok Hole show ?thesis by simp
    qed
  qed
qed simp

text \<open>The inner text of a placeholder is ASCII, so it ends at the first closing bracket.\<close>

lemma ascii_upto:
  "ascii a \<Longrightarrow> ascii b \<Longrightarrow> prefix (a @ CHR 0xC2 # x) (b @ CHR 0xC2 # y) \<Longrightarrow> a = b"
proof (induction a arbitrary: b)
  case Nil
  then show ?case by (cases b) auto
next
  case (Cons c a)
  then show ?case by (cases b) auto
qed

lemma prefix_hole: "prefix (print_hole i) (print_hole h @ w) \<longleftrightarrow> print_hole i = print_hole h"
proof -
  obtain a where a: "print_hole i = open_mark @ a @ close_mark" "ascii a" using hole_shape by blast
  obtain b where b: "print_hole h = open_mark @ b @ close_mark" "ascii b" using hole_shape by blast
  show ?thesis
  proof
    assume "prefix (print_hole i) (print_hole h @ w)"
    then have "prefix (a @ close_mark) (b @ close_mark @ w)" using a b by simp
    then have "a = b" using ascii_upto [OF a(2) b(2)] by (simp add: close_mark_def)
    with a b show "print_hole i = print_hole h" by simp
  qed simp
qed

lemma open_only_at_head:
  assumes "suffix v (print_hole h)" "v \<noteq> []" "v \<noteq> print_hole h"
  shows "\<not> prefix (print_hole i) (v @ w)"
proof
  assume p: "prefix (print_hole i) (v @ w)"
  obtain b where b: "print_hole h = open_mark @ b @ close_mark" "ascii b" using hole_shape by blast
  obtain u where u: "open_mark @ b @ close_mark = u @ v" "u \<noteq> []" using assms(1,3) b(1) by (auto simp: suffix_def)
  obtain rest where "print_hole i = CHR 0xC2 # CHR 0xAB # rest" using hole_head by blast
  with p obtain t where t: "v @ w = CHR 0xC2 # CHR 0xAB # t" by (auto simp: prefix_def)
  obtain v' where v: "v = CHR 0xC2 # v'" using t assms(2) by (cases v) auto
  then obtain u' where u': "CHR 0xAB # b @ close_mark = u' @ CHR 0xC2 # v'"
    using u by (cases u) (auto simp: open_mark_def)
  then obtain u'' where u'': "b @ CHR 0xC2 # [CHR 0xBB] = u'' @ CHR 0xC2 # v'"
    by (cases u') (auto simp: close_mark_def)
  have "v' = [CHR 0xBB]"
    using u'' b(2)
  proof (induction b arbitrary: u'')
    case Nil
    then show ?case by (cases u'') (auto simp: Cons_eq_append_conv)
  next
    case (Cons c b)
    then show ?case by (cases u'') auto
  qed
  with t v show False by simp
qed

text \<open>A placeholder that begins at a raw byte is raw to its end.\<close>

lemma prefix_close_raw: "ascii w \<Longrightarrow> prefix (w @ close_mark) (print_pieces ts) \<Longrightarrow> prefix (map Raw (w @ close_mark)) ts"
proof (induction w arbitrary: ts)
  case Nil
  obtain t us where ts: "ts = t # us" using Nil by (cases ts) (auto simp: close_mark_def)
  have t: "t = Raw (CHR 0xC2)"
  proof (cases t)
    case (Hole h)
    with Nil ts hole_head [of h] show ?thesis by (auto simp: close_mark_def)
  qed (use Nil ts in \<open>simp add: close_mark_def\<close>)
  obtain u vs where us: "us = u # vs" using Nil ts t by (cases us) (auto simp: close_mark_def)
  have "u = Raw (CHR 0xBB)"
  proof (cases u)
    case (Hole h)
    with Nil ts us t hole_head [of h] show ?thesis by (auto simp: close_mark_def)
  qed (use Nil ts us t in \<open>simp add: close_mark_def\<close>)
  with ts us t show ?case by (simp add: close_mark_def)
next
  case (Cons c w)
  obtain t us where ts: "ts = t # us" using Cons.prems(2) by (cases ts) auto
  show ?case
  proof (cases t)
    case (Raw d)
    with Cons ts show ?thesis by simp
  next
    case (Hole h)
    with Cons.prems ts hole_head [of h] show ?thesis by auto
  qed
qed

lemma prefix_hole_raw:
  assumes "prefix (print_hole i) (print_pieces (Raw c # xs))"
  shows "prefix (map Raw (print_hole i)) (Raw c # xs)"
proof -
  obtain a where a: "print_hole i = open_mark @ a @ close_mark" "ascii a" using hole_shape by blast
  have c: "c = CHR 0xC2" and t: "prefix (CHR 0xAB # a @ close_mark) (print_pieces xs)"
    using assms by (simp_all add: a(1) open_mark_def)
  obtain y ys where xs: "xs = y # ys" using t by (cases xs) auto
  have y: "y = Raw (CHR 0xAB)"
  proof (cases y)
    case (Hole h)
    with t xs hole_head [of h] show ?thesis by auto
  qed (use t xs in simp)
  have "prefix (map Raw (a @ close_mark)) ys" using prefix_close_raw [OF a(2)] t xs y by simp
  then show ?thesis by (simp add: a(1) open_mark_def c xs y)
qed

lemma replace_show:
  "\<not> sublist (map Raw (print_hole i)) ts \<Longrightarrow> (\<And>h. h \<in> holes ts \<Longrightarrow> print_hole h = print_hole i \<Longrightarrow> h = i) \<Longrightarrow>
     replace_all (print_hole i) i (print_pieces ts) = print_pieces (replace_all [Hole i] (map Raw i) ts)"
proof (induction ts)
  case Nil
  then show ?case by simp
next
  case (Cons x xs)
  have IH: "replace_all (print_hole i) i (print_pieces xs) = print_pieces (replace_all [Hole i] (map Raw i) xs)"
    by (rule Cons.IH) (use Cons.prems in \<open>auto simp: holes_def sublist_Cons_right\<close>)
  show ?case
  proof (cases x)
    case (Raw c)
    have "\<not> prefix (print_hole i) (print_pieces (x # xs))"
      using prefix_hole_raw [of i c xs] Raw Cons.prems(1) prefix_imp_sublist by blast
    with IH Raw show ?thesis by simp
  next
    case (Hole h)
    have h: "print_hole i = print_hole h \<longleftrightarrow> h = i" using Cons.prems(2) [of h] Hole by auto
    show ?thesis
    proof (cases "h = i")
      case True
      have "print_hole i \<noteq> []" using hole_last by blast
      with IH Hole True show ?thesis by (simp add: replace_all_match)
    next
      case False
      have "\<not> prefix (print_hole i) (v @ print_pieces xs)" if "suffix v (print_hole h)" "v \<noteq> []" for v
        using open_only_at_head [OF that] prefix_hole [of i h] h False by (cases "v = print_hole h") auto
      with replace_all_skip [of "print_hole h" "print_hole i" "print_pieces xs"] IH Hole False
      show ?thesis by simp
    qed
  qed
qed

text \<open>A secret that no placeholder contains occurs in a printed text only among the raw bytes.\<close>

lemma sublist_print:
  "ascii q \<Longrightarrow> q \<noteq> [] \<Longrightarrow> (\<And>h. h \<in> holes ts \<Longrightarrow> \<not> sublist q (print_hole h)) \<Longrightarrow>
     sublist q (print_pieces ts) \<Longrightarrow> sublist (map Raw q) ts"
proof (induction ts)
  case (Cons t ts)
  have IH: "sublist q (print_pieces ts) \<Longrightarrow> sublist (map Raw q) ts"
    by (rule Cons.IH) (use Cons.prems in \<open>auto simp: holes_def\<close>)
  show ?case
  proof (cases t)
    case (Raw c)
    with Cons.prems(4) have "prefix q (print_pieces (t # ts)) \<or> sublist q (print_pieces ts)"
      by (auto simp: sublist_Cons_right)
    with IH prefix_raw [OF Cons.prems(1), of "t # ts"] show ?thesis by (auto simp: sublist_Cons_right)
  next
    case (Hole h)
    have absent: "\<not> sublist q (print_hole h)" by (rule Cons.prems(3)) (simp add: Hole)
    have "\<not> sublist q (print_hole h @ w) \<or> sublist q w" for w
    proof (rule ccontr)
      assume "\<not> (\<not> sublist q (print_hole h @ w) \<or> sublist q w)"
      then obtain a b where ab: "q = a @ b" "suffix a (print_hole h)" "a \<noteq> []" "prefix b w" "b \<noteq> []"
        using absent unfolding sublist_append
        by (metis append_Nil append_Nil2 prefix_imp_sublist suffix_imp_sublist)
      have "last a = CHR 0xBB" using ab(2,3) hole_last [of h] by (auto simp: suffix_def)
      then have "CHR 0xBB \<in> set q" using ab(1,3) last_in_set [of a] by auto
      with Cons.prems(1) show False by (auto simp: ascii_def list_all_iff)
    qed
    with Cons.prems(4) Hole IH show ?thesis by (auto simp: sublist_Cons_right)
  qed
qed (simp add: sublist_code)

end

section \<open>The vault's placeholders\<close>

lemma ascii_hex: "ascii (hex_byte b)"
proof -
  have d: "of_char (lower_hex_digit n) < (128 :: nat)" if "n < 16" for n
    using that by (auto simp: lower_hex_digit_def)
  have "of_char b < (256 :: nat)" by simp
  then have "of_char b div 16 < (16 :: nat)" by linarith
  then show ?thesis by (simp add: hex_byte_def d)
qed

lemma ascii_concat: "(\<And>x. x \<in> set xs \<Longrightarrow> ascii x) \<Longrightarrow> ascii (concat xs)"
  by (induction xs) auto

interpretation placeholder: hole_printing "placeholder_for hmac v" for hmac v
proof unfold_locales
  fix s
  let ?inner = "credential_prefix @ concat (map hex_byte (take digest_bytes (hmac (vault_key v) s)))"
  have "ascii ?inner" by (auto simp: credential_prefix_def intro!: ascii_concat ascii_hex)
  then show "\<exists>inner. placeholder_for hmac v s = open_mark @ inner @ close_mark \<and> ascii inner"
    by (intro exI [of _ ?inner]) (simp add: placeholder_for_def)
qed

text \<open>
  Secrets the scheme is meant for: not empty, ASCII, and no part of a placeholder. The last is
  what the source calls impossible by construction; it is not, as \<open>nested_secret\<close> below shows.
\<close>

definition plain_secrets :: "(string \<Rightarrow> string \<Rightarrow> string) \<Rightarrow> secret_vault \<Rightarrow> string set \<Rightarrow> bool" where
  "plain_secrets hmac v S =
     (\<forall>s \<in> S. s \<noteq> [] \<and> ascii s \<and> (\<forall>h \<in> S. \<not> sublist s (placeholder_for hmac v h)))"

definition view_of :: "(string \<Rightarrow> string \<Rightarrow> string) \<Rightarrow> secret_vault \<Rightarrow> (string \<times> string) list \<Rightarrow> bool" where
  "view_of hmac v view = (\<forall>(s, p) \<in> set view. p = placeholder_for hmac v s)"

lemma obfuscate_pieces:
  assumes "plain_secrets hmac v S" "view_of hmac v view" "fst ` set view \<subseteq> S"
    and "holes ts \<subseteq> S" "\<forall>q \<in> Q. q \<noteq> [] \<and> \<not> sublist (map Raw q) ts"
  shows "\<exists>ts'. obfuscate_with view (placeholder.print_pieces hmac v ts) = placeholder.print_pieces hmac v ts'
    \<and> fill ts' = fill ts \<and> holes ts' \<subseteq> S
    \<and> (\<forall>q \<in> Q \<union> fst ` set view. \<not> sublist (map Raw q) ts')"
  using assms
proof (induction view arbitrary: ts Q)
  case Nil
  then show ?case by (intro exI [of _ ts]) (simp add: obfuscate_with_def)
next
  case (Cons e view)
  obtain s p where e: "e = (s, p)" by (cases e)
  let ?print = "placeholder.print_pieces hmac v"
  let ?ts = "replace_all (map Raw s) [Hole s] ts"
  have p: "p = placeholder_for hmac v s" and sS: "s \<in> S" using Cons.prems(2,3) by (auto simp: e view_of_def)
  have s: "s \<noteq> []" "ascii s" "\<And>h. h \<in> holes ts \<Longrightarrow> \<not> sublist s (placeholder_for hmac v h)"
    using Cons.prems(1,4) sS by (auto simp: plain_secrets_def)
  have "(if contains_str s (?print ts) then str_replace s p (?print ts) else ?print ts) = replace_all s p (?print ts)"
    using s(1) by (simp add: str_replace_def replace_all_absent)
  also have "\<dots> = ?print ?ts" unfolding p by (rule placeholder.replace_hide [OF s(1,2)]) (rule s(3))
  finally have step: "obfuscate_with (e # view) (?print ts) = obfuscate_with view (?print ?ts)"
    by (simp add: obfuscate_with_def e)
  have Q: "\<forall>q \<in> insert s Q. q \<noteq> [] \<and> \<not> sublist (map Raw q) ?ts"
  proof
    fix q
    assume "q \<in> insert s Q"
    with Cons.prems(5) s(1) hidden_is_gone [OF s(1), of s ts] sublist_hide [of q "map Raw s" s ts]
    show "q \<noteq> [] \<and> \<not> sublist (map Raw q) ?ts" by auto
  qed
  have holes: "holes ?ts \<subseteq> S" using holes_hide [of s ts] Cons.prems(4) sS by auto
  have view: "view_of hmac v view" "fst ` set view \<subseteq> S" using Cons.prems(2,3) by (auto simp: view_of_def)
  obtain ts' where ts': "obfuscate_with view (?print ?ts) = ?print ts'" "fill ts' = fill ?ts" "holes ts' \<subseteq> S"
      "\<forall>q \<in> insert s Q \<union> fst ` set view. \<not> sublist (map Raw q) ts'"
    using Cons.IH [OF Cons.prems(1) view holes Q] by (elim exE conjE)
  have "Q \<union> fst ` set (e # view) = insert s Q \<union> fst ` set view" by (simp add: e)
  then have "\<forall>q \<in> Q \<union> fst ` set (e # view). \<not> sublist (map Raw q) ts'" using ts'(4) by simp
  moreover have "fill ts' = fill ts" using ts'(2) by (simp only: fill_hide)
  moreover have "obfuscate_with (e # view) (?print ts) = ?print ts'" using ts'(1) by (simp only: step)
  ultimately show ?case using ts'(3) by (intro exI [of _ ts'] conjI)
qed

definition restores :: "(string \<Rightarrow> string \<Rightarrow> string) \<Rightarrow> secret_vault \<Rightarrow> (string \<times> string) list \<Rightarrow> bool" where
  "restores hmac v rev_view = (\<forall>(p, s) \<in> set rev_view. p = placeholder_for hmac v s)"

lemma deobfuscate_pieces:
  assumes "plain_secrets hmac v S" "inj_on (placeholder_for hmac v) S" "restores hmac v rv" "snd ` set rv \<subseteq> S"
    and "holes ts \<subseteq> S" "\<forall>s \<in> S. \<not> sublist (placeholder_for hmac v s) (fill ts)"
  shows "\<exists>ts' n'. foldl (\<lambda>(out, n) (p, secret). if contains_str p out
          then (str_replace p secret out, n + count_matches p out) else (out, n))
        (placeholder.print_pieces hmac v ts, n) rv = (placeholder.print_pieces hmac v ts', n')
    \<and> fill ts' = fill ts \<and> holes ts' = holes ts - snd ` set rv"
  using assms
proof (induction rv arbitrary: ts n)
  case Nil
  then show ?case by auto
next
  case (Cons e rv)
  obtain p s where e: "e = (p, s)" by (cases e)
  let ?print = "placeholder.print_pieces hmac v"
  let ?ts = "replace_all [Hole s] (map Raw s) ts"
  have p: "p = placeholder_for hmac v s" and sS: "s \<in> S" using Cons.prems(3,4) by (auto simp: e restores_def)
  have s: "s \<noteq> []" "ascii s" using Cons.prems(1) sS by (auto simp: plain_secrets_def)
  have ne: "p \<noteq> []" unfolding p using placeholder.hole_last by blast
  have inj: "h = s" if "h \<in> holes ts" "placeholder_for hmac v h = placeholder_for hmac v s" for h
    using inj_onD [OF Cons.prems(2) that(2)] that(1) Cons.prems(5) sS by blast
  have rep: "replace_all p s (?print ts) = ?print ?ts"
    unfolding p
    by (rule placeholder.replace_show) (use Cons.prems(6) sS raw_sublist_fill inj in blast)+
  have "\<exists>m. (if contains_str p (?print ts) then (str_replace p s (?print ts), n + count_matches p (?print ts)) else (?print ts, n))
      = (?print ?ts, m)"
    using ne rep by (auto simp: str_replace_def replace_all_absent [of p "?print ts" s])
  then obtain m where m: "(if contains_str p (?print ts) then (str_replace p s (?print ts), n + count_matches p (?print ts))
      else (?print ts, n)) = (?print ?ts, m)" by blast
  have h: "holes ?ts = holes ts - {s}" by (rule holes_show)
  have "\<exists>ts' n'. foldl (\<lambda>(out, n) (p, secret). if contains_str p out
          then (str_replace p secret out, n + count_matches p out) else (out, n)) (?print ?ts, m) rv = (?print ts', n')
      \<and> fill ts' = fill ?ts \<and> holes ts' = holes ?ts - snd ` set rv"
    by (rule Cons.IH [OF Cons.prems(1,2)])
      (use Cons.prems h s in \<open>auto simp: restores_def fill_show\<close>)
  then show ?case by (auto simp: e m h fill_show)
qed

section \<open>A vault and its calls\<close>

text \<open>
  The calls that change a vault, each complete before the next begins: an obfuscation is one step
  here, though the source takes the lock of \<open>forward\<close> and that of \<open>sorted\<close> one after the other.
  What a registration between the two does is the last section.
\<close>

datatype vault_call =
    CallRegister string
  | CallRegisterAll "(string \<times> secret_source) list"
  | CallObfuscate string

fun vault_call_step :: "(string \<Rightarrow> string \<Rightarrow> string) \<Rightarrow> vault_call \<Rightarrow> secret_vault \<Rightarrow> secret_vault" where
  "vault_call_step hmac (CallRegister s) v = snd (vault_register hmac s v)"
| "vault_call_step hmac (CallRegisterAll ss) v = snd (register_secrets hmac ss v)"
| "vault_call_step hmac (CallObfuscate text) v = snd (vault_obfuscate text v)"

definition vault_after :: "(string \<Rightarrow> string \<Rightarrow> string) \<Rightarrow> string \<Rightarrow> vault_call list \<Rightarrow> secret_vault" where
  "vault_after hmac key calls = foldl (\<lambda>v c. vault_call_step hmac c v) (vault_with_key key) calls"

definition vault_of :: "(string \<Rightarrow> string \<Rightarrow> string) \<Rightarrow> string \<Rightarrow> string list \<Rightarrow> secret_vault" where
  "vault_of hmac key secrets = vault_after hmac key (map CallRegister secrets)"

text \<open>The secrets a call registers.\<close>

fun call_secrets :: "vault_call \<Rightarrow> string set" where
  "call_secrets (CallRegister s) = {s}"
| "call_secrets (CallRegisterAll ss) = fst ` set ss - {[]}"
| "call_secrets (CallObfuscate _) = {}"

definition registered_by :: "vault_call list \<Rightarrow> string set" where
  "registered_by calls = (\<Union>c \<in> set calls. call_secrets c)"

text \<open>
  What every call keeps: \<open>forward\<close> has the secrets registered, and the cached order, when there is
  one, is that of the present \<open>forward\<close>; and, when no two secrets share a placeholder, \<open>reverse\<close>
  has them too.
\<close>

definition vault_hides :: "(string \<Rightarrow> string \<Rightarrow> string) \<Rightarrow> string \<Rightarrow> string set \<Rightarrow> secret_vault \<Rightarrow> bool" where
  "vault_hides hmac key S v =
     (vault_key v = key \<and> view_of hmac v (vault_forward v) \<and> fst ` set (vault_forward v) = S
      \<and> (\<forall>view. vault_sorted v = Some view \<longrightarrow> view = longest_first (vault_forward v)))"

definition vault_restores :: "(string \<Rightarrow> string \<Rightarrow> string) \<Rightarrow> string set \<Rightarrow> secret_vault \<Rightarrow> bool" where
  "vault_restores hmac S v = (restores hmac v (vault_reverse v) \<and> snd ` set (vault_reverse v) = S)"

lemma placeholder_key: "vault_key v = vault_key w \<Longrightarrow> placeholder_for hmac v = placeholder_for hmac w"
  by (simp add: placeholder_for_def fun_eq_iff)

lemma registered_before:
  assumes "vault_hides hmac key S v"
  shows "map_of (vault_forward v) s = None \<longleftrightarrow> s \<notin> S"
  using assms by (auto simp: vault_hides_def map_of_eq_None_iff)

lemma vault_register_key: "vault_key (snd (vault_register hmac s v)) = vault_key v"
  by (simp add: vault_register_def Let_def split: option.splits)

lemma vault_register_hides:
  assumes "vault_hides hmac key S v"
  shows "vault_hides hmac key (insert s S) (snd (vault_register hmac s v))"
proof (cases "map_of (vault_forward v) s")
  case None
  have key: "placeholder_for hmac (snd (vault_register hmac s v)) = placeholder_for hmac v"
    by (rule placeholder_key) (rule vault_register_key)
  show ?thesis
    using assms None key
    by (auto simp: vault_hides_def view_of_def vault_register_def Let_def update_new)
next
  case (Some p)
  then have "s \<in> S" using registered_before [OF assms, of s] by auto
  with assms Some show ?thesis by (simp add: vault_register_def insert_absorb)
qed

lemma vault_register_restores:
  assumes "vault_hides hmac key S v" "vault_restores hmac S v" "inj_on (placeholder_for hmac v) (insert s S)"
  shows "vault_restores hmac (insert s S) (snd (vault_register hmac s v))"
proof (cases "map_of (vault_forward v) s")
  case None
  let ?p = "placeholder_for hmac v s"
  have s: "s \<notin> S" using registered_before [OF assms(1)] None by blast
  have "?p \<notin> fst ` set (vault_reverse v)"
  proof
    assume "?p \<in> fst ` set (vault_reverse v)"
    then obtain s' where pair: "(?p, s') \<in> set (vault_reverse v)" by auto
    have p: "?p = placeholder_for hmac v s'" using assms(2) pair by (auto simp: vault_restores_def restores_def)
    have "s' \<in> S" using assms(2) imageI [OF pair, of snd] by (simp add: vault_restores_def)
    then show False using s inj_onD [OF assms(3) p] by auto
  qed
  then have "map_of (vault_reverse v) ?p = None" by (simp add: map_of_eq_None_iff)
  moreover have "placeholder_for hmac (snd (vault_register hmac s v)) = placeholder_for hmac v"
    by (rule placeholder_key) (rule vault_register_key)
  ultimately show ?thesis
    using assms(2) None
    by (auto simp: vault_restores_def restores_def vault_register_def Let_def update_new)
next
  case (Some p)
  then have "s \<in> S" using registered_before [OF assms(1), of s] by auto
  with assms(2) Some show ?thesis by (simp add: vault_register_def insert_absorb)
qed

lemma register_secrets_ok:
  "vault_hides hmac key S v \<Longrightarrow>
     vault_hides hmac key (S \<union> (fst ` set ss - {[]})) (snd (register_secrets hmac ss v))
     \<and> (vault_restores hmac S v \<and> inj_on (placeholder_for hmac v) (S \<union> (fst ` set ss - {[]})) \<longrightarrow>
          vault_restores hmac (S \<union> (fst ` set ss - {[]})) (snd (register_secrets hmac ss v)))"
proof (induction hmac ss v arbitrary: S rule: register_secrets.induct)
  case (1 hmac v)
  then show ?case by simp
next
  case (2 hmac s src rest v)
  show ?case
  proof (cases "s = []")
    case True
    with 2 show ?thesis by simp
  next
    case False
    let ?v = "snd (vault_register hmac s v)"
    have set: "S \<union> (fst ` set ((s, src) # rest) - {[]}) = insert s S \<union> (fst ` set rest - {[]})" using False by auto
    have step: "snd (register_secrets hmac ((s, src) # rest) v) = snd (register_secrets hmac rest ?v)"
      using False by (simp add: case_prod_unfold Let_def)
    have hides: "vault_hides hmac key (insert s S) ?v" using 2(3) by (rule vault_register_hides)
    have key: "placeholder_for hmac ?v = placeholder_for hmac v" by (rule placeholder_key) (rule vault_register_key)
    note IH = 2(2) [OF False refl refl prod.collapse hides]
    have "vault_restores hmac (insert s S) ?v"
      if "vault_restores hmac S v" "inj_on (placeholder_for hmac v) (insert s S \<union> (fst ` set rest - {[]}))"
      using vault_register_restores [OF 2(3) that(1)] that(2) by (auto intro: inj_on_subset)
    with IH show ?thesis unfolding set step key by blast
  qed
qed

lemma vault_call_ok:
  assumes "vault_hides hmac key S v"
  shows "vault_hides hmac key (S \<union> call_secrets c) (vault_call_step hmac c v)
    \<and> (vault_restores hmac S v \<and> inj_on (placeholder_for hmac v) (S \<union> call_secrets c) \<longrightarrow>
         vault_restores hmac (S \<union> call_secrets c) (vault_call_step hmac c v))"
proof (cases c)
  case (CallRegister s)
  then show ?thesis using vault_register_hides [OF assms] vault_register_restores [OF assms] by simp
next
  case (CallRegisterAll ss)
  then show ?thesis using register_secrets_ok [OF assms, of ss] by simp
next
  case (CallObfuscate str)
  have "placeholder_for hmac (v\<lparr>vault_sorted := w\<rparr>) = placeholder_for hmac v" for w by (rule placeholder_key) simp
  then show ?thesis
    using assms CallObfuscate
    by (auto simp: vault_obfuscate_def vault_hides_def vault_restores_def vault_view_def view_of_def restores_def
        split: option.splits)
qed

lemma vault_after_ok:
  "vault_hides hmac key (registered_by calls) (vault_after hmac key calls)
   \<and> (inj_on (placeholder_for hmac (vault_with_key key)) (registered_by calls) \<longrightarrow>
        vault_restores hmac (registered_by calls) (vault_after hmac key calls))"
proof (induction calls rule: rev_induct)
  case Nil
  then show ?case
    by (simp add: vault_after_def registered_by_def vault_hides_def vault_restores_def vault_with_key_def
        view_of_def restores_def)
next
  case (snoc c calls)
  let ?v = "vault_after hmac key calls"
  have set: "registered_by (calls @ [c]) = registered_by calls \<union> call_secrets c" by (auto simp: registered_by_def)
  have step: "vault_after hmac key (calls @ [c]) = vault_call_step hmac c ?v" by (simp add: vault_after_def)
  have "placeholder_for hmac ?v = placeholder_for hmac (vault_with_key key)"
    by (rule placeholder_key) (use snoc in \<open>simp add: vault_hides_def vault_with_key_def\<close>)
  then show ?case
    unfolding set step using snoc vault_call_ok [of hmac key "registered_by calls" ?v c] by (auto dest: inj_on_subset)
qed

lemma vault_after_placeholder:
  "placeholder_for hmac (vault_after hmac key calls) = placeholder_for hmac (vault_with_key key)"
  by (rule placeholder_key) (use vault_after_ok in \<open>simp add: vault_hides_def vault_with_key_def\<close>)

lemma obfuscated_pieces:
  assumes "plain_secrets hmac (vault_with_key key) (registered_by calls)"
  shows "\<exists>ts. fst (vault_obfuscate text (vault_after hmac key calls))
      = placeholder.print_pieces hmac (vault_after hmac key calls) ts
    \<and> fill ts = text \<and> holes ts \<subseteq> registered_by calls
    \<and> (\<forall>s \<in> registered_by calls. \<not> sublist (map Raw s) ts)"
proof -
  let ?v = "vault_after hmac key calls"
  have ok: "vault_hides hmac key (registered_by calls) ?v" using vault_after_ok by blast
  have plain: "plain_secrets hmac ?v (registered_by calls)"
    using assms by (simp add: plain_secrets_def vault_after_placeholder)
  have set: "set (longest_first (vault_forward ?v)) = set (vault_forward ?v)" by (simp add: longest_first_def)
  have view: "vault_view ?v = longest_first (vault_forward ?v)"
    using ok by (auto simp: vault_view_def vault_hides_def split: option.splits)
  have "view_of hmac ?v (vault_view ?v)" "fst ` set (vault_view ?v) = registered_by calls"
    using ok by (simp_all add: vault_hides_def view view_of_def set)
  from obfuscate_pieces [OF plain this(1), of "map Raw text" "{}"] this(2)
  show ?thesis by (auto simp: vault_obfuscate_def)
qed

text \<open>
  C23. No secret leaks. After any sequence of calls, registrations and obfuscations in any order,
  each complete before the next, an obfuscated text contains none of the secrets registered so far,
  whatever the text is: the cached order of the secrets is never older than the last registration.
  The secrets are nonempty and ASCII, and none of them is part of a placeholder. A registration that
  runs between the two locks of an obfuscation is not covered:
  \<open>stale_cache_leaks_new_secret\<close> shows that the new secret then leaks.
\<close>

theorem obfuscated_text_has_no_secret:
  assumes "plain_secrets hmac (vault_with_key key) (registered_by calls)" and "s \<in> registered_by calls"
  shows "\<not> contains_str s (fst (vault_obfuscate text (vault_after hmac key calls)))"
proof -
  let ?v = "vault_after hmac key calls"
  obtain ts where ts: "fst (vault_obfuscate text ?v) = placeholder.print_pieces hmac ?v ts" "holes ts \<subseteq> registered_by calls"
    "\<forall>s \<in> registered_by calls. \<not> sublist (map Raw s) ts"
    using obfuscated_pieces [OF assms(1)] by blast
  have s: "s \<noteq> []" "ascii s" "\<And>h. h \<in> holes ts \<Longrightarrow> \<not> sublist s (placeholder_for hmac ?v h)"
    using assms ts(2) by (auto simp: plain_secrets_def vault_after_placeholder)
  show ?thesis
    using placeholder.sublist_print [OF s(2,1,3)] ts(1,3) assms(2) by (auto simp: contains_str_sublist)
qed

text \<open>
  C22. What the model sends back is what was hidden. After any sequence of calls, each complete
  before the next, restoring an obfuscated text gives the text, in whatever order the two maps
  iterate, when the text holds no placeholder of a registered secret, the secrets are nonempty and
  ASCII, none of them is part of a placeholder, and no two have the same placeholder.
\<close>

theorem deobfuscate_obfuscate:
  assumes "plain_secrets hmac (vault_with_key key) (registered_by calls)"
    and "inj_on (placeholder_for hmac (vault_with_key key)) (registered_by calls)"
    and "\<not> contains_placeholder text (vault_after hmac key calls)"
  shows "fst (vault_deobfuscate (fst (vault_obfuscate text (vault_after hmac key calls))) (vault_after hmac key calls)) = text"
proof -
  let ?v = "vault_after hmac key calls"
  let ?S = "registered_by calls"
  obtain ts where ts: "fst (vault_obfuscate text ?v) = placeholder.print_pieces hmac ?v ts" "fill ts = text" "holes ts \<subseteq> ?S"
    using obfuscated_pieces [OF assms(1)] by blast
  have plain: "plain_secrets hmac ?v ?S" "inj_on (placeholder_for hmac ?v) ?S"
    using assms(1,2) by (simp_all add: plain_secrets_def vault_after_placeholder)
  have rv: "restores hmac ?v (vault_reverse ?v)" "snd ` set (vault_reverse ?v) = ?S"
    using vault_after_ok assms(2) by (auto simp: vault_restores_def)
  have "\<not> sublist (placeholder_for hmac ?v s) (fill ts)" if "s \<in> ?S" for s
  proof -
    have "s \<in> snd ` set (vault_reverse ?v)" using rv(2) \<open>s \<in> ?S\<close> by simp
    then obtain p where "(p, s) \<in> set (vault_reverse ?v)" by auto
    then show ?thesis
      using rv(1) assms(3) by (auto simp: contains_placeholder_def list_ex_iff restores_def contains_str_sublist ts(2))
  qed
  with deobfuscate_pieces [OF plain rv(1) _ ts(3), of 0] rv(2) obtain ts' n where
    "vault_deobfuscate (fst (vault_obfuscate text ?v)) ?v = (placeholder.print_pieces hmac ?v ts', n)"
    "fill ts' = text" "holes ts' = holes ts - ?S"
    by (auto simp: vault_deobfuscate_def ts(1,2))
  moreover from this(3) ts(3) have "holes ts' = {}" by blast
  ultimately show ?thesis by (simp add: placeholder.print_no_holes)
qed

text \<open>A toy digest, its key followed by its message, makes the conditions concrete.\<close>

definition sample_hmac :: "string \<Rightarrow> string \<Rightarrow> string" where
  "sample_hmac key s = s @ key"

text \<open>The second secret is registered after an obfuscation cached the order of the first.\<close>

definition sample_calls :: "vault_call list" where
  "sample_calls =
     [CallRegister ''hunter2'', CallObfuscate ''my hunter2'', CallRegisterAll [(''hunter22'', SecretEnv), ([], SecretEnv)]]"

lemma sample_registered: "registered_by sample_calls = set [''hunter2'', ''hunter22'']"
  by (auto simp: registered_by_def sample_calls_def)

lemma sample_plain:
  "plain_secrets sample_hmac (vault_with_key ''k'') (registered_by sample_calls)"
  unfolding sample_registered by (simp add: plain_secrets_def contains_str_sublist [symmetric]) code_simp

lemma sample_distinct:
  "inj_on (placeholder_for sample_hmac (vault_with_key ''k'')) (registered_by sample_calls)"
  unfolding sample_registered by (simp add: inj_on_def) code_simp

theorem obfuscated_text_has_no_secret_witness:
  "\<not> contains_str ''hunter22'' (fst (vault_obfuscate ''a hunter22 b'' (vault_after sample_hmac ''k'' sample_calls)))"
  by (rule obfuscated_text_has_no_secret [OF sample_plain]) (simp add: sample_registered)

theorem deobfuscate_obfuscate_witness:
  "fst (vault_deobfuscate
      (fst (vault_obfuscate ''a hunter22 b'' (vault_after sample_hmac ''k'' sample_calls)))
      (vault_after sample_hmac ''k'' sample_calls)) = ''a hunter22 b''"
  by (rule deobfuscate_obfuscate [OF sample_plain sample_distinct]) code_simp

section \<open>Where the scheme fails\<close>

text \<open>
  A secret that is part of a placeholder, such as a run of hexadecimal digits, is replaced inside
  the placeholders of longer secrets, and the text does not come back when the placeholder of the
  longer one is restored first: the order the reverse map iterates in decides.
\<close>

lemma nested_secret:
  "let v = vault_of sample_hmac ''k'' [''hunter2'', ''68'']
   in fst (vault_deobfuscate (fst (vault_obfuscate ''hunter2'' v)) v) \<noteq> ''hunter2''"
  by code_simp

text \<open>
  \<open>obfuscate\<close> takes its snapshot of the secrets under one lock and publishes its order under
  another. \<open>obfuscate_late\<close> is the second half, run on the vault as it is by then.
\<close>

definition obfuscate_late :: "(string \<times> string) list \<Rightarrow> secret_vault \<Rightarrow> secret_vault" where
  "obfuscate_late view v = v\<lparr>vault_sorted := Some view\<rparr>"

text \<open>
  The cached order can go stale: when a secret is registered while an obfuscation is between
  its snapshot and its publication, later obfuscations leave the new secret in the text, until
  another registration drops the cache.
\<close>

theorem stale_cache_leaks_new_secret:
  "let hmac = sample_hmac; v0 = vault_of hmac ''k'' [''first-secret''];
       view = vault_view v0;
       v1 = snd (vault_register hmac ''second-secret'' v0);
       v2 = obfuscate_late view v1
   in fst (vault_obfuscate ''my second-secret'' v2) = ''my second-secret''
     \<and> fst (vault_obfuscate ''my second-secret'' v1) \<noteq> ''my second-secret''"
  by code_simp

end
