(* ===== verification/Kod_Message.thy ===== *)
theory Kod_Message
  imports Kod_Text
begin

text \<open>
  The transcript's data: messages and their metadata (\<open>crates/kod-types/src/message.rs\<close>), tool
  calls and their results (\<open>crates/kod-types/src/tool.rs\<close>). Identifiers are their printed
  UUIDs; a time stamp is a number of nanoseconds.
\<close>

section \<open>Tool calls\<close>

record tool_call =
  call_id :: "string option"
  call_tool :: string
  call_args :: json

definition tool_call_new :: "string \<Rightarrow> json \<Rightarrow> tool_call" where
  "tool_call_new name args = \<lparr> call_id = None, call_tool = name, call_args = args \<rparr>"

datatype tool_result =
    ToolSuccess json
  | ToolError string
  | RequiresConfirmation string string

datatype tool_category = CatFileSystem | CatGit | CatWeb | CatCode | CatSystem

fun category_label :: "tool_category \<Rightarrow> string" where
  "category_label CatFileSystem = ''filesystem''"
| "category_label CatGit = ''git''"
| "category_label CatWeb = ''web''"
| "category_label CatCode = ''code''"
| "category_label CatSystem = ''system''"

definition category_labels :: "string list" where
  "category_labels = [''filesystem'', ''git'', ''web'', ''code'', ''system'']"

definition category_from_label :: "string \<Rightarrow> tool_category option" where
  "category_from_label s =
     (if s = ''filesystem'' then Some CatFileSystem
      else if s = ''git'' then Some CatGit
      else if s = ''web'' then Some CatWeb
      else if s = ''code'' then Some CatCode
      else if s = ''system'' then Some CatSystem
      else None)"

lemma category_label_roundtrip: "category_from_label s = Some c \<longleftrightarrow> s = category_label c"
  by (cases c) (auto simp: category_from_label_def split: if_splits)

lemma category_labels_exact: "s \<in> set category_labels \<longleftrightarrow> category_from_label s \<noteq> None"
  by (auto simp: category_labels_def category_from_label_def)

section \<open>Messages\<close>

datatype message_role = RoleUser | RoleAssistant | RoleSystem | RoleTool | RoleAgent string

record rasterized_image =
  png_base64 :: string
  media_type :: string
  source_lines :: nat

record message_metadata =
  skill_applied :: "string option"
  tools_used :: "string list"
  meta_agent :: "string option"
  thinking_time_ms :: "u64 option"
  token_count :: "nat option"
  pinned :: bool
  image :: "rasterized_image option"
  turn_duration_ms :: "u64 option"
  useless :: bool

definition metadata_default :: message_metadata where
  "metadata_default = \<lparr> skill_applied = None, tools_used = [], meta_agent = None, thinking_time_ms = None,
     token_count = None, pinned = False, image = None, turn_duration_ms = None, useless = False \<rparr>"

record chat_message =
  msg_id :: string
  msg_role :: message_role
  msg_content :: string
  msg_calls :: "tool_call list"
  msg_call_id :: "string option"
  msg_time :: int
  msg_meta :: message_metadata

definition message_text :: "string \<Rightarrow> message_role \<Rightarrow> string \<Rightarrow> int \<Rightarrow> chat_message" where
  "message_text i role content now =
     \<lparr> msg_id = i, msg_role = role, msg_content = content, msg_calls = [], msg_call_id = None,
       msg_time = now, msg_meta = metadata_default \<rparr>"

fun role_prefix :: "message_role \<Rightarrow> string" where
  "role_prefix RoleUser = ''User''"
| "role_prefix RoleAssistant = ''Assistant''"
| "role_prefix RoleSystem = ''System''"
| "role_prefix RoleTool = ''Tool''"
| "role_prefix (RoleAgent _) = ''Agent''"

definition render_text :: "chat_message \<Rightarrow> string" where
  "render_text m = role_prefix (msg_role m) @ '': '' @ msg_content m"

end
