(* ===== verification/Kod_Transcript.thy ===== *)
theory Kod_Transcript
  imports Kod_Message
begin

text \<open>
  Where the cached prefix of a transcript ends,
  \<open>crates/kod-core-quality/src/transcript_coherence.rs\<close>: canonical JSON, the digest of the
  role, content, calls and link of a message, and the comparison of a log with the digests of the
  last one sent. How \<open>serde_json\<close> prints a string is an argument \<open>quote\<close>. The lemmas
  show that canonical JSON identifies exactly the values that are the same up to the order of
  members, that the bytes a digest absorbs determine those four fields and nothing else, and that
  the comparison finds the longest common prefix. The four are not all that reaches a provider: the
  image of a tool result does, and is not digested.
\<close>

section \<open>Canonical JSON\<close>

fun canon_json :: "(string \<Rightarrow> string) \<Rightarrow> json \<Rightarrow> string" where
  "canon_json quote JNull = ''null''"
| "canon_json quote (JBool b) = (if b then ''true'' else ''false'')"
| "canon_json quote (JNumber n) = n"
| "canon_json quote (JString s) = quote s"
| "canon_json quote (JArray vs) = ''['' @ join_with '','' (map (canon_json quote) vs) @ '']''"
| "canon_json quote (JObject ms) =
     ''{'' @ join_with '',''
       (map (\<lambda>(k, t). quote k @ '':'' @ t) (sort_key fst (map (\<lambda>(k, v). (k, canon_json quote v)) ms))) @ ''}''"

text \<open>
  Sameness up to the order of members: an object is the same as another when both have as many
  members and every key of the one has the same value in the other; numbers are the same when they
  are printed the same. This is finer than \<open>Value::eq\<close> on floats, where \<open>0.0\<close> and \<open>-0.0\<close> are
  equal and print differently.
\<close>

fun json_same :: "json \<Rightarrow> json \<Rightarrow> bool" where
  "json_same (JArray vs) (JArray ws) = list_all2 json_same vs ws"
| "json_same (JObject ms) (JObject ns) =
     (length ms = length ns \<and> list_all (\<lambda>(k, v). case map_of ns k of Some w \<Rightarrow> json_same v w | None \<Rightarrow> False) ms)"
| "json_same v w = (v = w)"

text \<open>What every \<open>Value\<close> satisfies: distinct keys, and numbers printed with the characters of numbers.\<close>

definition number_chars :: string where
  "number_chars = ''0123456789+-.eE''"

fun json_ok :: "json \<Rightarrow> bool" where
  "json_ok (JNumber n) = (n \<noteq> [] \<and> list_all (\<lambda>c. c \<in> set number_chars) n)"
| "json_ok (JArray vs) = list_all json_ok vs"
| "json_ok (JObject ms) = (keys_distinct ms \<and> list_all (\<lambda>(k, v). json_ok v) ms)"
| "json_ok _ = True"

text \<open>What the code relies on in a printed string: it opens with a quote, and what follows it cannot be read as part of it.\<close>

definition quotes_strings :: "(string \<Rightarrow> string) \<Rightarrow> bool" where
  "quotes_strings quote =
     ((\<forall>s. \<exists>u. quote s = CHR 0x22 # u)
      \<and> (\<forall>s t x y. quote s @ x = quote t @ y \<longrightarrow> s = t \<and> x = y))"

section \<open>The digest of a message\<close>

fun role_tag :: "message_role \<Rightarrow> string" where
  "role_tag RoleUser = ''user''"
| "role_tag RoleAssistant = ''assistant''"
| "role_tag RoleSystem = ''system''"
| "role_tag RoleTool = ''tool''"
| "role_tag (RoleAgent _) = ''agent''"

definition id_text :: "string option \<Rightarrow> string" where
  "id_text i = (case i of Some s \<Rightarrow> s | None \<Rightarrow> [])"

definition feed_call :: "(string \<Rightarrow> string) \<Rightarrow> u64 \<Rightarrow> tool_call \<Rightarrow> u64" where
  "feed_call quote h c =
     fnv1a_64_feed (fnv1a_64_feed (fnv1a_64_feed h (id_text (call_id c))) (call_tool c)) (canon_json quote (call_args c))"

definition message_digest :: "(string \<Rightarrow> string) \<Rightarrow> chat_message \<Rightarrow> u64" where
  "message_digest quote m =
     (let h = fnv1a_64_feed fnv_offset (role_tag (msg_role m));
          h = fnv1a_64_feed h (msg_content m);
          h = foldl (feed_call quote) h (msg_calls m)
      in case msg_call_id m of Some i \<Rightarrow> fnv1a_64_feed h i | None \<Rightarrow> h)"

section \<open>The memo and the comparison\<close>

record digest_memo =
  memo_entries :: "(string \<times> u64) list"

definition memo_new :: digest_memo where
  "memo_new = \<lparr> memo_entries = [] \<rparr>"

definition memo_len :: "digest_memo \<Rightarrow> nat" where
  "memo_len memo = length (memo_entries memo)"

definition memo_clear :: "digest_memo \<Rightarrow> digest_memo" where
  "memo_clear memo = memo\<lparr>memo_entries := []\<rparr>"

definition digest_at :: "digest_memo \<Rightarrow> nat \<Rightarrow> (string \<times> u64) option" where
  "digest_at memo i = (if i < length (memo_entries memo) then Some (memo_entries memo ! i) else None)"

definition memo_record :: "(string \<Rightarrow> string) \<Rightarrow> chat_message list \<Rightarrow> digest_memo \<Rightarrow> digest_memo" where
  "memo_record quote msgs memo = memo\<lparr>memo_entries := map (\<lambda>m. (msg_id m, message_digest quote m)) msgs\<rparr>"

datatype sync_outcome = SyncAppend | SyncCompaction | InPlaceRewrite nat

text \<open>The loop of \<open>sync_messages\<close>: how many leading messages carry the recorded digest.\<close>

fun stable_count :: "(string \<Rightarrow> string) \<Rightarrow> chat_message list \<Rightarrow> (string \<times> u64) list \<Rightarrow> nat" where
  "stable_count quote (m # msgs) ((_, d) # entries) =
     (if d = message_digest quote m then Suc (stable_count quote msgs entries) else 0)"
| "stable_count quote _ _ = 0"

definition sync_messages :: "(string \<Rightarrow> string) \<Rightarrow> chat_message list \<Rightarrow> digest_memo \<Rightarrow> sync_outcome \<times> digest_memo" where
  "sync_messages quote msgs memo =
     (if length msgs < memo_len memo then (SyncCompaction, memo_record quote msgs memo)
      else
        (let stable = stable_count quote msgs (memo_entries memo);
             before = memo_len memo;
             memo' = memo_record quote msgs memo
         in if stable = before then (SyncAppend, memo') else (InPlaceRewrite stable, memo')))"

section \<open>Canonical JSON identifies the same values\<close>

text \<open>Canonical JSON sorts and prints. The two halves are taken apart: \<open>normal_json\<close> sorts, \<open>print_json\<close> prints.\<close>

fun normal_json :: "json \<Rightarrow> json" where
  "normal_json (JArray vs) = JArray (map normal_json vs)"
| "normal_json (JObject ms) = JObject (sort_key fst (map (\<lambda>(k, v). (k, normal_json v)) ms))"
| "normal_json v = v"

text \<open>A printed sequence: nothing, or elements with commas between them, then the closing character.\<close>

definition print_seq :: "('a \<Rightarrow> string) \<Rightarrow> char \<Rightarrow> 'a list \<Rightarrow> string" where
  "print_seq f e xs = join_with '','' (map f xs) @ [e]"

lemma print_seq_cong [fundef_cong]:
  "xs = ys \<Longrightarrow> (\<And>x. x \<in> set ys \<Longrightarrow> f x = g x) \<Longrightarrow> print_seq f e xs = print_seq g e ys"
  by (simp add: print_seq_def cong: map_cong)

fun print_json :: "(string \<Rightarrow> string) \<Rightarrow> json \<Rightarrow> string" where
  "print_json quote JNull = ''null''"
| "print_json quote (JBool b) = (if b then ''true'' else ''false'')"
| "print_json quote (JNumber n) = n"
| "print_json quote (JString s) = quote s"
| "print_json quote (JArray vs) = CHR ''['' # print_seq (print_json quote) CHR '']'' vs"
| "print_json quote (JObject ms) = CHR ''{'' # print_seq (\<lambda>(k, v). quote k @ CHR '':'' # print_json quote v) CHR ''}'' ms"

lemma sort_key_map_fst:
  assumes f: "\<And>x. fst (f x) = fst x"
  shows "sort_key fst (map f ms) = map f (sort_key fst ms)"
proof (rule properties_for_sort_key)
  show "mset (map f (sort_key fst ms)) = mset (map f ms)" by simp
  show "sorted (map fst (map f (sort_key fst ms)))" using f by (simp add: comp_def)
  fix x
  have "filter (\<lambda>y. fst x = fst y) (map f zs) = map f (filter (\<lambda>y. fst y = fst x) zs)" for zs
    by (simp add: filter_map comp_def f eq_commute)
  then show "filter (\<lambda>y. fst x = fst y) (map f (sort_key fst ms)) = filter (\<lambda>y. fst x = fst y) (map f ms)"
    by (simp add: sort_key_stable)
qed

lemma sort_key_map_snd: "sort_key fst (map (\<lambda>(k, v). (k, g v)) ms) = map (\<lambda>(k, v). (k, g v)) (sort_key fst ms)"
  by (rule sort_key_map_fst) auto

lemma canon_is_print: "canon_json quote v = print_json quote (normal_json v)"
proof (induction quote v rule: canon_json.induct)
  case (5 quote vs)
  then show ?case by (simp add: print_seq_def comp_def cong: map_cong)
next
  case (6 quote ms)
  have "map (\<lambda>(k, v). (k, canon_json quote v)) ms = map (\<lambda>(k, v). (k, print_json quote v)) (map (\<lambda>(k, v). (k, normal_json v)) ms)"
    using 6 by auto
  then have "sort_key fst (map (\<lambda>(k, v). (k, canon_json quote v)) ms)
      = map (\<lambda>(k, v). (k, print_json quote v)) (sort_key fst (map (\<lambda>(k, v). (k, normal_json v)) ms))"
    by (simp only: sort_key_map_snd)
  then show ?case by (simp add: print_seq_def comp_def split_def)
qed simp_all

text \<open>What may follow a printed value without being read as part of it.\<close>

definition follows :: "string \<Rightarrow> bool" where
  "follows x = (x = [] \<or> hd x \<notin> set number_chars)"

definition seq_tail :: "('a \<Rightarrow> string) \<Rightarrow> char \<Rightarrow> 'a list \<Rightarrow> string" where
  "seq_tail f e xs = concat (map (\<lambda>x. CHR '','' # f x) xs) @ [e]"

lemma print_seq_Cons: "print_seq f e (a # as) = f a @ seq_tail f e as"
proof (induction as arbitrary: a)
  case (Cons b as)
  from Cons.IH [of b] show ?case by (simp add: print_seq_def seq_tail_def)
qed (simp add: print_seq_def seq_tail_def)

lemma seq_tail_simps:
  "seq_tail f e [] = [e]"
  "seq_tail f e (a # as) = CHR '','' # f a @ seq_tail f e as"
  by (simp_all add: seq_tail_def)

definition separable :: "('a \<Rightarrow> string) \<Rightarrow> 'a list \<Rightarrow> 'a list \<Rightarrow> bool" where
  "separable f as bs = (\<forall>a \<in> set as. \<forall>b \<in> set bs. \<forall>x y. follows x \<longrightarrow> follows y \<longrightarrow> f a @ x = f b @ y \<longrightarrow> a = b \<and> x = y)"

lemma separable_Cons:
  "separable f (a # as) (b # bs) \<Longrightarrow> separable f as bs"
  "separable f (a # as) (b # bs) \<Longrightarrow> follows x \<Longrightarrow> follows y \<Longrightarrow> f a @ x = f b @ y \<Longrightarrow> a = b \<and> x = y"
  by (simp_all add: separable_def)

lemma follows_tail: "e \<notin> set number_chars \<Longrightarrow> follows (seq_tail f e as @ x)"
  by (cases as) (auto simp: seq_tail_simps follows_def number_chars_def)

lemma seq_tail_inject:
  assumes "e \<notin> set number_chars" "e \<noteq> CHR '',''"
  shows "separable f as bs \<Longrightarrow> seq_tail f e as @ x = seq_tail f e bs @ y \<Longrightarrow> as = bs \<and> x = y"
proof (induction as arbitrary: bs)
  case Nil
  with assms show ?case by (cases bs) (auto simp: seq_tail_simps)
next
  case (Cons a as)
  from Cons.prems(2) obtain b bs' where bs: "bs = b # bs'"
    and eq: "f a @ (seq_tail f e as @ x) = f b @ (seq_tail f e bs' @ y)"
    using assms by (cases bs) (auto simp: seq_tail_simps)
  have "a = b \<and> seq_tail f e as @ x = seq_tail f e bs' @ y"
    by (rule separable_Cons(2) [where f = f, OF _ _ _ eq]) (use Cons.prems(1) bs assms follows_tail in auto)
  with Cons.IH [of bs'] Cons.prems(1) bs separable_Cons(1) [of f a as b bs'] show ?case by auto
qed

lemma print_seq_inject:
  assumes "e \<notin> set number_chars" "e \<noteq> CHR '',''" "separable f as bs"
    and "\<forall>a \<in> set as \<union> set bs. \<exists>c u. f a = c # u \<and> c \<noteq> e"
    and "print_seq f e as @ x = print_seq f e bs @ y"
  shows "as = bs \<and> x = y"
proof (cases as; cases bs)
  fix a as' b bs'
  assume as: "as = a # as'" and bs: "bs = b # bs'"
  have eq: "f a @ (seq_tail f e as' @ x) = f b @ (seq_tail f e bs' @ y)"
    using assms(5) by (simp add: as bs print_seq_Cons)
  have "a = b \<and> seq_tail f e as' @ x = seq_tail f e bs' @ y"
    by (rule separable_Cons(2) [where f = f, OF _ _ _ eq]) (use assms(1,3) as bs follows_tail in auto)
  with seq_tail_inject [OF assms(1,2), of f as' bs' x y] separable_Cons(1) [of f a as' b bs'] assms(3)
  show ?thesis by (simp add: as bs)
qed (use assms(4,5) in \<open>auto simp: print_seq_Cons print_seq_def [of _ _ "[]"]\<close>)

lemma number_span:
  assumes "list_all (\<lambda>c. c \<in> set number_chars) n" "follows x"
  shows "takeWhile (\<lambda>c. c \<in> set number_chars) (n @ x) = n"
proof -
  have "takeWhile (\<lambda>c. c \<in> set number_chars) x = []"
    using assms(2) by (cases x) (auto simp: follows_def)
  moreover have "\<And>c. c \<in> set n \<Longrightarrow> c \<in> set number_chars" using assms(1) by (simp add: list_all_iff)
  ultimately show ?thesis by (simp add: takeWhile_append2)
qed

lemma number_inject:
  assumes "list_all (\<lambda>c. c \<in> set number_chars) n" "follows x"
    and "list_all (\<lambda>c. c \<in> set number_chars) m" "follows y" and eq: "n @ x = m @ y"
  shows "n = m \<and> x = y"
  using number_span [OF assms(1,2)] number_span [OF assms(3,4)] eq by auto

text \<open>The first character of a printed value tells its kind.\<close>

fun json_head :: "json \<Rightarrow> char set" where
  "json_head JNull = {CHR ''n''}"
| "json_head (JBool b) = (if b then {CHR ''t''} else {CHR ''f''})"
| "json_head (JNumber n) = set number_chars"
| "json_head (JString s) = {CHR 0x22}"
| "json_head (JArray vs) = {CHR ''[''}"
| "json_head (JObject ms) = {CHR ''{''}"

lemma quote_head: "quotes_strings quote \<Longrightarrow> \<exists>u. quote s = CHR 0x22 # u"
  unfolding quotes_strings_def by (elim conjE) (erule spec)

lemma quote_inject:
  assumes "quotes_strings quote" and eq: "quote s @ x = quote t @ y"
  shows "s = t \<and> x = y"
proof -
  have "\<forall>s t x y. quote s @ x = quote t @ y \<longrightarrow> s = t \<and> x = y" using assms(1) unfolding quotes_strings_def by (rule conjunct2)
  from this [rule_format, OF eq] show ?thesis .
qed

lemma print_head:
  assumes "quotes_strings quote" "json_ok v"
  shows "\<exists>c u. print_json quote v = c # u \<and> c \<in> json_head v"
proof (cases v)
  case (JNumber n)
  with assms(2) show ?thesis by (cases n) auto
next
  case (JString s)
  with quote_head [OF assms(1), of s] show ?thesis by auto
qed auto

lemma same_head:
  assumes "quotes_strings quote" "json_ok v" "json_ok w" "print_json quote v @ x = print_json quote w @ y"
  shows "json_head v \<inter> json_head w \<noteq> {}"
  using print_head [OF assms(1,2)] print_head [OF assms(1,3)] assms(4) by force

lemma print_json_inject:
  assumes q: "quotes_strings quote"
  shows "json_ok v \<Longrightarrow> json_ok w \<Longrightarrow> follows x \<Longrightarrow> follows y \<Longrightarrow>
    print_json quote v @ x = print_json quote w @ y \<Longrightarrow> v = w \<and> x = y"
proof (induction v arbitrary: w x y rule: json.induct)
  case (JArray vs)
  obtain ws where w: "w = JArray ws"
    using same_head [OF q JArray.prems(1,2,5)] by (cases w) (auto simp: number_chars_def split: if_splits)
  have ok: "list_all json_ok vs" "list_all json_ok ws" using JArray.prems w by simp_all
  have "separable (print_json quote) vs ws"
    unfolding separable_def
  proof (intro ballI allI impI)
    fix a b x y
    assume ab: "a \<in> set vs" "b \<in> set ws" "follows x" "follows y" "print_json quote a @ x = print_json quote b @ y"
    have "json_ok a" "json_ok b" using ok ab(1,2) by (simp_all add: list_all_iff)
    from JArray.IH [OF ab(1) this ab(3-5)] show "a = b \<and> x = y" .
  qed
  moreover
  have "\<exists>c u. print_json quote a = c # u \<and> c \<noteq> CHR '']''" if "json_ok a" for a
    using print_head [OF q that] by (cases a) (auto simp: number_chars_def split: if_splits)
  then have "\<forall>a \<in> set vs \<union> set ws. \<exists>c u. print_json quote a = c # u \<and> c \<noteq> CHR '']''"
    using ok by (auto simp: list_all_iff)
  ultimately have "vs = ws \<and> x = y"
    by (rule print_seq_inject [of "CHR '']''", rotated 2]) (use JArray.prems(5) w in \<open>simp_all add: number_chars_def\<close>)
  with w show ?case by simp
next
  case (JObject ms)
  let ?f = "\<lambda>(k, v). quote k @ CHR '':'' # print_json quote v"
  obtain ns where w: "w = JObject ns"
    using same_head [OF q JObject.prems(1,2,5)] by (cases w) (auto simp: number_chars_def split: if_splits)
  have ok: "\<forall>p \<in> set ms. json_ok (snd p)" "\<forall>p \<in> set ns. json_ok (snd p)"
    using JObject.prems w by (auto simp: list_all_iff)
  have "separable ?f ms ns"
    unfolding separable_def
  proof (intro ballI allI impI)
    fix a b x y
    assume ab: "a \<in> set ms" "b \<in> set ns" "follows x" "follows y" "?f a @ x = ?f b @ y"
    obtain k v where a: "a = (k, v)" by (cases a)
    obtain l u where b: "b = (l, u)" by (cases b)
    have "k = l \<and> CHR '':'' # print_json quote v @ x = CHR '':'' # print_json quote u @ y"
      by (rule quote_inject [OF q]) (use ab(5) a b in simp)
    moreover have "v \<in> Basic_BNFs.snds (k, v)" by simp
    moreover have "json_ok v" "json_ok u"
      using bspec [OF ok(1) ab(1)] bspec [OF ok(2) ab(2)] a b by simp_all
    ultimately show "a = b \<and> x = y"
      using JObject.IH [of a v u x y] ab(1-4) a b by auto
  qed
  moreover have "\<exists>c u. ?f p = c # u \<and> c \<noteq> CHR ''}''" for p
    using quote_head [OF q, of "fst p"] by (cases p) auto
  ultimately show ?case
    using print_seq_inject [of "CHR ''}''" ?f ms ns x y] JObject.prems(5) w
    by (simp add: number_chars_def)
next
  case (JNumber n)
  obtain m where w: "w = JNumber m"
    using same_head [OF q JNumber.prems(1,2,5)] by (cases w) (auto simp: number_chars_def split: if_splits)
  with JNumber.prems number_inject [of n x m y] show ?case by simp
next
  case (JString s)
  obtain t where w: "w = JString t"
    using same_head [OF q JString.prems(1,2,5)] by (cases w) (auto simp: number_chars_def split: if_splits)
  with JString.prems quote_inject [OF q, of s x t y] show ?case by simp
next
  case JNull
  then show ?case
    using same_head [OF q JNull.prems(1,2,5)] by (cases w) (auto simp: number_chars_def split: if_splits)
next
  case (JBool b)
  then show ?case
    using same_head [OF q JBool.prems(1,2,5)] by (cases w) (auto simp: number_chars_def split: if_splits)
qed

text \<open>Two values are equal exactly when they agree after sorting.\<close>

lemma same_members:
  assumes "keys_distinct ms" "keys_distinct ns"
  shows "sort_key fst ms = sort_key fst ns \<longleftrightarrow> set ms = set ns"
proof
  assume "sort_key fst ms = sort_key fst ns"
  then have "set (sort_key fst ms) = set (sort_key fst ns)" by simp
  then show "set ms = set ns" by simp
next
  assume eq: "set ms = set ns"
  have "distinct ms" "distinct ns" using assms by (simp_all add: distinct_map)
  then have "mset ms = mset (sort_key fst ns)" using eq by (simp add: set_eq_iff_mset_eq_distinct)
  moreover have "inj_on fst (set ms)" using assms(1) by (simp add: distinct_map)
  ultimately show "sort_key fst ms = sort_key fst ns" by (rule sort_key_inj_key_eq) simp
qed

lemma map_members:
  "map fst (map (\<lambda>(k, v). (k, g v)) ms) = map fst ms"
  by auto

lemma distinct_map_members: "keys_distinct ms \<Longrightarrow> distinct (map (\<lambda>(k, v). (k, g v)) ms)"
  by (induction ms) force+

lemma keys_distinct_sort: "keys_distinct (sort_key fst ms) \<longleftrightarrow> keys_distinct ms"
proof -
  have "mset (map fst (sort_key fst ms)) = mset (map fst ms)" by simp
  then show ?thesis by (rule mset_eq_imp_distinct_iff)
qed

lemma members_match:
  assumes "keys_distinct ms" "keys_distinct ns"
  shows "set (map (\<lambda>(k, v). (k, g v)) ms) = set (map (\<lambda>(k, v). (k, g v)) ns)
    \<longleftrightarrow> length ms = length ns \<and> (\<forall>(k, v) \<in> set ms. \<exists>w. map_of ns k = Some w \<and> g v = g w)"
    (is "?l \<longleftrightarrow> ?r")
proof -
  let ?ms = "map (\<lambda>(k, v). (k, g v)) ms"
  let ?ns = "map (\<lambda>(k, v). (k, g v)) ns"
  have d: "distinct ?ms" "distinct ?ns"
    by (rule distinct_map_members [OF assms(1)], rule distinct_map_members [OF assms(2)])
  have mem: "(k, g v) \<in> set ?ns \<longleftrightarrow> (\<exists>w. map_of ns k = Some w \<and> g v = g w)" for k v
    using set_alist_iff [OF assms(2)] by force
  have sub: "set ?ms \<subseteq> set ?ns \<longleftrightarrow> (\<forall>(k, v) \<in> set ms. \<exists>w. map_of ns k = Some w \<and> g v = g w)"
    unfolding mem [symmetric] by (auto simp: image_subset_iff)
  have "set ?ms = set ?ns \<longleftrightarrow> length ms = length ns \<and> set ?ms \<subseteq> set ?ns"
  proof
    assume "set ?ms = set ?ns"
    with distinct_card [OF d(1)] distinct_card [OF d(2)] show "length ms = length ns \<and> set ?ms \<subseteq> set ?ns" by simp
  next
    assume "length ms = length ns \<and> set ?ms \<subseteq> set ?ns"
    with distinct_card [OF d(1)] distinct_card [OF d(2)] show "set ?ms = set ?ns"
      by (intro card_subset_eq) simp_all
  qed
  then show ?thesis unfolding sub .
qed

lemma normal_json_same:
  "json_ok v \<Longrightarrow> json_ok w \<Longrightarrow> normal_json v = normal_json w \<longleftrightarrow> json_same v w"
proof (induction v arbitrary: w rule: json.induct)
  case (JArray vs)
  show ?case
  proof (cases w)
    case w: (JArray ws)
    have "list_all2 (\<lambda>v w. normal_json v = normal_json w) vs ws = list_all2 json_same vs ws"
      using JArray w by (intro list.rel_cong_simp refl) (auto simp: simp_implies_def list_all_iff)
    then show ?thesis by (simp add: w list_eq_iff_nth_eq list_all2_conv_all_nth cong: conj_cong)
  qed simp_all
next
  case (JObject ms)
  show ?case
  proof (cases w)
    case w: (JObject ns)
    have d: "keys_distinct ms" "keys_distinct ns" using JObject.prems w by simp_all
    have "normal_json (JObject ms) = normal_json w \<longleftrightarrow>
        set (map (\<lambda>(k, v). (k, normal_json v)) ms) = set (map (\<lambda>(k, v). (k, normal_json v)) ns)"
      unfolding w normal_json.simps json.inject
      by (rule same_members) (use d in \<open>simp_all only: map_members\<close>)
    also have "\<dots> \<longleftrightarrow> length ms = length ns
        \<and> (\<forall>(k, v) \<in> set ms. \<exists>u. map_of ns k = Some u \<and> normal_json v = normal_json u)"
      by (rule members_match [OF d])
    also have "(\<forall>(k, v) \<in> set ms. \<exists>u. map_of ns k = Some u \<and> normal_json v = normal_json u)
        \<longleftrightarrow> (\<forall>(k, v) \<in> set ms. case map_of ns k of Some u \<Rightarrow> json_same v u | None \<Rightarrow> False)"
    proof (intro ball_cong refl, clarify)
      fix k v
      assume kv: "(k, v) \<in> set ms"
      show "(\<exists>u. map_of ns k = Some u \<and> normal_json v = normal_json u)
          = (case map_of ns k of Some u \<Rightarrow> json_same v u | None \<Rightarrow> False)"
      proof (cases "map_of ns k")
        case (Some u)
        then have "(k, u) \<in> set ns" by (rule map_of_SomeD)
        then have "json_ok v" "json_ok u" using kv JObject.prems w by (auto simp: list_all_iff)
        with JObject.IH [OF kv, of v u] Some show ?thesis by simp
      qed simp
    qed
    finally show ?thesis by (simp add: w list_all_iff)
  qed simp_all
qed (case_tac w; simp)+

lemma canon_json_same:
  assumes "quotes_strings quote" "json_ok v" "json_ok w"
  shows "canon_json quote v = canon_json quote w \<longleftrightarrow> json_same v w"
proof -
  have ok: "json_ok (normal_json u)" if "json_ok u" for u
    using that
  proof (induction u rule: normal_json.induct)
    case (2 ms)
    then have "keys_distinct (sort_key fst (map (\<lambda>(k, v). (k, normal_json v)) ms))"
      by (simp only: keys_distinct_sort map_members json_ok.simps)
    moreover have "\<forall>(k, v) \<in> set ms. json_ok (normal_json v)" using 2 by (auto simp: list_all_iff)
    ultimately show ?case by (auto simp: list_all_iff)
  qed (simp_all add: list_all_iff)
  have "follows []" by (simp add: follows_def)
  with print_json_inject [OF assms(1) ok [OF assms(2)] ok [OF assms(3)], of "[]" "[]"]
  have "canon_json quote v = canon_json quote w \<longleftrightarrow> normal_json v = normal_json w"
    by (auto simp: canon_is_print)
  with normal_json_same [OF assms(2,3)] show ?thesis by simp
qed

text \<open>
  C31. Canonical JSON identifies exactly the values that are the same: two values have the same
  canonical text if and only if they are equal up to the order in which their objects were built,
  numbers compared as \<open>serde_json\<close> prints them. Two values that \<open>Value::eq\<close> holds equal can have
  different texts: \<open>0.0\<close> and \<open>-0.0\<close> do, \<open>negative_zero_is_kept_apart\<close> below.
\<close>

theorem canon_json_iff:
  assumes "quotes_strings quote" "json_ok v" "json_ok w"
  shows "canon_json quote v = canon_json quote w \<longleftrightarrow> json_same v w"
  using assms by (rule canon_json_same)

lemma negative_zero_is_kept_apart: "canon_json quote (JNumber ''0.0'') \<noteq> canon_json quote (JNumber ''-0.0'')"
  by simp

section \<open>What a digest determines\<close>

text \<open>
  The slices a digest feeds, and when two messages have the same digested fields: role tag, content,
  calls in their order, and the link of a tool message. The identifier of a call that has none reads
  as the empty string, and the identity of an agent is not part of its tag.
\<close>

definition digest_slices :: "(string \<Rightarrow> string) \<Rightarrow> chat_message \<Rightarrow> string list" where
  "digest_slices quote m =
     [role_tag (msg_role m), msg_content m]
     @ concat (map (\<lambda>c. [id_text (call_id c), call_tool c, canon_json quote (call_args c)]) (msg_calls m))
     @ (case msg_call_id m of Some i \<Rightarrow> [i] | None \<Rightarrow> [])"

definition same_call :: "tool_call \<Rightarrow> tool_call \<Rightarrow> bool" where
  "same_call c d = (id_text (call_id c) = id_text (call_id d) \<and> call_tool c = call_tool d
     \<and> json_same (call_args c) (call_args d))"

definition digested_same :: "chat_message \<Rightarrow> chat_message \<Rightarrow> bool" where
  "digested_same m n = (role_tag (msg_role m) = role_tag (msg_role n) \<and> msg_content m = msg_content n
     \<and> list_all2 same_call (msg_calls m) (msg_calls n) \<and> msg_call_id m = msg_call_id n)"

definition args_ok :: "chat_message \<Rightarrow> bool" where
  "args_ok m = list_all (json_ok \<circ> call_args) (msg_calls m)"

definition slices_fit :: "(string \<Rightarrow> string) \<Rightarrow> chat_message \<Rightarrow> bool" where
  "slices_fit quote m = list_all (\<lambda>b. length b < 2 ^ 64) (digest_slices quote m)"

lemma message_digest_slices: "message_digest quote m = foldl fnv1a_64_feed fnv_offset (digest_slices quote m)"
proof -
  have "foldl (feed_call quote) h cs
      = foldl fnv1a_64_feed h (concat (map (\<lambda>c. [id_text (call_id c), call_tool c, canon_json quote (call_args c)]) cs))" for h cs
    by (induction cs arbitrary: h) (simp_all add: feed_call_def)
  then show ?thesis by (simp add: message_digest_def digest_slices_def Let_def split: option.splits)
qed

lemma same_call_slices:
  assumes "quotes_strings quote" "json_ok (call_args c)" "json_ok (call_args d)"
  shows "[id_text (call_id c), call_tool c, canon_json quote (call_args c)]
      = [id_text (call_id d), call_tool d, canon_json quote (call_args d)] \<longleftrightarrow> same_call c d"
  using canon_json_same [OF assms] by (simp add: same_call_def)

lemma call_slices_inject:
  assumes "length x \<le> 1" "length y \<le> 1"
  shows "concat (map (\<lambda>c. [f c, g c, h c]) cs) @ x = concat (map (\<lambda>c. [f c, g c, h c]) ds) @ y
    \<longleftrightarrow> list_all2 (\<lambda>c d. [f c, g c, h c] = [f d, g d, h d]) cs ds \<and> x = y"
proof (induction cs arbitrary: ds)
  case Nil
  then show ?case using assms by (cases ds) auto
next
  case (Cons c cs)
  then show ?case using assms by (cases ds) auto
qed

lemma digest_slices_iff:
  assumes "quotes_strings quote" "args_ok m" "args_ok n"
  shows "digest_slices quote m = digest_slices quote n \<longleftrightarrow> digested_same m n"
proof -
  let ?tail = "\<lambda>m. case msg_call_id m of Some i \<Rightarrow> [i] | None \<Rightarrow> []"
  have len: "length (?tail k) \<le> 1" for k by (simp split: option.splits)
  have tail: "?tail m = ?tail n \<longleftrightarrow> msg_call_id m = msg_call_id n" by (auto split: option.splits)
  have calls: "list_all2 (\<lambda>c d. [id_text (call_id c), call_tool c, canon_json quote (call_args c)]
      = [id_text (call_id d), call_tool d, canon_json quote (call_args d)]) (msg_calls m) (msg_calls n)
    \<longleftrightarrow> list_all2 same_call (msg_calls m) (msg_calls n)"
    using assms(2,3) by (intro list.rel_cong_simp refl)
      (simp add: simp_implies_def args_ok_def list_all_iff same_call_slices [OF assms(1)] del: list.inject)
  show ?thesis
    unfolding digest_slices_def digested_same_def
    using call_slices_inject [OF len [of m] len [of n], of "\<lambda>c. id_text (call_id c)" call_tool
        "\<lambda>c. canon_json quote (call_args c)" "msg_calls m" "msg_calls n"] calls tail by simp
qed

text \<open>
  C32. A digest is FNV-1a over a stream of bytes that determines exactly the digested fields: the
  streams of two messages are equal if and only if their role tags (the agent's identity aside),
  contents, calls (identifier, tool, arguments up to key order) and links are. These are the fields
  the doc comment of \<open>MessageDigest::of\<close> lists. They are not what reaches a provider: the image in
  the metadata of a tool message does and is not among them, \<open>metadata_not_digested\<close> below, and an
  agent's message has another tag than an assistant's though both are sent as the assistant's,
  \<open>agent_tag_is_kept_apart\<close>.
\<close>

theorem digest_determines_fields:
  assumes "quotes_strings quote" "args_ok m" "args_ok n" "slices_fit quote m" "slices_fit quote n"
  shows "message_digest quote m = foldl fnv1a_byte fnv_offset (concat (map framed (digest_slices quote m)))
    \<and> (concat (map framed (digest_slices quote m)) = concat (map framed (digest_slices quote n)) \<longleftrightarrow> digested_same m n)"
proof -
  have "concat (map framed (digest_slices quote m)) = concat (map framed (digest_slices quote n))
      \<longleftrightarrow> digest_slices quote m = digest_slices quote n"
    using framed_stream_inject [OF _ assms(4,5) [unfolded slices_fit_def]] by auto
  then show ?thesis
    by (simp add: message_digest_slices fnv1a_64_feed_all digest_slices_iff [OF assms(1-3)])
qed

lemma agent_tag_is_kept_apart:
  "\<not> digested_same (m\<lparr>msg_role := RoleAgent a\<rparr>) (m\<lparr>msg_role := RoleAssistant\<rparr>)"
  by (simp add: digested_same_def)

lemma digested_same_digest:
  assumes "quotes_strings quote" "args_ok m" "args_ok n" "digested_same m n"
  shows "message_digest quote m = message_digest quote n"
  using digest_slices_iff [OF assms(1-3)] assms(4) by (simp add: message_digest_slices)

section \<open>What the comparison finds\<close>

lemma stable_count_le:
  "stable_count quote msgs entries \<le> length msgs \<and> stable_count quote msgs entries \<le> length entries"
  by (induction quote msgs entries rule: stable_count.induct) auto

lemma stable_count_take:
  "map snd (take (stable_count quote msgs entries) entries)
     = map (message_digest quote) (take (stable_count quote msgs entries) msgs)"
  by (induction quote msgs entries rule: stable_count.induct) auto

lemma stable_count_stop:
  "stable_count quote msgs entries < length msgs \<Longrightarrow> stable_count quote msgs entries < length entries \<Longrightarrow>
     snd (entries ! stable_count quote msgs entries) \<noteq> message_digest quote (msgs ! stable_count quote msgs entries)"
  by (induction quote msgs entries rule: stable_count.induct) auto

lemma same_prefix_nth:
  assumes "map f (take n xs) = map f (take n ys)" "i < n" "n \<le> length xs" "n \<le> length ys"
  shows "f (xs ! i) = f (ys ! i)"
  using arg_cong [OF assms(1), of "\<lambda>l. l ! i"] assms(2-4) by simp

lemma first_difference_unique:
  assumes "j < length xs" "length xs \<le> length ys" "k < length xs"
    and "map f (take j xs) = map f (take j ys)" "f (xs ! j) \<noteq> f (ys ! j)"
    and "map f (take k xs) = map f (take k ys)" "f (xs ! k) \<noteq> f (ys ! k)"
  shows "j = k"
proof -
  show ?thesis
    using same_prefix_nth [OF assms(4), of k] same_prefix_nth [OF assms(6), of j] assms by (cases j k rule: linorder_cases) simp_all
qed

definition remembers :: "(string \<Rightarrow> string) \<Rightarrow> digest_memo \<Rightarrow> chat_message list \<Rightarrow> bool" where
  "remembers quote memo msgs = (map snd (memo_entries memo) = map (message_digest quote) msgs)"

lemma memo_record_remembers: "remembers quote (memo_record quote msgs memo) msgs"
  by (simp add: remembers_def memo_record_def)

text \<open>
  What \<open>sync_messages\<close> reports against a memo of the log \<open>old\<close>: a compaction
  exactly when the log shrank; an append exactly when the digests of the old log are a prefix of
  those of the new one; otherwise the index of the first message whose digest changed. The memo
  then describes the new log, so the next comparison is against it.
\<close>

theorem sync_finds_stable_prefix:
  assumes "remembers quote memo old"
  shows "remembers quote (snd (sync_messages quote msgs memo)) msgs
    \<and> (fst (sync_messages quote msgs memo) = SyncCompaction \<longleftrightarrow> length msgs < length old)
    \<and> (fst (sync_messages quote msgs memo) = SyncAppend
         \<longleftrightarrow> prefix (map (message_digest quote) old) (map (message_digest quote) msgs))
    \<and> (\<forall>k. fst (sync_messages quote msgs memo) = InPlaceRewrite k
         \<longleftrightarrow> length old \<le> length msgs \<and> k < length old
           \<and> map (message_digest quote) (take k old) = map (message_digest quote) (take k msgs)
           \<and> message_digest quote (old ! k) \<noteq> message_digest quote (msgs ! k))"
proof -
  let ?d = "message_digest quote"
  let ?k = "stable_count quote msgs (memo_entries memo)"
  have es: "map snd (memo_entries memo) = map ?d old" using assms by (simp add: remembers_def)
  then have len: "memo_len memo = length old" unfolding memo_len_def by (metis length_map)
  have k: "?k \<le> length old" "?k \<le> length msgs"
    using stable_count_le [of quote msgs "memo_entries memo"] len by (simp_all add: memo_len_def)
  have pre: "map ?d (take ?k old) = map ?d (take ?k msgs)"
    using stable_count_take [of quote msgs "memo_entries memo"] unfolding take_map [symmetric] es .
  have stop: "?d (old ! ?k) \<noteq> ?d (msgs ! ?k)" if "?k < length old" "?k < length msgs"
  proof -
    have "snd (memo_entries memo ! ?k) = ?d (old ! ?k)"
      using es that(1) len by (metis (no_types, lifting) memo_len_def nth_map)
    with stable_count_stop [of quote msgs "memo_entries memo"] that len show ?thesis by (simp add: memo_len_def)
  qed
  have prefix: "prefix (map ?d old) (map ?d msgs) \<longleftrightarrow> length old \<le> length msgs \<and> ?k = length old"
  proof
    assume p: "prefix (map ?d old) (map ?d msgs)"
    then have l: "length old \<le> length msgs" using prefix_length_le [OF p] by simp
    have "?d (old ! i) = ?d (msgs ! i)" if "i < length old" for i
      using p that l unfolding prefix_def by (metis length_map nth_append nth_map order_less_le_trans)
    with stop k l show "length old \<le> length msgs \<and> ?k = length old" by (metis le_neq_implies_less order_less_le_trans)
  next
    assume "length old \<le> length msgs \<and> ?k = length old"
    with pre have "map ?d old = take (length old) (map ?d msgs)" by (simp add: take_map)
    then show "prefix (map ?d old) (map ?d msgs)" by (metis take_is_prefix)
  qed
  have same: "?d (old ! i) = ?d (msgs ! i)" if "i < ?k" for i
    using same_prefix_nth [OF pre that k] .
  show ?thesis
    using first_difference_unique [of _ old msgs ?k ?d] same stop pre k prefix len memo_record_remembers [of quote msgs memo]
    by (auto simp: sync_messages_def Let_def)
qed

text \<open>
  No metadata is digested, the rasterized image of a tool result included: a message that was
  imaged between two requests is reported unchanged.
\<close>

lemma metadata_not_digested:
  "message_digest quote (m\<lparr>msg_id := i, msg_time := t, msg_meta := meta\<rparr>) = message_digest quote m"
  by (simp add: message_digest_def)

section \<open>Instances\<close>

text \<open>A quoting with the escapes of the two characters that matter.\<close>

fun escape_chars :: "string \<Rightarrow> string" where
  "escape_chars [] = []"
| "escape_chars (c # s) = (if c = CHR 0x22 \<or> c = CHR 0x5C then CHR 0x5C # c # escape_chars s else c # escape_chars s)"

definition sample_quote :: "string \<Rightarrow> string" where
  "sample_quote s = CHR 0x22 # escape_chars s @ [CHR 0x22]"

lemma escape_inject: "escape_chars s @ CHR 0x22 # x = escape_chars t @ CHR 0x22 # y \<Longrightarrow> s = t \<and> x = y"
proof (induction s arbitrary: t)
  case Nil
  then show ?case by (cases t) (auto split: if_splits)
next
  case (Cons c s)
  then show ?case by (cases t) (auto split: if_splits)
qed

lemma sample_quotes: "quotes_strings sample_quote"
  unfolding quotes_strings_def sample_quote_def
proof (intro conjI allI impI)
  fix s t x y
  assume "(CHR 0x22 # escape_chars s @ [CHR 0x22]) @ x = (CHR 0x22 # escape_chars t @ [CHR 0x22]) @ y"
  then have "escape_chars s @ CHR 0x22 # x = escape_chars t @ CHR 0x22 # y" by simp
  from escape_inject [OF this] show "s = t" "x = y" by simp_all
qed simp

definition sample_call :: "(string \<times> json) list \<Rightarrow> chat_message" where
  "sample_call ms = (message_text ''id'' RoleAssistant [] 0)\<lparr>msg_calls := [tool_call_new ''grep'' (JObject ms)]\<rparr>"

theorem canon_json_iff_witness:
  "canon_json sample_quote (JObject [(''a'', JNull), (''b'', JNumber ''1'')])
     = canon_json sample_quote (JObject [(''b'', JNumber ''1''), (''a'', JNull)])
   \<and> canon_json sample_quote (JString ''a'') \<noteq> canon_json sample_quote (JString ''b'')"
  using canon_json_iff [OF sample_quotes, of "JObject [(''a'', JNull), (''b'', JNumber ''1'')]" "JObject [(''b'', JNumber ''1''), (''a'', JNull)]"]
    canon_json_iff [OF sample_quotes, of "JString ''a''" "JString ''b''"]
  by (simp add: number_chars_def)

theorem digest_determines_fields_witness:
  "concat (map framed (digest_slices sample_quote (sample_call [(''a'', JNull), (''b'', JNull)])))
     = concat (map framed (digest_slices sample_quote (sample_call [(''b'', JNull), (''a'', JNull)])))"
proof -
  let ?m = "sample_call [(''a'', JNull), (''b'', JNull)]"
  let ?n = "sample_call [(''b'', JNull), (''a'', JNull)]"
  have ok: "args_ok ?m" "args_ok ?n" by (simp_all add: sample_call_def message_text_def tool_call_new_def args_ok_def)
  have fit: "slices_fit sample_quote ?m" "slices_fit sample_quote ?n" unfolding slices_fit_def by code_simp+
  have "digested_same ?m ?n"
    by (simp add: sample_call_def message_text_def tool_call_new_def digested_same_def same_call_def)
  with digest_determines_fields [OF sample_quotes ok fit] show ?thesis by simp
qed

theorem sync_finds_stable_prefix_witness:
  "let old = [message_text ''1'' RoleUser ''a'' 0];
       new = [message_text ''3'' RoleUser ''a'' 1, message_text ''4'' RoleUser ''c'' 1]
   in fst (sync_messages sample_quote new (memo_record sample_quote old memo_new)) = SyncAppend"
  using sync_finds_stable_prefix [OF memo_record_remembers, of sample_quote
      "[message_text ''3'' RoleUser ''a'' 1, message_text ''4'' RoleUser ''c'' 1]" "[message_text ''1'' RoleUser ''a'' 0]" memo_new]
  by (simp add: Let_def message_digest_def message_text_def)

end
