(* ===== verification/Kod_Tool_Loop_Guard.thy ===== *)
theory Kod_Tool_Loop_Guard
  imports Kod_Transcript "HOL-Library.Product_Lexorder"
begin

text \<open>
  The tool-call loop detector, \<open>crates/kod-core-tools/src/tool_loop_guard.rs\<close>. How
  \<open>serde_json\<close> prints a string and a whole value are the arguments \<open>quote\<close> and
  \<open>to_json\<close>. The lemmas show that the window of fingerprints implements a streak counter,
  what two rounds with the same fingerprint stream have in common, and that this copy of canonical
  JSON is the one of the transcript digests.
\<close>

section \<open>Canonical arguments\<close>

lemma size_list_sum: "size_list f xs = sum_list (map f xs) + length xs"
  by (induction xs) simp_all

lemma size_list_sort_key [termination_simp]: "size_list f (sort_key g xs) = size_list f xs"
proof -
  have "mset (map f (sort_key g xs)) = mset (map f xs)" by simp
  then show ?thesis unfolding size_list_sum by (metis length_sort sum_mset_sum_list)
qed

text \<open>The module's own copy of canonical JSON, which appends to a string.\<close>

fun write_canon :: "(string \<Rightarrow> string) \<Rightarrow> string \<Rightarrow> json \<Rightarrow> string"
and write_elems :: "(string \<Rightarrow> string) \<Rightarrow> string \<Rightarrow> bool \<Rightarrow> json list \<Rightarrow> string"
and write_members :: "(string \<Rightarrow> string) \<Rightarrow> string \<Rightarrow> bool \<Rightarrow> (string \<times> json) list \<Rightarrow> string" where
  "write_canon quote out JNull = out @ ''null''"
| "write_canon quote out (JBool b) = out @ (if b then ''true'' else ''false'')"
| "write_canon quote out (JNumber n) = out @ n"
| "write_canon quote out (JString s) = out @ quote s"
| "write_canon quote out (JArray vs) = write_elems quote (out @ ''['') True vs @ '']''"
| "write_canon quote out (JObject ms) = write_members quote (out @ ''{'') True (sort_key fst ms) @ ''}''"
| "write_elems quote out first [] = out"
| "write_elems quote out first (v # vs) =
     write_elems quote (write_canon quote (if first then out else out @ '','') v) False vs"
| "write_members quote out first [] = out"
| "write_members quote out first ((k, v) # ms) =
     write_members quote (write_canon quote ((if first then out else out @ '','') @ quote k @ '':'') v) False ms"

text \<open>\<open>Map::remove\<close> may reorder the remaining members; the canonical text does not depend on their order.\<close>

fun strip_top_level_intent :: "json \<Rightarrow> json" where
  "strip_top_level_intent (JObject ms) = JObject (AList.delete ''intent'' ms)"
| "strip_top_level_intent v = v"

definition canonical_args :: "(string \<Rightarrow> string) \<Rightarrow> json \<Rightarrow> string" where
  "canonical_args quote v = write_canon quote [] (strip_top_level_intent v)"

section \<open>The guard\<close>

definition default_loop_threshold :: nat where
  "default_loop_threshold = 3"

definition max_arguments_summary_chars :: nat where
  "max_arguments_summary_chars = 400"

definition max_result_summary_chars :: nat where
  "max_result_summary_chars = 200"

record loop_guard =
  loop_threshold :: nat
  recent :: "u64 list"

record corrective =
  cor_tool :: string
  cor_count :: u32
  cor_arguments :: string
  cor_result :: string

definition guard_with_threshold :: "nat \<Rightarrow> loop_guard" where
  "guard_with_threshold n = \<lparr> loop_threshold = max n 2, recent = [] \<rparr>"

definition guard_new :: loop_guard where
  "guard_new = guard_with_threshold default_loop_threshold"

definition rounds_seen :: "loop_guard \<Rightarrow> nat" where
  "rounds_seen g = length (recent g)"

definition guard_reset :: "loop_guard \<Rightarrow> loop_guard" where
  "guard_reset g = g\<lparr>recent := []\<rparr>"

definition round_parts :: "(string \<Rightarrow> string) \<Rightarrow> tool_call list \<Rightarrow> (string \<times> string) list" where
  "round_parts quote calls = sort (map (\<lambda>c. (call_tool c, canonical_args quote (call_args c))) calls)"

definition fingerprint_round :: "(string \<Rightarrow> string) \<Rightarrow> tool_call list \<Rightarrow> u64" where
  "fingerprint_round quote calls =
     foldl (\<lambda>h (name, args). fnv1a_64_feed (fnv1a_64_feed h name) args) fnv_offset (round_parts quote calls)"

fun summarize_result :: "(json \<Rightarrow> string) \<Rightarrow> tool_result \<Rightarrow> string" where
  "summarize_result to_json (ToolSuccess v) = to_json v"
| "summarize_result to_json (ToolError s) = ''Error: '' @ s"
| "summarize_result to_json (RequiresConfirmation description _) = ''Confirmation: '' @ description"

definition build_corrective ::
  "(string \<Rightarrow> string) \<Rightarrow> (json \<Rightarrow> string) \<Rightarrow> tool_call list \<Rightarrow> tool_result list \<Rightarrow> u32 \<Rightarrow> corrective" where
  "build_corrective quote to_json calls results n =
     \<lparr> cor_tool = (case sort (map call_tool calls) of [] \<Rightarrow> ''(none)'' | name # _ \<Rightarrow> name),
       cor_count = n,
       cor_arguments = truncate_chars
         (join_with '' '' (map (\<lambda>c. call_tool c @ ''('' @ canonical_args quote (call_args c) @ '')'') calls))
         max_arguments_summary_chars,
       cor_result = truncate_chars (join_with '' | '' (map (summarize_result to_json) results)) max_result_summary_chars \<rparr>"

text \<open>\<open>while recent.len() > threshold { pop_front }\<close>.\<close>

fun pop_to :: "nat \<Rightarrow> u64 list \<Rightarrow> u64 list" where
  "pop_to n [] = []"
| "pop_to n (f # fs) = (if length (f # fs) > n then pop_to n fs else f # fs)"

definition threshold_count :: "nat \<Rightarrow> u32" where
  "threshold_count n = (if n < 2 ^ 32 then of_nat n else - 1)"

definition observe_round ::
  "(string \<Rightarrow> string) \<Rightarrow> (json \<Rightarrow> string) \<Rightarrow> tool_call list \<Rightarrow> tool_result list \<Rightarrow> loop_guard \<Rightarrow> corrective option \<times> loop_guard" where
  "observe_round quote to_json calls results g =
     (if calls = [] then (None, g\<lparr>recent := []\<rparr>)
      else
        (let window = pop_to (loop_threshold g) (recent g @ [fingerprint_round quote calls])
         in if length window < loop_threshold g then (None, g\<lparr>recent := window\<rparr>)
            else if \<not> list_all (\<lambda>f. f = last window) window then (None, g\<lparr>recent := window\<rparr>)
            else (Some (build_corrective quote to_json calls results (threshold_count (loop_threshold g))),
                  g\<lparr>recent := []\<rparr>)))"

section \<open>The two copies of canonical JSON agree\<close>

lemma write_elems_append:
  "\<forall>v \<in> set vs. \<forall>out. write_canon quote out v = out @ canon_json quote v \<Longrightarrow>
     write_elems quote out first vs
       = out @ (if first then join_with '','' (map (canon_json quote) vs)
                else concat (map (\<lambda>v. '','' @ canon_json quote v) vs))"
  by (induction vs arbitrary: out first) (simp_all add: join_with_Cons comp_def)

lemma write_members_append:
  "\<forall>p \<in> set ms. \<forall>out. write_canon quote out (snd p) = out @ canon_json quote (snd p) \<Longrightarrow>
     write_members quote out first ms
       = out @ (if first then join_with '','' (map (\<lambda>p. quote (fst p) @ '':'' @ canon_json quote (snd p)) ms)
                else concat (map (\<lambda>p. '','' @ quote (fst p) @ '':'' @ canon_json quote (snd p)) ms))"
  by (induction ms arbitrary: out first) (auto simp: join_with_Cons comp_def)

lemma write_canon_append: "write_canon quote out v = out @ canon_json quote v"
proof (induction v arbitrary: out rule: json.induct)
  case (JArray vs)
  then show ?case by (simp add: write_elems_append)
next
  case (JObject ms)
  have "\<forall>p \<in> set (sort_key fst ms). \<forall>out. write_canon quote out (snd p) = out @ canon_json quote (snd p)"
    using JObject by (metis set_sort snds.intros surjective_pairing)
  then have "write_members quote (out @ ''{'') True (sort_key fst ms)
      = out @ ''{'' @ join_with '','' (map (\<lambda>p. quote (fst p) @ '':'' @ canon_json quote (snd p)) (sort_key fst ms))"
    by (simp add: write_members_append)
  then show ?case by (simp add: sort_key_map_snd [of "canon_json quote" ms, unfolded split_def] comp_def split_def)
qed simp_all

lemma canonical_args_canon: "canonical_args quote v = canon_json quote (strip_top_level_intent v)"
  by (simp add: canonical_args_def write_canon_append)

text \<open>
  The loop guard's copy of canonical JSON appends exactly the canonical text of the transcript
  digests, so the two modules never disagree on whether two values are the same.
\<close>

theorem canon_copies_agree:
  "write_canon quote out v = out @ canon_json quote v"
  by (rule write_canon_append)

section \<open>What a fingerprint identifies\<close>

definition round_slices :: "(string \<Rightarrow> string) \<Rightarrow> tool_call list \<Rightarrow> string list" where
  "round_slices quote calls = concat (map (\<lambda>(name, args). [name, args]) (round_parts quote calls))"

text \<open>The calls of a round as a multiset of a tool and its arguments up to key order and intent.\<close>

definition round_calls :: "(string \<Rightarrow> string) \<Rightarrow> tool_call list \<Rightarrow> (string \<times> string) multiset" where
  "round_calls quote calls = mset (map (\<lambda>c. (call_tool c, canonical_args quote (call_args c))) calls)"

lemma fingerprint_slices: "fingerprint_round quote calls = foldl fnv1a_64_feed fnv_offset (round_slices quote calls)"
proof -
  have "foldl (\<lambda>h (name, args). fnv1a_64_feed (fnv1a_64_feed h name) args) h ps
      = foldl fnv1a_64_feed h (concat (map (\<lambda>(name, args). [name, args]) ps))" for h ps
    by (induction ps arbitrary: h) auto
  then show ?thesis by (simp add: fingerprint_round_def round_slices_def)
qed

lemma pair_slices_inject:
  "concat (map (\<lambda>(a, b). [a, b]) ps) = concat (map (\<lambda>(a, b). [a, b]) qs) \<longleftrightarrow> ps = qs"
proof (induction ps arbitrary: qs)
  case Nil
  show ?case by (cases qs) auto
next
  case (Cons p ps)
  obtain a b where p: "p = (a, b)" by (cases p)
  show ?case
  proof (cases qs)
    case qs: (Cons q qs')
    obtain c d where q: "q = (c, d)" by (cases q)
    show ?thesis using Cons.IH [of qs'] by (simp add: p q qs)
  qed (simp add: p)
qed

lemma round_parts_iff: "round_parts quote cs = round_parts quote ds \<longleftrightarrow> round_calls quote cs = round_calls quote ds"
proof
  assume "round_parts quote cs = round_parts quote ds"
  then have "mset (round_parts quote cs) = mset (round_parts quote ds)" by simp
  then show "round_calls quote cs = round_calls quote ds" unfolding round_parts_def round_calls_def mset_sort .
next
  assume "round_calls quote cs = round_calls quote ds"
  then show "round_parts quote cs = round_parts quote ds"
    unfolding round_parts_def round_calls_def by (intro properties_for_sort) simp_all
qed

text \<open>
  A round's fingerprint is FNV-1a over a stream of bytes that determines its calls as a
  multiset, and two calls count as the same exactly when the tool is the same and the arguments
  are the same up to the order of members once the top-level \<open>intent\<close> is removed: neither the order of the calls nor
  the order of keys nor a new intent makes a different round.
\<close>

theorem fingerprint_identifies_round:
  assumes "quotes_strings quote" "json_ok v" "json_ok w"
    and "list_all (\<lambda>b. length b < 2 ^ 64) (round_slices quote cs)"
    and "list_all (\<lambda>b. length b < 2 ^ 64) (round_slices quote ds)"
  shows "fingerprint_round quote cs = foldl fnv1a_byte fnv_offset (concat (map framed (round_slices quote cs)))
    \<and> (concat (map framed (round_slices quote cs)) = concat (map framed (round_slices quote ds))
         \<longleftrightarrow> round_calls quote cs = round_calls quote ds)
    \<and> (canonical_args quote v = canonical_args quote w
         \<longleftrightarrow> json_same (strip_top_level_intent v) (strip_top_level_intent w))"
proof -
  have ok: "json_ok (strip_top_level_intent u)" if "json_ok u" for u
  proof (cases u)
    case (JObject ms)
    have "\<forall>p \<in> set (AList.delete ''intent'' ms). json_ok (snd p)"
      using that JObject subsetD [OF set_delete_subset [of "''intent''" ms]] by (fastforce simp: list_all_iff)
    with that JObject keys_distinct_delete [of ms "''intent''"] show ?thesis by (auto simp: list_all_iff)
  qed (use that in simp_all)
  have "canonical_args quote v = canonical_args quote w \<longleftrightarrow> json_same (strip_top_level_intent v) (strip_top_level_intent w)"
    using canon_json_same [OF assms(1) ok [OF assms(2)] ok [OF assms(3)]] by (simp add: canonical_args_canon)
  moreover have "concat (map framed (round_slices quote cs)) = concat (map framed (round_slices quote ds))
      \<longleftrightarrow> round_calls quote cs = round_calls quote ds"
    using framed_stream_inject [OF _ assms(4,5)]
    by (auto simp: round_slices_def pair_slices_inject round_parts_iff [symmetric])
  ultimately show ?thesis by (simp add: fingerprint_slices fnv1a_64_feed_all)
qed

section \<open>The window implements a streak counter\<close>

text \<open>
  The abstract machine: the fingerprint of the last round and for how many rounds in a row it was
  seen. A round without calls ends the streak; the streak that reaches the threshold fires and
  starts over.
\<close>

fun streak_step :: "nat \<Rightarrow> u64 option \<Rightarrow> (u64 \<times> nat) option \<Rightarrow> bool \<times> (u64 \<times> nat) option" where
  "streak_step n None s = (False, None)"
| "streak_step n (Some fp) s =
     (let k = (case s of Some (f, k) \<Rightarrow> if f = fp then Suc k else 1 | None \<Rightarrow> 1)
      in if n \<le> k then (True, None) else (False, Some (fp, k)))"

definition guard_step :: "(string \<Rightarrow> string) \<Rightarrow> (json \<Rightarrow> string) \<Rightarrow> tool_call list \<times> tool_result list \<Rightarrow> loop_guard \<Rightarrow> bool \<times> loop_guard" where
  "guard_step quote to_json e g = (case observe_round quote to_json (fst e) (snd e) g of (c, g') \<Rightarrow> (c \<noteq> None, g'))"

definition round_event :: "(string \<Rightarrow> string) \<Rightarrow> tool_call list \<times> tool_result list \<Rightarrow> u64 option" where
  "round_event quote e = (if fst e = [] then None else Some (fingerprint_round quote (fst e)))"

definition trailing :: "u64 list \<Rightarrow> nat" where
  "trailing fs = length (takeWhile (\<lambda>f. f = last fs) (rev fs))"

definition guard_view :: "loop_guard \<Rightarrow> (u64 \<times> nat) option" where
  "guard_view g = (if recent g = [] then None else Some (last (recent g), trailing (recent g)))"

definition guard_ok :: "nat \<Rightarrow> loop_guard \<Rightarrow> bool" where
  "guard_ok n g = (loop_threshold g = n \<and> 2 \<le> n \<and> length (recent g) \<le> n
     \<and> (length (recent g) = n \<longrightarrow> trailing (recent g) < n))"

lemma pop_to_drop: "pop_to n fs = drop (length fs - n) fs"
  by (induction n fs rule: pop_to.induct) (auto simp: Suc_diff_le)

lemma trailing_snoc: "trailing (fs @ [f]) = (if fs \<noteq> [] \<and> last fs = f then Suc (trailing fs) else 1)"
  by (cases fs rule: rev_cases) (auto simp: trailing_def)

lemma trailing_le: "trailing fs \<le> length fs"
  using length_takeWhile_le [of _ "rev fs"] by (simp add: trailing_def)

lemma trailing_full: "trailing fs = length fs \<longleftrightarrow> list_all (\<lambda>f. f = last fs) fs"
proof -
  have "trailing fs = length fs \<longleftrightarrow> takeWhile (\<lambda>f. f = last fs) (rev fs) = rev fs"
    unfolding trailing_def by (metis length_rev takeWhile_eq_take take_all_iff order_refl)
  then show ?thesis by (simp add: takeWhile_eq_all_conv list_all_iff)
qed

lemma trailing_tl: "trailing (f # fs) \<le> length fs \<Longrightarrow> trailing fs = trailing (f # fs)"
proof (cases fs)
  case (Cons g gs)
  assume le: "trailing (f # fs) \<le> length fs"
  let ?P = "\<lambda>x. x = last fs"
  have all: "trailing (f # fs) = length (takeWhile ?P (rev fs @ [f]))" using Cons by (simp add: trailing_def)
  also have "\<dots> = length (takeWhile ?P (rev fs))"
  proof (cases "\<forall>x \<in> set fs. ?P x")
    case True
    then have "takeWhile ?P (rev fs @ [f]) = rev fs @ takeWhile ?P [f]" by (intro takeWhile_append2) simp
    moreover have "length (takeWhile ?P (rev fs)) = length fs"
      using True by (simp add: takeWhile_eq_all_conv [THEN iffD2])
    ultimately show ?thesis using le all by (auto split: if_splits)
  next
    case False
    then show ?thesis by (auto simp: takeWhile_append)
  qed
  finally show ?thesis by (simp add: trailing_def)
qed (simp add: trailing_def)

lemma window_view:
  fixes fp :: u64
  assumes ok: "guard_ok n g"
  defines "window \<equiv> pop_to n (recent g @ [fp])"
  shows "window \<noteq> []" "last window = fp" "length window \<le> n"
    and "trailing window = (case guard_view g of Some (f, k) \<Rightarrow> if f = fp then Suc k else 1 | None \<Rightarrow> 1)"
proof -
  let ?all = "recent g @ [fp]"
  have run: "trailing ?all = (case guard_view g of Some (f, k) \<Rightarrow> if f = fp then Suc k else 1 | None \<Rightarrow> 1)"
    by (simp add: trailing_snoc guard_view_def)
  have short: "trailing ?all \<le> n" "2 \<le> n" "length (recent g) \<le> n"
    using ok trailing_le [of "recent g"] by (auto simp: guard_ok_def trailing_snoc)
  show "window \<noteq> []" "last window = fp" "length window \<le> n"
    using short by (auto simp: window_def pop_to_drop)
  have "trailing window = trailing ?all"
  proof (cases "length (recent g) = n")
    case True
    then obtain f fs where "recent g = f # fs" using short(2) by (cases "recent g") auto
    then have "?all = f # window" using True by (simp add: window_def pop_to_drop)
    moreover have "length window = n" using True by (simp add: window_def pop_to_drop)
    ultimately show ?thesis using trailing_tl [of f window] short(1) by simp
  next
    case False
    with short show ?thesis by (simp add: window_def pop_to_drop)
  qed
  with run show "trailing window = (case guard_view g of Some (f, k) \<Rightarrow> if f = fp then Suc k else 1 | None \<Rightarrow> 1)" by simp
qed

lemma guard_fires_iff:
  assumes "guard_ok n g"
  shows "length (pop_to n (recent g @ [fp])) = n \<and> list_all (\<lambda>f. f = fp) (pop_to n (recent g @ [fp]))
    \<longleftrightarrow> n \<le> trailing (pop_to n (recent g @ [fp]))"
  using window_view(2,3) [OF assms, of fp] trailing_le [of "pop_to n (recent g @ [fp])"]
    trailing_full [of "pop_to n (recent g @ [fp])"] by auto

lemma guard_step_calls:
  fixes g :: loop_guard and quote :: "string \<Rightarrow> string" and e :: "tool_call list \<times> tool_result list"
  assumes ok: "guard_ok n g" and calls: "fst e \<noteq> []"
  defines "window \<equiv> pop_to n (recent g @ [fingerprint_round quote (fst e)])"
  shows "guard_step quote to_json e g
    = (if n \<le> trailing window then (True, g\<lparr>recent := []\<rparr>) else (False, g\<lparr>recent := window\<rparr>))"
  using window_view(2,3) [OF ok, of "fingerprint_round quote (fst e)"]
    guard_fires_iff [OF ok, of "fingerprint_round quote (fst e)"] ok calls
  unfolding window_def by (auto simp: guard_step_def observe_round_def guard_ok_def Let_def)

lemma guard_step_silent: "fst e = [] \<Longrightarrow> guard_step quote to_json e g = (False, g\<lparr>recent := []\<rparr>)"
  by (simp add: guard_step_def observe_round_def)

lemma streak_step_calls:
  fixes fp :: u64
  assumes ok: "guard_ok n g"
  defines "k \<equiv> trailing (pop_to n (recent g @ [fp]))"
  shows "streak_step n (Some fp) (guard_view g) = (if n \<le> k then (True, None) else (False, Some (fp, k)))"
  using window_view(4) [OF ok, of fp] by (simp add: k_def)

interpretation streak: refinement "guard_step quote to_json" "\<lambda>e. streak_step n (round_event quote e)" "guard_ok n" guard_view
  for quote to_json n
proof (unfold_locales, goal_cases)
  case (1 g e)
  have start: "guard_ok n (g\<lparr>recent := []\<rparr>)" using 1 by (auto simp: guard_ok_def)
  show ?case
  proof (cases "fst e = []")
    case False
    show ?thesis
      unfolding guard_step_calls [OF 1 False]
      using 1 start window_view(3) [OF 1, of "fingerprint_round quote (fst e)"] by (auto simp: guard_ok_def)
  qed (simp add: guard_step_silent start)
next
  case (2 g e)
  show ?case
  proof (cases "fst e = []")
    case False
    then have event: "round_event quote e = Some (fingerprint_round quote (fst e))" by (simp add: round_event_def)
    have window: "guard_view (g\<lparr>recent := pop_to n (recent g @ [fp])\<rparr>)
        = Some (fp, trailing (pop_to n (recent g @ [fp])))" for fp
      using window_view(1,2) [OF 2, of fp] by (simp add: guard_view_def)
    show ?thesis
      unfolding guard_step_calls [OF 2 False] event streak_step_calls [OF 2]
      using window [of "fingerprint_round quote (fst e)"] by (simp add: guard_view_def [of "g\<lparr>recent := []\<rparr>"])
  qed (simp add: guard_step_silent round_event_def guard_view_def)
qed

text \<open>
  C33. The guard implements a streak counter: over any sequence of rounds it emits a corrective
  exactly when the abstract machine does, which is at every \<open>threshold\<close>-th round in a row with
  the same fingerprint, counted from the last emission or the last round without calls.
\<close>

theorem guard_is_streak_counter:
  "run_outputs (guard_step quote to_json) (guard_with_threshold n) rounds
     = run_outputs (\<lambda>e. streak_step (max n 2) (round_event quote e)) None rounds"
proof -
  have "guard_ok (max n 2) (guard_with_threshold n)" "guard_view (guard_with_threshold n) = None"
    by (simp_all add: guard_ok_def guard_with_threshold_def guard_view_def)
  with streak.run_refines [of "max n 2" "guard_with_threshold n" quote to_json rounds] show ?thesis by simp
qed

theorem fingerprint_identifies_round_witness:
  "let a = tool_call_new ''read'' (JObject [(''path'', JString ''a''), (''intent'', JString ''why'')]);
       b = tool_call_new ''read'' (JObject [(''intent'', JString ''again''), (''path'', JString ''a'')]);
       c = tool_call_new ''grep'' JNull
   in concat (map framed (round_slices sample_quote [a, c])) = concat (map framed (round_slices sample_quote [c, b]))"
proof -
  let ?a = "tool_call_new ''read'' (JObject [(''path'', JString ''a''), (''intent'', JString ''why'')])"
  let ?b = "tool_call_new ''read'' (JObject [(''intent'', JString ''again''), (''path'', JString ''a'')])"
  let ?c = "tool_call_new ''grep'' JNull"
  have fit: "list_all (\<lambda>b. length b < 2 ^ 64) (round_slices sample_quote [?a, ?c])"
    "list_all (\<lambda>b. length b < 2 ^ 64) (round_slices sample_quote [?c, ?b])" by code_simp+
  have "round_calls sample_quote [?a, ?c] = round_calls sample_quote [?c, ?b]"
    by (simp add: round_calls_def tool_call_new_def canonical_args_def)
  with fingerprint_identifies_round [OF sample_quotes, of JNull JNull, OF _ _ fit] show ?thesis by simp
qed

end
