(* ===== verification/Kod_Prune.thy ===== *)
theory Kod_Prune
  imports Kod_Message Kod_Policy
begin

text \<open>
  Superseded reads, \<open>crates/kod-core-quality/src/prune.rs\<close>, and the application of a prune plan,
  \<open>apply_compaction_plan\<close> of \<open>crates/kod-core/src/engine/compaction.rs\<close>. The estimate of
  the tokens after a message is an argument. Token counts are natural numbers: they are quotients
  of lengths of texts in memory. The lemmas show what a plan may blank, that a second pass has
  nothing left to do, and what applying a plan saves.
\<close>

section \<open>The index of reads\<close>

definition superseded_placeholder :: string where
  "superseded_placeholder = ''[Superseded by a newer read of this file]''"

record prune_config =
  protect_tokens :: nat
  minimum_savings :: nat
  min_prune_tokens :: nat
  cache_warm_suffix_tokens :: nat
  protected_paths :: "component list set"

definition prune_config_default :: prune_config where
  "prune_config_default = \<lparr> protect_tokens = 40000, minimum_savings = 20000, min_prune_tokens = 50,
     cache_warm_suffix_tokens = 8000, protected_paths = {} \<rparr>"

datatype prune_action = Blank string

type_synonym prune_plan = "(string \<times> prune_action) list"

text \<open>The helper on a plan that does not know the sizes of what it blanks.\<close>

definition estimated_savings_tokens :: "prune_plan \<Rightarrow> nat" where
  "estimated_savings_tokens plan = sum_list (map (\<lambda>(_, a). case a of Blank placeholder \<Rightarrow> length placeholder div 4) plan)"

text \<open>A \<open>PathBuf\<close> is compared by its components.\<close>

definition call_path :: "tool_call \<Rightarrow> component list option" where
  "call_path c = map_option path_components (json_get_str (call_args c) ''path'')"

type_synonym supersede_index = "(component list, string \<times> nat) hmap"

definition index_call :: "nat \<Rightarrow> tool_call \<Rightarrow> supersede_index \<Rightarrow> supersede_index" where
  "index_call i c idx =
     (if call_tool c \<noteq> ''read_file'' then idx
      else case call_path c of
        None \<Rightarrow> idx
      | Some p \<Rightarrow> (case call_id c of None \<Rightarrow> idx | Some cid \<Rightarrow> AList.update p (cid, i) idx))"

definition index_message :: "supersede_index \<Rightarrow> nat \<times> chat_message \<Rightarrow> supersede_index" where
  "index_message idx m =
     (if msg_role (snd m) \<noteq> RoleAssistant then idx
      else foldl (\<lambda>idx c. index_call (fst m) c idx) idx (msg_calls (snd m)))"

definition build_index :: "chat_message list \<Rightarrow> supersede_index" where
  "build_index transcript = foldl index_message [] (enumerate 0 transcript)"

definition newest_call_for :: "supersede_index \<Rightarrow> component list \<Rightarrow> (string \<times> nat) option" where
  "newest_call_for idx p = map_of idx p"

definition estimate_message_tokens :: "chat_message \<Rightarrow> nat" where
  "estimate_message_tokens m = length (msg_content m) div 4"

fun find_call :: "string \<Rightarrow> chat_message list \<Rightarrow> tool_call option" where
  "find_call want [] = None"
| "find_call want (m # ms) =
     (if msg_role m \<noteq> RoleAssistant then find_call want ms
      else case find (\<lambda>c. call_id c = Some want) (msg_calls m) of
        Some c \<Rightarrow> Some c
      | None \<Rightarrow> find_call want ms)"

definition find_call_by_result :: "chat_message list \<Rightarrow> chat_message \<Rightarrow> tool_call option" where
  "find_call_by_result transcript result =
     (case msg_call_id result of None \<Rightarrow> None | Some want \<Rightarrow> find_call want transcript)"

section \<open>The plan\<close>

text \<open>One turn of the loop of \<open>plan_prune\<close>: what the message at index \<open>i\<close> adds to the candidates.\<close>

definition prune_candidate ::
  "chat_message list \<Rightarrow> prune_config \<Rightarrow> (nat \<Rightarrow> nat) \<Rightarrow> bool \<Rightarrow> nat \<times> chat_message \<Rightarrow> (string \<times> prune_action \<times> nat) list" where
  "prune_candidate transcript config suffix_after warm m =
     (let (i, msg) = m in
      if msg_role msg \<noteq> RoleTool then []
      else if msg_content msg = superseded_placeholder then []
      else case find_call_by_result transcript msg of
        None \<Rightarrow> []
      | Some call \<Rightarrow>
          (if call_tool call \<noteq> ''read_file'' then []
           else case call_path call of
             None \<Rightarrow> []
           | Some path \<Rightarrow>
               (if path \<in> protected_paths config then []
                else case newest_call_for (build_index transcript) path of
                  None \<Rightarrow> []
                | Some (newest_id, _) \<Rightarrow>
                    (case call_id call of
                       None \<Rightarrow> []
                     | Some this_id \<Rightarrow>
                         (let tokens = estimate_message_tokens msg; suffix = suffix_after i in
                          if newest_id = this_id then []
                          else if tokens < min_prune_tokens config then []
                          else if suffix < protect_tokens config then []
                          else if warm \<and> suffix > cache_warm_suffix_tokens config then []
                          else [(msg_id msg, Blank superseded_placeholder,
                                 tokens - length superseded_placeholder div 4)])))))"

definition prune_candidates ::
  "chat_message list \<Rightarrow> prune_config \<Rightarrow> (nat \<Rightarrow> nat) \<Rightarrow> bool \<Rightarrow> (string \<times> prune_action \<times> nat) list" where
  "prune_candidates transcript config suffix_after warm =
     concat (map (prune_candidate transcript config suffix_after warm) (enumerate 0 transcript))"

definition plan_prune :: "chat_message list \<Rightarrow> prune_config \<Rightarrow> (nat \<Rightarrow> nat) \<Rightarrow> bool \<Rightarrow> prune_plan" where
  "plan_prune transcript config suffix_after warm =
     (let candidates = prune_candidates transcript config suffix_after warm;
          total = sum_list (map (\<lambda>(_, _, t). t) candidates)
      in if total < minimum_savings config then [] else map (\<lambda>(i, a, _). (i, a)) candidates)"

section \<open>Applying a plan\<close>

text \<open>The map from message ids to indices; a repeated id keeps its last index.\<close>

definition message_index :: "chat_message list \<Rightarrow> (string, nat) hmap" where
  "message_index turns = foldl (\<lambda>m (i, msg). AList.update (msg_id msg) i m) [] (enumerate 0 turns)"

fun apply_prune :: "(string, nat) hmap \<Rightarrow> prune_plan \<Rightarrow> chat_message list \<Rightarrow> chat_message list \<times> nat" where
  "apply_prune idx [] turns = (turns, 0)"
| "apply_prune idx ((mid, Blank placeholder) # actions) turns =
     (case map_of idx mid of
        None \<Rightarrow> apply_prune idx actions turns
      | Some i \<Rightarrow>
          (let (turns', affected) = apply_prune idx actions (turns[i := (turns ! i)\<lparr>msg_content := placeholder\<rparr>])
           in (turns', Suc affected)))"

definition apply_prune_plan :: "prune_plan \<Rightarrow> chat_message list \<Rightarrow> chat_message list \<times> nat" where
  "apply_prune_plan plan turns = apply_prune (message_index turns) plan turns"

section \<open>What the index knows\<close>

text \<open>The reads of a transcript that the index can key on, in order.\<close>

definition read_of :: "nat \<Rightarrow> tool_call \<Rightarrow> (component list \<times> string \<times> nat) list" where
  "read_of i c =
     (case (call_path c, call_id c) of
        (Some p, Some cid) \<Rightarrow> if call_tool c = ''read_file'' then [(p, cid, i)] else []
      | _ \<Rightarrow> [])"

definition reads :: "chat_message list \<Rightarrow> (component list \<times> string \<times> nat) list" where
  "reads transcript =
     concat (map (\<lambda>(i, m). if msg_role m = RoleAssistant then concat (map (read_of i) (msg_calls m)) else [])
       (enumerate 0 transcript))"

definition note_reads :: "supersede_index \<Rightarrow> (component list \<times> string \<times> nat) list \<Rightarrow> supersede_index" where
  "note_reads idx rs = foldl (\<lambda>idx (p, r). AList.update p r idx) idx rs"

lemma note_reads_append: "note_reads idx (rs @ qs) = note_reads (note_reads idx rs) qs"
  by (simp add: note_reads_def)

lemma index_call_reads: "index_call i c idx = note_reads idx (read_of i c)"
  by (auto simp: index_call_def read_of_def note_reads_def split: option.splits)

lemma index_message_reads:
  "index_message idx (i, m) = note_reads idx (if msg_role m = RoleAssistant then concat (map (read_of i) (msg_calls m)) else [])"
proof -
  have "foldl (\<lambda>idx c. index_call i c idx) idx cs = note_reads idx (concat (map (read_of i) cs))" for cs
  proof (induction cs arbitrary: idx)
    case (Cons c cs)
    then show ?case by (simp add: index_call_reads note_reads_append)
  qed (simp add: note_reads_def)
  then show ?thesis by (simp add: index_message_def note_reads_def)
qed

lemma build_index_reads: "build_index transcript = note_reads [] (reads transcript)"
proof -
  have "foldl index_message idx ms
      = note_reads idx (concat (map (\<lambda>(i, m). if msg_role m = RoleAssistant then concat (map (read_of i) (msg_calls m)) else []) ms))"
    for idx ms
  proof (induction ms arbitrary: idx)
    case (Cons m ms)
    then show ?case by (cases m) (simp add: index_message_reads note_reads_append)
  qed (simp add: note_reads_def)
  then show ?thesis by (simp add: build_index_def reads_def)
qed

lemma map_of_note_reads: "map_of (note_reads idx rs) p = (case map_of (rev rs) p of Some r \<Rightarrow> Some r | None \<Rightarrow> map_of idx p)"
proof (induction rs arbitrary: idx)
  case (Cons r rs)
  obtain q v where r: "r = (q, v)" by (cases r)
  have "note_reads idx (r # rs) = note_reads (AList.update q v idx) rs" by (simp add: note_reads_def r)
  with Cons.IH show ?case by (auto simp: r map_add_def update_conv' split: option.splits)
qed (simp add: note_reads_def)

text \<open>The index holds the last read of every path.\<close>

lemma newest_is_last: "newest_call_for (build_index transcript) p = map_of (rev (reads transcript)) p"
  by (simp add: newest_call_for_def build_index_reads map_of_note_reads split: option.splits)

section \<open>What a plan blanks\<close>

definition prunable :: "chat_message list \<Rightarrow> prune_config \<Rightarrow> (nat \<Rightarrow> nat) \<Rightarrow> bool \<Rightarrow> nat \<Rightarrow> chat_message \<Rightarrow> bool" where
  "prunable transcript config suffix_after warm i msg =
     (msg_role msg = RoleTool \<and> msg_content msg \<noteq> superseded_placeholder
      \<and> (\<exists>call path newest this.
           find_call_by_result transcript msg = Some call \<and> call_tool call = ''read_file''
           \<and> call_path call = Some path \<and> path \<notin> protected_paths config
           \<and> map_of (rev (reads transcript)) path = Some newest \<and> call_id call = Some this \<and> fst newest \<noteq> this)
      \<and> min_prune_tokens config \<le> estimate_message_tokens msg
      \<and> protect_tokens config \<le> suffix_after i
      \<and> (warm \<longrightarrow> suffix_after i \<le> cache_warm_suffix_tokens config))"

lemma prune_candidate_eq:
  "prune_candidate transcript config suffix_after warm (i, msg) =
     (if prunable transcript config suffix_after warm i msg
      then [(msg_id msg, Blank superseded_placeholder, estimate_message_tokens msg - length superseded_placeholder div 4)]
      else [])"
  by (auto simp: prune_candidate_def prunable_def newest_is_last Let_def not_less split: option.splits)

lemma prune_plan_cases:
  "plan_prune transcript config suffix_after warm = []
   \<or> plan_prune transcript config suffix_after warm
       = map (\<lambda>(i, a, _). (i, a)) (prune_candidates transcript config suffix_after warm)
     \<and> minimum_savings config \<le> sum_list (map (\<lambda>(_, _, t). t) (prune_candidates transcript config suffix_after warm))"
  by (auto simp: plan_prune_def Let_def not_less)

lemma in_prune_candidates:
  "x \<in> set (prune_candidates transcript config suffix_after warm) \<longleftrightarrow>
     (\<exists>i < length transcript. prunable transcript config suffix_after warm i (transcript ! i)
        \<and> x = (msg_id (transcript ! i), Blank superseded_placeholder,
               estimate_message_tokens (transcript ! i) - length superseded_placeholder div 4))"
proof -
  have "x \<in> set (prune_candidates transcript config suffix_after warm) \<longleftrightarrow>
      (\<exists>i < length transcript. x \<in> set (prune_candidate transcript config suffix_after warm (i, transcript ! i)))"
    by (auto simp: prune_candidates_def in_set_enumerate_eq)
  then show ?thesis by (simp add: prune_candidate_eq cong: conj_cong) (auto split: if_splits)
qed

lemma planned_is_prunable:
  assumes "(mid, a) \<in> set (plan_prune transcript config suffix_after warm)"
  shows "a = Blank superseded_placeholder \<and> (\<exists>i < length transcript. msg_id (transcript ! i) = mid
    \<and> prunable transcript config suffix_after warm i (transcript ! i))"
proof -
  from assms prune_plan_cases [of transcript config suffix_after warm] obtain t where
    "(mid, a, t) \<in> set (prune_candidates transcript config suffix_after warm)" by auto
  then show ?thesis unfolding in_prune_candidates by auto
qed

text \<open>
  A prune plan blanks only results of \<open>read_file\<close> that a later read of the same path has
  replaced: each of its actions puts the placeholder into a tool message that answers a read of an
  unprotected path whose last read in the transcript is another call, that is large enough, that is
  outside the protected tail, and, when the prefix is warm, inside the cheap suffix. With a warm
  prefix and \<open>protect_tokens\<close> above \<open>cache_warm_suffix_tokens\<close>, as by default, no plan
  has an action.
\<close>

theorem prune_blanks_only_superseded:
  assumes "(mid, a) \<in> set (plan_prune transcript config suffix_after warm)"
  shows "a = Blank superseded_placeholder
    \<and> (\<exists>i < length transcript. \<exists>call path newest this.
         msg_id (transcript ! i) = mid \<and> msg_role (transcript ! i) = RoleTool
         \<and> find_call_by_result transcript (transcript ! i) = Some call \<and> call_tool call = ''read_file''
         \<and> call_path call = Some path \<and> path \<notin> protected_paths config
         \<and> map_of (rev (reads transcript)) path = Some newest \<and> call_id call = Some this \<and> fst newest \<noteq> this
         \<and> min_prune_tokens config \<le> estimate_message_tokens (transcript ! i)
         \<and> protect_tokens config \<le> suffix_after i \<and> (warm \<longrightarrow> suffix_after i \<le> cache_warm_suffix_tokens config))
    \<and> (warm \<longrightarrow> protect_tokens config \<le> cache_warm_suffix_tokens config)"
  using planned_is_prunable [OF assms] unfolding prunable_def by (auto intro: order_trans)

section \<open>Applying\<close>

definition blank_ids :: "string set \<Rightarrow> chat_message \<Rightarrow> chat_message" where
  "blank_ids ids m = (if msg_id m \<in> ids then m\<lparr>msg_content := superseded_placeholder\<rparr> else m)"

lemma blank_ids_keeps [simp]:
  "msg_id (blank_ids ids m) = msg_id m" "msg_role (blank_ids ids m) = msg_role m"
  "msg_calls (blank_ids ids m) = msg_calls m" "msg_call_id (blank_ids ids m) = msg_call_id m"
  by (simp_all add: blank_ids_def)

lemma map_of_message_index:
  assumes "distinct (map msg_id turns)" "i < length turns"
  shows "map_of (message_index turns) (msg_id (turns ! i)) = Some i"
proof -
  have fold: "map_of (foldl (\<lambda>m (i, msg). AList.update (msg_id msg) i m) m ps) k
      = (case map_of (rev (map (\<lambda>(i, msg). (msg_id msg, i)) ps)) k of Some j \<Rightarrow> Some j | None \<Rightarrow> map_of m k)"
    for m :: "(string, nat) hmap" and ps k
    by (induction ps arbitrary: m) (auto simp: map_add_def update_conv' split: option.splits)
  let ?ps = "map (\<lambda>(i, msg). (msg_id msg, i)) (enumerate 0 turns)"
  have "map fst (map (\<lambda>(i, msg). (msg_id msg, i)) (enumerate n ms)) = map msg_id ms" for n ms
    by (induction ms arbitrary: n) simp_all
  then have keys: "map fst ?ps = map msg_id turns" .
  have "(msg_id (turns ! i), i) \<in> set (rev ?ps)" using assms(2) by (force simp: in_set_enumerate_eq)
  moreover have "distinct (map fst (rev ?ps))" using assms(1) unfolding rev_map [symmetric] distinct_rev keys .
  ultimately have "map_of (rev ?ps) (msg_id (turns ! i)) = Some i" by (intro map_of_is_SomeI)
  then show ?thesis unfolding message_index_def fold by simp
qed

lemma apply_prune_blanks:
  assumes "distinct (map msg_id turns)"
    and "\<forall>(mid, a) \<in> set plan. a = Blank superseded_placeholder \<and> mid \<in> msg_id ` set turns"
    and "\<forall>i < length turns. map_of idx (msg_id (turns ! i)) = Some i"
  shows "apply_prune idx plan turns = (map (blank_ids (fst ` set plan)) turns, length plan)"
  using assms
proof (induction plan arbitrary: turns)
  case Nil
  then show ?case by (simp add: blank_ids_def)
next
  case (Cons e plan)
  obtain mid where e: "e = (mid, Blank superseded_placeholder)" and "mid \<in> msg_id ` set turns"
    using Cons.prems(2) by (cases e) auto
  then obtain i where i: "i < length turns" "msg_id (turns ! i) = mid" by (auto simp: in_set_conv_nth)
  let ?turns = "turns[i := (turns ! i)\<lparr>msg_content := superseded_placeholder\<rparr>]"
  have ids: "map msg_id ?turns = map msg_id turns"
    using i(1) by (simp add: map_update list_update_same_conv)
  have blank: "map (blank_ids (fst ` set plan)) ?turns = map (blank_ids (fst ` set (e # plan))) turns"
  proof (rule nth_equalityI)
    fix j
    assume "j < length (map (blank_ids (fst ` set plan)) ?turns)"
    then have j: "j < length turns" by simp
    have "msg_id (turns ! j) = mid \<longleftrightarrow> j = i"
      using Cons.prems(1) i j nth_eq_iff_index_eq [of "map msg_id turns" j i] by auto
    with i j show "map (blank_ids (fst ` set plan)) ?turns ! j = map (blank_ids (fst ` set (e # plan))) turns ! j"
      by (auto simp: e blank_ids_def nth_list_update)
  qed simp
  have "apply_prune idx plan ?turns = (map (blank_ids (fst ` set plan)) ?turns, length plan)"
  proof (rule Cons.IH)
    show "\<forall>(mid, a) \<in> set plan. a = Blank superseded_placeholder \<and> mid \<in> msg_id ` set ?turns"
      using Cons.prems(2) arg_cong [OF ids, of set] by auto
    show "\<forall>k < length ?turns. map_of idx (msg_id (?turns ! k)) = Some k"
      using Cons.prems(3) ids by (metis length_list_update nth_map length_map)
  qed (use Cons.prems(1) ids in simp)
  moreover have "map_of idx mid = Some i" using Cons.prems(3) i by blast
  ultimately show ?case by (simp add: e blank)
qed

lemma apply_plan_blanks:
  assumes "distinct (map msg_id transcript)"
    and plan: "plan = plan_prune transcript config suffix_after warm"
  shows "apply_prune_plan plan transcript = (map (blank_ids (fst ` set plan)) transcript, length plan)"
  unfolding apply_prune_plan_def
proof (rule apply_prune_blanks [OF assms(1)])
  show "\<forall>(mid, a) \<in> set plan. a = Blank superseded_placeholder \<and> mid \<in> msg_id ` set transcript"
  proof (clarify, intro conjI)
    fix mid a
    assume "(mid, a) \<in> set plan"
    from planned_is_prunable [OF this [unfolded plan]]
    show "a = Blank superseded_placeholder" "mid \<in> msg_id ` set transcript" by auto
  qed
qed (simp add: map_of_message_index [OF assms(1)])

lemma reads_blank: "reads (map (blank_ids ids) transcript) = reads transcript"
proof -
  have "enumerate n (map (blank_ids ids) ms) = map (\<lambda>(i, m). (i, blank_ids ids m)) (enumerate n ms)" for n ms
    by (induction ms arbitrary: n) simp_all
  then show ?thesis
    unfolding reads_def map_map by (intro arg_cong [where f = concat]) (auto simp: comp_def intro!: map_cong)
qed

lemma find_call_blank: "find_call_by_result (map (blank_ids ids) transcript) (blank_ids ids m) = find_call_by_result transcript m"
proof -
  have "find_call want (map (blank_ids ids) ms) = find_call want ms" for want ms
    by (induction ms) (simp_all split: option.splits)
  then show ?thesis by (simp add: find_call_by_result_def cong: option.case_cong)
qed

lemma prunable_blank:
  "prunable (map (blank_ids ids) transcript) config suffix_after warm i (blank_ids ids m)
     \<longleftrightarrow> msg_id m \<notin> ids \<and> prunable transcript config suffix_after warm i m"
  unfolding prunable_def reads_blank find_call_blank by (auto simp: blank_ids_def)

lemma plan_ids:
  assumes "plan_prune transcript config suffix_after warm \<noteq> []"
  shows "mid \<in> fst ` set (plan_prune transcript config suffix_after warm) \<longleftrightarrow>
    (\<exists>i < length transcript. mid = msg_id (transcript ! i) \<and> prunable transcript config suffix_after warm i (transcript ! i))"
proof -
  have "plan_prune transcript config suffix_after warm
      = map (\<lambda>(i, a, _). (i, a)) (prune_candidates transcript config suffix_after warm)"
    using assms prune_plan_cases by blast
  then have "fst ` set (plan_prune transcript config suffix_after warm)
      = fst ` set (prune_candidates transcript config suffix_after warm)"
    by (simp add: image_image split_def)
  then have "mid \<in> fst ` set (plan_prune transcript config suffix_after warm) \<longleftrightarrow>
      mid \<in> fst ` set (prune_candidates transcript config suffix_after warm)" by simp
  also have "\<dots> \<longleftrightarrow> (\<exists>x. x \<in> set (prune_candidates transcript config suffix_after warm) \<and> mid = fst x)"
    by (simp only: image_iff Bex_def)
  finally show ?thesis unfolding in_prune_candidates by auto
qed

lemma plan_id_iff:
  assumes "plan_prune transcript config suffix_after warm \<noteq> []" "distinct (map msg_id transcript)" "i < length transcript"
  shows "msg_id (transcript ! i) \<in> fst ` set (plan_prune transcript config suffix_after warm)
    \<longleftrightarrow> prunable transcript config suffix_after warm i (transcript ! i)"
proof -
  have "j = i" if "j < length transcript" "msg_id (transcript ! i) = msg_id (transcript ! j)" for j
    using nth_eq_iff_index_eq [OF assms(2), of j i] that assms(3) by simp
  with assms(3) show ?thesis unfolding plan_ids [OF assms(1)] by auto
qed

text \<open>
  Pruning is idempotent: once a plan has been applied, planning again with the same estimates
  yields nothing, so a result is never blanked twice and a pass that found too little to save does
  not find more.
\<close>

theorem prune_is_idempotent:
  assumes "distinct (map msg_id transcript)"
  shows "plan_prune (fst (apply_prune_plan (plan_prune transcript config suffix_after warm) transcript))
    config suffix_after warm = []"
proof -
  let ?plan = "plan_prune transcript config suffix_after warm"
  let ?t = "map (blank_ids (fst ` set ?plan)) transcript"
  have applied: "fst (apply_prune_plan ?plan transcript) = ?t"
    using apply_plan_blanks [OF assms refl] by simp
  show ?thesis
  proof (cases "?plan = []")
    case True
    then have "?t = transcript" by (simp add: blank_ids_def map_idI)
    with True applied show ?thesis by simp
  next
    case False
    have "prune_candidates ?t config suffix_after warm = []"
    proof (rule ccontr)
      assume "prune_candidates ?t config suffix_after warm \<noteq> []"
      then obtain i where i: "i < length transcript" "prunable ?t config suffix_after warm i (?t ! i)"
        using in_prune_candidates [of _ ?t] by (metis length_map list.set_intros(1) neq_Nil_conv)
      then have "msg_id (transcript ! i) \<notin> fst ` set ?plan" "prunable transcript config suffix_after warm i (transcript ! i)"
        using prunable_blank [of "fst ` set ?plan" transcript config suffix_after warm i "transcript ! i"] by simp_all
      with i(1) plan_id_iff [OF False assms i(1)] show False by simp
    qed
    then have "plan_prune ?t config suffix_after warm = []" by (simp add: plan_prune_def)
    then show ?thesis by (simp only: applied)
  qed
qed

text \<open>The estimate of a whole transcript.\<close>

definition transcript_tokens :: "chat_message list \<Rightarrow> nat" where
  "transcript_tokens transcript = sum_list (map estimate_message_tokens transcript)"

text \<open>
  A plan keeps its promise: if it has an action, applying it lowers the token estimate of the
  transcript by at least \<open>minimum_savings\<close>, for every configuration that does not prune bodies
  smaller than the placeholder.
\<close>

theorem prune_saves_what_it_promises:
  assumes "distinct (map msg_id transcript)" "10 \<le> min_prune_tokens config"
    and "plan_prune transcript config suffix_after warm \<noteq> []"
  shows "transcript_tokens (fst (apply_prune_plan (plan_prune transcript config suffix_after warm) transcript))
    + minimum_savings config \<le> transcript_tokens transcript"
proof -
  let ?plan = "plan_prune transcript config suffix_after warm"
  let ?blank = "blank_ids (fst ` set ?plan)"
  let ?freed = "\<lambda>x. sum_list (map (\<lambda>(_, _, t). t) (prune_candidate transcript config suffix_after warm x))"
  have size: "length superseded_placeholder div 4 = 10" by (simp add: superseded_placeholder_def)
  have each: "estimate_message_tokens m = estimate_message_tokens (?blank m) + ?freed (i, m)"
    if "(i, m) \<in> set (enumerate 0 transcript)" for i m
  proof -
    have i: "i < length transcript" "m = transcript ! i" using that by (auto simp: in_set_enumerate_eq)
    have "msg_id m \<in> fst ` set ?plan \<longleftrightarrow> prunable transcript config suffix_after warm i m"
      using plan_id_iff [OF assms(3,1) i(1)] i(2) by simp
    moreover have "10 \<le> estimate_message_tokens m" if "prunable transcript config suffix_after warm i m"
      using that assms(2) by (simp add: prunable_def)
    ultimately show ?thesis using size
      by (auto simp: prune_candidate_eq blank_ids_def estimate_message_tokens_def)
  qed
  have split: "sum_list (map (\<lambda>x. estimate_message_tokens (snd x)) xs)
      = sum_list (map (\<lambda>x. estimate_message_tokens (?blank (snd x))) xs) + sum_list (map ?freed xs)"
    if "set xs \<subseteq> set (enumerate 0 transcript)" for xs
    using that
  proof (induction xs)
    case (Cons x xs)
    with each [of "fst x" "snd x"] show ?case by simp
  qed simp
  have snd: "sum_list (map (\<lambda>x. f (snd x)) (enumerate 0 transcript)) = sum_list (map f transcript)" for f :: "chat_message \<Rightarrow> nat"
    using arg_cong [OF map_snd_enumerate [of 0 transcript], of "\<lambda>ms. sum_list (map f ms)"] by (simp only: map_map comp_def)
  have concat: "sum_list (map f (concat xss)) = sum_list (map (\<lambda>xs. sum_list (map f xs)) xss)" for f :: "'a \<Rightarrow> nat" and xss
    by (induction xss) simp_all
  have "transcript_tokens transcript = transcript_tokens (map ?blank transcript)
      + sum_list (map (\<lambda>(_, _, t). t) (prune_candidates transcript config suffix_after warm))"
    using split [OF order_refl] unfolding snd snd [of "\<lambda>m. estimate_message_tokens (?blank m)"]
    by (simp add: transcript_tokens_def prune_candidates_def concat comp_def)
  moreover have "minimum_savings config \<le> sum_list (map (\<lambda>(_, _, t). t) (prune_candidates transcript config suffix_after warm))"
    using assms(3) prune_plan_cases by blast
  ultimately show ?thesis using apply_plan_blanks [OF assms(1) refl] by simp
qed

section \<open>Instances\<close>

definition read_request :: "string \<Rightarrow> string \<Rightarrow> chat_message" where
  "read_request mid cid = (message_text mid RoleAssistant [] 0)
     \<lparr>msg_calls := [\<lparr> call_id = Some cid, call_tool = ''read_file'', call_args = JObject [(''path'', JString ''a'')] \<rparr>]\<rparr>"

definition read_answer :: "string \<Rightarrow> string \<Rightarrow> string \<Rightarrow> chat_message" where
  "read_answer mid cid body = (message_text mid RoleTool body 0)\<lparr>msg_call_id := Some cid\<rparr>"

definition sample_log :: "chat_message list" where
  "sample_log = [read_request ''1'' ''c1'', read_answer ''2'' ''c1'' (replicate 60 CHR ''x''),
     read_request ''3'' ''c2'', read_answer ''4'' ''c2'' ''Error: permission denied'']"

definition sample_config :: prune_config where
  "sample_config = \<lparr> protect_tokens = 0, minimum_savings = 5, min_prune_tokens = 10,
     cache_warm_suffix_tokens = 8000, protected_paths = {} \<rparr>"

text \<open>
  The newest read of a path is the one that counts even if it failed: the only copy of the file's
  text goes, and what is left is the error.
\<close>

lemma failed_reread_blanks_the_only_copy:
  "plan_prune sample_log sample_config (\<lambda>_. 100) False = [(''2'', Blank superseded_placeholder)]"
  by code_simp

lemma sample_ids: "distinct (map msg_id sample_log)"
  by code_simp

theorem prune_blanks_only_superseded_witness:
  "\<exists>i < 4. msg_id (sample_log ! i) = ''2'' \<and> msg_role (sample_log ! i) = RoleTool
     \<and> find_call_by_result sample_log (sample_log ! i) \<noteq> None"
proof -
  have "(''2'', Blank superseded_placeholder) \<in> set (plan_prune sample_log sample_config (\<lambda>_. 100) False)"
    by (simp add: failed_reread_blanks_the_only_copy)
  moreover have "length sample_log = 4" by (simp add: sample_log_def)
  ultimately show ?thesis
    using prune_blanks_only_superseded [of "''2''" "Blank superseded_placeholder" sample_log sample_config "\<lambda>_. 100" False]
    by auto
qed

theorem prune_is_idempotent_witness:
  "plan_prune (fst (apply_prune_plan (plan_prune sample_log sample_config (\<lambda>_. 100) False) sample_log))
     sample_config (\<lambda>_. 100) False = []"
  by (rule prune_is_idempotent [OF sample_ids])

theorem prune_saves_what_it_promises_witness:
  "transcript_tokens (fst (apply_prune_plan (plan_prune sample_log sample_config (\<lambda>_. 100) False) sample_log)) + 5
     \<le> transcript_tokens sample_log"
proof -
  have min: "10 \<le> min_prune_tokens sample_config" "minimum_savings sample_config = 5" by (simp_all add: sample_config_def)
  have "plan_prune sample_log sample_config (\<lambda>_. 100) False \<noteq> []" by (simp add: failed_reread_blanks_the_only_copy)
  from prune_saves_what_it_promises [OF sample_ids min(1) this] show ?thesis by (simp only: min(2))
qed

text \<open>The helper on a plan counts the placeholders that stay, not what the plan frees.\<close>

lemma estimated_savings_count_placeholders:
  "estimated_savings_tokens (plan_prune sample_log sample_config (\<lambda>_. 100) False) = 10
   \<and> transcript_tokens sample_log
      = transcript_tokens (fst (apply_prune_plan (plan_prune sample_log sample_config (\<lambda>_. 100) False) sample_log)) + 5"
  by code_simp

end
