(* ===== verification/Kod_Shake.thy ===== *)
theory Kod_Shake
  imports Kod_Prune "HOL-Library.Product_Lexorder"
begin

text \<open>
  Elision of heavy regions, \<open>crates/kod-core-quality/src/shake.rs\<close>, and the application of a
  shake plan, \<open>apply_compaction_plan\<close> of \<open>crates/kod-core/src/engine/compaction.rs\<close>: the
  scanners for fenced blocks and XML blocks, the plan, the splicing. Offsets are byte offsets, as
  in the code. The lemmas show that the scanners terminate with regions in order and in bounds,
  that fences never overlap, that splicing disjoint regions replaces exactly them, and what
  happens when an XML block contains a fence.
\<close>

section \<open>Regions\<close>

record byte_range =
  range_start :: nat
  range_end :: nat

definition range_len :: "byte_range \<Rightarrow> nat" where
  "range_len r = range_end r - range_start r"

datatype region_kind = Fence "string option" | Xml string | ToolBody

record region =
  reg_range :: byte_range
  reg_kind :: region_kind

definition ellipsis_char :: string where
  "ellipsis_char = [CHR 0xE2, CHR 0x80, CHR 0xA6]"

fun kind_note :: "region_kind \<Rightarrow> string" where
  "kind_note (Fence (Some lang)) = '' ('' @ lang @ '' code fence)''"
| "kind_note (Fence None) = '' (code fence)''"
| "kind_note (Xml tag) = '' (<'' @ tag @ ''> block)''"
| "kind_note ToolBody = ''''"

definition region_placeholder :: "region_kind \<Rightarrow> nat \<Rightarrow> string" where
  "region_placeholder kind bytes =
     ''['' @ ellipsis_char @ '' '' @ show_nat bytes @ '' bytes (~'' @ show_nat (bytes div 4)
     @ '' tokens) elided by shake'' @ kind_note kind @ ''; re-read the file if needed]''"

section \<open>Searching\<close>

abbreviation nl_char :: char where
  "nl_char \<equiv> CHR 0x0A"

definition blank_char :: "char \<Rightarrow> bool" where
  "blank_char c = (c = CHR '' '' \<or> c = CHR 0x09)"

text \<open>The start of the next line, or the end of the text.\<close>

definition next_line :: "string \<Rightarrow> nat \<Rightarrow> nat option" where
  "next_line content i = map_option (\<lambda>nl. i + nl + 1) (find_char nl_char (drop i content))"

definition line_end :: "string \<Rightarrow> nat \<Rightarrow> nat" where
  "line_end content k = (case find_char nl_char (drop k content) of Some n \<Rightarrow> k + n | None \<Rightarrow> length content)"

definition skip_blanks :: "string \<Rightarrow> nat \<Rightarrow> nat" where
  "skip_blanks content i = i + length (takeWhile blank_char (drop i content))"

definition run_length :: "string \<Rightarrow> nat \<Rightarrow> char \<Rightarrow> nat" where
  "run_length content j ch = length (takeWhile (\<lambda>c. c = ch) (drop j content))"

lemma next_line_bounds: "next_line content i = Some j \<Longrightarrow> i < j \<and> j \<le> length content \<and> content ! (j - 1) = nl_char"
  using find_char_less [of nl_char "drop i content"] find_char_at [of nl_char "drop i content"]
  by (fastforce simp: next_line_def)

section \<open>Fences\<close>

function find_fence_closer :: "string \<Rightarrow> nat \<Rightarrow> char \<Rightarrow> nat \<Rightarrow> (nat \<times> nat) option" where
  "find_fence_closer content i ch marker_len =
     (if i < length content then
        (let j = skip_blanks content i; k = j + run_length content j ch; le = line_end content k in
         if j < length content \<and> content ! j = ch \<and> k - j \<ge> marker_len
            \<and> trim (take (le - k) (drop k content)) = []
         then Some (i, if le < length content then le + 1 else le)
         else (case next_line content i of
                 Some i' \<Rightarrow> find_fence_closer content i' ch marker_len
               | None \<Rightarrow> None))
      else None)"
  by pat_completeness auto
termination
  by (relation "measure (\<lambda>(content, i, _). length content - i)") (auto dest: next_line_bounds)

declare find_fence_closer.simps [simp del]

text \<open>The marker of a fence at a line: its character, its length and its info string.\<close>

definition fence_opener :: "string \<Rightarrow> nat \<Rightarrow> (char \<times> nat \<times> string) option" where
  "fence_opener content i =
     (let j = skip_blanks content i in
      if j < length content \<and> (content ! j = CHR 0x60 \<or> content ! j = CHR ''~'') then
        (let ch = content ! j; n = run_length content j ch; k = j + n in
         if n \<ge> 3 then Some (ch, n, trim (take (line_end content k - k) (drop k content))) else None)
      else None)"

lemma fence_opener_long: "fence_opener content i = Some (ch, n, info) \<Longrightarrow> 3 \<le> n"
  by (auto simp: fence_opener_def Let_def split: if_splits)

lemma line_end_le: "k \<le> length content \<Longrightarrow> k \<le> line_end content k \<and> line_end content k \<le> length content"
  by (auto simp: line_end_def dest: find_char_less split: option.splits)

lemma run_length_le: "j \<le> length content \<Longrightarrow> j + run_length content j ch \<le> length content"
  using length_takeWhile_le [of "\<lambda>c. c = ch" "drop j content"] by (simp add: run_length_def)

lemma skip_blanks_ge: "i \<le> skip_blanks content i"
  by (simp add: skip_blanks_def)

lemma fence_closer_bounds:
  "find_fence_closer content i ch n = Some (a, b) \<Longrightarrow> 0 < n \<Longrightarrow>
     i \<le> a \<and> a < b \<and> b \<le> length content"
proof (induction content i ch n rule: find_fence_closer.induct)
  case (1 content i ch n)
  let ?j = "skip_blanks content i"
  let ?k = "?j + run_length content ?j ch"
  let ?le = "line_end content ?k"
  have i: "i < length content" using 1(2) by (simp add: find_fence_closer.simps [of content i] split: if_splits)
  show ?case
  proof (cases "?j < length content \<and> content ! ?j = ch \<and> ?k - ?j \<ge> n \<and> trim (take (?le - ?k) (drop ?k content)) = []")
    case True
    then have ab: "a = i" "b = (if ?le < length content then ?le + 1 else ?le)"
      using 1(2) i True by (auto simp: find_fence_closer.simps [of content i] Let_def split: if_splits)
    have k: "?k \<le> length content" using True run_length_le [of ?j content ch] by simp
    have "i < ?k" using True 1(3) skip_blanks_ge [of i content] by simp
    with line_end_le [OF k] ab show ?thesis by simp
  next
    case False
    then obtain i' where i': "next_line content i = Some i'" "find_fence_closer content i' ch n = Some (a, b)"
      using 1(2) i by (auto simp: find_fence_closer.simps [of content i] Let_def split: option.splits)
    from next_line_bounds [OF i'(1)] 1(1) [OF i refl refl refl False i'(1) i'(2) 1(3)] show ?thesis by linarith
  qed
qed

definition mk_region :: "nat \<Rightarrow> nat \<Rightarrow> region_kind \<Rightarrow> region" where
  "mk_region a b kind = \<lparr> reg_range = \<lparr> range_start = a, range_end = b \<rparr>, reg_kind = kind \<rparr>"

function find_fences :: "string \<Rightarrow> nat \<Rightarrow> region list" where
  "find_fences content i =
     (if i < length content then
        (case fence_opener content i of
           None \<Rightarrow> (case next_line content i of Some i' \<Rightarrow> find_fences content i' | None \<Rightarrow> [])
         | Some (ch, n, info) \<Rightarrow>
             (let after = (case next_line content i of Some i' \<Rightarrow> i' | None \<Rightarrow> length content) in
              case find_fence_closer content after ch n of
                Some (_, close_end) \<Rightarrow>
                  mk_region i close_end (Fence (if info = [] then None else Some info))
                    # find_fences content close_end
              | None \<Rightarrow> []))
      else [])"
  by pat_completeness auto
termination
proof (relation "measure (\<lambda>(content, i). length content - i)", goal_cases)
  case (2 content i i')
  then show ?case by (auto dest: next_line_bounds)
next
  case (3 content i x ch y n info after z a close_end)
  have "0 < n" using 3 by (auto dest: fence_opener_long)
  then have "after \<le> a \<and> a < close_end" using fence_closer_bounds [of content after ch n a close_end] 3 by simp
  moreover have "i < after" using 3 by (auto dest: next_line_bounds split: option.splits)
  ultimately have "i < close_end" by linarith
  with 3(1) show ?case by simp
qed simp

declare find_fences.simps [simp del]

section \<open>XML blocks\<close>

definition is_alpha_us :: "char \<Rightarrow> bool" where
  "is_alpha_us c = (let n = (of_char c :: nat) in (65 \<le> n \<and> n \<le> 90) \<or> (97 \<le> n \<and> n \<le> 122) \<or> c = CHR ''_'')"

definition is_tag_char :: "char \<Rightarrow> bool" where
  "is_tag_char c = (let n = (of_char c :: nat) in is_alpha_us c \<or> (48 \<le> n \<and> n \<le> 57) \<or> c = CHR ''-'')"

definition parse_open_tag :: "string \<Rightarrow> nat \<Rightarrow> (string \<times> nat) option" where
  "parse_open_tag content start =
     (case drop start content of
        lt # first # rest \<Rightarrow>
          if lt = CHR ''<'' \<and> is_alpha_us first then
            (let name = first # takeWhile is_tag_char rest; pos = start + 1 + length name in
             if pos < length content \<and> content ! pos = CHR ''>'' then Some (name, pos + 1) else None)
          else None
      | _ \<Rightarrow> None)"

text \<open>The offset just past the last newline before \<open>i\<close>.\<close>

definition line_start :: "string \<Rightarrow> nat \<Rightarrow> nat" where
  "line_start content i = i - length (takeWhile (\<lambda>c. c \<noteq> nl_char) (rev (take i content)))"

definition close_tag :: "string \<Rightarrow> string" where
  "close_tag name = ''</'' @ name @ ''>''"

function find_close_tag :: "string \<Rightarrow> nat \<Rightarrow> string \<Rightarrow> nat option" where
  "find_close_tag content frm name =
     (case find_text (close_tag name) (drop frm content) of
        None \<Rightarrow> None
      | Some rel \<Rightarrow>
          (let at = frm + rel; start = line_start content at in
           if list_all blank_char (take (at - start) (drop start content)) then Some (at + length (close_tag name))
           else find_close_tag content (at + length (close_tag name)) name))"
  by pat_completeness auto
termination
proof (relation "measure (\<lambda>(content, frm, _). length content - frm)", goal_cases)
  case (2 content frm name rel at start)
  have "rel + length (close_tag name) \<le> length (drop frm content)" using 2(1) by (rule find_text_le)
  moreover have "3 \<le> length (close_tag name)" by (simp add: close_tag_def)
  ultimately show ?case using 2(2) by simp
qed simp

declare find_close_tag.simps [simp del]

definition in_any_range :: "nat \<Rightarrow> region list \<Rightarrow> bool" where
  "in_any_range pos rs = list_ex (\<lambda>r. range_start (reg_range r) \<le> pos \<and> pos < range_end (reg_range r)) rs"

text \<open>The block whose opening tag stands at the line \<open>i\<close>, outside every fence.\<close>

definition xml_block :: "string \<Rightarrow> region list \<Rightarrow> nat \<Rightarrow> (string \<times> nat) option" where
  "xml_block content fences i =
     (let j = skip_blanks content i in
      if in_any_range j fences then None
      else if j < length content \<and> content ! j = CHR ''<'' then
        (case parse_open_tag content j of
           None \<Rightarrow> None
         | Some (name, open_end) \<Rightarrow>
             (case find_close_tag content open_end name of
                None \<Rightarrow> None
              | Some close_end \<Rightarrow>
                  Some (name, if close_end < length content \<and> content ! close_end = nl_char then close_end + 1 else close_end)))
      else None)"

lemma close_tag_bounds: "find_close_tag content frm name = Some e \<Longrightarrow> frm < e \<and> e \<le> length content"
proof (induction content frm name rule: find_close_tag.induct)
  case (1 content frm name)
  then obtain rel where rel: "find_text (close_tag name) (drop frm content) = Some rel"
    by (auto simp: find_close_tag.simps [of content frm] split: option.splits)
  have le: "rel + length (close_tag name) \<le> length (drop frm content)" using rel by (rule find_text_le)
  have pos: "3 \<le> length (close_tag name)" by (simp add: close_tag_def)
  let ?at = "frm + rel"
  show ?case
  proof (cases "list_all blank_char (take (?at - line_start content ?at) (drop (line_start content ?at) content))")
    case True
    with 1(2) rel have "e = ?at + length (close_tag name)" by (simp add: find_close_tag.simps [of content frm] Let_def)
    with le pos show ?thesis unfolding length_drop by linarith
  next
    case False
    with 1(2) rel have "find_close_tag content (?at + length (close_tag name)) name = Some e"
      by (simp add: find_close_tag.simps [of content frm] Let_def)
    from 1(1) [OF rel refl refl False this] pos show ?thesis by simp
  qed
qed

lemma open_tag_bounds: "parse_open_tag content start = Some (name, e) \<Longrightarrow> start < e \<and> e \<le> length content"
  by (auto simp: parse_open_tag_def Let_def split: list.splits if_splits)

lemma xml_block_bounds: "xml_block content fences i = Some (name, e) \<Longrightarrow> i < e \<and> e \<le> length content"
proof -
  assume "xml_block content fences i = Some (name, e)"
  then obtain open_end close_end where b: "parse_open_tag content (skip_blanks content i) = Some (name, open_end)"
    "find_close_tag content open_end name = Some close_end"
    "e = (if close_end < length content \<and> content ! close_end = nl_char then close_end + 1 else close_end)"
    by (auto simp: xml_block_def Let_def split: if_splits option.splits)
  from open_tag_bounds [OF b(1)] close_tag_bounds [OF b(2)] skip_blanks_ge [of i content] b(3)
  show ?thesis by (auto split: if_splits)
qed

function find_xml_blocks :: "string \<Rightarrow> region list \<Rightarrow> nat \<Rightarrow> region list" where
  "find_xml_blocks content fences i =
     (if i < length content then
        (case xml_block content fences i of
           Some (name, e) \<Rightarrow> mk_region i e (Xml name) # find_xml_blocks content fences e
         | None \<Rightarrow>
             (case next_line content i of Some i' \<Rightarrow> find_xml_blocks content fences i' | None \<Rightarrow> []))
      else [])"
  by pat_completeness auto
termination
  by (relation "measure (\<lambda>(content, _, i). length content - i)") (auto dest: next_line_bounds xml_block_bounds)

declare find_xml_blocks.simps [simp del]

definition scan_regions :: "string \<Rightarrow> region list" where
  "scan_regions content =
     (let fences = find_fences content 0 in fences @ find_xml_blocks content fences 0)"

section \<open>The plan\<close>

record shake_config =
  fence_min_tokens :: nat
  xml_min_tokens :: nat
  tool_body_min_tokens :: nat
  shake_protect_tokens :: nat
  shake_minimum_savings :: nat
  shake_cache_warm_suffix_tokens :: nat
  boundary_ids :: "string set"
  shake_protected_paths :: "component list set"

definition shake_config_default :: shake_config where
  "shake_config_default = \<lparr> fence_min_tokens = 400, xml_min_tokens = 400, tool_body_min_tokens = 2000,
     shake_protect_tokens = 16000, shake_minimum_savings = 4000, shake_cache_warm_suffix_tokens = 8000,
     boundary_ids = {}, shake_protected_paths = {} \<rparr>"

definition shake_config_aggressive :: shake_config where
  "shake_config_aggressive = shake_config_default\<lparr>shake_protect_tokens := 4000, shake_minimum_savings := 0\<rparr>"

definition shake_config_rescue :: shake_config where
  "shake_config_rescue = shake_config_default\<lparr>shake_protect_tokens := 0, shake_minimum_savings := 0\<rparr>"

record shake_action =
  act_message :: string
  act_range :: byte_range
  act_kind :: region_kind
  act_placeholder :: string

definition action_freed :: "shake_action \<Rightarrow> nat" where
  "action_freed a = range_len (act_range a) - length (act_placeholder a)"

definition estimated_savings_bytes :: "shake_action list \<Rightarrow> nat" where
  "estimated_savings_bytes plan = sum_list (map action_freed plan)"

fun kind_min :: "shake_config \<Rightarrow> region_kind \<Rightarrow> nat" where
  "kind_min config (Fence _) = fence_min_tokens config"
| "kind_min config (Xml _) = xml_min_tokens config"
| "kind_min config ToolBody = tool_body_min_tokens config"

definition region_action :: "string \<Rightarrow> region \<Rightarrow> shake_action" where
  "region_action mid r = \<lparr> act_message = mid, act_range = reg_range r, act_kind = reg_kind r,
     act_placeholder = region_placeholder (reg_kind r) (range_len (reg_range r)) \<rparr>"

definition keeps_read :: "chat_message list \<Rightarrow> shake_config \<Rightarrow> chat_message \<Rightarrow> bool" where
  "keeps_read transcript config msg =
     (shake_protected_paths config \<noteq> {} \<and> msg_role msg = RoleTool
      \<and> (case find_call_by_result transcript msg of
           None \<Rightarrow> False
         | Some call \<Rightarrow> call_tool call = ''read_file''
             \<and> (case call_path call of None \<Rightarrow> False | Some p \<Rightarrow> p \<in> shake_protected_paths config)))"

definition heavy_regions :: "shake_config \<Rightarrow> chat_message \<Rightarrow> region list" where
  "heavy_regions config msg =
     filter (\<lambda>r. kind_min config (reg_kind r) \<le> range_len (reg_range r) div 4)
       (case msg_role msg of
          RoleTool \<Rightarrow> [mk_region 0 (length (msg_content msg)) ToolBody]
        | RoleUser \<Rightarrow> scan_regions (msg_content msg)
        | RoleAssistant \<Rightarrow> scan_regions (msg_content msg)
        | RoleSystem \<Rightarrow> []
        | RoleAgent _ \<Rightarrow> [])"

text \<open>One turn of the loop of \<open>plan_shake\<close>.\<close>

definition shake_candidates ::
  "chat_message list \<Rightarrow> shake_config \<Rightarrow> (nat \<Rightarrow> nat) \<Rightarrow> bool \<Rightarrow> nat \<times> chat_message \<Rightarrow> (nat \<times> shake_action) list" where
  "shake_candidates transcript config suffix_after warm m =
     (let (i, msg) = m in
      if msg_id msg \<in> boundary_ids config then []
      else if keeps_read transcript config msg then []
      else if suffix_after i < shake_protect_tokens config then []
      else if warm \<and> suffix_after i > shake_cache_warm_suffix_tokens config then []
      else map (\<lambda>r. (i, region_action (msg_id msg) r)) (heavy_regions config msg))"

definition plan_shake :: "chat_message list \<Rightarrow> shake_config \<Rightarrow> (nat \<Rightarrow> nat) \<Rightarrow> bool \<Rightarrow> shake_action list" where
  "plan_shake transcript config suffix_after warm =
     (let candidates = concat (map (shake_candidates transcript config suffix_after warm) (enumerate 0 transcript));
          freed = sum_list (map (\<lambda>(_, a). action_freed a) candidates)
      in if freed div 4 < shake_minimum_savings config then []
         else map snd (sort_key (\<lambda>(i, a). (i, - int (range_start (act_range a)))) candidates))"

section \<open>Applying a plan\<close>

definition replace_range :: "nat \<Rightarrow> nat \<Rightarrow> string \<Rightarrow> string \<Rightarrow> string" where
  "replace_range a b new content = take a content @ new @ drop b content"

definition splice_action :: "shake_action \<Rightarrow> string \<Rightarrow> string option" where
  "splice_action act content =
     (let a = min (range_start (act_range act)) (length content); b = min (range_end (act_range act)) (length content) in
      if a \<ge> b then None
      else if \<not> is_char_boundary content a \<or> \<not> is_char_boundary content b then None
      else Some (replace_range a b (act_placeholder act) content))"

fun apply_shake :: "(string, nat) hmap \<Rightarrow> shake_action list \<Rightarrow> chat_message list \<Rightarrow> chat_message list \<times> nat" where
  "apply_shake idx [] turns = (turns, 0)"
| "apply_shake idx (act # actions) turns =
     (case map_of idx (act_message act) of
        None \<Rightarrow> apply_shake idx actions turns
      | Some i \<Rightarrow>
          (case splice_action act (msg_content (turns ! i)) of
             None \<Rightarrow> apply_shake idx actions turns
           | Some content \<Rightarrow>
               (let (turns', affected) = apply_shake idx actions (turns[i := (turns ! i)\<lparr>msg_content := content\<rparr>])
                in (turns', Suc affected))))"

definition apply_shake_plan :: "shake_action list \<Rightarrow> chat_message list \<Rightarrow> chat_message list \<times> nat" where
  "apply_shake_plan plan turns = apply_shake (message_index turns) plan turns"

section \<open>The regions of a message\<close>

text \<open>Regions in order: each starts where the one before it has ended, or later.\<close>

fun in_order :: "nat \<Rightarrow> region list \<Rightarrow> nat \<Rightarrow> bool" where
  "in_order lo [] hi = (lo \<le> hi)"
| "in_order lo (r # rs) hi =
     (lo \<le> range_start (reg_range r) \<and> range_start (reg_range r) < range_end (reg_range r)
      \<and> in_order (range_end (reg_range r)) rs hi)"

lemma in_order_weaken: "in_order lo rs hi \<Longrightarrow> lo' \<le> lo \<Longrightarrow> in_order lo' rs hi"
  by (induction lo rs hi rule: in_order.induct) auto

lemma mk_region_range [simp]: "range_start (reg_range (mk_region a b k)) = a" "range_end (reg_range (mk_region a b k)) = b"
  "reg_kind (mk_region a b k) = k"
  by (simp_all add: mk_region_def)

lemma fences_in_order: "i \<le> length content \<Longrightarrow> in_order i (find_fences content i) (length content)"
proof (induction content i rule: find_fences.induct)
  case (1 content i)
  show ?case
  proof (cases "i < length content")
    case True
    show ?thesis
    proof (cases "fence_opener content i")
      case None
      show ?thesis
      proof (cases "next_line content i")
        case nl: (Some i')
        from next_line_bounds [OF this] 1(1) [OF True None nl] show ?thesis
          using None True nl by (auto simp: find_fences.simps [of content i] intro: in_order_weaken)
      qed (use None True in \<open>simp add: find_fences.simps [of content i]\<close>)
    next
      case (Some x)
      obtain ch n info where x: "x = (ch, n, info)" by (cases x)
      let ?after = "case next_line content i of Some i' \<Rightarrow> i' | None \<Rightarrow> length content"
      show ?thesis
      proof (cases "find_fence_closer content ?after ch n")
        case None
        with Some x True show ?thesis by (simp add: find_fences.simps [of content i] Let_def)
      next
        case closer: (Some c)
        obtain a b where c: "c = (a, b)" by (cases c)
        have "0 < n" using Some x fence_opener_long by fastforce
        then have ab: "?after \<le> a" "a < b" "b \<le> length content"
          using fence_closer_bounds [of content ?after ch n a b] closer c by simp_all
        have "i < ?after" using True by (auto dest: next_line_bounds split: option.splits)
        with ab 1(2) [OF True Some x [symmetric] refl refl closer c [symmetric] ab(3)] show ?thesis
          using Some x True closer c by (simp add: find_fences.simps [of content i] Let_def)
      qed
    qed
  next
    case False
    with 1(3) show ?thesis by (simp add: find_fences.simps [of content "length content"])
  qed
qed

lemma xml_in_order: "i \<le> length content \<Longrightarrow> in_order i (find_xml_blocks content fences i) (length content)"
proof (induction content fences i rule: find_xml_blocks.induct)
  case (1 content fences i)
  show ?case
  proof (cases "i < length content")
    case True
    show ?thesis
    proof (cases "xml_block content fences i")
      case None
      show ?thesis
      proof (cases "next_line content i")
        case nl: (Some i')
        from next_line_bounds [OF this] 1(1) [OF True None nl] show ?thesis
          using None True nl by (auto simp: find_xml_blocks.simps [of content fences i] intro: in_order_weaken)
      qed (use None True in \<open>simp add: find_xml_blocks.simps [of content fences i]\<close>)
    next
      case (Some b)
      obtain name e where b: "b = (name, e)" by (cases b)
      from Some b have e: "i < e" "e \<le> length content" using xml_block_bounds by blast+
      with 1(2) [OF True Some b [symmetric] e(2)] show ?thesis
        using Some True b by (simp add: find_xml_blocks.simps [of content fences i])
    qed
  next
    case False
    with 1(3) show ?thesis by (simp add: find_xml_blocks.simps [of content fences "length content"])
  qed
qed

text \<open>
  The scanners terminate on every text, each with regions that are in bounds, not empty, in
  order and disjoint; both functions are total.
\<close>

theorem scanned_regions_in_order:
  "in_order 0 (find_fences content 0) (length content)
   \<and> in_order 0 (find_xml_blocks content (find_fences content 0) 0) (length content)"
  using fences_in_order [of 0 content] xml_in_order [of 0 content] by simp

section \<open>Splicing\<close>

text \<open>What a message should become: every region replaced by its placeholder, the rest kept.\<close>

fun spliced :: "string \<Rightarrow> nat \<Rightarrow> (byte_range \<times> string) list \<Rightarrow> string" where
  "spliced content lo [] = drop lo content"
| "spliced content lo ((r, new) # rs) = take (range_start r - lo) (drop lo content) @ new @ spliced content (range_end r) rs"

definition on_boundaries :: "string \<Rightarrow> region list \<Rightarrow> bool" where
  "on_boundaries content rs =
     list_all (\<lambda>r. is_char_boundary content (range_start (reg_range r)) \<and> is_char_boundary content (range_end (reg_range r))) rs"

definition splice_all :: "string \<Rightarrow> shake_action list \<Rightarrow> string" where
  "splice_all content acts = foldl (\<lambda>c a. case splice_action a c of Some c' \<Rightarrow> c' | None \<Rightarrow> c) content acts"

lemma in_order_end: "in_order lo rs hi \<Longrightarrow> lo \<le> hi"
  by (induction lo rs hi rule: in_order.induct) auto

lemma placeholder_head: "\<exists>t. region_placeholder k n = CHR ''['' # t"
  by (simp add: region_placeholder_def)

definition placed :: "region list \<Rightarrow> (byte_range \<times> string) list" where
  "placed rs = map (\<lambda>r. (reg_range r, region_placeholder (reg_kind r) (range_len (reg_range r)))) rs"

text \<open>The end of a region is still a character boundary once the regions after it are replaced.\<close>

lemma boundary_kept:
  assumes "in_order e rs (length content)" "is_char_boundary content e"
  shows "is_char_boundary (take e content @ spliced content e (placed rs)) e"
proof (cases rs)
  case Nil
  with assms show ?thesis by (simp add: placed_def)
next
  case (Cons r rs')
  let ?s = "range_start (reg_range r)"
  have le: "e \<le> ?s" "?s < length content"
  proof -
    have "in_order (range_end (reg_range r)) rs' (length content)" using assms(1) Cons by simp
    then have "range_end (reg_range r) \<le> length content" by (rule in_order_end)
    with assms(1) Cons show "e \<le> ?s" "?s < length content" by simp_all
  qed
  show ?thesis
  proof (cases "e = ?s")
    case True
    obtain t where "region_placeholder (reg_kind r) (range_len (reg_range r)) = CHR ''['' # t" using placeholder_head by blast
    with True le Cons show ?thesis by (auto simp: placed_def is_char_boundary_def nth_append is_cont_def)
  next
    case False
    with le have "drop e content \<noteq> []" "?s - e \<noteq> 0" by simp_all
    then obtain c u where "take (?s - e) (drop e content) = c # u" "c = content ! e"
      using le False by (cases "drop e content"; cases "?s - e") (auto simp: Cons_nth_drop_Suc [symmetric])
    with assms(2) le Cons show ?thesis by (auto simp: placed_def is_char_boundary_def nth_append)
  qed
qed

lemma splice_in_order:
  "in_order lo rs (length content) \<Longrightarrow> on_boundaries content rs \<Longrightarrow>
     splice_all content (rev (map (region_action mid) rs)) = take lo content @ spliced content lo (placed rs)"
proof (induction lo rs "length content" rule: in_order.induct)
  case (1 lo)
  then show ?case by (simp add: splice_all_def placed_def)
next
  case (2 lo r rs)
  let ?a = "range_start (reg_range r)" and ?e = "range_end (reg_range r)"
  let ?c = "take ?e content @ spliced content ?e (placed rs)"
  have order: "lo \<le> ?a" "?a < ?e" "?e \<le> length content" using 2(2) in_order_end by auto
  have b: "is_char_boundary content ?a" "is_char_boundary content ?e" using 2(3) by (simp_all add: on_boundaries_def)
  have IH: "splice_all content (rev (map (region_action mid) rs)) = ?c"
    using 2 by (simp add: on_boundaries_def)
  have "is_char_boundary ?c ?e" using 2(2) b(2) boundary_kept by simp
  moreover have "is_char_boundary ?c ?a" using b(1) order by (auto simp: is_char_boundary_def nth_append)
  ultimately have "splice_action (region_action mid r) ?c
      = Some (replace_range ?a ?e (region_placeholder (reg_kind r) (range_len (reg_range r))) ?c)"
    using order by (simp add: splice_action_def region_action_def Let_def)
  moreover have "replace_range ?a ?e new ?c = take ?a content @ new @ spliced content ?e (placed rs)" for new
    using order by (simp add: replace_range_def)
  moreover have "take ?a content = take lo content @ take (?a - lo) (drop lo content)"
    using order by (metis le_add_diff_inverse take_add)
  ultimately show ?case using IH by (simp add: splice_all_def placed_def)
qed

section \<open>The plan of one message\<close>

definition descending_start :: "nat \<times> shake_action \<Rightarrow> nat \<times> int" where
  "descending_start p = (fst p, - int (range_start (act_range (snd p))))"

lemma plan_shake_cases:
  "plan_shake transcript config suffix_after warm = []
   \<or> plan_shake transcript config suffix_after warm
       = map snd (sort_key descending_start
           (concat (map (shake_candidates transcript config suffix_after warm) (enumerate 0 transcript))))"
  by (simp add: plan_shake_def Let_def descending_start_def [abs_def] split_def)

lemma candidates_message:
  "p \<in> set (shake_candidates transcript config suffix_after warm (i, m)) \<Longrightarrow> fst p = i \<and> act_message (snd p) = msg_id m"
  by (auto simp: shake_candidates_def region_action_def split: if_splits)

lemma filter_concat: "filter P (concat xss) = concat (map (filter P) xss)"
  by (induction xss) simp_all

text \<open>Of the candidates of a whole transcript, those of one message are what that message contributes.\<close>

lemma candidates_of_message:
  assumes "distinct (map msg_id transcript)" "i < length transcript"
  shows "filter (\<lambda>p. act_message (snd p) = msg_id (transcript ! i))
      (concat (map (shake_candidates transcript config suffix_after warm) (enumerate 0 transcript)))
    = shake_candidates transcript config suffix_after warm (i, transcript ! i)"
proof -
  let ?c = "shake_candidates transcript config suffix_after warm"
  let ?P = "\<lambda>p :: nat \<times> shake_action. act_message (snd p) = msg_id (transcript ! i)"
  have one: "filter ?P (?c (j, m)) = (if j = i then ?c (j, m) else [])"
    if "(j, m) \<in> set (enumerate 0 transcript)" for j m
  proof -
    have j: "j < length transcript" "m = transcript ! j" using that by (auto simp: in_set_enumerate_eq)
    have "msg_id m = msg_id (transcript ! i) \<longleftrightarrow> j = i"
      using nth_eq_iff_index_eq [OF assms(1), of j i] j assms(2) by simp
    moreover have "act_message (snd p) = msg_id m" if "p \<in> set (?c (j, m))" for p
      using candidates_message [OF that] by simp
    ultimately show ?thesis by (auto simp: filter_id_conv filter_empty_conv)
  qed
  have pick: "concat (map (\<lambda>(j, m). if j = i then ?c (j, m) else []) (enumerate n ms))
      = (if n \<le> i \<and> i < n + length ms then ?c (i, ms ! (i - n)) else [])" for n ms
  proof (induction ms arbitrary: n)
    case (Cons m ms)
    then show ?case by (auto simp: nth_Cons' Suc_le_eq)
  qed auto
  have "filter ?P (concat (map ?c (enumerate 0 transcript)))
      = concat (map (\<lambda>(j, m). if j = i then ?c (j, m) else []) (enumerate 0 transcript))"
    unfolding filter_concat map_map using one by (intro arg_cong [where f = concat] map_cong) auto
  with pick [of 0 transcript] assms(2) show ?thesis by simp
qed

lemma apply_shake_message:
  assumes "distinct (map msg_id turns)" "i < length turns"
    and "\<forall>j < length turns. map_of idx (msg_id (turns ! j)) = Some j"
    and "\<forall>a \<in> set plan. act_message a \<in> msg_id ` set turns"
  shows "msg_content (fst (apply_shake idx plan turns) ! i)
    = splice_all (msg_content (turns ! i)) (filter (\<lambda>a. act_message a = msg_id (turns ! i)) plan)"
  using assms
proof (induction plan arbitrary: turns)
  case Nil
  then show ?case by (simp add: splice_all_def)
next
  case (Cons a plan)
  obtain j where j: "j < length turns" "act_message a = msg_id (turns ! j)"
    using Cons.prems(4) by (auto simp: in_set_conv_nth)
  have ji: "act_message a = msg_id (turns ! i) \<longleftrightarrow> j = i"
    using nth_eq_iff_index_eq [OF Cons.prems(1), of j i] j Cons.prems(2) by simp
  have idx: "map_of idx (act_message a) = Some j" using Cons.prems(3) j by simp
  show ?case
  proof (cases "splice_action a (msg_content (turns ! j))")
    case None
    then show ?thesis using Cons.IH [OF Cons.prems(1-3)] Cons.prems(4) idx ji by (auto simp: splice_all_def)
  next
    case (Some content)
    let ?turns = "turns[j := (turns ! j)\<lparr>msg_content := content\<rparr>]"
    have ids: "map msg_id ?turns = map msg_id turns" using j(1) by (simp add: map_update list_update_same_conv)
    have nth: "msg_id (?turns ! k) = msg_id (turns ! k)" if "k < length turns" for k
      using ids that by (metis length_list_update nth_map)
    have "msg_content (fst (apply_shake idx plan ?turns) ! i)
        = splice_all (msg_content (?turns ! i)) (filter (\<lambda>a. act_message a = msg_id (?turns ! i)) plan)"
    proof (rule Cons.IH)
      have "msg_id ` set ?turns = msg_id ` set turns" using arg_cong [OF ids, of set] by simp
      then show "\<forall>a \<in> set plan. act_message a \<in> msg_id ` set ?turns" using Cons.prems(4) by simp
    qed (use Cons.prems ids nth in auto)
    then show ?thesis using Some idx ji j(1) Cons.prems(2) nth [OF Cons.prems(2)]
      by (auto simp: splice_all_def split_def Let_def)
  qed
qed

definition region_start :: "region \<Rightarrow> nat" where
  "region_start r = range_start (reg_range r)"

definition ordered_regions :: "shake_config \<Rightarrow> chat_message \<Rightarrow> region list" where
  "ordered_regions config m = sort_key region_start (heavy_regions config m)"

lemma in_order_starts: "in_order lo rs hi \<Longrightarrow> sorted_wrt (<) (map region_start rs) \<and> (\<forall>r \<in> set rs. lo \<le> region_start r)"
  by (induction lo rs hi rule: in_order.induct) (fastforce simp: region_start_def)+

lemma message_actions_sorted:
  assumes "in_order lo (sort_key region_start rs) hi"
  shows "sort_key descending_start (map (\<lambda>r. (i, region_action mid r)) rs)
    = rev (map (\<lambda>r. (i, region_action mid r)) (sort_key region_start rs))"
proof (rule sort_key_inj_key_eq)
  let ?f = "\<lambda>r. (i, region_action mid r)"
  have strict: "sorted_wrt (<) (map region_start (sort_key region_start rs))" using in_order_starts [OF assms] by simp
  then have "distinct (map region_start (sort_key region_start rs))" by (simp add: strict_sorted_iff)
  then have inj: "inj_on region_start (set rs)" by (simp add: distinct_map)
  have key: "descending_start (?f r) = (i, - int (region_start r))" for r
    by (simp add: descending_start_def region_action_def region_start_def)
  show "mset (map ?f rs) = mset (rev (map ?f (sort_key region_start rs)))" by simp
  show "inj_on descending_start (set (map ?f rs))"
  proof (rule inj_onI)
    fix x y
    assume "x \<in> set (map ?f rs)" "y \<in> set (map ?f rs)" "descending_start x = descending_start y"
    then obtain r q where rq: "r \<in> set rs" "q \<in> set rs" "x = ?f r" "y = ?f q" "region_start r = region_start q"
      by (auto simp: key)
    then have "r = q" by (intro inj_onD [OF inj])
    with rq show "x = y" by simp
  qed
  have "sorted_wrt (\<ge>) (map (descending_start \<circ> ?f) (sort_key region_start rs))"
    using strict unfolding sorted_wrt_map comp_def key by (rule sorted_wrt_mono_rel [rotated]) (simp add: less_eq_prod_def)
  then show "sorted (map descending_start (rev (map ?f (sort_key region_start rs))))"
    by (simp add: rev_map [symmetric] sorted_wrt_rev comp_def)
qed

text \<open>
  C30. A shake pass replaces exactly the heavy regions of a message and keeps every other byte: for
  every message of a transcript, if its heavy regions do not overlap and lie on character
  boundaries, the message after the plan is applied is either unchanged (the plan has nothing for
  it) or the message with each of these regions, and nothing else, replaced by its placeholder.
\<close>

theorem shake_replaces_exactly_the_regions:
  assumes "distinct (map msg_id transcript)" "i < length transcript"
    and "in_order 0 (ordered_regions config (transcript ! i)) (length (msg_content (transcript ! i)))"
    and "on_boundaries (msg_content (transcript ! i)) (ordered_regions config (transcript ! i))"
  shows "msg_content (fst (apply_shake_plan (plan_shake transcript config suffix_after warm) transcript) ! i)
    = (if \<forall>a \<in> set (plan_shake transcript config suffix_after warm). act_message a \<noteq> msg_id (transcript ! i)
       then msg_content (transcript ! i)
       else spliced (msg_content (transcript ! i)) 0 (placed (ordered_regions config (transcript ! i))))"
proof -
  let ?plan = "plan_shake transcript config suffix_after warm"
  let ?m = "transcript ! i"
  let ?cs = "concat (map (shake_candidates transcript config suffix_after warm) (enumerate 0 transcript))"
  let ?mine = "filter (\<lambda>a. act_message a = msg_id ?m) ?plan"
  have ids: "\<forall>a \<in> set ?plan. act_message a \<in> msg_id ` set transcript"
  proof
    fix a
    assume "a \<in> set ?plan"
    with plan_shake_cases [of transcript config suffix_after warm] have "a \<in> snd ` set ?cs" by auto
    then obtain j m p where "(j, m) \<in> set (enumerate 0 transcript)" "p \<in> set (shake_candidates transcript config suffix_after warm (j, m))" "a = snd p"
      by auto
    with candidates_message [of p] show "act_message a \<in> msg_id ` set transcript" by (auto simp: in_set_enumerate_eq)
  qed
  have applied: "msg_content (fst (apply_shake_plan ?plan transcript) ! i) = splice_all (msg_content ?m) ?mine"
    unfolding apply_shake_plan_def using map_of_message_index [OF assms(1)]
    by (intro apply_shake_message [OF assms(1,2) _ ids]) simp
  have "?mine = [] \<or> ?mine = rev (map (region_action (msg_id ?m)) (ordered_regions config ?m))"
  proof (cases "?plan = []")
    case False
    then have "?mine = map snd (sort_key descending_start (filter (\<lambda>p. act_message (snd p) = msg_id ?m) ?cs))"
      using plan_shake_cases [of transcript config suffix_after warm] by (auto simp: filter_map filter_sort comp_def)
    also have "\<dots> = map snd (sort_key descending_start (shake_candidates transcript config suffix_after warm (i, ?m)))"
      by (simp only: candidates_of_message [OF assms(1,2)])
    finally show ?thesis
      using message_actions_sorted [OF assms(3) [unfolded ordered_regions_def], of i "msg_id ?m"]
      by (auto simp: shake_candidates_def ordered_regions_def rev_map [symmetric] comp_def)
  qed simp
  moreover have "?mine = [] \<longleftrightarrow> (\<forall>a \<in> set ?plan. act_message a \<noteq> msg_id ?m)" by (auto simp: filter_empty_conv)
  moreover have "splice_all (msg_content ?m) [] = msg_content ?m" by (simp add: splice_all_def)
  ultimately show ?thesis using applied splice_in_order [OF assms(3,4), of "msg_id ?m"] by auto
qed

section \<open>Overlapping regions\<close>

text \<open>
  A fence inside an XML block makes the splice eat what follows the block: the inner region is
  replaced first, which shortens the text, and the range of the outer one, taken before, now
  reaches past the block by as many bytes as the inner replacement saved.
\<close>

theorem nested_region_eats_what_follows:
  assumes "a1 < a2" "a2 < b2" "b2 \<le> b1"
    and shrinks: "length (region_placeholder k2 (b2 - a2)) \<le> b2 - a2"
    and room: "b1 + (b2 - a2 - length (region_placeholder k2 (b2 - a2))) < length content"
    and bounds: "is_char_boundary content a1" "is_char_boundary content a2" "is_char_boundary content b2"
      "is_char_boundary content (b1 + (b2 - a2 - length (region_placeholder k2 (b2 - a2))))"
  shows "splice_all content [region_action mid (mk_region a2 b2 k2), region_action mid (mk_region a1 b1 k1)]
    = take a1 content @ region_placeholder k1 (b1 - a1)
      @ drop (b1 + (b2 - a2 - length (region_placeholder k2 (b2 - a2)))) content"
proof -
  define new where "new = region_placeholder k2 (b2 - a2)"
  let ?c = "take a2 content @ new @ drop b2 content"
  note shrinks = shrinks [folded new_def] and room = room [folded new_def] and bounds = bounds [folded new_def]
  have inner: "splice_action (region_action mid (mk_region a2 b2 k2)) content = Some ?c"
    using assms(1-3) room bounds
    by (simp add: splice_action_def region_action_def replace_range_def range_len_def mk_region_def new_def Let_def)
  have split: "?c = (take a2 content @ new) @ drop b2 content" "length (take a2 content @ new) = a2 + length new"
    using assms(1-3) room by simp_all
  have ge: "a2 + length new \<le> b1" using assms(1-3) shrinks by linarith
  have shift: "b2 + (b1 - (a2 + length new)) = b1 + (b2 - a2 - length new)" using assms(1-3) shrinks by linarith
  have nth: "?c ! b1 = content ! (b1 + (b2 - a2 - length new))"
    unfolding split(1) nth_append split(2) using ge room shift assms(1-3) by simp
  have rest: "drop b1 ?c = drop (b1 + (b2 - a2 - length new)) content"
    unfolding split(1) drop_append split(2) using ge shift by (simp add: drop_all)
  have long: "b1 < length ?c" using rest room by (metis drop_eq_Nil not_le)
  have "is_char_boundary ?c a1" using bounds(1) assms(1-3) room by (auto simp: is_char_boundary_def nth_append)
  moreover have "is_char_boundary ?c b1"
    unfolding is_char_boundary_def nth using long bounds(4) room by (simp add: is_char_boundary_def split: if_splits)
  ultimately have "splice_action (region_action mid (mk_region a1 b1 k1)) ?c
      = Some (replace_range a1 b1 (region_placeholder k1 (b1 - a1)) ?c)"
    using long assms(1-3) by (simp add: splice_action_def region_action_def range_len_def mk_region_def Let_def)
  moreover have "take a1 ?c = take a1 content" using assms(1-3) room by simp
  ultimately show ?thesis
    using rest unfolding new_def [symmetric] by (simp add: splice_all_def inner replace_range_def del: take_append drop_append)
qed

definition nested_text :: string where
  "nested_text = ''<a>'' @ [nl_char] @ ''```'' @ [nl_char] @ replicate 100 CHR ''x'' @ [nl_char] @ ''```'' @ [nl_char]
     @ ''</a>'' @ [nl_char] @ ''Keep this line. Then continue.''"

lemma nested_text_regions: "scan_regions nested_text = [mk_region 4 113 (Fence None), mk_region 0 118 (Xml ''a'')]"
proof -
  have "find_fences nested_text 0 = [mk_region 4 113 (Fence None)]" by code_simp
  moreover have "find_xml_blocks nested_text [mk_region 4 113 (Fence None)] 0 = [mk_region 0 118 (Xml ''a'')]" by code_simp
  ultimately show ?thesis by (simp add: scan_regions_def)
qed

lemma nested_text_size: "length nested_text = 148" "length (region_placeholder (Fence None) 109) = 85"
  by code_simp+

theorem nested_region_eats_what_follows_witness:
  "scan_regions nested_text = [mk_region 4 113 (Fence None), mk_region 0 118 (Xml ''a'')]
   \<and> splice_all nested_text [region_action ''1'' (mk_region 4 113 (Fence None)), region_action ''1'' (mk_region 0 118 (Xml ''a''))]
      = region_placeholder (Xml ''a'') 118 @ ''tinue.''"
proof -
  have bounds: "is_char_boundary nested_text 0" "is_char_boundary nested_text 4" "is_char_boundary nested_text 113"
    "is_char_boundary nested_text 142" by code_simp+
  have "drop 142 nested_text = ''tinue.''" by code_simp
  with nested_region_eats_what_follows [of 0 4 113 118 "Fence None" nested_text "''1''" "Xml ''a''"] bounds nested_text_size
  show ?thesis by (simp add: nested_text_regions)
qed

definition bulky_log :: "chat_message list" where
  "bulky_log = [message_text ''1'' RoleTool (replicate 100 CHR ''x'') 0]"

definition small_body_config :: shake_config where
  "small_body_config = shake_config_rescue\<lparr>tool_body_min_tokens := 20\<rparr>"

theorem shake_replaces_exactly_the_regions_witness:
  "msg_content (fst (apply_shake_plan (plan_shake bulky_log small_body_config (\<lambda>_. 0) False) bulky_log) ! 0)
     = region_placeholder ToolBody 100"
proof -
  have rs: "ordered_regions small_body_config (bulky_log ! 0) = [mk_region 0 100 ToolBody]"
    by (simp add: ordered_regions_def heavy_regions_def bulky_log_def message_text_def small_body_config_def
        shake_config_rescue_def shake_config_default_def range_len_def)
  have len: "length (msg_content (bulky_log ! 0)) = 100" "msg_id (bulky_log ! 0) = ''1''"
    by (simp_all add: bulky_log_def message_text_def)
  have plan: "act_message (hd (plan_shake bulky_log small_body_config (\<lambda>_. 0) False)) = ''1''
      \<and> plan_shake bulky_log small_body_config (\<lambda>_. 0) False \<noteq> []" by code_simp
  have ids: "distinct (map msg_id bulky_log)" "0 < length bulky_log" by (simp_all add: bulky_log_def)
  show ?thesis
    using shake_replaces_exactly_the_regions [OF ids, of small_body_config "\<lambda>_. 0" False] plan hd_in_set
    by (auto simp: rs len on_boundaries_def is_char_boundary_def placed_def mk_region_def range_len_def)
qed

end
