(* ===== verification/Kod_Tool_Quota.thy ===== *)
theory Kod_Tool_Quota
  imports Kod_Text
begin

text \<open>
  Per-tool quotas: the counters and the check of \<open>crates/kod-core/src/tool_quota.rs\<close>, the lookup
  of a quota in \<open>crates/kod-config/src/limits.rs\<close>, and the two dispatch paths of
  \<open>crates/kod-core/src/engine/tool_dispatch.rs\<close> as far as they check and count. The lemmas show
  that the counters are a ledger of the dispatches, that serial dispatches keep every hard cap, and
  that read-only rounds do not.
\<close>

section \<open>Quotas and counters\<close>

record tool_quota =
  quota_turn :: nat
  quota_session :: nat
  quota_command :: nat

definition quota_for :: "(string, tool_quota) hmap \<Rightarrow> string \<Rightarrow> tool_quota option" where
  "quota_for tools tool =
     (case (case map_of tools tool of Some q \<Rightarrow> Some q | None \<Rightarrow> map_of tools ''default'') of
        None \<Rightarrow> None
      | Some q \<Rightarrow> if quota_turn q > 0 \<or> quota_session q > 0 \<or> quota_command q > 0 then Some q else None)"

record tool_counts =
  cnt_turn :: "(string, nat) hmap"
  cnt_session :: "(string, nat) hmap"
  cnt_command :: "(string \<times> string, nat) hmap"

definition counts_new :: tool_counts where
  "counts_new = \<lparr> cnt_turn = [], cnt_session = [], cnt_command = [] \<rparr>"

definition count_at :: "('k, nat) hmap \<Rightarrow> 'k \<Rightarrow> nat" where
  "count_at m k = (case map_of m k of Some n \<Rightarrow> n | None \<Rightarrow> 0)"

definition bump :: "'k \<Rightarrow> ('k, nat) hmap \<Rightarrow> ('k, nat) hmap" where
  "bump k m = AList.update k (count_at m k + 1) m"

definition counts_record :: "string \<Rightarrow> string option \<Rightarrow> tool_counts \<Rightarrow> tool_counts" where
  "counts_record tool command c =
     c\<lparr>cnt_turn := bump tool (cnt_turn c), cnt_session := bump tool (cnt_session c),
       cnt_command := (case command of Some cmd \<Rightarrow> bump (tool, cmd) (cnt_command c) | None \<Rightarrow> cnt_command c)\<rparr>"

definition counts_begin_turn :: "tool_counts \<Rightarrow> tool_counts" where
  "counts_begin_turn c = c\<lparr>cnt_turn := [], cnt_command := []\<rparr>"

definition counts_reset :: "tool_counts \<Rightarrow> tool_counts" where
  "counts_reset c = \<lparr> cnt_turn = [], cnt_session = [], cnt_command = [] \<rparr>"

definition per_turn :: "tool_counts \<Rightarrow> string \<Rightarrow> nat" where
  "per_turn c tool = count_at (cnt_turn c) tool"

definition per_session :: "tool_counts \<Rightarrow> string \<Rightarrow> nat" where
  "per_session c tool = count_at (cnt_session c) tool"

definition per_command :: "tool_counts \<Rightarrow> string \<Rightarrow> string \<Rightarrow> nat" where
  "per_command c tool cmd = count_at (cnt_command c) (tool, cmd)"

definition counts_snapshot :: "tool_counts \<Rightarrow> (string \<times> nat \<times> nat) list" where
  "counts_snapshot c = map (\<lambda>n. (n, per_turn c n, per_session c n)) (sort (map fst (cnt_session c)))"

section \<open>The check\<close>

text \<open>The reasons are constructors: the texts only format the numbers.\<close>

datatype quota_reason = SessionSpent nat | TurnSpent nat | CommandSpent nat nat | SessionClose nat nat | TurnClose nat nat

datatype quota_verdict = QuotaOk | QuotaSoft quota_reason | QuotaHard quota_reason

definition usize_sat_mul :: "nat \<Rightarrow> nat \<Rightarrow> nat" where
  "usize_sat_mul a b = min (a * b) (usize_bound - 1)"

text \<open>The check on the numbers of calls so far: this session, this turn, of this command this turn.\<close>

definition verdict_on :: "tool_quota \<Rightarrow> nat \<Rightarrow> nat \<Rightarrow> nat option \<Rightarrow> quota_verdict" where
  "verdict_on q s t pc =
     (if quota_session q > 0 \<and> s \<ge> quota_session q then QuotaHard (SessionSpent (quota_session q))
      else if quota_turn q > 0 \<and> t \<ge> quota_turn q then QuotaHard (TurnSpent (quota_turn q))
      else if (case pc of Some n \<Rightarrow> quota_command q > 0 \<and> n \<ge> quota_command q | None \<Rightarrow> False)
        then QuotaHard (CommandSpent (the pc) (quota_command q))
      else if quota_session q > 0 \<and> usize_sat_mul s 100 \<ge> usize_sat_mul (quota_session q) 80
        then QuotaSoft (SessionClose s (quota_session q))
      else if quota_turn q > 0 \<and> usize_sat_mul t 100 \<ge> usize_sat_mul (quota_turn q) 80
        then QuotaSoft (TurnClose t (quota_turn q))
      else QuotaOk)"

definition quota_check :: "tool_counts \<Rightarrow> string \<Rightarrow> tool_quota option \<Rightarrow> string option \<Rightarrow> quota_verdict" where
  "quota_check c tool quota command =
     (case quota of
        None \<Rightarrow> QuotaOk
      | Some q \<Rightarrow> verdict_on q (per_session c tool) (per_turn c tool) (map_option (per_command c tool) command))"

section \<open>Dispatching\<close>

text \<open>
  A call of a round with a mutating tool, or a sub-call of a batch, is checked and, unless refused,
  recorded with its command. The calls of a read-only round are recorded and never refused. A serial
  call is one step here, the check and the record together, as the one loop that runs it sees them;
  the source takes the lock of the counters anew for each number it reads and for the record, and
  the agents of a swarm share the counters, so what two loops do at once is
  \<open>interleaved_calls_exceed_cap\<close> below.
\<close>

datatype quota_event = SerialCall string "string option" | ReadOnlyRound "string list" | TurnBegins | QuotaReset

fun is_hard :: "quota_verdict \<Rightarrow> bool" where
  "is_hard (QuotaHard _) = True"
| "is_hard _ = False"

fun quota_step :: "(string, tool_quota) hmap \<Rightarrow> quota_event \<Rightarrow> tool_counts \<Rightarrow> bool \<times> tool_counts" where
  "quota_step tools (SerialCall tool command) c =
     (if is_hard (quota_check c tool (quota_for tools tool) command) then (False, c)
      else (True, counts_record tool command c))"
| "quota_step tools (ReadOnlyRound names) c = (True, foldl (\<lambda>c tool. counts_record tool None c) c names)"
| "quota_step tools TurnBegins c = (True, counts_begin_turn c)"
| "quota_step tools QuotaReset c = (True, counts_reset c)"

section \<open>The counters are a ledger\<close>

lemma count_at_bump [simp]: "count_at (bump k m) k' = (if k = k' then count_at m k + 1 else count_at m k')"
  by (simp add: count_at_def bump_def)

lemma count_at_empty [simp]: "count_at [] k = 0"
  by (simp add: count_at_def)

text \<open>
  The abstract machine writes down every dispatch of the session and of the turn, and decides by
  counting.
\<close>

type_synonym ledger = "(string \<times> string option) list \<times> (string \<times> string option) list"

definition times :: "('a \<Rightarrow> bool) \<Rightarrow> 'a list \<Rightarrow> nat" where
  "times P xs = length (filter P xs)"

definition ledger_check :: "ledger \<Rightarrow> string \<Rightarrow> tool_quota option \<Rightarrow> string option \<Rightarrow> quota_verdict" where
  "ledger_check l tool quota command =
     (case quota of
        None \<Rightarrow> QuotaOk
      | Some q \<Rightarrow> verdict_on q (times (\<lambda>d. fst d = tool) (fst l)) (times (\<lambda>d. fst d = tool) (snd l))
          (map_option (\<lambda>cmd. times (\<lambda>d. d = (tool, Some cmd)) (snd l)) command))"

fun ledger_step :: "(string, tool_quota) hmap \<Rightarrow> quota_event \<Rightarrow> ledger \<Rightarrow> bool \<times> ledger" where
  "ledger_step tools (SerialCall tool command) l =
     (if is_hard (ledger_check l tool (quota_for tools tool) command) then (False, l)
      else (True, (fst l @ [(tool, command)], snd l @ [(tool, command)])))"
| "ledger_step tools (ReadOnlyRound names) l =
     (True, (fst l @ map (\<lambda>n. (n, None)) names, snd l @ map (\<lambda>n. (n, None)) names))"
| "ledger_step tools TurnBegins l = (True, (fst l, []))"
| "ledger_step tools QuotaReset l = (True, ([], []))"

text \<open>The two machines agree when the counters count the ledger's entries.\<close>

definition counts_ledger :: "tool_counts \<Rightarrow> ledger \<Rightarrow> bool" where
  "counts_ledger c l =
     ((\<forall>tool. per_session c tool = times (\<lambda>d. fst d = tool) (fst l))
      \<and> (\<forall>tool. per_turn c tool = times (\<lambda>d. fst d = tool) (snd l))
      \<and> (\<forall>tool cmd. per_command c tool cmd = times (\<lambda>d. d = (tool, Some cmd)) (snd l)))"

lemma times_append [simp]: "times P (xs @ ys) = times P xs + times P ys"
  by (simp add: times_def)

lemma times_simps [simp]: "times P [] = 0" "times P (x # xs) = (if P x then 1 else 0) + times P xs"
  by (simp_all add: times_def)

lemma counts_record_ledger:
  "counts_ledger c l \<Longrightarrow> counts_ledger (counts_record tool command c) (fst l @ [(tool, command)], snd l @ [(tool, command)])"
  by (auto simp: counts_ledger_def counts_record_def per_session_def per_turn_def per_command_def split: option.splits)

lemma counts_round_ledger:
  "counts_ledger c l \<Longrightarrow> counts_ledger (foldl (\<lambda>c tool. counts_record tool None c) c names)
     (fst l @ map (\<lambda>n. (n, None)) names, snd l @ map (\<lambda>n. (n, None)) names)"
proof (induction names arbitrary: c l)
  case (Cons n names)
  from Cons.IH [OF counts_record_ledger [OF Cons.prems, of n None]] show ?case by simp
qed simp

lemma quota_step_ledger:
  assumes "counts_ledger c l"
  shows "fst (quota_step tools e c) = fst (ledger_step tools e l)
    \<and> counts_ledger (snd (quota_step tools e c)) (snd (ledger_step tools e l))"
proof (cases e)
  case (SerialCall tool command)
  have "quota_check c tool q command = ledger_check l tool q command" for q
  proof -
    have "map_option (per_command c tool) command = map_option (\<lambda>cmd. times (\<lambda>d. d = (tool, Some cmd)) (snd l)) command"
      using assms by (cases command) (simp_all add: counts_ledger_def)
    with assms show ?thesis by (simp add: quota_check_def ledger_check_def counts_ledger_def split: option.split)
  qed
  with SerialCall assms counts_record_ledger [OF assms] show ?thesis by simp
next
  case (ReadOnlyRound names)
  with counts_round_ledger [OF assms] show ?thesis by simp
next
  case TurnBegins
  with assms show ?thesis
    by (simp add: counts_ledger_def counts_begin_turn_def per_session_def per_turn_def per_command_def)
next
  case QuotaReset
  then show ?thesis by (simp add: counts_ledger_def counts_reset_def per_session_def per_turn_def per_command_def)
qed

interpretation quota_ledger: simulation "quota_step tools" "ledger_step tools" counts_ledger for tools
  by unfold_locales (rule quota_step_ledger)

text \<open>
  C34. The counters implement a ledger: over any sequence of calls, read-only rounds, turns and
  resets, the refusals decided by the counters are those decided by counting, for each call, the
  dispatches of the tool and of the command recorded before it in the session and in the turn, and
  the counters are these counts.
\<close>

theorem quota_counters_are_a_ledger:
  "run_outputs (quota_step tools) counts_new es = run_outputs (ledger_step tools) ([], []) es
   \<and> counts_ledger (run_state (quota_step tools) counts_new es) (run_state (ledger_step tools) ([], []) es)"
proof -
  have "counts_ledger counts_new ([], [])"
    by (simp add: counts_ledger_def counts_new_def per_session_def per_turn_def per_command_def)
  then show ?thesis by (rule quota_ledger.run_related)
qed

section \<open>Hard caps\<close>

definition within_quota :: "(string, tool_quota) hmap \<Rightarrow> tool_counts \<Rightarrow> bool" where
  "within_quota tools c =
     (\<forall>tool q. quota_for tools tool = Some q \<longrightarrow>
        (quota_turn q > 0 \<longrightarrow> per_turn c tool \<le> quota_turn q)
        \<and> (quota_session q > 0 \<longrightarrow> per_session c tool \<le> quota_session q)
        \<and> (\<forall>cmd. quota_command q > 0 \<longrightarrow> per_command c tool cmd \<le> quota_command q))"

lemma record_within:
  assumes "within_quota tools c" "\<not> is_hard (quota_check c tool (quota_for tools tool) command)"
  shows "within_quota tools (counts_record tool command c)"
  unfolding within_quota_def
proof (intro allI impI)
  fix other q
  assume q: "quota_for tools other = Some q"
  have old: "(quota_turn q > 0 \<longrightarrow> per_turn c other \<le> quota_turn q)
      \<and> (quota_session q > 0 \<longrightarrow> per_session c other \<le> quota_session q)
      \<and> (\<forall>cmd. quota_command q > 0 \<longrightarrow> per_command c other cmd \<le> quota_command q)"
    using assms(1) q by (simp add: within_quota_def)
  have free: "(quota_turn q > 0 \<longrightarrow> per_turn c other < quota_turn q)
      \<and> (quota_session q > 0 \<longrightarrow> per_session c other < quota_session q)
      \<and> (\<forall>cmd. command = Some cmd \<longrightarrow> quota_command q > 0 \<longrightarrow> per_command c other cmd < quota_command q)"
    if "other = tool"
    using assms(2) q that by (auto simp: quota_check_def verdict_on_def split: if_splits option.splits)
  show "(quota_turn q > 0 \<longrightarrow> per_turn (counts_record tool command c) other \<le> quota_turn q)
      \<and> (quota_session q > 0 \<longrightarrow> per_session (counts_record tool command c) other \<le> quota_session q)
      \<and> (\<forall>cmd. quota_command q > 0 \<longrightarrow> per_command (counts_record tool command c) other cmd \<le> quota_command q)"
    using old free
    by (auto simp: counts_record_def per_turn_def per_session_def per_command_def Suc_le_eq split: option.splits)
qed

definition serial_event :: "quota_event \<Rightarrow> bool" where
  "serial_event e = (case e of ReadOnlyRound _ \<Rightarrow> False | _ \<Rightarrow> True)"

text \<open>
  Serial dispatches keep every hard cap: after any sequence of checked calls, turns and resets,
  no tool has been dispatched more often than its caps allow, this turn, this session, or with one
  command this turn.
\<close>

theorem serial_calls_keep_quota:
  assumes "list_all serial_event es"
  shows "within_quota tools (run_state (quota_step tools) counts_new es)"
proof -
  have "within_quota tools c \<Longrightarrow> list_all serial_event fs \<Longrightarrow> within_quota tools (run_state (quota_step tools) c fs)" for c fs
  proof (induction fs arbitrary: c)
    case (Cons e fs)
    have "within_quota tools (snd (quota_step tools e c))"
    proof (cases e)
      case (SerialCall tool command)
      with Cons.prems(1) record_within [OF Cons.prems(1)] show ?thesis by simp
    qed (use Cons.prems in \<open>auto simp: serial_event_def within_quota_def counts_begin_turn_def counts_reset_def
        per_turn_def per_session_def per_command_def\<close>)
    with Cons show ?case by simp
  qed simp
  moreover have "within_quota tools counts_new"
    by (simp add: within_quota_def counts_new_def per_turn_def per_session_def per_command_def)
  ultimately show ?thesis using assms by blast
qed

definition one_read :: "(string, tool_quota) hmap" where
  "one_read = [(''read_file'', \<lparr> quota_turn = 1, quota_session = 0, quota_command = 0 \<rparr>)]"

theorem serial_calls_keep_quota_witness:
  "within_quota one_read (run_state (quota_step one_read) counts_new [SerialCall ''read_file'' None, SerialCall ''read_file'' None])"
  by (rule serial_calls_keep_quota) (simp add: serial_event_def)

text \<open>
  Two agents that both check before either records go past the cap: both are admitted with one call
  allowed.
\<close>

lemma interleaved_calls_exceed_cap:
  "\<not> is_hard (quota_check counts_new ''read_file'' (quota_for one_read ''read_file'') None)
   \<and> \<not> within_quota one_read (counts_record ''read_file'' None (counts_record ''read_file'' None counts_new))"
proof
  show "\<not> is_hard (quota_check counts_new ''read_file'' (quota_for one_read ''read_file'') None)"
    by code_simp
  let ?c = "counts_record ''read_file'' None (counts_record ''read_file'' None counts_new)"
  let ?q = "\<lparr> quota_turn = 1, quota_session = 0, quota_command = 0 \<rparr>"
  have "quota_for one_read ''read_file'' = Some ?q" "per_turn ?c ''read_file'' = 2" by code_simp+
  then show "\<not> within_quota one_read ?c"
    unfolding within_quota_def by (intro notI) (drule spec [of _ "''read_file''"], drule spec [of _ ?q], simp)
qed

text \<open>A read-only round goes past the cap: its calls are counted, never refused.\<close>

lemma read_only_round_exceeds_cap:
  "run_outputs (quota_step one_read) counts_new [SerialCall ''read_file'' None, SerialCall ''read_file'' None] = [True, False]
   \<and> per_turn (run_state (quota_step one_read) counts_new [ReadOnlyRound [''read_file'', ''read_file'', ''read_file'']]) ''read_file'' = 3"
  by code_simp

end
