(* ===== verification/Kod_Plan.thy ===== *)
theory Kod_Plan
  imports Kod_Text
begin

text \<open>
  The plan of a transcript, \<open>crates/kod-core-state/src/plan.rs\<close>: its steps, every update, the
  block it renders, the names an autosave claims. The confidence and the progress fraction, which
  are floating-point numbers, are left out; the clock is an argument. The lemmas show that the
  structure of a plan is kept, that advancing drains it, that the current step is the one in
  progress as long as the list of steps does not change, and what an edit of that list breaks.
\<close>

section \<open>Plans\<close>

datatype plan_status = StepPending | StepInProgress | StepDone | StepBlocked | StepSkipped

record plan_step =
  step_id :: u32
  step_text :: string
  step_status :: plan_status
  step_rationale :: "string option"
  step_depends :: "u32 list"

record plan =
  plan_goal :: string
  plan_steps :: "plan_step list"
  plan_current :: nat
  plan_notes :: "(u32, string list) hmap"
  plan_created_ms :: u64
  reference_paths :: "string list"

definition fresh_step :: "u32 \<Rightarrow> string \<Rightarrow> plan_status \<Rightarrow> plan_step" where
  "fresh_step i txt st = \<lparr> step_id = i, step_text = txt, step_status = st, step_rationale = None, step_depends = [] \<rparr>"

definition plan_id :: "nat \<Rightarrow> u32" where
  "plan_id i = (if i < 2 ^ 32 then of_nat i else - 1)"

definition plan_new :: "string \<Rightarrow> string list \<Rightarrow> u64 \<Rightarrow> plan" where
  "plan_new g texts now =
     \<lparr> plan_goal = g,
       plan_steps = map (\<lambda>(i, txt). fresh_step (plan_id i) txt (if i = 0 then StepInProgress else StepPending)) (enumerate 0 texts),
       plan_current = 0, plan_notes = [], plan_created_ms = now, reference_paths = [] \<rparr>"

definition current_step :: "plan \<Rightarrow> plan_step option" where
  "current_step p = (if plan_current p < length (plan_steps p) then Some (plan_steps p ! plan_current p) else None)"

definition set_step_status :: "plan_status \<Rightarrow> plan_step \<Rightarrow> plan_step" where
  "set_step_status st s = s\<lparr>step_status := st\<rparr>"

text \<open>The index of the first element that satisfies a predicate.\<close>

fun find_index :: "('a \<Rightarrow> bool) \<Rightarrow> 'a list \<Rightarrow> nat option" where
  "find_index P [] = None"
| "find_index P (x # xs) = (if P x then Some 0 else map_option Suc (find_index P xs))"

definition finish_current :: "plan \<Rightarrow> plan_step list" where
  "finish_current p =
     (if plan_current p < length (plan_steps p)
      then (plan_steps p)[plan_current p := set_step_status StepDone (plan_steps p ! plan_current p)]
      else plan_steps p)"

definition plan_advance :: "plan \<Rightarrow> plan" where
  "plan_advance p =
     (let steps = finish_current p in
      case find_index (\<lambda>s. step_status s = StepPending) steps of
        Some i \<Rightarrow> p\<lparr>plan_steps := steps[i := set_step_status StepInProgress (steps ! i)], plan_current := i\<rparr>
      | None \<Rightarrow> p\<lparr>plan_steps := steps, plan_current := (if steps \<noteq> [] then length steps - 1 else plan_current p)\<rparr>)"

text \<open>Change the first step with an id.\<close>

definition update_step :: "u32 \<Rightarrow> (plan_step \<Rightarrow> plan_step) \<Rightarrow> plan_step list \<Rightarrow> plan_step list" where
  "update_step i f steps =
     (case find_index (\<lambda>s. step_id s = i) steps of Some k \<Rightarrow> steps[k := f (steps ! k)] | None \<Rightarrow> steps)"

definition plan_set_status :: "u32 \<Rightarrow> plan_status \<Rightarrow> plan \<Rightarrow> plan" where
  "plan_set_status i st p = p\<lparr>plan_steps := update_step i (set_step_status st) (plan_steps p)\<rparr>"

definition plan_replace_text :: "u32 \<Rightarrow> string \<Rightarrow> plan \<Rightarrow> plan" where
  "plan_replace_text i txt p = p\<lparr>plan_steps := update_step i (\<lambda>s. s\<lparr>step_text := txt\<rparr>) (plan_steps p)\<rparr>"

definition max_id :: "plan_step list \<Rightarrow> u32" where
  "max_id steps = foldl max 0 (map step_id steps)"

definition plan_insert_after :: "u32 \<Rightarrow> string \<Rightarrow> plan \<Rightarrow> u32 \<times> plan" where
  "plan_insert_after after txt p =
     (let new_id = max_id (plan_steps p) + 1;
          pos = (case find_index (\<lambda>s. step_id s = after) (plan_steps p) of
                   Some i \<Rightarrow> i + 1 | None \<Rightarrow> length (plan_steps p))
      in (new_id, p\<lparr>plan_steps := take pos (plan_steps p) @ fresh_step new_id txt StepPending # drop pos (plan_steps p)\<rparr>))"

definition plan_remove :: "u32 \<Rightarrow> plan \<Rightarrow> plan" where
  "plan_remove i p =
     (let steps = filter (\<lambda>s. step_id s \<noteq> i) (plan_steps p)
      in p\<lparr>plan_steps := steps,
           plan_current := (if plan_current p \<ge> length steps \<and> steps \<noteq> [] then length steps - 1 else plan_current p)\<rparr>)"

definition plan_annotate :: "u32 \<Rightarrow> string \<Rightarrow> plan \<Rightarrow> plan" where
  "plan_annotate i note p =
     p\<lparr>plan_notes := AList.update i ((case map_of (plan_notes p) i of Some ns \<Rightarrow> ns | None \<Rightarrow> []) @ [note]) (plan_notes p)\<rparr>"

section \<open>Updates\<close>

datatype plan_update =
    Advance
  | Annotate u32 string
  | InsertStep u32 string
  | RemoveStep u32
  | ReplaceStep u32 string
  | SetStatus u32 plan_status
  | ReferencePath string "bool option"

fun status_name :: "plan_status \<Rightarrow> string" where
  "status_name StepPending = ''Pending''"
| "status_name StepInProgress = ''InProgress''"
| "status_name StepDone = ''Done''"
| "status_name StepBlocked = ''Blocked''"
| "status_name StepSkipped = ''Skipped''"

definition show_u32 :: "u32 \<Rightarrow> string" where
  "show_u32 n = show_nat (unat n)"

fun plan_apply :: "plan_update \<Rightarrow> plan \<Rightarrow> string \<times> plan" where
  "plan_apply Advance p =
     (let p' = plan_advance p
      in (if plan_current p = plan_current p' then ''Plan is complete''
          else ''Advanced to step '' @ show_nat (plan_current p' + 1), p'))"
| "plan_apply (Annotate i note) p = (''Noted on step '' @ show_u32 (i + 1) @ '': '' @ note, plan_annotate i note p)"
| "plan_apply (InsertStep after txt) p =
     (let (new_id, p') = plan_insert_after after txt p
      in (''Inserted step '' @ show_u32 (new_id + 1) @ '' after '' @ show_u32 (after + 1), p'))"
| "plan_apply (RemoveStep i) p = (''Removed step '' @ show_u32 (i + 1), plan_remove i p)"
| "plan_apply (ReplaceStep i txt) p = (''Replaced step '' @ show_u32 (i + 1) @ '' with: '' @ txt, plan_replace_text i txt p)"
| "plan_apply (SetStatus i st) p = (''Step '' @ show_u32 (i + 1) @ '' now '' @ status_name st, plan_set_status i st p)"
| "plan_apply (ReferencePath path dropped) p =
     (if dropped = Some True
      then (''Reference path withdrawn: '' @ path, p\<lparr>reference_paths := filter (\<lambda>q. q \<noteq> path) (reference_paths p)\<rparr>)
      else if path \<in> set (reference_paths p) then (''Reference path already protected: '' @ path, p)
      else (''Reference path protected: '' @ path, p\<lparr>reference_paths := reference_paths p @ [path]\<rparr>))"

section \<open>The prompt block\<close>

fun status_marker :: "plan_status \<Rightarrow> string" where
  "status_marker StepDone = [CHR 0xE2, CHR 0x9C, CHR 0x93]"
| "status_marker StepInProgress = [CHR 0xE2, CHR 0x86, CHR 0x92]"
| "status_marker StepBlocked = ''!''"
| "status_marker StepSkipped = [CHR 0xC2, CHR 0xB7]"
| "status_marker StepPending = '' ''"

definition eol :: string where
  "eol = [CHR 0x0A]"

definition render_step :: "plan \<Rightarrow> plan_step \<Rightarrow> string" where
  "render_step p s =
     status_marker (step_status s) @ '' '' @ show_u32 (step_id s + 1) @ ''. '' @ step_text s @ eol
     @ (case map_of (plan_notes p) (step_id s) of
          None \<Rightarrow> []
        | Some ns \<Rightarrow> concat (map (\<lambda>n. ''   note: '' @ n @ eol) ns))"

definition render_prompt_block :: "plan \<Rightarrow> string" where
  "render_prompt_block p =
     ''## Plan'' @ eol @ eol @ concat (map (render_step p) (plan_steps p))
     @ (case current_step p of
          None \<Rightarrow> []
        | Some s \<Rightarrow> eol @ ''Current step: '' @ show_u32 (step_id s + 1) @ ''. '' @ step_text s @ eol)"

section \<open>Autosave names\<close>

definition max_autosave_candidates :: nat where
  "max_autosave_candidates = 1000"

definition max_autosave_stem_chars :: nat where
  "max_autosave_stem_chars = 32"

definition is_lower_alnum :: "char \<Rightarrow> bool" where
  "is_lower_alnum c = (let n = (of_char c :: nat) in (48 \<le> n \<and> n \<le> 57) \<or> (97 \<le> n \<and> n \<le> 122))"

text \<open>The loop of \<open>slugify\<close>, over the characters; what it pushes is ASCII, one byte each.\<close>

fun slug_loop :: "string \<Rightarrow> bool \<Rightarrow> string list \<Rightarrow> string" where
  "slug_loop out last_dash [] = out"
| "slug_loop out last_dash (ch # chs) =
     (let c = ascii_lower (hd ch) in
      if length ch = 1 \<and> is_lower_alnum c then
        (if length out \<ge> max_autosave_stem_chars then out else slug_loop (out @ [c]) False chs)
      else if \<not> last_dash \<and> out \<noteq> [] then slug_loop (out @ ''-'') True chs
      else slug_loop out last_dash chs)"

definition trim_dashes :: "string \<Rightarrow> string" where
  "trim_dashes s = rev (dropWhile (\<lambda>c. c = CHR ''-'') (rev s))"

definition slugify :: "string \<Rightarrow> string" where
  "slugify txt =
     (let out = trim_dashes (slug_loop [] False (utf8_chars txt)) in if out = [] then ''plan'' else out)"

definition autosave_name :: "string \<Rightarrow> string \<Rightarrow> nat \<Rightarrow> string" where
  "autosave_name date slug n =
     (if n = 0 then ''plan-'' @ date @ ''-'' @ slug @ ''.md''
      else ''plan-'' @ date @ ''-'' @ slug @ ''-'' @ show_nat n @ ''.md'')"

text \<open>The first candidate the exclusive open succeeds on; \<open>taken\<close> are the names that exist.\<close>

definition autosave_claim :: "(string \<Rightarrow> bool) \<Rightarrow> string \<Rightarrow> plan \<Rightarrow> string option" where
  "autosave_claim taken date p =
     find (\<lambda>name. \<not> taken name) (map (autosave_name date (slugify (plan_goal p))) [0..<max_autosave_candidates])"

section \<open>The first match and what is written there\<close>

lemma find_index_None: "find_index P xs = None \<longleftrightarrow> (\<forall>x \<in> set xs. \<not> P x)"
  by (induction xs) auto

lemma find_index_Some:
  "find_index P xs = Some i \<Longrightarrow> i < length xs \<and> P (xs ! i) \<and> (\<forall>j < i. \<not> P (xs ! j))"
proof (induction xs arbitrary: i)
  case (Cons x xs)
  show ?case
  proof (cases "P x")
    case False
    then obtain j where j: "find_index P xs = Some j" "i = Suc j"
      using Cons.prems by auto
    show ?thesis
      using Cons.IH [OF j(1)] False by (auto simp: j(2) nth_Cons split: nat.splits)
  qed (use Cons.prems in auto)
qed simp

lemma map_update_same: "i < length xs \<Longrightarrow> f y = f (xs ! i) \<Longrightarrow> map f (xs[i := y]) = map f xs"
  by (simp add: map_update list_update_same_conv)

lemma set_step_status_simps [simp]:
  "step_id (set_step_status st s) = step_id s" "step_status (set_step_status st s) = st"
  by (simp_all add: set_step_status_def)

lemma finish_current_ids [simp]: "map step_id (finish_current p) = map step_id (plan_steps p)"
  by (simp add: finish_current_def map_update_same)

lemma finish_current_length [simp]: "length (finish_current p) = length (plan_steps p)"
  by (simp add: finish_current_def)

lemma finish_current_Nil [simp]: "finish_current p = [] \<longleftrightarrow> plan_steps p = []"
  by (metis finish_current_length length_0_conv)

lemma update_step_ids:
  assumes "\<And>s. step_id (f s) = step_id s"
  shows "map step_id (update_step i f steps) = map step_id steps"
  using find_index_Some [of "\<lambda>s. step_id s = i" steps] assms
  by (auto simp: update_step_def map_update_same split: option.splits)

section \<open>Structure\<close>

text \<open>
  What every update keeps. The bound on the ids is what an insertion consumes: an id is one more
  than the largest, so it is fresh as long as it does not wrap around.
\<close>

definition plan_ok :: "nat \<Rightarrow> plan \<Rightarrow> bool" where
  "plan_ok b p =
     (distinct (map step_id (plan_steps p)) \<and> (\<forall>i \<in> set (map step_id (plan_steps p)). unat i \<le> b)
      \<and> (plan_current p < length (plan_steps p) \<or> plan_steps p = [] \<and> plan_current p = 0)
      \<and> keys_distinct (plan_notes p) \<and> distinct (reference_paths p))"

lemma foldl_max: "foldl max a xs = Max (insert a (set xs))" for a :: "'a::linorder"
proof (induction xs arbitrary: a)
  case (Cons x xs)
  show ?case
    unfolding foldl_Cons Cons.IH
    by (cases "xs = []") (simp_all add: insert_commute max.assoc)
qed simp

lemma max_id_ge: "i \<in> set (map step_id steps) \<Longrightarrow> i \<le> max_id steps"
  unfolding max_id_def foldl_max by (rule Max_ge) auto

lemma max_id_le: "\<forall>i \<in> set (map step_id steps). unat i \<le> b \<Longrightarrow> unat (max_id steps) \<le> b"
proof -
  assume b: "\<forall>i \<in> set (map step_id steps). unat i \<le> b"
  have "max_id steps \<in> insert 0 (set (map step_id steps))"
    unfolding max_id_def foldl_max by (rule Max_in) auto
  then show ?thesis using b by auto
qed

lemma next_id_fresh:
  assumes "\<forall>i \<in> set (map step_id steps). unat i \<le> b" and "Suc b < 2 ^ 32"
  shows "max_id steps + 1 \<notin> set (map step_id steps)" and "unat (max_id steps + 1) \<le> Suc b"
proof -
  have m: "unat (max_id steps) \<le> b"
    using assms(1) by (rule max_id_le)
  then have u: "unat (max_id steps + 1) = Suc (unat (max_id steps))"
    using assms(2) by (simp add: unat_word_ariths)
  show "unat (max_id steps + 1) \<le> Suc b"
    using m u by simp
  show "max_id steps + 1 \<notin> set (map step_id steps)"
  proof
    assume "max_id steps + 1 \<in> set (map step_id steps)"
    then have "unat (max_id steps + 1) \<le> unat (max_id steps)"
      using max_id_ge word_le_nat_alt by blast
    then show False using u by simp
  qed
qed

lemma plan_ok_mono: "plan_ok b p \<Longrightarrow> b \<le> c \<Longrightarrow> plan_ok c p"
  unfolding plan_ok_def using order_trans by blast

lemma advance_ids [simp]: "map step_id (plan_steps (plan_advance p)) = map step_id (plan_steps p)"
  using find_index_Some [of "\<lambda>s. step_status s = StepPending" "finish_current p"]
  by (auto simp: plan_advance_def Let_def map_update_same split: option.splits)

lemma advance_length [simp]: "length (plan_steps (plan_advance p)) = length (plan_steps p)"
  by (simp add: plan_advance_def Let_def split: option.splits)

lemma advance_current:
  "plan_steps p \<noteq> [] \<Longrightarrow> plan_current (plan_advance p) < length (plan_steps p)"
  "plan_steps p = [] \<Longrightarrow> plan_current (plan_advance p) = plan_current p"
proof -
  assume "plan_steps p \<noteq> []"
  then show "plan_current (plan_advance p) < length (plan_steps p)"
    using find_index_Some [of "\<lambda>s. step_status s = StepPending" "finish_current p"]
    by (cases "find_index (\<lambda>s. step_status s = StepPending) (finish_current p)")
       (simp_all add: plan_advance_def Let_def)
next
  assume "plan_steps p = []"
  then show "plan_current (plan_advance p) = plan_current p"
    by (simp add: plan_advance_def Let_def finish_current_def)
qed

lemma advance_rest [simp]:
  "plan_notes (plan_advance p) = plan_notes p" "reference_paths (plan_advance p) = reference_paths p"
  by (simp_all add: plan_advance_def Let_def split: option.splits)

lemma advance_ok: "plan_ok b p \<Longrightarrow> plan_ok b (plan_advance p)"
proof -
  assume ok: "plan_ok b p"
  show "plan_ok b (plan_advance p)"
  proof (cases "plan_steps p = []")
    case True
    then have "plan_steps (plan_advance p) = []" by (metis advance_length length_0_conv)
    then show ?thesis using ok True by (simp add: plan_ok_def advance_current(2) del: advance_ids)
  next
    case False
    then show ?thesis
      using ok advance_current(1) [OF False] unfolding plan_ok_def advance_ids advance_rest advance_length by simp
  qed
qed

lemma insert_ok:
  assumes "plan_ok b p" "Suc b < 2 ^ 32"
  shows "plan_ok (Suc b) (snd (plan_insert_after after txt p))"
proof -
  let ?s = "plan_steps p"
  define k where "k = (case find_index (\<lambda>s. step_id s = after) ?s of Some i \<Rightarrow> i + 1 | None \<Rightarrow> length ?s)"
  have ids: "\<forall>i \<in> set (map step_id ?s). unat i \<le> b" and d: "distinct (map step_id ?s)"
    using assms(1) unfolding plan_ok_def by blast+
  note fresh = next_id_fresh [OF ids assms(2)]
  let ?new = "take k ?s @ fresh_step (max_id ?s + 1) txt StepPending # drop k ?s"
  have perm: "mset (map step_id ?new) = add_mset (max_id ?s + 1) (mset (map step_id ?s))"
    by (simp add: fresh_step_def) (metis append_take_drop_id image_mset_union mset_append)
  have "distinct (map step_id ?new)"
    using perm d fresh(1) mset_eq_imp_distinct_iff [of "map step_id ?new" "(max_id ?s + 1) # map step_id ?s"] by auto
  moreover have "\<forall>i \<in> set (map step_id ?new). unat i \<le> Suc b"
    using perm ids fresh(2) mset_eq_setD [of "map step_id ?new" "(max_id ?s + 1) # map step_id ?s"] le_SucI by auto
  moreover have "length ?new = Suc (length ?s)" by simp
  ultimately show ?thesis
    using assms(1) unfolding plan_ok_def plan_insert_after_def Let_def k_def by auto
qed

lemma remove_ok:
  assumes "plan_ok b p"
  shows "plan_ok b (plan_remove i p)"
proof -
  let ?s = "plan_steps p" and ?f = "filter (\<lambda>s. step_id s \<noteq> i) (plan_steps p)"
  have d: "distinct (map step_id ?s)" using assms unfolding plan_ok_def by blast
  have "length ?s \<le> 1" if "?f = []"
  proof -
    have "set (map step_id ?s) \<subseteq> {i}" using that by (auto simp: filter_empty_conv)
    then have "card (set (map step_id ?s)) \<le> 1" using card_mono [of "{i}"] by fastforce
    then show ?thesis using distinct_card [OF d] by simp
  qed
  then have "plan_current p = 0" if "?f = []"
    using assms that unfolding plan_ok_def by fastforce
  then show ?thesis
    using assms unfolding plan_ok_def plan_remove_def Let_def
    by (auto simp: distinct_map_filter not_le)
qed

lemma steps_changed_ok:
  assumes "plan_ok b p" "map step_id steps = map step_id (plan_steps p)"
  shows "plan_ok b (p\<lparr>plan_steps := steps\<rparr>)"
  using assms(1) map_eq_imp_length_eq [OF assms(2)] unfolding plan_ok_def
  by (simp add: assms(2) del: length_map) (metis length_0_conv)

lemma set_status_ok: "plan_ok b p \<Longrightarrow> plan_ok b (plan_set_status i st p)"
  unfolding plan_set_status_def by (intro steps_changed_ok update_step_ids) simp_all

lemma replace_text_ok: "plan_ok b p \<Longrightarrow> plan_ok b (plan_replace_text i txt p)"
  unfolding plan_replace_text_def by (intro steps_changed_ok update_step_ids) simp_all

lemma annotate_ok: "plan_ok b p \<Longrightarrow> plan_ok b (plan_annotate i note p)"
  unfolding plan_ok_def plan_annotate_def by (simp add: keys_distinct_update)

lemma apply_ok: "plan_ok b p \<Longrightarrow> Suc b < 2 ^ 32 \<Longrightarrow> plan_ok (Suc b) (snd (plan_apply u p))"
proof (cases u)
  case (InsertStep a t)
  assume "plan_ok b p" "Suc b < 2 ^ 32"
  then show ?thesis using insert_ok [of b p a t] by (simp add: InsertStep case_prod_unfold Let_def)
next
  case (ReferencePath path dropped)
  assume "plan_ok b p"
  then have "plan_ok b (snd (plan_apply u p))" by (auto simp: ReferencePath plan_ok_def)
  then show ?thesis by (rule plan_ok_mono) simp
qed (simp_all add: Let_def plan_ok_mono [OF advance_ok] plan_ok_mono [OF remove_ok] plan_ok_mono [OF set_status_ok]
        plan_ok_mono [OF replace_text_ok] plan_ok_mono [OF annotate_ok])

lemma run_apply_ok: "plan_ok b p \<Longrightarrow> b + length us < 2 ^ 32 \<Longrightarrow> plan_ok (b + length us) (run_state plan_apply p us)"
proof (induction us arbitrary: b p)
  case (Cons u us)
  then have "plan_ok (Suc b) (snd (plan_apply u p))" by (intro apply_ok) auto
  from Cons.IH [OF this] Cons.prems show ?case by simp
qed simp

lemma new_ok: "length texts < 2 ^ 32 \<Longrightarrow> plan_ok (length texts) (plan_new g texts now)"
proof -
  assume n: "length texts < 2 ^ 32"
  have "map step_id (plan_steps (plan_new g texts now)) = map plan_id (map fst (enumerate 0 texts))"
    unfolding map_map by (simp add: plan_new_def fresh_step_def case_prod_unfold comp_def del: map_fst_enumerate)
  also have "\<dots> = map of_nat [0..<length texts]"
    using n by (auto simp: plan_id_def)
  finally have ids: "map step_id (plan_steps (plan_new g texts now)) = map of_nat [0..<length texts]" .
  have inj: "inj_on (of_nat :: nat \<Rightarrow> u32) {0..<length texts}"
    by (rule inj_on_inverseI [where g = unat]) (use n in \<open>simp add: unat_of_nat\<close>)
  have "\<forall>i \<in> set (map of_nat [0..<length texts] :: u32 list). unat i \<le> length texts"
    using n by (auto simp: unat_of_nat)
  then show ?thesis
    using inj unfolding plan_ok_def ids
    by (auto simp: distinct_map plan_new_def)
qed


text \<open>
  The structure of a plan: after any sequence of updates of a fresh plan (with fewer than 2^32
  steps and updates together) the ids of its steps are pairwise different, the index of the current step is one of
  the list, or 0 when the list is empty, a step has one list of notes, and no reference path is declared twice.
\<close>

theorem plan_stays_well_formed:
  assumes "length texts + length us < 2 ^ 32" and "p = run_state plan_apply (plan_new g texts now) us"
  shows "distinct (map step_id (plan_steps p)) \<and> (plan_current p < length (plan_steps p) \<or> plan_steps p = [] \<and> plan_current p = 0)
         \<and> keys_distinct (plan_notes p) \<and> distinct (reference_paths p)"
  using run_apply_ok [OF new_ok, of texts us g now] assms unfolding plan_ok_def by auto

lemma plan_stays_well_formed_witness:
  "distinct (map step_id (plan_steps (run_state plan_apply (plan_new ''g'' [''a'', ''b''] 0) [InsertStep 0 ''c'', RemoveStep 1, Advance])))"
  by (rule plan_stays_well_formed [THEN conjunct1, OF _ refl]) simp

section \<open>Advancing\<close>

definition pending_steps :: "plan \<Rightarrow> nat" where
  "pending_steps p = length (filter (\<lambda>s. step_status s = StepPending) (plan_steps p))"

definition status_at :: "plan \<Rightarrow> nat \<Rightarrow> plan_status" where
  "status_at p i = step_status (plan_steps p ! i)"

lemma status_finish:
  "i < length (plan_steps p) \<Longrightarrow>
   step_status (finish_current p ! i) = (if i = plan_current p then StepDone else status_at p i)"
  by (simp add: finish_current_def status_at_def nth_list_update)

text \<open>What advancing does to every step, with the next pending step or without one.\<close>

lemma advance_to_next:
  assumes "i < length (plan_steps p)" "i \<noteq> plan_current p" "status_at p i = StepPending"
    and "\<forall>j < i. j \<noteq> plan_current p \<longrightarrow> status_at p j \<noteq> StepPending"
  shows "plan_current (plan_advance p) = i"
    and "k < length (plan_steps p) \<Longrightarrow> status_at (plan_advance p) k
          = (if k = i then StepInProgress else if k = plan_current p then StepDone else status_at p k)"
proof -
  let ?P = "\<lambda>s. step_status s = StepPending"
  have "?P (finish_current p ! i)" using assms status_finish by simp
  then obtain j where j: "find_index ?P (finish_current p) = Some j"
    using find_index_None [of ?P "finish_current p"] assms(1) nth_mem [of i "finish_current p"]
    by (cases "find_index ?P (finish_current p)") auto
  note J = find_index_Some [OF j]
  have "j = i"
  proof (rule linorder_cases [of j i])
    assume "j < i"
    then show ?thesis using J assms(4) status_finish [of j p] by (auto split: if_splits)
  next
    assume "i < j"
    then show ?thesis using J \<open>?P (finish_current p ! i)\<close> by blast
  qed
  then show "plan_current (plan_advance p) = i"
    using j by (simp add: plan_advance_def Let_def)
  show "status_at (plan_advance p) k
          = (if k = i then StepInProgress else if k = plan_current p then StepDone else status_at p k)"
    if "k < length (plan_steps p)"
    using j that status_finish [OF that]
    by (simp add: \<open>j = i\<close> status_at_def plan_advance_def Let_def nth_list_update)
qed

lemma advance_at_end:
  assumes "\<forall>j < length (plan_steps p). j \<noteq> plan_current p \<longrightarrow> status_at p j \<noteq> StepPending"
  shows "plan_current (plan_advance p) = (if plan_steps p = [] then plan_current p else length (plan_steps p) - 1)"
    and "k < length (plan_steps p) \<Longrightarrow>
         status_at (plan_advance p) k = (if k = plan_current p then StepDone else status_at p k)"
proof -
  have "find_index (\<lambda>s. step_status s = StepPending) (finish_current p) = None"
    unfolding find_index_None using assms status_finish [of _ p]
    by (auto simp: in_set_conv_nth split: if_splits)
  moreover have "finish_current p = [] \<longleftrightarrow> plan_steps p = []"
    by (metis finish_current_length length_0_conv)
  ultimately have a: "plan_advance p = p\<lparr>plan_steps := finish_current p,
      plan_current := (if plan_steps p = [] then plan_current p else length (plan_steps p) - 1)\<rparr>"
    by (simp add: plan_advance_def Let_def)
  show "plan_current (plan_advance p) = (if plan_steps p = [] then plan_current p else length (plan_steps p) - 1)"
    by (simp add: a)
  show "k < length (plan_steps p) \<Longrightarrow>
         status_at (plan_advance p) k = (if k = plan_current p then StepDone else status_at p k)"
    using status_finish [of k p] by (simp add: a status_at_def)
qed

text \<open>The first pending step that is not the current one, when there is one.\<close>

lemma next_pending_cases:
  obtains (next_step) i where "i < length (plan_steps p)" "i \<noteq> plan_current p" "status_at p i = StepPending"
      "\<forall>j < i. j \<noteq> plan_current p \<longrightarrow> status_at p j \<noteq> StepPending"
  | (at_end) "\<forall>j < length (plan_steps p). j \<noteq> plan_current p \<longrightarrow> status_at p j \<noteq> StepPending"
proof (cases "\<exists>i. i < length (plan_steps p) \<and> i \<noteq> plan_current p \<and> status_at p i = StepPending")
  case True
  then obtain i where "i < length (plan_steps p) \<and> i \<noteq> plan_current p \<and> status_at p i = StepPending"
    and "\<forall>j < i. \<not> (j < length (plan_steps p) \<and> j \<noteq> plan_current p \<and> status_at p j = StepPending)"
    unfolding exists_least_iff [of "\<lambda>i. i < length (plan_steps p) \<and> i \<noteq> plan_current p \<and> status_at p i = StepPending"]
    by blast
  then show ?thesis by (intro next_step [of i]) auto
qed (use at_end in blast)

lemma pending_steps_card: "pending_steps p = card {i. i < length (plan_steps p) \<and> status_at p i = StepPending}"
  by (simp add: pending_steps_def status_at_def length_filter_conv_card)

lemma advance_pending: "pending_steps (plan_advance p) \<le> pending_steps p - 1"
proof (cases p rule: next_pending_cases)
  case (next_step i)
  let ?A = "\<lambda>p. {k. k < length (plan_steps p) \<and> status_at p k = StepPending}"
  have "?A (plan_advance p) \<subseteq> ?A p - {i}"
    using advance_to_next(2) [OF next_step] by (auto split: if_splits)
  then have "card (?A (plan_advance p)) \<le> card (?A p - {i})"
    by (intro card_mono) auto
  then show ?thesis
    using next_step by (simp add: pending_steps_card card_Diff_singleton)
next
  case at_end
  have none: "status_at (plan_advance p) k \<noteq> StepPending" if "k < length (plan_steps p)" for k
    using advance_at_end(2) [OF at_end that] at_end that by auto
  have "{k. k < length (plan_steps (plan_advance p)) \<and> status_at (plan_advance p) k = StepPending} = {}"
    using none by auto
  then show ?thesis
    by (simp only: pending_steps_card card.empty)
qed

lemma advance_pending_pow: "pending_steps ((plan_advance ^^ n) p) \<le> pending_steps p - n"
proof (induction n)
  case (Suc n)
  have "pending_steps ((plan_advance ^^ Suc n) p) \<le> pending_steps ((plan_advance ^^ n) p) - 1"
    using advance_pending by simp
  then show ?case using Suc by simp
qed simp

lemma advance_length_pow [simp]: "length (plan_steps ((plan_advance ^^ n) p)) = length (plan_steps p)"
  by (induction n) auto

text \<open>A step that was pending, and has been left by an advance, is in progress or done.\<close>

lemma advance_status:
  assumes "k < length (plan_steps p)"
  shows "status_at (plan_advance p) k = status_at p k
     \<or> status_at p k = StepPending \<and> status_at (plan_advance p) k = StepInProgress
     \<or> k = plan_current p \<and> status_at (plan_advance p) k = StepDone"
proof (cases p rule: next_pending_cases)
  case (next_step i)
  then show ?thesis using advance_to_next(2) [OF next_step assms] by simp
next
  case at_end
  then show ?thesis using advance_at_end(2) [OF at_end assms] by simp
qed

lemma pending_is_taken_up:
  assumes "k < length (plan_steps p)" "status_at p k \<in> {StepPending, StepInProgress, StepDone}"
  shows "status_at ((plan_advance ^^ n) p) k \<in> {StepPending, StepInProgress, StepDone}"
proof (induction n)
  case (Suc n)
  then show ?case
    using advance_status [of k "(plan_advance ^^ n) p"] assms(1) by auto
qed (use assms in simp)

text \<open>
  Advancing ends: after as many advances as a plan has pending steps, or more, no step
  is pending, and each of the steps that were is in progress or done.
\<close>

theorem advancing_takes_up_every_step:
  assumes "pending_steps p \<le> n"
  shows "pending_steps ((plan_advance ^^ n) p) = 0
     \<and> (\<forall>k < length (plan_steps p). status_at p k = StepPending \<longrightarrow>
          status_at ((plan_advance ^^ n) p) k \<in> {StepInProgress, StepDone})"
proof
  show none: "pending_steps ((plan_advance ^^ n) p) = 0"
    using advance_pending_pow [of n p] assms by simp
  have "status_at ((plan_advance ^^ n) p) k \<noteq> StepPending" if "k < length (plan_steps p)" for k
    using none that unfolding pending_steps_card by simp
  then show "\<forall>k < length (plan_steps p). status_at p k = StepPending \<longrightarrow>
          status_at ((plan_advance ^^ n) p) k \<in> {StepInProgress, StepDone}"
    using pending_is_taken_up [of _ p n] by blast
qed

lemma advancing_takes_up_every_step_witness:
  "status_at ((plan_advance ^^ 2) (plan_new ''g'' [''a'', ''b'', ''c''] 0)) 1 \<in> {StepInProgress, StepDone}"
proof -
  have "pending_steps (plan_new ''g'' [''a'', ''b'', ''c''] 0) \<le> 2" by code_simp
  from conjunct2 [OF advancing_takes_up_every_step [OF this]] show ?thesis
    by (rule allE [of _ 1]) (simp add: plan_new_def status_at_def fresh_step_def enumerate_eq_zip eval_nat_numeral)
qed

text \<open>
  An update that neither edits the list of steps nor sets a status by hand. Under those, the
  statuses of a plan are those of a walk through its steps.
\<close>

fun keeps_steps :: "plan_update \<Rightarrow> bool" where
  "keeps_steps (InsertStep _ _) = False"
| "keeps_steps (RemoveStep _) = False"
| "keeps_steps (SetStatus _ _) = False"
| "keeps_steps _ = True"

definition walked :: "nat \<Rightarrow> plan \<Rightarrow> bool" where
  "walked c p =
     (plan_current p = min c (length (plan_steps p) - 1)
      \<and> (\<forall>k < length (plan_steps p).
           status_at p k = (if k < c then StepDone else if k = c then StepInProgress else StepPending)))"

lemma walked_new: "walked 0 (plan_new g texts now)"
  by (auto simp: walked_def status_at_def plan_new_def fresh_step_def nth_enumerate_eq)

lemma walked_advance: "walked c p \<Longrightarrow> walked (Suc c) (plan_advance p)"
proof (cases "Suc c < length (plan_steps p)")
  case True
  assume w: "walked c p"
  then have "plan_current p = c" "status_at p (Suc c) = StepPending"
    using True by (auto simp: walked_def)
  moreover have "\<forall>j < Suc c. j \<noteq> plan_current p \<longrightarrow> status_at p j \<noteq> StepPending"
    using w True by (auto simp: walked_def)
  ultimately have n: "Suc c < length (plan_steps p)" "Suc c \<noteq> plan_current p" "status_at p (Suc c) = StepPending"
      "\<forall>j < Suc c. j \<noteq> plan_current p \<longrightarrow> status_at p j \<noteq> StepPending"
    using True by simp_all
  show ?thesis
    unfolding walked_def advance_length
    using advance_to_next [OF n] w True by (auto simp: walked_def)
next
  case False
  assume w: "walked c p"
  then have e: "\<forall>j < length (plan_steps p). j \<noteq> plan_current p \<longrightarrow> status_at p j \<noteq> StepPending"
    using False by (auto simp: walked_def)
  show ?thesis
    unfolding walked_def advance_length
    using advance_at_end [OF e] w False by (auto simp: walked_def)
qed

lemma update_step_status:
  assumes "\<And>s. step_status (f s) = step_status s"
  shows "map step_status (update_step i f steps) = map step_status steps"
  using find_index_Some [of "\<lambda>s. step_id s = i" steps] assms
  by (auto simp: update_step_def map_update_same split: option.splits)

lemma walked_cong:
  assumes "map step_status (plan_steps q) = map step_status (plan_steps p)" "plan_current q = plan_current p"
  shows "walked c p \<Longrightarrow> walked c q"
proof -
  have "length (plan_steps q) = length (plan_steps p)"
    using map_eq_imp_length_eq [OF assms(1)] .
  moreover have "status_at q k = status_at p k" if "k < length (plan_steps p)" for k
    using arg_cong [OF assms(1), of "\<lambda>xs. xs ! k"] that calculation by (simp add: status_at_def)
  ultimately show "walked c p \<Longrightarrow> walked c q"
    using assms(2) by (simp add: walked_def)
qed

lemma walked_apply:
  "walked c p \<Longrightarrow> keeps_steps u \<Longrightarrow> walked (if u = Advance then Suc c else c) (snd (plan_apply u p))"
  by (cases u)
     (auto simp: Let_def plan_annotate_def plan_replace_text_def update_step_status
           intro: walked_advance walked_cong [of _ p])

lemma walked_run:
  "walked c p \<Longrightarrow> list_all keeps_steps us \<Longrightarrow> walked (c + count_list us Advance) (run_state plan_apply p us)"
proof (induction us arbitrary: c p)
  case (Cons u us)
  then have "walked (if u = Advance then Suc c else c) (snd (plan_apply u p))"
    by (intro walked_apply) simp_all
  from Cons.IH [OF this] Cons.prems(2) show ?case by (auto split: if_splits)
qed simp

lemma run_keeps_length:
  "list_all keeps_steps us \<Longrightarrow> length (plan_steps (run_state plan_apply p us)) = length (plan_steps p)"
proof (induction us arbitrary: p)
  case (Cons u us)
  have "length (plan_steps (snd (plan_apply u p))) = length (plan_steps p)"
    using Cons.prems by (cases u) (auto simp: Let_def plan_annotate_def plan_replace_text_def update_step_def split: option.splits)
  then show ?case using Cons by simp
qed simp

text \<open>
  As long as the list of steps is not edited and no status is set by hand, a plan is walked in
  order: after a advances the first a steps are done, the next is in progress, the rest are pending,
  and the current step is the one in progress, or the last when all are done.
\<close>

theorem steps_run_in_order:
  assumes "list_all keeps_steps us" and "p = run_state plan_apply (plan_new g texts now) us"
    and "a = count_list us Advance"
  shows "length (plan_steps p) = length texts \<and> plan_current p = min a (length texts - 1)
     \<and> (\<forall>k < length texts.
          status_at p k = (if k < a then StepDone else if k = a then StepInProgress else StepPending))"
proof -
  have "length (plan_steps p) = length texts"
    using run_keeps_length [OF assms(1)] assms(2) by (simp add: plan_new_def)
  then show ?thesis
    using walked_run [OF walked_new assms(1), of g texts now] assms(2,3) by (simp add: walked_def)
qed

lemma steps_run_in_order_witness:
  "plan_current (run_state plan_apply (plan_new ''g'' [''a'', ''b'', ''c''] 0) [Advance, Annotate 0 ''n'', Advance]) = 2"
  using steps_run_in_order [OF _ refl refl, of "[Advance, Annotate 0 ''n'', Advance]" "''g''" "[''a'', ''b'', ''c'']" 0] by simp

text \<open>
  An edit of the list before the current step leaves the index where it is, on another step. Here
  step b is in progress when step a is removed: the next advance marks c, which was never started, as done, and
  reports the plan complete with b in progress.
\<close>

lemma removal_moves_current:
  "run_outputs plan_apply (plan_new ''g'' [''a'', ''b'', ''c''] 0) [Advance, RemoveStep 0, Advance] ! 2 = ''Plan is complete''"
  "map step_status (plan_steps (run_state plan_apply (plan_new ''g'' [''a'', ''b'', ''c''] 0) [Advance, RemoveStep 0, Advance]))
     = [StepInProgress, StepDone]"
  by code_simp+

text \<open>Notes outlive their step, and the id of the last step is given again to the next one inserted.\<close>

lemma inserted_step_inherits_notes:
  "map_of (plan_notes p) 1 = Some [''n''] \<and> map (\<lambda>s. (step_id s, step_text s)) (plan_steps p) = [(0, ''a''), (1, ''c'')]"
  if "p = run_state plan_apply (plan_new ''g'' [''a'', ''b''] 0) [Annotate 1 ''n'', RemoveStep 1, InsertStep 0 ''c'']"
  unfolding that by code_simp

text \<open>With nothing pending, an advance goes to the last step, whatever its status, and reports progress.\<close>

lemma advance_reports_a_blocked_step:
  "run_outputs plan_apply (plan_new ''g'' [''a'', ''b''] 0) [SetStatus 1 StepBlocked, Advance] ! 1 = ''Advanced to step 2''"
  "status_at (run_state plan_apply (plan_new ''g'' [''a'', ''b''] 0) [SetStatus 1 StepBlocked, Advance]) 1 = StepBlocked"
  by code_simp+

section \<open>File names\<close>

definition no_double_dash :: "string \<Rightarrow> bool" where
  "no_double_dash = successively (\<lambda>a b. \<not> (a = CHR ''-'' \<and> b = CHR ''-''))"

definition slug_chars :: "string \<Rightarrow> bool" where
  "slug_chars s = ((\<forall>c \<in> set s. is_lower_alnum c \<or> c = CHR ''-'') \<and> no_double_dash s \<and> (s \<noteq> [] \<longrightarrow> hd s \<noteq> CHR ''-''))"

text \<open>What the loop keeps: a dash may come after the thirty-second character, and is trimmed.\<close>

definition slug_inv :: "string \<Rightarrow> bool \<Rightarrow> bool" where
  "slug_inv s d =
     (slug_chars s \<and> (d \<longleftrightarrow> s \<noteq> [] \<and> last s = CHR ''-'')
      \<and> (length s \<le> max_autosave_stem_chars \<or> d \<and> length s = Suc max_autosave_stem_chars))"

lemma alnum_not_dash: "is_lower_alnum c \<Longrightarrow> c \<noteq> CHR ''-''"
  by (auto simp: is_lower_alnum_def Let_def)

lemma slug_chars_snoc:
  "slug_chars s \<Longrightarrow> (is_lower_alnum c \<or> c = CHR ''-'' \<and> s \<noteq> [] \<and> last s \<noteq> CHR ''-'') \<Longrightarrow> slug_chars (s @ [c])"
  using alnum_not_dash [of c] by (auto simp: slug_chars_def no_double_dash_def successively_append_iff hd_append)

lemma slug_loop_inv: "slug_inv out d \<Longrightarrow> \<exists>d'. slug_inv (slug_loop out d chs) d'"
proof (induction out d chs rule: slug_loop.induct)
  case (2 out d ch chs)
  let ?c = "ascii_lower (hd ch)"
  show ?case
  proof (cases "length ch = 1 \<and> is_lower_alnum ?c")
    case alnum: True
    show ?thesis
    proof (cases "length out \<ge> max_autosave_stem_chars")
      case False
      then have "slug_inv (out @ [?c]) False"
        using 2(4) alnum alnum_not_dash [of ?c] by (simp add: slug_inv_def slug_chars_snoc)
      from 2(1) [OF refl alnum False this] show ?thesis using alnum False by (simp add: Let_def)
    qed (use 2(4) alnum in \<open>auto simp: Let_def\<close>)
  next
    case other: False
    show ?thesis
    proof (cases "\<not> d \<and> out \<noteq> []")
      case True
      then have "slug_inv (out @ ''-'') True"
        using 2(4) by (auto simp: slug_inv_def intro!: slug_chars_snoc)
      from 2(2) [OF refl other True this] show ?thesis using other True by (auto simp: Let_def)
    next
      case False
      from 2(3) [OF refl other False 2(4)] show ?thesis using other False by (auto simp: Let_def)
    qed
  qed
qed auto

lemma trim_one_dash:
  assumes "slug_chars s"
  shows "trim_dashes s = (if s \<noteq> [] \<and> last s = CHR ''-'' then butlast s else s)"
proof (cases s rule: rev_cases)
  case (snoc t c)
  show ?thesis
  proof (cases "c = CHR ''-''")
    case True
    then have "t \<noteq> [] \<and> last t \<noteq> CHR ''-''"
      using assms snoc by (auto simp: slug_chars_def no_double_dash_def successively_append_iff)
    then have "trim_dashes t = t"
      by (cases t rule: rev_cases) (simp_all add: trim_dashes_def)
    then show ?thesis using True snoc by (simp add: trim_dashes_def)
  qed (simp add: trim_dashes_def snoc)
qed (simp add: trim_dashes_def)

lemma slug_inv_trim:
  assumes "slug_inv s d"
  shows "slug_chars (trim_dashes s) \<and> length (trim_dashes s) \<le> max_autosave_stem_chars
         \<and> (trim_dashes s \<noteq> [] \<longrightarrow> last (trim_dashes s) \<noteq> CHR ''-'')"
proof -
  have c: "slug_chars s" using assms by (simp add: slug_inv_def)
  show ?thesis
  proof (cases "s \<noteq> [] \<and> last s = CHR ''-''")
    case True
    then obtain t where s: "s = t @ ''-''" by (metis append_butlast_last_id)
    then have "slug_chars t \<and> t \<noteq> [] \<and> last t \<noteq> CHR ''-''"
      using c by (auto simp: slug_chars_def no_double_dash_def successively_append_iff hd_append split: if_splits)
    then show ?thesis
      using trim_one_dash [OF c] True assms by (auto simp: s slug_inv_def)
  next
    case False
    then show ?thesis
      using trim_one_dash [OF c] assms by (auto simp: slug_inv_def)
  qed
qed

text \<open>
  The slug of any text is a safe part of a file name: not empty, at most 32 characters,
  all of them lower-case letters, digits or dashes, no two dashes in a row and none at either end.
\<close>

theorem slug_is_safe:
  "slugify txt \<noteq> [] \<and> length (slugify txt) \<le> max_autosave_stem_chars
   \<and> (\<forall>c \<in> set (slugify txt). is_lower_alnum c \<or> c = CHR ''-'') \<and> no_double_dash (slugify txt)
   \<and> hd (slugify txt) \<noteq> CHR ''-'' \<and> last (slugify txt) \<noteq> CHR ''-''"
proof -
  let ?s = "slug_loop [] False (utf8_chars txt)"
  have "slug_inv [] False" by (simp add: slug_inv_def slug_chars_def no_double_dash_def)
  from slug_loop_inv [OF this] obtain d where "slug_inv ?s d" by blast
  note t = slug_inv_trim [OF this]
  show ?thesis
  proof (cases "trim_dashes ?s = []")
    case True
    then have "slugify txt = ''plan''" by (simp add: slugify_def Let_def)
    then show ?thesis
      by (simp add: is_lower_alnum_def no_double_dash_def max_autosave_stem_chars_def)
  next
    case False
    then show ?thesis using t by (simp add: slugify_def Let_def slug_chars_def)
  qed
qed

end
