(* ===== verification/Kod_Stream_Guard.thy ===== *)
theory Kod_Stream_Guard
  imports Kod_Text
begin

text \<open>
  The stall detector of a stream, \<open>crates/kod-provider/src/stream_guard.rs\<close>: the tail of the
  bytes received, the Z-array and the exact-cycle detector over it, the run of headings, and the
  stride of the scans. The lemmas show that the linear-time Z-array is the table of longest common
  prefixes, that the detector finds the least period, and that a stream that has begun to repeat
  itself is reported within the capacity of the tail and one stride.
\<close>

section \<open>The Z-array\<close>

text \<open>The inner loop, which compares onwards from a match of length \<open>k\<close> at \<open>i\<close>.\<close>

function z_extend :: "'a list \<Rightarrow> nat \<Rightarrow> nat \<Rightarrow> nat" where
  "z_extend s i k = (if i + k < length s \<and> s ! k = s ! (i + k) then z_extend s i (Suc k) else k)"
  by pat_completeness auto
termination
  by (relation "measure (\<lambda>(s, i, k). length s - (i + k))") auto

declare z_extend.simps [simp del]

function z_loop :: "'a list \<Rightarrow> nat \<Rightarrow> nat \<Rightarrow> nat \<Rightarrow> nat list \<Rightarrow> nat list" where
  "z_loop s i l r z =
     (if i < length s then
        let k = z_extend s i (if i < r then min (r - i) (z ! (i - l)) else z ! i)
        in if i + k > r then z_loop s (Suc i) i (i + k) (z[i := k])
           else z_loop s (Suc i) l r (z[i := k])
      else z)"
  by pat_completeness auto
termination
  by (relation "measure (\<lambda>(s, i, l, r, z). length s - i)") auto

declare z_loop.simps [simp del]

definition z_array :: "'a list \<Rightarrow> nat list" where
  "z_array s = (if s = [] then [] else z_loop s 1 0 0 ((replicate (length s) 0)[0 := length s]))"

section \<open>Detectors\<close>

definition cycle_at :: "nat \<Rightarrow> nat \<Rightarrow> bool" where
  "cycle_at n p = (let repeats = n div p in
     if p \<le> 60 then repeats \<ge> 4 \<and> n \<ge> 180 else repeats \<ge> 3 \<and> n \<ge> 1024)"

definition detect_exact_cycle :: "string \<Rightarrow> nat option" where
  "detect_exact_cycle tail =
     (let n = length tail in
      if n < 180 then None
      else (let z = z_array tail
            in find (\<lambda>p. z ! p \<ge> n - p \<and> cycle_at n p) [1..<Suc (min 1024 (n - 1))]))"

text \<open>A heading: an ATX heading of two or more levels, or a bold title alone on its line.\<close>

definition is_heading_line :: "string \<Rightarrow> bool" where
  "is_heading_line line =
     (prefix ''##'' line \<or>
      (case strip_prefix ''**'' line of
         None \<Rightarrow> False
       | Some rest \<Rightarrow> (case split_once ''**'' rest of None \<Rightarrow> False | Some (_, behind) \<Rightarrow> trim behind = [])))"

definition header_runaway_threshold :: nat where
  "header_runaway_threshold = 36"

fun header_run :: "nat \<Rightarrow> string list \<Rightarrow> bool" where
  "header_run n [] = False"
| "header_run n (line # rest) =
     (let trimmed = trim line in
      if trimmed = [] then header_run n rest
      else if is_heading_line trimmed
      then Suc n \<ge> header_runaway_threshold \<or> header_run (Suc n) rest
      else header_run 0 rest)"

text \<open>
  \<open>String::from_utf8_lossy\<close>: how many bytes the next piece has and whether it is a character; a
  piece that is not is replaced by U+FFFD.
\<close>

definition byte_at :: "string \<Rightarrow> nat \<Rightarrow> nat" where
  "byte_at s i = (if i < length s then of_char (s ! i) else 0)"

definition cont_at :: "string \<Rightarrow> nat \<Rightarrow> bool" where
  "cont_at s i = (128 \<le> byte_at s i \<and> byte_at s i < 192)"

definition second_ok :: "nat \<Rightarrow> nat \<Rightarrow> bool" where
  "second_ok b c =
     (if b = 0xE0 then 0xA0 \<le> c \<and> c \<le> 0xBF
      else if b = 0xED then 0x80 \<le> c \<and> c \<le> 0x9F
      else if b = 0xF0 then 0x90 \<le> c \<and> c \<le> 0xBF
      else if b = 0xF4 then 0x80 \<le> c \<and> c \<le> 0x8F
      else 0x80 \<le> c \<and> c \<le> 0xBF)"

definition lossy_piece :: "string \<Rightarrow> bool \<times> nat" where
  "lossy_piece s =
     (let b = byte_at s 0 in
      if b < 128 then (True, 1)
      else if 0xC2 \<le> b \<and> b \<le> 0xDF then (if cont_at s 1 then (True, 2) else (False, 1))
      else if 0xE0 \<le> b \<and> b \<le> 0xEF then
        (if \<not> second_ok b (byte_at s 1) then (False, 1)
         else if \<not> cont_at s 2 then (False, 2) else (True, 3))
      else if 0xF0 \<le> b \<and> b \<le> 0xF4 then
        (if \<not> second_ok b (byte_at s 1) then (False, 1)
         else if \<not> cont_at s 2 then (False, 2)
         else if \<not> cont_at s 3 then (False, 3) else (True, 4))
      else (False, 1))"

lemma lossy_piece_pos: "0 < snd (lossy_piece s)"
  by (simp add: lossy_piece_def Let_def)

function from_utf8_lossy :: "string \<Rightarrow> string" where
  "from_utf8_lossy s =
     (if s = [] then []
      else (let (ok, n) = lossy_piece s
            in (if ok then take n s else [CHR 0xEF, CHR 0xBF, CHR 0xBD]) @ from_utf8_lossy (drop n s)))"
  by pat_completeness auto
termination
  by (relation "measure length") (use lossy_piece_pos in \<open>auto simp: prod_eq_iff\<close>)

declare from_utf8_lossy.simps [simp del]

definition detect_header_runaway :: "string \<Rightarrow> bool" where
  "detect_header_runaway tail = header_run 0 (rust_lines (from_utf8_lossy tail))"

section \<open>The guard\<close>

record guard_config =
  scan_stride :: nat
  tail_capacity :: nat
  header_runaway_enabled :: bool

definition guard_config_default :: guard_config where
  "guard_config_default = \<lparr> scan_stride = 128, tail_capacity = 4096, header_runaway_enabled = True \<rparr>"

datatype stall_verdict = StallClean | StallLoop (detector: string)

record stream_guard =
  sg_config :: guard_config
  sg_tail :: string
  bytes_since_scan :: nat

definition guard_with_config :: "guard_config \<Rightarrow> stream_guard" where
  "guard_with_config c = \<lparr> sg_config = c, sg_tail = [], bytes_since_scan = 0 \<rparr>"

definition stream_guard_new :: stream_guard where
  "stream_guard_new = guard_with_config guard_config_default"

definition guard_scan :: "stream_guard \<Rightarrow> stall_verdict" where
  "guard_scan g =
     (if detect_exact_cycle (sg_tail g) \<noteq> None then StallLoop ''exact-cycle''
      else if header_runaway_enabled (sg_config g) \<and> detect_header_runaway (sg_tail g)
      then StallLoop ''header-runaway''
      else StallClean)"

definition usize_max :: nat where
  "usize_max = 2 ^ 64 - 1"

definition guard_feed :: "string \<Rightarrow> stream_guard \<Rightarrow> stall_verdict \<times> stream_guard" where
  "guard_feed delta g =
     (let long = sg_tail g @ delta;
          tail = (if length long > tail_capacity (sg_config g)
                  then drop (length long - tail_capacity (sg_config g)) long else long);
          since = min usize_max (bytes_since_scan g + length delta);
          g1 = g\<lparr>sg_tail := tail, bytes_since_scan := since\<rparr>
      in if since < scan_stride (sg_config g) then (StallClean, g1)
         else (let g2 = g1\<lparr>bytes_since_scan := 0\<rparr> in (guard_scan g2, g2)))"

definition final_verdict :: "stream_guard \<Rightarrow> stall_verdict" where
  "final_verdict g = guard_scan g"

section \<open>The Z-array is the table of common prefixes\<close>

text \<open>The reference: how long a common prefix two lists have.\<close>

fun common :: "'a list \<Rightarrow> 'a list \<Rightarrow> nat" where
  "common (x # xs) (y # ys) = (if x = y then Suc (common xs ys) else 0)"
| "common _ _ = 0"

definition z_spec :: "'a list \<Rightarrow> nat \<Rightarrow> nat" where
  "z_spec s i = common s (drop i s)"

lemma common_ge: "k \<le> common xs ys \<longleftrightarrow> k \<le> length xs \<and> k \<le> length ys \<and> (\<forall>t < k. xs ! t = ys ! t)"
proof (induction xs ys arbitrary: k rule: common.induct)
  case (1 x xs y ys)
  show ?case
  proof (cases k)
    case (Suc m)
    then show ?thesis using 1 by (auto simp: less_Suc_eq_0_disj nth_Cons')
  qed simp
qed auto

lemma z_spec_ge: "i \<le> length s \<Longrightarrow> k \<le> z_spec s i \<longleftrightarrow> i + k \<le> length s \<and> (\<forall>t < k. s ! t = s ! (i + t))"
  unfolding z_spec_def common_ge by auto

lemma z_spec_bound: "i \<le> length s \<Longrightarrow> i + z_spec s i \<le> length s"
  using z_spec_ge [of i s "z_spec s i"] by simp

lemma z_extend_correct: "i \<le> length s \<Longrightarrow> k \<le> z_spec s i \<Longrightarrow> z_extend s i k = z_spec s i"
proof (induction s i k rule: z_extend.induct)
  case (1 s i k)
  show ?case
  proof (cases "i + k < length s \<and> s ! k = s ! (i + k)")
    case True
    then have "Suc k \<le> z_spec s i"
      using 1(2,3) by (auto simp: z_spec_ge less_Suc_eq)
    then show ?thesis using 1 True by (simp add: z_extend.simps [of s i k])
  next
    case False
    then have "\<not> Suc k \<le> z_spec s i"
      using 1(2) by (auto simp: z_spec_ge)
    then have "k = z_spec s i" using 1(3) by simp
    then show ?thesis using False z_extend.simps [of s i k] by argo
  qed
qed

text \<open>
  What the outer loop keeps: the entries below \<open>i\<close> are right, those from \<open>i\<close> on are zero, and
  \<open>[l, r)\<close> is a match with the start of the list, found below \<open>i\<close>.
\<close>

definition z_inv :: "'a list \<Rightarrow> nat \<Rightarrow> nat \<Rightarrow> nat \<Rightarrow> nat list \<Rightarrow> bool" where
  "z_inv s i l r z =
     (length z = length s \<and> (\<forall>j < i. j < length s \<longrightarrow> z ! j = z_spec s j)
      \<and> (\<forall>j < length s. i \<le> j \<longrightarrow> z ! j = 0)
      \<and> l \<le> r \<and> r - l \<le> z_spec s l \<and> r \<le> length s \<and> (0 < r \<longrightarrow> 0 < l \<and> l < i))"

lemma z_start:
  assumes "z_inv s i l r z" "i < length s"
  shows "(if i < r then min (r - i) (z ! (i - l)) else z ! i) \<le> z_spec s i"
proof (cases "i < r")
  case True
  then have l: "0 < l" "l < i" "l \<le> length s" using assms by (auto simp: z_inv_def)
  have "r - l \<le> z_spec s l" using assms(1) by (simp add: z_inv_def)
  then have window: "s ! t = s ! (l + t)" if "t < r - l" for t
    using that l(3) z_spec_ge [of l s "r - l"] by blast
  have z: "z ! (i - l) = z_spec s (i - l)"
    using assms l by (auto simp: z_inv_def)
  let ?k = "min (r - i) (z ! (i - l))"
  have "?k \<le> z_spec s (i - l)" using z by simp
  then have "s ! t = s ! (i - l + t)" if "t < ?k" for t
    using that assms(2) z_spec_ge [of "i - l" s ?k] by auto
  moreover have "s ! (i - l + t) = s ! (i + t)" if "t < ?k" for t
    proof -
    have "i - l + t < r - l" "l + (i - l + t) = i + t" using that l True by auto
    then show ?thesis using window [of "i - l + t"] by simp
  qed
  moreover have "i + ?k \<le> length s" using assms by (auto simp: z_inv_def)
  ultimately show ?thesis
    using True assms(2) z_spec_ge [of i s ?k] by auto
qed (use assms in \<open>simp add: z_inv_def\<close>)

lemma z_loop_step:
  "i < length s \<Longrightarrow> k = z_extend s i (if i < r then min (r - i) (z ! (i - l)) else z ! i) \<Longrightarrow>
   z_loop s i l r z = (if i + k > r then z_loop s (Suc i) i (i + k) (z[i := k]) else z_loop s (Suc i) l r (z[i := k]))"
  by (subst z_loop.simps) (simp only: if_True Let_def)

lemma z_loop_inv: "z_inv s i l r z \<Longrightarrow> 0 < i \<Longrightarrow> \<exists>a b. z_inv s (max i (length s)) a b (z_loop s i l r z)"
proof (induction s i l r z rule: z_loop.induct)
  case (1 s i l r z)
  show ?case
  proof (cases "i < length s")
    case True
    define k where "k = z_extend s i (if i < r then min (r - i) (z ! (i - l)) else z ! i)"
    have k: "k = z_spec s i"
      unfolding k_def using z_extend_correct [OF _ z_start [OF 1(3) True]] True by simp
    note step = z_loop_step [OF True k_def]
    have b: "i + k \<le> length s" using z_spec_bound [of i s] True k by simp
    have m: "max (Suc i) (length s) = max i (length s)" using True by simp
    show ?thesis
    proof (cases "i + k > r")
      case new: True
      have "z_inv s (Suc i) i (i + k) (z[i := k])"
        using 1(3,4) True b k by (auto simp: z_inv_def less_Suc_eq nth_list_update)
      from 1(1) [OF True k_def new this] show ?thesis
        unfolding step using new m by simp
    next
      case old: False
      have "z_inv s (Suc i) l r (z[i := k])"
        using 1(3,4) True k by (auto simp: z_inv_def less_Suc_eq nth_list_update)
      from 1(2) [OF True k_def old this] show ?thesis
        unfolding step using old m by simp
    qed
  next
    case False
    then have "z_loop s i l r z = z" by (subst z_loop.simps) simp
    then show ?thesis using 1(3) False by (auto simp: max_def)
  qed
qed

lemma z_array_table: "length (z_array s) = length s \<and> (\<forall>i < length s. z_array s ! i = common s (drop i s))"
proof (cases "s = []")
  case False
  have zero: "z_spec s 0 = length s"
    using z_spec_ge [of 0 s "length s"] z_spec_bound [of 0 s] by simp
  have "z_inv s 1 0 0 ((replicate (length s) 0)[0 := length s])"
    using zero by (auto simp: z_inv_def nth_list_update)
  from z_loop_inv [OF this] obtain a b where "z_inv s (max 1 (length s)) a b (z_array s)"
    using False by (auto simp: z_array_def)
  then show ?thesis
    by (simp add: z_inv_def z_spec_def)
qed (simp add: z_array_def)

text \<open>
  C28. The table of the Z-array algorithm, computed with one window of known matches, holds for
  every position the length of the longest common prefix of the list and what starts there.
\<close>

theorem z_array_correct: "z_array s = map (\<lambda>i. common s (drop i s)) [0..<length s]"
  by (rule nth_equalityI) (simp_all add: z_array_table)

section \<open>Periods\<close>

text \<open>The reference: a list has period \<open>p\<close> when every element equals the one \<open>p\<close> further on.\<close>

definition has_period :: "nat \<Rightarrow> 'a list \<Rightarrow> bool" where
  "has_period p s = (\<forall>j. j + p < length s \<longrightarrow> s ! j = s ! (j + p))"

lemma z_period: "p < length s \<Longrightarrow> z_array s ! p \<ge> length s - p \<longleftrightarrow> has_period p s"
proof -
  assume p: "p < length s"
  have "z_array s ! p = z_spec s p"
    using z_array_table [of s] p by (simp add: z_spec_def)
  then show ?thesis
    using z_spec_ge [of p s "length s - p"] p by (auto simp: has_period_def add.commute less_diff_conv)
qed

text \<open>What counts as a stall: a period short enough and repeated often enough.\<close>

definition stalled :: "string \<Rightarrow> nat \<Rightarrow> bool" where
  "stalled tail p = (1 \<le> p \<and> p \<le> 1024 \<and> p < length tail \<and> has_period p tail \<and> cycle_at (length tail) p)"

lemma find_upt_Some:
  "find P [a..<b] = Some p \<longleftrightarrow> a \<le> p \<and> p < b \<and> P p \<and> (\<forall>q. a \<le> q \<and> q < p \<longrightarrow> \<not> P q)"
proof
  assume "find P [a..<b] = Some p"
  then obtain i where "i < b - a" "P (a + i)" "p = a + i" and none: "\<forall>j < i. \<not> P (a + j)"
    by (auto simp: find_Some_iff)
  moreover have "\<not> P q" if "a \<le> q" "q < p" for q
    using none [rule_format, of "q - a"] that \<open>p = a + i\<close> by simp
  ultimately show "a \<le> p \<and> p < b \<and> P p \<and> (\<forall>q. a \<le> q \<and> q < p \<longrightarrow> \<not> P q)"
    by auto
next
  assume "a \<le> p \<and> p < b \<and> P p \<and> (\<forall>q. a \<le> q \<and> q < p \<longrightarrow> \<not> P q)"
  then show "find P [a..<b] = Some p"
    unfolding find_Some_iff by (intro exI [of _ "p - a"]) auto
qed

lemma find_upt_least:
  assumes "\<And>q. S q \<longleftrightarrow> a \<le> q \<and> q < b \<and> P q"
  shows "find P [a..<b] = Some p \<longleftrightarrow> S p \<and> (\<forall>q < p. \<not> S q)"
  unfolding find_upt_Some assms by (meson order_less_trans)

lemma detect_exact_cycle_Some:
  "detect_exact_cycle tail = Some p \<longleftrightarrow> stalled tail p \<and> (\<forall>q < p. \<not> stalled tail q)"
proof (cases "length tail < 180")
  case True
  then have "\<not> stalled tail q" for q
    by (auto simp: stalled_def cycle_at_def Let_def split: if_splits)
  then show ?thesis using True by (simp add: detect_exact_cycle_def)
next
  case False
  have "stalled tail q \<longleftrightarrow> 1 \<le> q \<and> q < Suc (min 1024 (length tail - 1))
      \<and> z_array tail ! q \<ge> length tail - q \<and> cycle_at (length tail) q" for q
    using z_period [of q tail] False by (auto simp: stalled_def)
  then show ?thesis
    using False unfolding detect_exact_cycle_def Let_def by (simp only: if_False find_upt_least)
qed

text \<open>
  The exact-cycle detector returns the least period of at most 1024 bytes that the whole tail
  has and repeats often enough: four times and 180 bytes for periods to 60, three times and 1024 bytes beyond.
\<close>

theorem detector_finds_least_period:
  "detect_exact_cycle tail = Some p \<longleftrightarrow> stalled tail p \<and> (\<forall>q < p. \<not> stalled tail q)"
  by (rule detect_exact_cycle_Some)

section \<open>Runs of headings\<close>

definition shown_lines :: "string list \<Rightarrow> string list" where
  "shown_lines ls = filter (\<lambda>l. l \<noteq> []) (map trim ls)"

definition heading_run_at :: "string list \<Rightarrow> nat \<Rightarrow> nat \<Rightarrow> bool" where
  "heading_run_at ls i k = (i + k \<le> length ls \<and> (\<forall>j < k. is_heading_line (ls ! (i + j))))"

lemma heading_run_Cons:
  "heading_run_at (l # ls) i k \<longleftrightarrow>
     (case i of Suc m \<Rightarrow> heading_run_at ls m k
      | 0 \<Rightarrow> (case k of 0 \<Rightarrow> True | Suc m \<Rightarrow> is_heading_line l \<and> heading_run_at ls 0 m))"
  by (cases i; cases k) (auto simp: heading_run_at_def less_Suc_eq_0_disj)

text \<open>A count of \<open>n\<close> headings so far needs \<open>36 - n\<close> more at once, or a full run later.\<close>

lemma header_run_spec:
  "n < header_runaway_threshold \<Longrightarrow>
   header_run n ls \<longleftrightarrow> heading_run_at (shown_lines ls) 0 (header_runaway_threshold - n)
     \<or> (\<exists>i. heading_run_at (shown_lines ls) i header_runaway_threshold)"
proof (induction n ls rule: header_run.induct)
  case (1 n)
  then show ?case by (simp add: shown_lines_def heading_run_at_def)
next
  case (2 n l ls)
  let ?t = "header_runaway_threshold"
  have ex: "(\<exists>i. heading_run_at (trim l # shown_lines ls) i ?t) \<longleftrightarrow>
      heading_run_at (trim l # shown_lines ls) 0 ?t \<or> (\<exists>i. heading_run_at (shown_lines ls) i ?t)"
    by (metis heading_run_Cons nat.simps(4,5) not0_implies_Suc)
  have weaken: "heading_run_at xs i k \<Longrightarrow> m \<le> k \<Longrightarrow> heading_run_at xs i m" for xs i k m
    by (auto simp: heading_run_at_def)
  consider "trim l = []" | "trim l \<noteq> []" "is_heading_line (trim l)" | "trim l \<noteq> []" "\<not> is_heading_line (trim l)"
    by blast
  then show ?case
  proof cases
    case 1
    then show ?thesis using 2 by (simp add: shown_lines_def)
  next
    case h: 2
    then have s: "shown_lines (l # ls) = trim l # shown_lines ls" by (simp add: shown_lines_def)
    show ?thesis
    proof (cases "Suc n < ?t")
      case True
      have "heading_run_at (trim l # shown_lines ls) 0 (?t - n) \<longleftrightarrow> heading_run_at (shown_lines ls) 0 (?t - Suc n)"
        using h(2) 2(4) by (simp add: heading_run_Cons split: nat.splits) (metis Suc_diff_Suc nat.inject True Suc_lessD)
      then show ?thesis
        using True h 2(2) [OF refl h True] weaken [of "trim l # shown_lines ls" 0 ?t "?t - n"]
        unfolding s ex by auto
    next
      case False
      then have "?t - n = 1" using 2(4) by simp
      moreover have "heading_run_at (trim l # shown_lines ls) 0 1"
        using h(2) by (simp add: heading_run_at_def)
      ultimately show ?thesis using False h by (simp add: s)
    qed
  next
    case h: 3
    then have s: "shown_lines (l # ls) = trim l # shown_lines ls" by (simp add: shown_lines_def)
    have no: "\<not> heading_run_at (trim l # shown_lines ls) 0 k" if "0 < k" for k
      using h(2) that by (auto simp: heading_run_at_def)
    have t: "0 < ?t" by (simp add: header_runaway_threshold_def)
    have "header_run n (l # ls) \<longleftrightarrow> header_run 0 ls" using h by simp
    also have "\<dots> \<longleftrightarrow> (\<exists>i. heading_run_at (shown_lines ls) i ?t)"
      using 2(3) [OF refl h t] by auto
    finally show ?thesis
      unfolding s ex using no 2(4) t by simp
  qed
qed

text \<open>
  The heading detector fires exactly when 36 lines in a row are headings, blank lines apart.
\<close>

theorem header_runaway_iff:
  "detect_header_runaway tail \<longleftrightarrow>
     (\<exists>i. heading_run_at (shown_lines (rust_lines (from_utf8_lossy tail))) i 36)"
  using header_run_spec [of 0 "rust_lines (from_utf8_lossy tail)"]
  by (auto simp: detect_header_runaway_def header_runaway_threshold_def)

section \<open>A stream that repeats itself is reported\<close>

definition last_n :: "nat \<Rightarrow> 'a list \<Rightarrow> 'a list" where
  "last_n n xs = drop (length xs - n) xs"

lemma last_n_append [simp]: "last_n n (last_n n xs @ ys) = last_n n (xs @ ys)"
  by (simp add: last_n_def drop_append) (cases "length xs \<le> n"; simp add: add.commute)

lemma length_last_n [simp]: "length (last_n n xs) = min n (length xs)"
  by (auto simp: last_n_def)

lemma last_n_long: "n \<le> length ys \<Longrightarrow> last_n n (xs @ ys) = last_n n ys"
  by (simp add: last_n_def)

lemma feed_config [simp]: "sg_config (snd (guard_feed d g)) = sg_config g"
  by (simp add: guard_feed_def Let_def)

lemma feed_tail: "sg_tail (snd (guard_feed d g)) = last_n (tail_capacity (sg_config g)) (sg_tail g @ d)"
  by (auto simp: guard_feed_def Let_def last_n_def)

lemma feed_since:
  "0 < scan_stride (sg_config g) \<Longrightarrow> bytes_since_scan (snd (guard_feed d g)) < scan_stride (sg_config g)"
  by (simp add: guard_feed_def Let_def)

text \<open>The tail after a stream of deltas is the end of all that was received.\<close>

lemma run_tail:
  "sg_tail g = last_n (tail_capacity (sg_config g)) xs \<Longrightarrow>
   sg_tail (run_state guard_feed g ds) = last_n (tail_capacity (sg_config g)) (xs @ concat ds)
   \<and> sg_config (run_state guard_feed g ds) = sg_config g"
proof (induction ds arbitrary: g xs)
  case (Cons d ds)
  have "sg_tail (snd (guard_feed d g)) = last_n (tail_capacity (sg_config (snd (guard_feed d g)))) (xs @ d)"
    by (simp add: feed_tail Cons.prems)
  from Cons.IH [OF this] show ?case by simp
qed simp

lemma run_since:
  "0 < scan_stride (sg_config g) \<Longrightarrow> bytes_since_scan g < scan_stride (sg_config g) \<Longrightarrow>
   bytes_since_scan (run_state guard_feed g ds) < scan_stride (sg_config g)"
proof (induction ds arbitrary: g)
  case (Cons d ds)
  then show ?case using Cons.IH [of "snd (guard_feed d g)"] feed_since [of g d] by simp
qed simp

lemma has_period_suffix: "has_period p (xs @ ys) \<Longrightarrow> has_period p ys"
  unfolding has_period_def
proof (intro allI impI)
  fix j
  assume "\<forall>j. j + p < length (xs @ ys) \<longrightarrow> (xs @ ys) ! j = (xs @ ys) ! (j + p)" "j + p < length ys"
  then show "ys ! j = ys ! (j + p)"
    by (drule_tac x = "length xs + j" in spec) (simp add: nth_append)
qed

lemma has_period_prefix: "has_period p (xs @ ys) \<Longrightarrow> has_period p xs"
  unfolding has_period_def
proof (intro allI impI)
  fix j
  assume "\<forall>j. j + p < length (xs @ ys) \<longrightarrow> (xs @ ys) ! j = (xs @ ys) ! (j + p)" "j + p < length xs"
  then show "xs ! j = xs ! (j + p)"
    by (drule_tac x = j in spec) (simp add: nth_append)
qed

lemma full_tail_stalled:
  assumes "has_period p tail" "1 \<le> p" "p \<le> 1024" "length tail = 4096"
  shows "detect_exact_cycle tail \<noteq> None"
proof -
  have "4096 div 1024 \<le> 4096 div p"
    using assms by (intro div_le_mono2) auto
  then have "stalled tail p"
    using assms by (simp add: stalled_def cycle_at_def Let_def)
  then have "stalled tail (Least (stalled tail)) \<and> (\<forall>q < Least (stalled tail). \<not> stalled tail q)"
    using LeastI [of "stalled tail" p] not_less_Least [of _ "stalled tail"] by blast
  then have "detect_exact_cycle tail = Some (Least (stalled tail))"
    unfolding detect_exact_cycle_Some .
  then show ?thesis by simp
qed

lemma repeating_is_reported:
  assumes "sg_config g = guard_config_default" "bytes_since_scan g < 128" "length (sg_tail g) = 4096"
    and "has_period p (sg_tail g @ concat ds)" "1 \<le> p" "p \<le> 1024" "128 \<le> bytes_since_scan g + length (concat ds)"
  shows "StallLoop ''exact-cycle'' \<in> set (run_outputs guard_feed g ds)"
  using assms
proof (induction ds arbitrary: g)
  case (Cons d ds)
  let ?long = "sg_tail g @ d" and ?g' = "snd (guard_feed d g)"
  have c: "tail_capacity (sg_config g) = 4096" "scan_stride (sg_config g) = 128"
    using Cons.prems(1) by (simp_all add: guard_config_default_def)
  have tail: "sg_tail ?g' = last_n 4096 ?long"
    using feed_tail [of d g] c by simp
  have "take (length ?long - 4096) ?long @ sg_tail ?g' = ?long"
    unfolding tail last_n_def by (rule append_take_drop_id)
  then have "has_period p (take (length ?long - 4096) ?long @ (sg_tail ?g' @ concat ds))"
    using Cons.prems(4) by (metis append_assoc concat.simps(2))
  then have period: "has_period p (sg_tail ?g' @ concat ds)"
    by (auto dest: has_period_suffix)
  have len: "length (sg_tail ?g') = 4096"
    using tail Cons.prems(3) by simp
  show ?case
  proof (cases "bytes_since_scan g + length d < 128")
    case True
    then have "bytes_since_scan ?g' = bytes_since_scan g + length d"
      by (simp add: guard_feed_def Let_def c usize_max_def)
    then have "StallLoop ''exact-cycle'' \<in> set (run_outputs guard_feed ?g' ds)"
      using Cons.prems len period True by (intro Cons.IH) simp_all
    then show ?thesis by simp
  next
    case False
    then have "\<not> min usize_max (bytes_since_scan g + length d) < 128"
      by (simp add: usize_max_def min_less_iff_disj)
    then have "fst (guard_feed d g) = guard_scan ?g'"
      by (simp add: guard_feed_def Let_def c)
    moreover have "detect_exact_cycle (sg_tail ?g') \<noteq> None"
      using full_tail_stalled [OF has_period_prefix [OF period]] Cons.prems len by simp
    ultimately show ?thesis by (simp add: guard_scan_def)
  qed
qed simp

text \<open>
  C29. A stream stuck in a cycle is reported: once 4096 bytes have a period of at most 1024, the next
  128 bytes that keep it, in deltas of any size, bring the verdict, whatever came before.
\<close>

theorem repeating_stream_is_reported:
  assumes "has_period p (concat (a @ b))" "1 \<le> p" "p \<le> 1024"
    and "4096 \<le> length (concat a)" "128 \<le> length (concat b)"
  shows "StallLoop ''exact-cycle'' \<in>
    set (run_outputs guard_feed (run_state guard_feed stream_guard_new (before @ a)) b)"
proof -
  let ?g = "run_state guard_feed stream_guard_new (before @ a)"
  have c: "sg_config stream_guard_new = guard_config_default" "sg_tail stream_guard_new = last_n 4096 []"
      "tail_capacity guard_config_default = 4096" "scan_stride guard_config_default = 128"
      "bytes_since_scan stream_guard_new = 0"
    by (simp_all add: stream_guard_new_def guard_with_config_def guard_config_default_def last_n_def)
  have tail: "sg_tail ?g = last_n 4096 (concat a)" and config: "sg_config ?g = guard_config_default"
    using run_tail [of stream_guard_new "[]" "before @ a"] c last_n_long [OF assms(4)] by simp_all
  have "has_period p ((take (length (concat a) - 4096) (concat a) @ sg_tail ?g) @ concat b)"
    using assms(1) by (simp add: tail last_n_def)
  then have "has_period p (sg_tail ?g @ concat b)"
    by (auto dest: has_period_suffix)
  then show ?thesis
    using assms tail config run_since [of stream_guard_new "before @ a"] c
    by (intro repeating_is_reported) simp_all
qed

lemma repeating_stream_is_reported_witness:
  "StallLoop ''exact-cycle'' \<in>
    set (run_outputs guard_feed (run_state guard_feed stream_guard_new ([''ok''] @ replicate 4096 ''x'')) (replicate 128 ''x''))"
proof (rule repeating_stream_is_reported [where p = 1])
  have one: "concat (replicate n ''x'') = replicate n CHR ''x''" for n
    by (induction n) simp_all
  show "has_period 1 (concat (replicate 4096 ''x'' @ replicate 128 ''x''))"
    unfolding concat_append one replicate_add [symmetric] by (simp add: has_period_def)
  show "4096 \<le> length (concat (replicate 4096 ''x''))" "128 \<le> length (concat (replicate 128 ''x''))"
    unfolding one by simp_all
qed simp_all

text \<open>Short of that, one byte that does not belong to the cycle hides it.\<close>

lemma one_other_byte_hides_the_cycle: "detect_exact_cycle (CHR ''-'' # replicate n CHR ''x'') = None"
proof (rule ccontr)
  assume "detect_exact_cycle (CHR ''-'' # replicate n CHR ''x'') \<noteq> None"
  then obtain p where p: "stalled (CHR ''-'' # replicate n CHR ''x'') p"
    using detect_exact_cycle_Some by blast
  then have "(CHR ''-'' # replicate n CHR ''x'') ! 0 = (CHR ''-'' # replicate n CHR ''x'') ! p"
    unfolding stalled_def has_period_def by (metis add.left_neutral)
  then show False
    using p by (auto simp: stalled_def nth_Cons split: nat.splits)
qed

end
