(* ===== verification/Kod_Error.thy ===== *)
theory Kod_Error
  imports Kod_Text
begin

text \<open>
  The error type of the program and how failures are classified: \<open>crates/kod-error/src/error.rs\<close>
  (the variants, what they print, which are retried), the delay hints in a text of
  \<open>crates/kod-provider/src/retry.rs\<close>, and \<open>crates/kod-core-routing/src/retry_strategy.rs\<close>, which
  reads the printed error back to choose a recovery. The lemmas show what of a typed error
  survives that detour through text, and that a decision not to retry is taken exactly for the
  failures called not recoverable.

  What Unicode says of characters beyond ASCII is an argument: \<open>uni\<close> the lower case of a text
  that has some, \<open>alnum\<close> which of them are letters or digits.
\<close>

section \<open>Errors\<close>

datatype kod_error =
    KConfig string
  | KInvalidState string
  | KProvider string
  | KProviderTimeout nat
  | KRateLimited nat
  | KServerBusy nat
  | KModelNotFound string
  | KSkillNotFound string
  | KSkillParseError string string
  | KSkillValidationFailed string
  | KMemoryStorage string
  | KMemoryDatabase string
  | KEmbeddingGeneration string
  | KAgentNotFound string
  | KAgentCommunication string
  | KSwarmCoordination string
  | KLockTimeout string
  | KConflictDetected string string
  | KToolNotFound string
  | KToolExecution string string
  | KPermissionDenied string string
  | KInvalidParameters string
  | KIo string
  | KFileNotFound string
  | KFileModifiedSinceEdit string
  | KSerialization string
  | KDeserialization string
  | KNetwork string
  | KSandboxViolation string
  | KInternal string

definition format_provider_timeout :: "nat \<Rightarrow> string" where
  "format_provider_timeout ms =
     (if ms = 0 then ''Provider timeout (server returned 408)''
      else ''Provider timeout after '' @ show_nat ms @ ''ms'')"

fun show_error :: "kod_error \<Rightarrow> string" where
  "show_error (KConfig s) = ''Configuration error: '' @ s"
| "show_error (KInvalidState s) = ''Invalid state: '' @ s"
| "show_error (KProvider s) = ''Provider error: '' @ s"
| "show_error (KProviderTimeout n) = format_provider_timeout n"
| "show_error (KRateLimited n) = ''Rate limited by provider, retry after '' @ show_nat n @ ''s''"
| "show_error (KServerBusy n) = ''Server busy, retry after '' @ show_nat n @ ''s''"
| "show_error (KModelNotFound s) = ''Model not found: '' @ s"
| "show_error (KSkillNotFound s) = ''Skill not found: '' @ s"
| "show_error (KSkillParseError p s) = ''Skill parse error in '' @ p @ '': '' @ s"
| "show_error (KSkillValidationFailed s) = ''Skill validation failed: '' @ s"
| "show_error (KMemoryStorage s) = ''Memory storage error: '' @ s"
| "show_error (KMemoryDatabase s) = ''Memory database error: '' @ s"
| "show_error (KEmbeddingGeneration s) = ''Embedding generation failed: '' @ s"
| "show_error (KAgentNotFound s) = ''Agent not found: '' @ s"
| "show_error (KAgentCommunication s) = ''Agent communication error: '' @ s"
| "show_error (KSwarmCoordination s) = ''Swarm coordination failed: '' @ s"
| "show_error (KLockTimeout p) = ''File lock timeout for '' @ p"
| "show_error (KConflictDetected p s) = ''Conflict detected in '' @ p @ '': '' @ s"
| "show_error (KToolNotFound s) = ''Tool not found: '' @ s"
| "show_error (KToolExecution t s) = ''Tool execution failed: '' @ t @ '': '' @ s"
| "show_error (KPermissionDenied a s) = ''Permission denied for '' @ a @ '': '' @ s"
| "show_error (KInvalidParameters s) = ''Invalid tool parameters: '' @ s"
| "show_error (KIo s) = ''IO error: '' @ s"
| "show_error (KFileNotFound p) = ''File not found: '' @ p"
| "show_error (KFileModifiedSinceEdit p) = ''File modified since edit was created: '' @ p"
| "show_error (KSerialization s) = ''Serialization error: '' @ s"
| "show_error (KDeserialization s) = ''Deserialization error: '' @ s"
| "show_error (KNetwork s) = ''Network error: '' @ s"
| "show_error (KSandboxViolation s) = ''Sandbox violation: '' @ s"
| "show_error (KInternal s) = ''Internal error: '' @ s"

fun user_message :: "kod_error \<Rightarrow> string" where
  "user_message (KProvider msg) = ''The AI provider encountered an issue: '' @ msg"
| "user_message (KSkillNotFound i) = ''The skill '' @ [CHR 0x27] @ i @ [CHR 0x27] @ '' could not be found''"
| "user_message (KAgentNotFound i) = ''The agent '' @ [CHR 0x27] @ i @ [CHR 0x27] @ '' is not available''"
| "user_message (KPermissionDenied a r) = ''Permission denied for '' @ [CHR 0x27] @ a @ [CHR 0x27] @ '': '' @ r"
| "user_message e = show_error e"

section \<open>Text predicates\<close>

text \<open>\<open>str::to_lowercase\<close>, which is ASCII lower case where the text is ASCII.\<close>

definition all_ascii :: "string \<Rightarrow> bool" where
  "all_ascii s = list_all (\<lambda>c. (of_char c :: nat) < 128) s"

definition to_lowercase :: "(string \<Rightarrow> string) \<Rightarrow> string \<Rightarrow> string" where
  "to_lowercase uni s = (if all_ascii s then map ascii_lower s else uni s)"

definition contains_any :: "string \<Rightarrow> string list \<Rightarrow> bool" where
  "contains_any s ps = list_ex (\<lambda>p. contains_str p s) ps"

definition alnum_ascii :: "char \<Rightarrow> bool" where
  "alnum_ascii c =
     (let n = (of_char c :: nat)
      in (48 \<le> n \<and> n \<le> 57) \<or> (65 \<le> n \<and> n \<le> 90) \<or> (97 \<le> n \<and> n \<le> 122))"

definition is_digit_char :: "char \<Rightarrow> bool" where
  "is_digit_char c = (let n = (of_char c :: nat) in 48 \<le> n \<and> n \<le> 57)"

definition is_alnum_char :: "(string \<Rightarrow> bool) \<Rightarrow> string \<Rightarrow> bool" where
  "is_alnum_char alnum ch = (if length ch = 1 then alnum_ascii (hd ch) else alnum ch)"

text \<open>The pieces of a text between characters that are neither letters nor digits.\<close>

fun alnum_tokens :: "(string \<Rightarrow> bool) \<Rightarrow> string \<Rightarrow> string list \<Rightarrow> string list" where
  "alnum_tokens alnum cur [] = [cur]"
| "alnum_tokens alnum cur (ch # chs) =
     (if is_alnum_char alnum ch then alnum_tokens alnum (cur @ ch) chs
      else cur # alnum_tokens alnum [] chs)"

definition has_status_code :: "(string \<Rightarrow> bool) \<Rightarrow> string \<Rightarrow> nat \<Rightarrow> bool" where
  "has_status_code alnum msg code = (show_nat code \<in> set (alnum_tokens alnum [] (utf8_chars msg)))"

section \<open>Which errors are retried\<close>

definition prose_patterns :: "string list" where
  "prose_patterns =
     [''rate limit'', ''too many requests'', ''overloaded'', ''temporarily'', ''try again'',
      ''bad gateway'', ''service unavailable'', ''gateway timeout'', ''internal server error'', ''5xx'',
      ''connection reset'', ''connection closed'', ''connection refused'', ''broken pipe'', ''unexpected eof'',
      ''eof occurred'', ''goaway'', ''close_notify'', ''stream_read_error'', ''transport error'',
      ''h2 protocol error'', ''http2 error'', ''timeout'', ''timed out'', ''deadline exceeded'',
      ''capacity'', ''no capacity available'']"

definition status_codes :: "nat list" where
  "status_codes = [429, 500, 502, 503, 504]"

definition is_transient_transport_error :: "(string \<Rightarrow> string) \<Rightarrow> (string \<Rightarrow> bool) \<Rightarrow> string \<Rightarrow> bool" where
  "is_transient_transport_error uni alnum msg =
     (let m = to_lowercase uni msg
      in contains_any m prose_patterns \<or> list_ex (has_status_code alnum m) status_codes)"

fun is_retryable :: "(string \<Rightarrow> string) \<Rightarrow> (string \<Rightarrow> bool) \<Rightarrow> kod_error \<Rightarrow> bool" where
  "is_retryable uni alnum (KRateLimited _) = True"
| "is_retryable uni alnum (KServerBusy _) = True"
| "is_retryable uni alnum (KProviderTimeout _) = True"
| "is_retryable uni alnum (KNetwork _) = True"
| "is_retryable uni alnum (KProvider msg) = is_transient_transport_error uni alnum msg"
| "is_retryable uni alnum _ = False"

fun is_recoverable :: "kod_error \<Rightarrow> bool" where
  "is_recoverable (KProviderTimeout _) = True"
| "is_recoverable (KRateLimited _) = True"
| "is_recoverable (KServerBusy _) = True"
| "is_recoverable (KNetwork _) = True"
| "is_recoverable (KLockTimeout _) = True"
| "is_recoverable _ = False"

definition is_server_busy_body :: "(string \<Rightarrow> string) \<Rightarrow> string \<Rightarrow> bool" where
  "is_server_busy_body uni body =
     (let l = to_lowercase uni body
      in contains_any l [''server_busy'', ''server-busy'', ''server busy'', ''please try again later'']
         \<or> (contains_str ''overloaded'' l \<and> contains_str ''try again'' l)
         \<or> contains_str ''capacity exceeded'' l)"

text \<open>The typed error of an HTTP status; \<open>redact\<close> takes the secrets out of the body.\<close>

definition provider_status_with_hint ::
    "(string \<Rightarrow> string) \<Rightarrow> (string \<Rightarrow> string) \<Rightarrow> nat \<Rightarrow> string \<Rightarrow> nat option \<Rightarrow> kod_error" where
  "provider_status_with_hint uni redact status body retry_after =
     (let snippet = redact (truncate_chars body 300) in
      if status = 401 \<or> status = 403 then KProvider (''auth error '' @ show_nat status @ '': '' @ snippet)
      else if status = 404 then KProvider (''not found '' @ show_nat status @ '': '' @ snippet)
      else if status = 408 then KProviderTimeout 0
      else if status = 429 then KRateLimited (case retry_after of None \<Rightarrow> 30 | Some d \<Rightarrow> d)
      else if status = 503 \<and> is_server_busy_body uni snippet
      then KServerBusy (case retry_after of None \<Rightarrow> 600 | Some d \<Rightarrow> d)
      else if 500 \<le> status \<and> status \<le> 599 then KProvider (''server error '' @ show_nat status @ '': '' @ snippet)
      else KProvider (''http '' @ show_nat status @ '': '' @ snippet))"

definition provider_status :: "(string \<Rightarrow> string) \<Rightarrow> (string \<Rightarrow> string) \<Rightarrow> nat \<Rightarrow> string \<Rightarrow> kod_error" where
  "provider_status uni redact status body = provider_status_with_hint uni redact status body None"

definition rate_limited :: "nat option \<Rightarrow> kod_error" where
  "rate_limited retry_after = KRateLimited (case retry_after of None \<Rightarrow> 30 | Some d \<Rightarrow> d)"

definition server_busy :: "nat option \<Rightarrow> kod_error" where
  "server_busy retry_after = KServerBusy (case retry_after of None \<Rightarrow> 600 | Some d \<Rightarrow> d)"

section \<open>Delay hints in a text\<close>

definition u64_max :: nat where
  "u64_max = 2 ^ 64 - 1"

fun first_some :: "('a \<Rightarrow> 'b option) \<Rightarrow> 'a list \<Rightarrow> 'b option" where
  "first_some f [] = None"
| "first_some f (x # xs) = (case f x of Some y \<Rightarrow> Some y | None \<Rightarrow> first_some f xs)"

definition hint_cues :: "string list" where
  "hint_cues = [''try again in'', ''retry after'', ''retry in'', ''wait '']"

definition unit_secs :: "string \<Rightarrow> nat \<Rightarrow> nat option" where
  "unit_secs u n =
     (if u \<in> set [[], ''s'', ''sec'', ''secs'', ''second'', ''seconds''] then Some n
      else if u \<in> set [''m'', ''min'', ''mins'', ''minute'', ''minutes''] then Some (min u64_max (n * 60))
      else if u \<in> set [''h'', ''hr'', ''hrs'', ''hour'', ''hours''] then Some (min u64_max (n * 3600))
      else None)"

definition is_ascii_letter :: "char \<Rightarrow> bool" where
  "is_ascii_letter c = (let n = (of_char c :: nat) in (65 \<le> n \<and> n \<le> 90) \<or> (97 \<le> n \<and> n \<le> 122))"

definition trim_tildes :: "string \<Rightarrow> string" where
  "trim_tildes s = concat (dropWhile (\<lambda>ch. is_ws_char ch \<or> ch = ''~'') (utf8_chars s))"

definition cue_hint :: "string \<Rightarrow> string \<Rightarrow> nat option" where
  "cue_hint lower cue =
     (case split_once cue lower of
        None \<Rightarrow> None
      | Some (_, behind) \<Rightarrow>
          (let trimmed = trim_tildes behind; digits = takeWhile is_digit_char trimmed in
           if digits = [] then None
           else (case parse_uint 10 (2 ^ 64) digits of
                   None \<Rightarrow> None
                 | Some n \<Rightarrow> unit_secs (takeWhile is_ascii_letter (trim_start (drop (length digits) trimmed))) n)))"

definition scan_text_hint :: "string \<Rightarrow> nat option" where
  "scan_text_hint body = first_some (cue_hint (map ascii_lower body)) hint_cues"

definition text_hint_secs :: "string \<Rightarrow> nat option" where
  "text_hint_secs body = scan_text_hint body"

section \<open>Failures and recoveries\<close>

datatype turn_failure =
    TransportTimeout
  | TransportNetwork
  | TransportRateLimit "nat option"
  | TransportServerBusy "nat option"
  | ProviderRefused string
  | ProviderAuthError string
  | ContextWindowExceeded "nat option"
  | MalformedJson string
  | HallucinatedTool string
  | ContentFiltered string
  | UserCancelled
  | BudgetExhausted
  | PolicyDenied string
  | UnknownFailure string

text \<open>A number as a standalone one: neither preceded nor followed by a digit.\<close>

function bounded_from :: "string \<Rightarrow> string \<Rightarrow> nat \<Rightarrow> bool" where
  "bounded_from haystack needle start =
     (if length haystack < start then False
      else (case split_once needle (drop start haystack) of
         None \<Rightarrow> False
       | Some (ahead, _) \<Rightarrow>
           (let idx = start + length ahead; after = idx + length needle;
                before_ok = (idx = 0 \<or> \<not> is_digit_char (haystack ! (idx - 1)));
                after_ok = (after = 0 \<or> after \<ge> length haystack \<or> \<not> is_digit_char (haystack ! after))
            in if before_ok \<and> after_ok then True else bounded_from haystack needle (idx + 1))))"
  by pat_completeness auto
termination
  by (relation "measure (\<lambda>(h, n, start). Suc (length h) - start)") auto

declare bounded_from.simps [simp del]

definition contains_bounded :: "string \<Rightarrow> string \<Rightarrow> bool" where
  "contains_bounded haystack needle = bounded_from haystack needle 0"

definition classify :: "(string \<Rightarrow> string) \<Rightarrow> string \<Rightarrow> turn_failure" where
  "classify uni raw =
     (let l = to_lowercase uni raw in
      if contains_any l [''context length'', ''context window'', ''maximum context'', ''too many tokens'', ''exceeds the maximum'']
      then ContextWindowExceeded None
      else if contains_str ''rate limit'' l \<or> contains_bounded l ''429'' \<or> contains_str ''too many requests'' l
      then TransportRateLimit (text_hint_secs raw)
      else if contains_any l [''server_busy'', ''server-busy'', ''server busy'', ''serverbusy'', ''please try again later'']
      then TransportServerBusy (text_hint_secs raw)
      else if contains_bounded l ''401'' \<or> contains_bounded l ''403''
           \<or> contains_any l [''unauthorized'', ''forbidden'', ''invalid api key'', ''authentication'']
      then ProviderAuthError l
      else if contains_any l [''timed out'', ''timeout''] then TransportTimeout
      else if contains_any l [''connection'', ''dns'', ''tls''] then TransportNetwork
      else if contains_any l [''content policy'', ''content_filter'', ''filtered''] then ContentFiltered ''unknown''
      else if contains_any l [''i can'' @ [CHR 0x27] @ ''t help'', ''i cannot help'', ''i'' @ [CHR 0x27] @ ''m unable to'']
      then ProviderRefused raw
      else if contains_any l [''unknown tool'', ''tool not found''] then HallucinatedTool []
      else if contains_any l [''invalid json'', ''failed to parse json''] then MalformedJson raw
      else if contains_str ''budget'' l then BudgetExhausted
      else if contains_any l [''denied'', ''policy''] then PolicyDenied raw
      else UnknownFailure raw)"

fun recoverable :: "turn_failure \<Rightarrow> bool" where
  "recoverable UserCancelled = False"
| "recoverable BudgetExhausted = False"
| "recoverable (PolicyDenied _) = False"
| "recoverable (ContentFiltered _) = False"
| "recoverable (ProviderAuthError _) = False"
| "recoverable _ = True"

fun class_name :: "turn_failure \<Rightarrow> string" where
  "class_name TransportTimeout = ''TransportTimeout''"
| "class_name TransportNetwork = ''TransportNetwork''"
| "class_name (TransportRateLimit _) = ''TransportRateLimit''"
| "class_name (TransportServerBusy _) = ''TransportServerBusy''"
| "class_name (ProviderRefused _) = ''ProviderRefused''"
| "class_name (ProviderAuthError _) = ''ProviderAuthError''"
| "class_name (ContextWindowExceeded _) = ''ContextWindowExceeded''"
| "class_name (MalformedJson _) = ''MalformedJson''"
| "class_name (HallucinatedTool _) = ''HallucinatedTool''"
| "class_name (ContentFiltered _) = ''ContentFiltered''"
| "class_name UserCancelled = ''UserCancelled''"
| "class_name BudgetExhausted = ''BudgetExhausted''"
| "class_name (PolicyDenied _) = ''PolicyDenied''"
| "class_name (UnknownFailure _) = ''Unknown''"

fun summary :: "turn_failure \<Rightarrow> string" where
  "summary TransportTimeout = ''transport timeout''"
| "summary TransportNetwork = ''network error''"
| "summary (TransportRateLimit h) =
     (case h of Some s \<Rightarrow> ''rate limited; retry after '' @ show_nat s @ ''s'' | None \<Rightarrow> ''rate limited'')"
| "summary (TransportServerBusy h) =
     (case h of Some s \<Rightarrow> ''server busy; retry after '' @ show_nat s @ ''s'' | None \<Rightarrow> ''server busy'')"
| "summary (ProviderRefused _) = ''provider refused''"
| "summary (ProviderAuthError _) = ''provider auth error''"
| "summary (ContextWindowExceeded _) = ''context window exceeded''"
| "summary (MalformedJson _) = ''malformed JSON''"
| "summary (HallucinatedTool n) = ''hallucinated tool: '' @ n"
| "summary (ContentFiltered c) = ''content filtered ('' @ c @ '')''"
| "summary UserCancelled = ''cancelled''"
| "summary BudgetExhausted = ''budget exhausted''"
| "summary (PolicyDenied r) = ''policy denied: '' @ r"
| "summary (UnknownFailure _) = ''unknown failure''"

datatype retry_action =
    SameEndpointBackoff
  | SameEndpointLowerTemp
  | SameEndpointConstrained
  | ReinjectTools
  | ShrinkHistory
  | NextEndpoint
  | NoRetry

fun choose_action :: "turn_failure \<Rightarrow> retry_action" where
  "choose_action TransportTimeout = SameEndpointBackoff"
| "choose_action TransportNetwork = SameEndpointBackoff"
| "choose_action (TransportRateLimit _) = SameEndpointBackoff"
| "choose_action (TransportServerBusy _) = SameEndpointBackoff"
| "choose_action (ProviderRefused _) = SameEndpointLowerTemp"
| "choose_action (ProviderAuthError _) = NoRetry"
| "choose_action (ContentFiltered _) = NoRetry"
| "choose_action UserCancelled = NoRetry"
| "choose_action BudgetExhausted = NoRetry"
| "choose_action (PolicyDenied _) = NoRetry"
| "choose_action (ContextWindowExceeded _) = ShrinkHistory"
| "choose_action (MalformedJson _) = SameEndpointConstrained"
| "choose_action (HallucinatedTool _) = ReinjectTools"
| "choose_action (UnknownFailure _) = NextEndpoint"

section \<open>Numbers that stand alone\<close>

text \<open>The reference: some occurrence has no digit on either side.\<close>

definition stands_alone :: "string \<Rightarrow> string \<Rightarrow> nat \<Rightarrow> bool" where
  "stands_alone h n i =
     (prefix n (drop i h) \<and> i < length h \<and> (i = 0 \<or> \<not> is_digit_char (h ! (i - 1)))
      \<and> (i + length n \<ge> length h \<or> \<not> is_digit_char (h ! (i + length n))))"

lemma prefix_drop_split:
  assumes "split_once n (drop start h) = Some (a, b)" "n \<noteq> []" "start \<le> length h"
  shows "start + length a < length h" "prefix n (drop (start + length a) h)"
    and "start \<le> i \<Longrightarrow> i < start + length a \<Longrightarrow> \<not> prefix n (drop i h)"
proof -
  note f = split_once_Some [OF assms(1)]
  have "length (drop start h) = length a + length n + length b" using f by simp
  then show "start + length a < length h" using assms(2,3) by (cases n) auto
  have "drop (length a) (drop start h) = n @ b" using f by simp
  then show "prefix n (drop (start + length a) h)" by (simp add: add.commute)
  show "\<not> prefix n (drop i h)" if "start \<le> i" "i < start + length a"
    using f that by (auto dest: spec [of _ "i - start"])
qed

lemma bounded_from_iff:
  "n \<noteq> [] \<Longrightarrow> bounded_from h n start \<longleftrightarrow> (\<exists>i \<ge> start. stands_alone h n i)"
proof (induction h n start rule: bounded_from.induct)
  case (1 h n start)
  show ?case
  proof (cases "length h < start")
    case True
    then show ?thesis by (subst bounded_from.simps) (auto simp: stands_alone_def)
  next
    case False
    show ?thesis
    proof (cases "split_once n (drop start h)")
      case None
      then have "\<not> prefix n (drop i h)" if "start \<le> i" "i < length h" for i
        using that contains_str_at [OF 1(2), of "drop start h"] unfolding split_once_None
        by (auto dest: spec [of _ "i - start"])
      then show ?thesis
        using False None by (subst bounded_from.simps) (auto simp: stands_alone_def)
    next
      case (Some ab)
      then obtain a b where ab: "split_once n (drop start h) = Some (a, b)" by (cases ab) auto
      define idx where "idx = start + length a"
      note f = prefix_drop_split [OF ab 1(2), folded idx_def]
      let ?ok = "(idx = 0 \<or> \<not> is_digit_char (h ! (idx - 1)))
          \<and> (idx + length n = 0 \<or> idx + length n \<ge> length h \<or> \<not> is_digit_char (h ! (idx + length n)))"
      have here: "stands_alone h n idx \<longleftrightarrow> ?ok"
        using f(1,2) False 1(2) by (auto simp: stands_alone_def)
      have step: "bounded_from h n start = (?ok \<or> bounded_from h n (idx + 1))"
        using False ab by (subst bounded_from.simps) (auto simp: idx_def Let_def)
      have "\<not> stands_alone h n i" if "start \<le> i" "i < idx" for i
        using f(3) [OF _ that] False by (simp add: stands_alone_def)
      then have split: "(\<exists>i \<ge> start. stands_alone h n i) \<longleftrightarrow> stands_alone h n idx \<or> (\<exists>i \<ge> idx + 1. stands_alone h n i)"
        by (metis Suc_eq_plus1 idx_def le_add1 le_trans not_less not_less_eq_eq order_le_less)
      have "bounded_from h n (idx + 1) \<longleftrightarrow> (\<exists>i \<ge> idx + 1. stands_alone h n i)" if "\<not> ?ok"
        using that False ab 1 by (simp add: idx_def)
      then show ?thesis unfolding step split here by blast
    qed
  qed
qed

lemma contains_bounded_from: "n \<noteq> [] \<Longrightarrow> contains_bounded h n \<longleftrightarrow> (\<exists>i. stands_alone h n i)"
  using bounded_from_iff [of n h 0] by (simp add: contains_bounded_def)

text \<open>
  The search for an HTTP status answers yes exactly when the number occurs somewhere with no digit
  on either side: it skips an occurrence inside a longer number and goes on after it.
\<close>

theorem contains_bounded_iff:
  assumes "n \<noteq> []"
  shows "contains_bounded h n \<longleftrightarrow> (\<exists>i. stands_alone h n i)"
  using assms by (rule contains_bounded_from)

lemma contains_bounded_iff_witness: "contains_bounded ''id 1401, status 401'' ''401''"
  by (rule iffD2 [OF contains_bounded_iff]) (simp, rule exI [of _ 16], code_simp)

section \<open>Recovery\<close>

text \<open>
  A failure is given up exactly when it is not recoverable: the two tables agree.
\<close>

theorem no_retry_iff_not_recoverable: "choose_action f = NoRetry \<longleftrightarrow> \<not> recoverable f"
  by (cases f) simp_all

section \<open>What survives printing and classifying\<close>

lemma digit_char_facts:
  "c \<in> set ''0123456789'' \<Longrightarrow> is_digit_char c \<and> ascii_lower c = c \<and> (of_char c :: nat) < 128 \<and> \<not> is_cont c
     \<and> \<not> is_ws_char [c] \<and> c \<noteq> CHR ''~''"
  by (simp only: list.set, elim insertE emptyE; hypsubst; code_simp)

lemma show_nat_facts:
  "c \<in> set (show_nat n) \<Longrightarrow> is_digit_char c \<and> ascii_lower c = c \<and> (of_char c :: nat) < 128 \<and> \<not> is_cont c
     \<and> \<not> is_ws_char [c] \<and> c \<noteq> CHR ''~''"
  using digit_char_facts show_nat_digits [of n] by blast

lemma ascii_lower_show_nat [simp]: "map ascii_lower (show_nat n) = show_nat n"
  by (rule map_idI) (use show_nat_facts in blast)

lemma all_ascii_append [simp]: "all_ascii (a @ b) \<longleftrightarrow> all_ascii a \<and> all_ascii b"
  by (simp add: all_ascii_def)

lemma all_ascii_show_nat [simp]: "all_ascii (show_nat n)"
  using show_nat_facts by (auto simp: all_ascii_def list_all_iff)

lemma nondigit_not_in_show_nat: "\<not> is_digit_char c \<Longrightarrow> c \<notin> set (show_nat n)"
  using show_nat_facts by blast

text \<open>What follows a cue: a space, the seconds, the unit.\<close>

lemma takeWhile_digits [simp]: "takeWhile is_digit_char (show_nat n @ ''s'') = show_nat n"
proof -
  have "\<not> is_digit_char CHR ''s''" by code_simp
  then show ?thesis using show_nat_facts by (subst takeWhile_append2) auto
qed

lemma trim_tildes_seconds: "trim_tildes ('' '' @ show_nat n @ ''s'') = show_nat n @ ''s''"
proof -
  obtain c cs where c: "show_nat n = c # cs" by (cases "show_nat n") auto
  then have head: "\<not> is_ws_char [c] \<and> c \<noteq> CHR ''~'' \<and> \<not> is_cont c"
    using show_nat_facts [of c n] by simp
  have "list_all (\<lambda>c. \<not> is_cont c) ('' '' @ show_nat n @ ''s'')"
    using show_nat_facts by (auto simp: list_all_iff is_cont_def)
  from utf8_chars_ascii [OF this]
  have "utf8_chars ('' '' @ show_nat n @ ''s'') = '' '' # [c] # map (\<lambda>c. [c]) (cs @ ''s'')"
    by (simp add: c)
  moreover have "is_ws_char '' ''" by code_simp
  ultimately show ?thesis
    using head by (simp add: trim_tildes_def c concat_map_singleton)
qed

lemma cue_hint_seconds:
  assumes "n < 2 ^ 64" "split_once cue lower = Some (a, '' '' @ show_nat n @ ''s'')"
  shows "cue_hint lower cue = Some n"
proof -
  have "trim_start ''s'' = ''s''" "takeWhile is_ascii_letter ''s'' = ''s''" by code_simp+
  then show ?thesis
    using assms parse_uint_show_nat [OF assms(1)]
    by (simp add: cue_hint_def trim_tildes_seconds [simplified] Let_def unit_secs_def)
qed

definition limited_text :: "nat \<Rightarrow> string" where
  "limited_text n = ''rate limited by provider, retry after '' @ show_nat n @ ''s''"

definition busy_text :: "nat \<Rightarrow> string" where
  "busy_text n = ''server busy, retry after '' @ show_nat n @ ''s''"

lemma lower_printed:
  "map ascii_lower (show_error (KRateLimited n)) = limited_text n"
  "map ascii_lower (show_error (KServerBusy n)) = busy_text n"
  "all_ascii (show_error (KRateLimited n))" "all_ascii (show_error (KServerBusy n))"
proof -
  have "map ascii_lower ''Rate limited by provider, retry after '' = ''rate limited by provider, retry after ''"
    "map ascii_lower ''Server busy, retry after '' = ''server busy, retry after ''"
    "map ascii_lower ''s'' = ''s''"
    by code_simp+
  then show "map ascii_lower (show_error (KRateLimited n)) = limited_text n"
    "map ascii_lower (show_error (KServerBusy n)) = busy_text n"
    unfolding limited_text_def busy_text_def show_error.simps map_append by (simp_all only: ascii_lower_show_nat)
  have "all_ascii ''Rate limited by provider, retry after ''" "all_ascii ''Server busy, retry after ''" "all_ascii ''s''"
    by code_simp+
  then show "all_ascii (show_error (KRateLimited n))" "all_ascii (show_error (KServerBusy n))"
    unfolding show_error.simps all_ascii_append by simp_all
qed

lemma to_lowercase_printed:
  "to_lowercase uni (show_error (KRateLimited n)) = limited_text n"
  "to_lowercase uni (show_error (KServerBusy n)) = busy_text n"
  unfolding to_lowercase_def lower_printed by (simp_all only: lower_printed if_True)

lemma letters_not_in_show_nat:
  "CHR ''t'' \<notin> set (show_nat n)" "CHR ''c'' \<notin> set (show_nat n)" "CHR ''m'' \<notin> set (show_nat n)"
  "CHR ''e'' \<notin> set (show_nat n)" "CHR ''r'' \<notin> set (show_nat n)"
  by (rule nondigit_not_in_show_nat, code_simp)+

lemma hint_of_printed:
  assumes "n < 2 ^ 64"
  shows "text_hint_secs (show_error (KRateLimited n)) = Some n" "text_hint_secs (show_error (KServerBusy n)) = Some n"
proof -
  have "split_once ''try again in'' (limited_text n) = None" "split_once ''try again in'' (busy_text n) = None"
    unfolding split_once_None limited_text_def busy_text_def
    by (simp_all add: contains_str_skip letters_not_in_show_nat)
  then have no: "cue_hint (limited_text n) ''try again in'' = None" "cue_hint (busy_text n) ''try again in'' = None"
    by (simp_all add: cue_hint_def)
  have "split_once ''retry after'' (limited_text n) = Some (''rate limited by provider, '', '' '' @ show_nat n @ ''s'')"
    "split_once ''retry after'' (busy_text n) = Some (''server busy, '', '' '' @ show_nat n @ ''s'')"
    by (simp_all add: limited_text_def busy_text_def)
  note yes = cue_hint_seconds [OF assms this(1)] cue_hint_seconds [OF assms this(2)]
  show "text_hint_secs (show_error (KRateLimited n)) = Some n" "text_hint_secs (show_error (KServerBusy n)) = Some n"
    unfolding text_hint_secs_def scan_text_hint_def lower_printed hint_cues_def first_some.simps no yes by simp_all
qed

lemma not_about_context:
  "\<not> contains_any (limited_text n) [''context length'', ''context window'', ''maximum context'', ''too many tokens'', ''exceeds the maximum'']"
  "\<not> contains_any (busy_text n) [''context length'', ''context window'', ''maximum context'', ''too many tokens'', ''exceeds the maximum'']"
  by (simp_all add: contains_any_def limited_text_def busy_text_def contains_str_skip letters_not_in_show_nat)

text \<open>A text with one number in it has no other number standing alone.\<close>

lemma sole_number:
  assumes "contains_bounded (h @ d @ t) n" "n \<noteq> []" "list_all is_digit_char n" "list_all is_digit_char d"
    and "list_all (\<lambda>c. \<not> is_digit_char c) h" "list_all (\<lambda>c. \<not> is_digit_char c) t"
  shows "n = d"
proof -
  let ?s = "h @ d @ t"
  obtain i where i: "prefix n (drop i ?s)" "i < length ?s" "i = 0 \<or> \<not> is_digit_char (?s ! (i - 1))"
      "i + length n \<ge> length ?s \<or> \<not> is_digit_char (?s ! (i + length n))"
    using assms(1,2) contains_bounded_from unfolding stands_alone_def by blast
  obtain z where z: "drop i ?s = n @ z" using i(1) by (auto simp: prefix_def)
  then have "take i ?s @ n @ z = ?s" by (metis append_take_drop_id)
  have digit: "is_digit_char (?s ! j) \<longleftrightarrow> length h \<le> j \<and> j < length h + length d" if "j < length ?s" for j
    using that assms(4-6) by (auto simp: nth_append list_all_length)
  have len: "i + length n \<le> length ?s"
    using arg_cong [OF z, of length] i(2) by simp
  have le: "i \<le> length ?s" using i(2) by simp
  have n: "?s ! (i + k) = n ! k" if "k < length n" for k
    using arg_cong [OF z, of "\<lambda>x. x ! k"] that len by (metis le nth_append nth_drop)
  have inside: "length h \<le> i + k \<and> i + k < length h + length d" if "k < length n" for k
    using digit [of "i + k"] n [OF that] that assms(3) len by (auto simp: list_all_length)
  have lower: "length h \<le> i" using inside [of 0] assms(2) by simp
  have "i = length h"
  proof (rule ccontr)
    assume "i \<noteq> length h"
    then show False using digit [of "i - 1"] i(2,3) lower inside [of 0] assms(2) by auto
  qed
  moreover have "i + length n = length h + length d"
  proof (rule ccontr)
    assume ne: "i + length n \<noteq> length h + length d"
    have "i + length n \<le> length h + length d"
      using inside [of "length n - 1"] assms(2) by (cases n) auto
    then show False using digit [of "i + length n"] i(4) ne lower by auto
  qed
  ultimately have "length n = length d" by simp
  moreover have "drop (length h) ?s = d @ t" by simp
  ultimately show "n = d"
    using z \<open>i = length h\<close> by (metis append_eq_append_conv)
qed

lemma busy_is_not_429:
  assumes "n \<noteq> 429"
  shows "\<not> contains_bounded (busy_text n) ''429''"
proof
  assume "contains_bounded (busy_text n) ''429''"
  moreover have "list_all is_digit_char ''429''" "list_all (\<lambda>c. \<not> is_digit_char c) ''server busy, retry after ''"
    "list_all (\<lambda>c. \<not> is_digit_char c) ''s''" by code_simp+
  moreover have "list_all is_digit_char (show_nat n)"
    using show_nat_facts by (simp add: list_all_iff)
  ultimately have "''429'' = show_nat n"
    unfolding busy_text_def
    by (intro sole_number [where h = "''server busy, retry after ''" and t = "''s''"]) (assumption | simp)+
  moreover have "''429'' = show_nat 429" by code_simp
  ultimately show False using show_nat_inject [of 429 n] assms by simp
qed

text \<open>
  The detour through text: a typed rate limit and a typed overload, printed and classified again,
  give back the failure with the same wait, except for an overload of exactly 429 seconds.
\<close>

theorem classify_recovers_the_wait:
  assumes "n < 2 ^ 64"
  shows "classify uni (show_error (KRateLimited n)) = TransportRateLimit (Some n)
     \<and> (n \<noteq> 429 \<longrightarrow> classify uni (show_error (KServerBusy n)) = TransportServerBusy (Some n))"
proof (intro conjI impI)
  have "contains_str ''rate limit'' (limited_text n)" by (simp add: limited_text_def)
  then show "classify uni (show_error (KRateLimited n)) = TransportRateLimit (Some n)"
    unfolding classify_def to_lowercase_printed hint_of_printed [OF assms] Let_def
    using not_about_context by simp
next
  assume "n \<noteq> 429"
  note no = busy_is_not_429 [OF this]
  have "\<not> contains_str ''rate limit'' (busy_text n)" "\<not> contains_str ''too many requests'' (busy_text n)"
    by (simp_all add: busy_text_def contains_str_skip letters_not_in_show_nat)
  moreover have "contains_any (busy_text n)
      [''server_busy'', ''server-busy'', ''server busy'', ''serverbusy'', ''please try again later'']"
    by (simp add: contains_any_def busy_text_def)
  ultimately show "classify uni (show_error (KServerBusy n)) = TransportServerBusy (Some n)"
    unfolding classify_def to_lowercase_printed hint_of_printed [OF assms] Let_def
    using not_about_context no by simp
qed

lemma classify_recovers_the_wait_witness:
  "classify id (show_error (KServerBusy 600)) = TransportServerBusy (Some 600)"
  using classify_recovers_the_wait [of 600 id] by simp

text \<open>
  A number printed by another error is taken for an HTTP status: an overload of 429 seconds becomes
  a rate limit, and a timeout of 401 milliseconds an authentication error, which is not retried.
\<close>

lemma waits_taken_for_status:
  "classify id (show_error (KServerBusy 429)) = TransportRateLimit (Some 429)"
  "choose_action (classify id (show_error (KProviderTimeout 401))) = NoRetry"
  by code_simp+

text \<open>An authentication error whose body says try again is retried like a transient one.\<close>

lemma auth_error_retried:
  "is_retryable id (\<lambda>_. True) (provider_status id id 401 ''key revoked, try again later'')"
  by code_simp

end
