(* ===== verification/Kod_Stream_Retry.thy ===== *)
theory Kod_Stream_Retry
  imports Kod_Stream_Guard Kod_Error Kod_Goals
begin

text \<open>
  Replay-safe retry of a stream: the chunks of \<open>crates/kod-provider/src/types.rs\<close>, the commit rule
  and the budget of empty completions of \<open>retry_safety.rs\<close>, and the attempt loop of
  \<open>crates/kod-provider-openai/src/provider.rs\<close> that composes them with the stall guard. What the
  library under it delivers in an attempt is a list of events; a sleep is recorded in
  milliseconds. The lemmas show that the buffering before the first committing chunk is not
  visible, that what the caller receives comes from one attempt, that the stream ends, and how
  long it may sleep.
\<close>

section \<open>Chunks and what commits\<close>

datatype stream_chunk =
    ChText string
  | ChToolStart nat "string option" string
  | ChToolDelta nat string
  | ChUsage token_usage
  | ChStopReason string
  | ChDone

fun chunk_commits :: "stream_chunk \<Rightarrow> bool" where
  "chunk_commits (ChText t) = (t \<noteq> [])"
| "chunk_commits (ChToolDelta _ arguments) = (arguments \<noteq> [])"
| "chunk_commits _ = False"

record attempt_tracker =
  committed :: bool

definition tracker_new :: attempt_tracker where
  "tracker_new = \<lparr> committed = False \<rparr>"

definition tracker_observe :: "stream_chunk \<Rightarrow> attempt_tracker \<Rightarrow> attempt_tracker" where
  "tracker_observe c t = (if \<not> committed t \<and> chunk_commits c then t\<lparr>committed := True\<rparr> else t)"

definition is_safe_to_retry :: "attempt_tracker \<Rightarrow> bool" where
  "is_safe_to_retry t = (\<not> committed t)"

definition tracker_reset :: "attempt_tracker \<Rightarrow> attempt_tracker" where
  "tracker_reset t = t\<lparr>committed := False\<rparr>"

section \<open>Empty completions\<close>

record empty_retry =
  er_attempts :: u32

definition max_empty_completion_retries :: u32 where
  "max_empty_completion_retries = 2"

definition empty_completion_base_delay_ms :: u64 where
  "empty_completion_base_delay_ms = 500"

definition empty_retry_new :: empty_retry where
  "empty_retry_new = \<lparr> er_attempts = 0 \<rparr>"

definition should_retry_empty :: "empty_retry \<Rightarrow> string \<Rightarrow> token_usage option \<Rightarrow> bool" where
  "should_retry_empty r content usage =
     (if er_attempts r \<ge> max_empty_completion_retries then False
      else if content \<noteq> [] then False
      else (case usage of Some u \<Rightarrow> completion_tokens u \<le> 1 | None \<Rightarrow> True))"

definition observe_retry :: "empty_retry \<Rightarrow> empty_retry" where
  "observe_retry r = r\<lparr>er_attempts := sat_add (er_attempts r) 1\<rparr>"

definition next_delay_ms :: "empty_retry \<Rightarrow> u64" where
  "next_delay_ms r =
     (if er_attempts r \<ge> max_empty_completion_retries then 0
      else of_nat (min (2 ^ 64 - 1) (unat empty_completion_base_delay_ms * 2 ^ unat (er_attempts r))))"

section \<open>What the guard sees of a chunk\<close>

fun chunk_bytes :: "stream_chunk \<Rightarrow> string option" where
  "chunk_bytes (ChText t) = Some t"
| "chunk_bytes (ChToolDelta _ arguments) = Some arguments"
| "chunk_bytes _ = None"

definition guard_feed_chunk :: "stream_chunk \<Rightarrow> stream_guard \<Rightarrow> string option \<times> stream_guard" where
  "guard_feed_chunk c g =
     (case chunk_bytes c of
        None \<Rightarrow> (None, g)
      | Some bs \<Rightarrow>
          (if bs = [] then (None, g)
           else (case guard_feed bs g of
                   (StallClean, g') \<Rightarrow> (None, g')
                 | (StallLoop d, g') \<Rightarrow> (Some d, g'))))"

section \<open>Errors of the library\<close>

datatype adk_category =
    CatInvalidInput | CatUnauthorized | CatForbidden | CatNotFound | CatUnsupported | CatCancelled | CatOther string

record adk_error =
  upstream_status :: "nat option"
  adk_category :: adk_category
  adk_text :: string

definition adk_err :: "adk_error \<Rightarrow> kod_error" where
  "adk_err e = KProvider (adk_text e)"

definition adk_err_typed :: "(string \<Rightarrow> string) \<Rightarrow> adk_error \<Rightarrow> kod_error" where
  "adk_err_typed uni e =
     (case (if upstream_status e = Some 429 then text_hint_secs (adk_text e) else None) of
        Some n \<Rightarrow> KRateLimited n
      | None \<Rightarrow>
          (if upstream_status e = Some 503 \<and> is_server_busy_body uni (adk_text e)
           then KServerBusy (case text_hint_secs (adk_text e) of Some n \<Rightarrow> n | None \<Rightarrow> 600)
           else adk_err e))"

definition adk_precommit_retryable :: "adk_error \<Rightarrow> bool" where
  "adk_precommit_retryable e =
     (case upstream_status e of
        Some st \<Rightarrow> st \<in> set [408, 429, 500, 502, 503, 504, 529]
      | None \<Rightarrow> adk_category e \<notin> set [CatInvalidInput, CatUnauthorized, CatForbidden, CatNotFound, CatUnsupported, CatCancelled])"

text \<open>The delay before the next attempt, in milliseconds, and whether the long wait is spent.\<close>

definition rate_limit_delay :: "kod_error \<Rightarrow> nat \<Rightarrow> nat \<Rightarrow> bool \<Rightarrow> nat \<times> bool" where
  "rate_limit_delay err budget attempt used =
     (case (case err of KRateLimited n \<Rightarrow> Some n | KServerBusy n \<Rightarrow> Some n | _ \<Rightarrow> None) of
        Some n \<Rightarrow>
          (if n \<noteq> 0 \<and> n * 1000 \<le> budget \<and> \<not> used then (n * 1000, True) else (250 * attempt, used))
      | None \<Rightarrow> (250 * attempt, used))"

definition stream_rate_limit_wait_cap :: nat where
  "stream_rate_limit_wait_cap = 90 * 1000"

section \<open>One attempt\<close>

datatype part = PText string | PCall string string "string option" | POther

record adk_response =
  usage_metadata :: "token_usage option"
  resp_parts :: "part list option"

text \<open>
  What the read loop meets: a response, an error, the deadline while it waits for one, and the
  deadline between two, when the loop condition fails. The end of the list is the end of the stream.
\<close>

datatype upstream_event = Response adk_response | ResponseError adk_error | ReadElapsed | DeadlinePassed

datatype upstream = Unopened adk_error | Opened "upstream_event list"

record stream_attempt =
  at_tracker :: attempt_tracker
  at_buffered :: "stream_chunk list"
  at_yielded :: "stream_chunk list"
  at_text :: string
  at_usage :: "token_usage option"
  at_guard :: "stream_guard option"
  at_index :: nat

definition attempt_start :: "bool \<Rightarrow> stream_attempt" where
  "attempt_start guard_enabled =
     \<lparr> at_tracker = tracker_new, at_buffered = [], at_yielded = [], at_text = [], at_usage = None,
       at_guard = (if guard_enabled then Some stream_guard_new else None), at_index = 0 \<rparr>"

definition deliver :: "stream_chunk \<Rightarrow> stream_attempt \<Rightarrow> stream_attempt" where
  "deliver c a =
     (let was = committed (at_tracker a); t = tracker_observe c (at_tracker a); a = a\<lparr>at_tracker := t\<rparr> in
      if committed t then
        (let a = (if \<not> was then a\<lparr>at_yielded := at_yielded a @ at_buffered a, at_buffered := []\<rparr> else a)
         in a\<lparr>at_yielded := at_yielded a @ [c]\<rparr>)
      else a\<lparr>at_buffered := at_buffered a @ [c]\<rparr>)"

definition stall_on :: "stream_chunk \<Rightarrow> stream_attempt \<Rightarrow> string option \<times> stream_attempt" where
  "stall_on c a =
     (case at_guard a of
        None \<Rightarrow> (None, a)
      | Some g \<Rightarrow> (let (d, g') = guard_feed_chunk c g in (d, a\<lparr>at_guard := Some g'\<rparr>)))"

definition deliver_guarded :: "stream_chunk \<Rightarrow> stream_attempt \<Rightarrow> string option \<times> stream_attempt" where
  "deliver_guarded c a =
     (case stall_on c a of
        (Some d, a') \<Rightarrow> (Some d, a')
      | (None, a') \<Rightarrow> (None, deliver c a'))"

fun read_part :: "part \<Rightarrow> stream_attempt \<Rightarrow> string option \<times> stream_attempt" where
  "read_part (PText t) a =
     (if t = [] then (None, a) else deliver_guarded (ChText t) (a\<lparr>at_text := at_text a @ t\<rparr>))"
| "read_part (PCall name args i) a =
     (let index = at_index a; a = deliver (ChToolStart index i name) (a\<lparr>at_index := index + 1\<rparr>)
      in deliver_guarded (ChToolDelta index args) a)"
| "read_part POther a = (None, a)"

fun read_parts :: "part list \<Rightarrow> stream_attempt \<Rightarrow> string option \<times> stream_attempt" where
  "read_parts [] a = (None, a)"
| "read_parts (p # ps) a =
     (case read_part p a of
        (Some d, a') \<Rightarrow> (Some d, a')
      | (None, a') \<Rightarrow> read_parts ps a')"

definition read_usage :: "token_usage option \<Rightarrow> stream_attempt \<Rightarrow> stream_attempt" where
  "read_usage u a = (case u of None \<Rightarrow> a | Some u \<Rightarrow> deliver (ChUsage u) (a\<lparr>at_usage := Some u\<rparr>))"

datatype read_end = EndClean | EndTransport kod_error bool | EndStall string

fun read_events :: "(string \<Rightarrow> string) \<Rightarrow> upstream_event list \<Rightarrow> stream_attempt \<Rightarrow> read_end \<times> stream_attempt" where
  "read_events uni [] a = (EndClean, a)"
| "read_events uni (DeadlinePassed # _) a = (EndClean, a)"
| "read_events uni (ReadElapsed # _) a =
     (EndTransport (KProvider ''openai-compat stream: attempt exceeded 300s without completing'') True, a)"
| "read_events uni (ResponseError e # _) a = (EndTransport (adk_err_typed uni e) (adk_precommit_retryable e), a)"
| "read_events uni (Response r # es) a =
     (case read_parts (case resp_parts r of None \<Rightarrow> [] | Some ps \<Rightarrow> ps) (read_usage (usage_metadata r) a) of
        (Some d, a') \<Rightarrow> (EndStall d, a')
      | (None, a') \<Rightarrow> read_events uni es a')"

section \<open>The attempt loop\<close>

definition max_stream_attempts :: nat where
  "max_stream_attempts = 3"

text \<open>Again, with the sleep before it and the state of the budgets, or the end, with the last items.\<close>

datatype after_attempt = Again nat bool empty_retry | Stop "(kod_error + stream_chunk) list"

definition decide_end ::
    "nat \<Rightarrow> nat \<Rightarrow> bool \<Rightarrow> empty_retry \<Rightarrow> read_end \<Rightarrow> stream_attempt \<Rightarrow> after_attempt" where
  "decide_end budget attempt used er fin a =
     (let again = (is_safe_to_retry (at_tracker a) \<and> attempt < max_stream_attempts) in
      case fin of
        EndTransport err retryable \<Rightarrow>
          (if retryable \<and> again then (let (d, used') = rate_limit_delay err budget attempt used in Again d used' er)
           else Stop [Inl err])
      | EndStall d \<Rightarrow> (if again then Again 0 used er else Stop [Inl (KProvider (''stream stall detected: '' @ d))])
      | EndClean \<Rightarrow>
          (if again \<and> should_retry_empty er (at_text a) (at_usage a)
           then (let er' = observe_retry er in Again (unat (next_delay_ms er')) used er')
           else Stop (map Inr (at_buffered a) @ [Inr ChDone])))"

definition decide_unopened :: "(string \<Rightarrow> string) \<Rightarrow> nat \<Rightarrow> nat \<Rightarrow> bool \<Rightarrow> empty_retry \<Rightarrow> adk_error \<Rightarrow> after_attempt" where
  "decide_unopened uni budget attempt used er e =
     (if \<not> adk_precommit_retryable e then Stop [Inl (adk_err e)]
      else if attempt < max_stream_attempts
      then (let (d, used') = rate_limit_delay (adk_err_typed uni e) budget attempt used in Again d used' er)
      else Stop [Inl (adk_err_typed uni e)])"

definition run_attempt ::
    "(string \<Rightarrow> string) \<Rightarrow> bool \<Rightarrow> nat \<Rightarrow> nat \<Rightarrow> bool \<Rightarrow> empty_retry \<Rightarrow> upstream \<Rightarrow> stream_chunk list \<times> after_attempt" where
  "run_attempt uni guard_enabled budget attempt used er up =
     (case up of
        Unopened e \<Rightarrow> ([], decide_unopened uni budget attempt used er e)
      | Opened es \<Rightarrow>
          (let (fin, a) = read_events uni es (attempt_start guard_enabled)
           in (at_yielded a, decide_end budget attempt used er fin a)))"

definition slept :: "nat \<Rightarrow> nat list" where
  "slept d = (if d > 0 then [d] else [])"

text \<open>The retry is only asked for below the third attempt, which is what ends the loop.\<close>

lemma again_below: "run_attempt uni ge budget attempt used er up = (ys, Again d used' er') \<Longrightarrow> attempt < max_stream_attempts"
  by (auto simp: run_attempt_def decide_unopened_def decide_end_def Let_def case_prod_unfold
      split: upstream.splits if_splits read_end.splits)

function attempt_loop ::
    "(string \<Rightarrow> string) \<Rightarrow> bool \<Rightarrow> nat \<Rightarrow> (nat \<Rightarrow> upstream) \<Rightarrow> nat \<Rightarrow> bool \<Rightarrow> empty_retry \<Rightarrow>
     (kod_error + stream_chunk) list \<times> nat list" where
  "attempt_loop uni guard_enabled budget ups attempt used er =
     (case run_attempt uni guard_enabled budget attempt used er (ups attempt) of
        (ys, Stop fin) \<Rightarrow> (map Inr ys @ fin, [])
      | (ys, Again d used' er') \<Rightarrow>
          (let (out, sleeps) = attempt_loop uni guard_enabled budget ups (attempt + 1) used' er'
           in (map Inr ys @ out, slept d @ sleeps)))"
  by pat_completeness auto
termination
  by (relation "measure (\<lambda>(u, g, b, ups, attempt, used, er). max_stream_attempts - attempt)")
     (auto dest!: again_below [OF sym])

declare attempt_loop.simps [simp del]

definition stream_request ::
    "(string \<Rightarrow> string) \<Rightarrow> bool \<Rightarrow> nat \<Rightarrow> (nat \<Rightarrow> upstream) \<Rightarrow> (kod_error + stream_chunk) list \<times> nat list" where
  "stream_request uni guard_enabled rate_limit_wait ups =
     attempt_loop uni guard_enabled (min rate_limit_wait stream_rate_limit_wait_cap) ups 1 False empty_retry_new"

section \<open>Buffering is transparent\<close>

text \<open>
  The reference: chunks that commit nothing are held back, and from the first that commits on
  everything is delivered, what was held first.
\<close>

definition buffering :: "stream_chunk list \<Rightarrow> stream_attempt \<Rightarrow> bool" where
  "buffering cs a =
     (if \<exists>c \<in> set cs. chunk_commits c then committed (at_tracker a) \<and> at_yielded a = cs \<and> at_buffered a = []
      else \<not> committed (at_tracker a) \<and> at_yielded a = [] \<and> at_buffered a = cs)"

lemma deliver_buffering: "buffering cs a \<Longrightarrow> buffering (cs @ [c]) (deliver c a)"
  by (auto simp: buffering_def deliver_def tracker_observe_def Let_def split: if_splits)

lemma buffering_other:
  "buffering cs a \<Longrightarrow> at_tracker a' = at_tracker a \<Longrightarrow> at_yielded a' = at_yielded a \<Longrightarrow> at_buffered a' = at_buffered a \<Longrightarrow> buffering cs a'"
  by (simp add: buffering_def)

lemma stall_on_keeps:
  "stall_on c a = (d, a') \<Longrightarrow> at_tracker a' = at_tracker a \<and> at_yielded a' = at_yielded a \<and> at_buffered a' = at_buffered a"
  by (auto simp: stall_on_def Let_def case_prod_unfold split: option.splits)

text \<open>What a part, a response, a stream adds: chunks, never the final \<open>Done\<close>.\<close>

definition adds :: "stream_chunk list \<Rightarrow> stream_attempt \<Rightarrow> stream_attempt \<Rightarrow> bool" where
  "adds ds a a' = (ChDone \<notin> set ds \<and> (\<forall>cs. buffering cs a \<longrightarrow> buffering (cs @ ds) a'))"

lemma adds_none: "at_tracker a' = at_tracker a \<Longrightarrow> at_yielded a' = at_yielded a \<Longrightarrow> at_buffered a' = at_buffered a \<Longrightarrow> adds [] a a'"
  by (simp add: adds_def buffering_def)

lemma adds_trans: "adds ds a b \<Longrightarrow> adds es b c \<Longrightarrow> adds (ds @ es) a c"
  unfolding adds_def by (metis Un_iff append.assoc set_append)

lemma adds_deliver: "c \<noteq> ChDone \<Longrightarrow> adds [c] a (deliver c a)"
  by (simp add: adds_def deliver_buffering)

lemma adds_guarded: "c \<noteq> ChDone \<Longrightarrow> \<exists>ds. adds ds a (snd (deliver_guarded c a))"
proof -
  assume c: "c \<noteq> ChDone"
  obtain d b where s: "stall_on c a = (d, b)" by fastforce
  have "adds [] a b" using stall_on_keeps [OF s] by (intro adds_none) auto
  then show ?thesis
    using adds_trans [OF _ adds_deliver [OF c], of "[]" a b]
    by (cases d) (auto simp: deliver_guarded_def s)
qed

lemma adds_part: "\<exists>ds. adds ds a (snd (read_part p a))"
proof (cases p)
  case (PText t)
  show ?thesis
  proof (cases "t = []")
    case False
    let ?b = "a\<lparr>at_text := at_text a @ t\<rparr>"
    obtain ds where "adds ds ?b (snd (deliver_guarded (ChText t) ?b))"
      using adds_guarded [of "ChText t" ?b] by auto
    then have "adds ([] @ ds) a (snd (deliver_guarded (ChText t) ?b))"
      by (intro adds_trans [OF adds_none]) auto
    then show ?thesis using False PText by auto
  qed (use PText in \<open>auto intro: adds_none\<close>)
next
  case (PCall name args i)
  let ?b = "a\<lparr>at_index := at_index a + 1\<rparr>" and ?start = "ChToolStart (at_index a) i name"
  obtain ds where "adds ds (deliver ?start ?b) (snd (deliver_guarded (ChToolDelta (at_index a) args) (deliver ?start ?b)))"
    using adds_guarded [of "ChToolDelta (at_index a) args"] by blast
  then have "adds ([] @ [?start] @ ds) a (snd (read_part p a))"
    unfolding PCall read_part.simps Let_def
    by (intro adds_trans [OF adds_none adds_trans [OF adds_deliver]]) auto
  then show ?thesis by blast
qed (auto intro: adds_none)

lemma adds_parts: "\<exists>ds. adds ds a (snd (read_parts ps a))"
proof (induction ps arbitrary: a)
  case (Cons p ps)
  obtain d b where p: "read_part p a = (d, b)" by fastforce
  then obtain ds where "adds ds a b" using adds_part [of a p] by auto
  then show ?case using Cons [of b] by (cases d) (auto simp: p intro: adds_trans)
qed (auto intro: adds_none)

lemma adds_usage: "\<exists>ds. adds ds a (read_usage u a)"
proof (cases u)
  case (Some v)
  have "adds ([] @ [ChUsage v]) a (read_usage u a)"
    unfolding Some read_usage_def option.case
    by (intro adds_trans [OF adds_none adds_deliver]) auto
  then show ?thesis by blast
qed (auto simp: read_usage_def intro: adds_none)

lemma adds_events: "\<exists>ds. adds ds a (snd (read_events uni es a))"
proof (induction uni es a rule: read_events.induct)
  case (5 uni r es a)
  let ?ps = "case resp_parts r of None \<Rightarrow> [] | Some ps \<Rightarrow> ps" and ?u = "read_usage (usage_metadata r) a"
  obtain d b where b: "read_parts ?ps ?u = (d, b)" by fastforce
  obtain ds where "adds ds a b"
    using adds_usage [of a "usage_metadata r"] adds_parts [of ?u ?ps] adds_trans b by (metis snd_conv)
  then show ?case using 5 [OF b [symmetric]] b by (cases d) (auto intro: adds_trans)
qed (auto intro: adds_none)

lemma attempt_start_buffering: "buffering [] (attempt_start ge)"
  by (simp add: buffering_def attempt_start_def tracker_new_def)

lemma read_buffering:
  "\<exists>cs. ChDone \<notin> set cs \<and> buffering cs (snd (read_events uni es (attempt_start ge)))"
  using adds_events [of "attempt_start ge" uni es] attempt_start_buffering [of ge]
  unfolding adds_def by (metis append_Nil)

text \<open>
  Buffering is transparent: whatever chunks an attempt reads, those delivered followed by those
  held back are all of them in order; all are delivered as soon as one commits, and none before.
\<close>

theorem chunks_delivered_in_order:
  "let a = foldl (\<lambda>a c. deliver c a) (attempt_start guard_enabled) cs in
   at_yielded a @ at_buffered a = cs
   \<and> at_yielded a = (if list_ex chunk_commits cs then cs else [])"
proof -
  have "buffering cs (foldl (\<lambda>a c. deliver c a) (attempt_start guard_enabled) cs)"
    by (induction cs rule: rev_induct) (simp_all add: attempt_start_buffering deliver_buffering)
  then show ?thesis by (auto simp: buffering_def Let_def list_ex_iff split: if_splits)
qed

section \<open>One attempt is delivered\<close>

text \<open>What an attempt would deliver when it stops, and an attempt that delivered nothing.\<close>

definition delivered_by :: "(string \<Rightarrow> string) \<Rightarrow> bool \<Rightarrow> upstream \<Rightarrow> stream_chunk list" where
  "delivered_by uni ge up =
     (case up of Unopened _ \<Rightarrow> [] | Opened es \<Rightarrow> at_yielded (snd (read_events uni es (attempt_start ge))))"

definition held_by :: "(string \<Rightarrow> string) \<Rightarrow> bool \<Rightarrow> upstream \<Rightarrow> stream_chunk list" where
  "held_by uni ge up =
     (case up of Unopened _ \<Rightarrow> [] | Opened es \<Rightarrow> at_buffered (snd (read_events uni es (attempt_start ge))))"

lemma run_attempt_yields: "fst (run_attempt uni ge b n used er up) = delivered_by uni ge up"
  by (simp add: run_attempt_def delivered_by_def case_prod_unfold Let_def split: upstream.splits)

lemma again_delivers_nothing:
  assumes "run_attempt uni ge b n used er up = (ys, Again d used' er')"
  shows "delivered_by uni ge up = []"
proof (cases up)
  case (Opened es)
  obtain fin a where r: "read_events uni es (attempt_start ge) = (fin, a)" by fastforce
  obtain cs where cs: "buffering cs a" using read_buffering [of uni es ge] r by auto
  have "decide_end b n used er fin a = Again d used' er'"
    using assms by (simp add: run_attempt_def Opened r Let_def)
  then have "\<not> committed (at_tracker a)"
    by (auto simp: decide_end_def is_safe_to_retry_def Let_def case_prod_unfold split: read_end.splits if_splits)
  then show ?thesis
    using cs by (auto simp: delivered_by_def Opened r buffering_def split: if_splits)
qed (simp add: delivered_by_def)

lemma stop_is_terminal:
  assumes "run_attempt uni ge b n used er up = (ys, Stop fin)"
  shows "(\<exists>e. fin = [Inl e]) \<or> fin = map Inr (held_by uni ge up) @ [Inr ChDone]"
  using assms
  by (auto simp: run_attempt_def held_by_def decide_unopened_def decide_end_def Let_def case_prod_unfold
      split: upstream.splits read_end.splits if_splits)

lemma attempt_loop_cases:
  obtains (stop) ys fin where "run_attempt uni ge b n used er (ups n) = (ys, Stop fin)"
      "attempt_loop uni ge b ups n used er = (map Inr ys @ fin, [])"
  | (again) d used' er' where "run_attempt uni ge b n used er (ups n) = ([], Again d used' er')"
      "n < max_stream_attempts"
      "attempt_loop uni ge b ups n used er =
        (fst (attempt_loop uni ge b ups (n + 1) used' er'), slept d @ snd (attempt_loop uni ge b ups (n + 1) used' er'))"
proof (cases "run_attempt uni ge b n used er (ups n)")
  case (Pair ys k)
  show ?thesis
  proof (cases k)
    case (Again d used' er')
    have "ys = []"
      using again_delivers_nothing Pair run_attempt_yields [of uni ge b n used er "ups n"] by (auto simp: Again)
    then show ?thesis
      using again [of d used' er'] again_below [of uni ge b n used er "ups n"] Pair
      by (simp add: Again attempt_loop.simps [of uni ge b ups n used er] case_prod_unfold Let_def)
  next
    case (Stop fin)
    then show ?thesis
      using stop [of ys fin] Pair by (simp add: attempt_loop.simps [of uni ge b ups n used er])
  qed
qed

text \<open>The output of the attempts from the \<open>n\<close>-th on is the output of one of them.\<close>

definition delivers_one ::
  "(string \<Rightarrow> string) \<Rightarrow> bool \<Rightarrow> (nat \<Rightarrow> upstream) \<Rightarrow> nat \<Rightarrow> (kod_error + stream_chunk) list \<Rightarrow> bool" where
  "delivers_one uni ge ups n out = (\<exists>k fin. n \<le> k \<and> k \<le> max_stream_attempts
     \<and> (\<forall>j. n \<le> j \<and> j < k \<longrightarrow> delivered_by uni ge (ups j) = [])
     \<and> out = map Inr (delivered_by uni ge (ups k)) @ fin
     \<and> ((\<exists>e. fin = [Inl e]) \<or> fin = map Inr (held_by uni ge (ups k)) @ [Inr ChDone]))"

lemma delivers_one_now:
  "n \<le> max_stream_attempts \<Longrightarrow> run_attempt uni ge b n used er (ups n) = (ys, Stop fin) \<Longrightarrow>
   delivers_one uni ge ups n (map Inr ys @ fin)"
  using stop_is_terminal [of uni ge b n used er "ups n"] run_attempt_yields [of uni ge b n used er "ups n"]
  unfolding delivers_one_def by (intro exI [of _ n] exI [of _ fin]) auto

lemma delivers_one_later:
  assumes "delivers_one uni ge ups (n + 1) out" "delivered_by uni ge (ups n) = []"
  shows "delivers_one uni ge ups n out"
proof -
  obtain k fin where k: "n + 1 \<le> k" "k \<le> max_stream_attempts"
      "\<And>j. n + 1 \<le> j \<and> j < k \<Longrightarrow> delivered_by uni ge (ups j) = []"
    and o: "out = map Inr (delivered_by uni ge (ups k)) @ fin"
      "(\<exists>e. fin = [Inl e]) \<or> fin = map Inr (held_by uni ge (ups k)) @ [Inr ChDone]"
    using assms(1) unfolding delivers_one_def by (elim exE conjE) (rule that, auto)
  have "delivered_by uni ge (ups j) = []" if "n \<le> j \<and> j < k" for j
    using k(3) [of j] assms(2) that by (cases "j = n") auto
  then show ?thesis
    unfolding delivers_one_def using k o by (intro exI [of _ k] exI [of _ fin]) auto
qed

lemma loop_delivers_one:
  "n \<le> max_stream_attempts \<Longrightarrow> delivers_one uni ge ups n (fst (attempt_loop uni ge b ups n used er))"
proof (induction "max_stream_attempts - n" arbitrary: n used er)
  case 0
  then show ?case
    using delivers_one_now by (cases rule: attempt_loop_cases [of uni ge b n used er ups]) auto
next
  case (Suc m)
  show ?case
  proof (cases rule: attempt_loop_cases [of uni ge b n used er ups])
    case (stop ys fin)
    then show ?thesis using delivers_one_now [OF Suc.prems, of uni ge b used er ups ys fin] stop by simp
  next
    case (again d used' er')
    have m: "m = max_stream_attempts - (n + 1)" "n + 1 \<le> max_stream_attempts"
      using Suc.hyps(2) again(2) by simp_all
    show ?thesis
      using delivers_one_later [of uni ge ups n, OF Suc.hyps(1) [OF m] again_delivers_nothing [OF again(1)]]
      unfolding again(3) fst_conv .
  qed
qed

text \<open>
  C25. A retried stream delivers one attempt: the items the caller receives are the chunks of a single
  attempt among the first three, after attempts that delivered nothing, and then either an error or
  the chunks still held back and the end.
\<close>

theorem one_attempt_is_delivered:
  "\<exists>k fin. k \<in> {1..3} \<and> concat (map (\<lambda>j. delivered_by uni ge (ups j)) [1..<k]) = []
     \<and> fst (stream_request uni ge wait ups) = map Inr (delivered_by uni ge (ups k)) @ fin
     \<and> ((\<exists>e. fin = [Inl e]) \<or> fin = map Inr (held_by uni ge (ups k)) @ [Inr ChDone])"
proof -
  have "delivers_one uni ge ups 1 (fst (stream_request uni ge wait ups))"
    unfolding stream_request_def by (rule loop_delivers_one) (simp add: max_stream_attempts_def)
  then obtain k fin where k: "1 \<le> k" "k \<le> 3" "\<And>j. 1 \<le> j \<and> j < k \<Longrightarrow> delivered_by uni ge (ups j) = []"
    and o: "fst (stream_request uni ge wait ups) = map Inr (delivered_by uni ge (ups k)) @ fin"
      "(\<exists>e. fin = [Inl e]) \<or> fin = map Inr (held_by uni ge (ups k)) @ [Inr ChDone]"
    unfolding delivers_one_def max_stream_attempts_def by (elim exE conjE) (rule that, auto)
  moreover have "concat (map (\<lambda>j. delivered_by uni ge (ups j)) [1..<k]) = []"
    using k(3) by simp
  ultimately show ?thesis by (intro exI [of _ k] exI [of _ fin]) simp
qed

section \<open>How long the stream may sleep\<close>

lemma rate_limit_delay_cases:
  assumes "rate_limit_delay err b n used = (d, used')"
  obtains (short) "d = 250 * n" "used' = used" | (long) "d \<le> b" "\<not> used" "used'"
  using assms by (auto simp: rate_limit_delay_def split: option.splits if_splits)

text \<open>A retry waits a little, or as long as the server asks, once, or for an empty completion.\<close>

lemma again_delay_cases:
  assumes "run_attempt uni ge b n used er up = (ys, Again d used' er')"
  obtains (short) "d \<le> 250 * n" "used' = used" "er' = er"
  | (long) "d \<le> b" "\<not> used" "used'" "er' = er"
  | (empty) "d = unat (next_delay_ms (observe_retry er))" "used' = used" "er' = observe_retry er"
      "er_attempts er < max_empty_completion_retries"
proof -
  have "(\<exists>err. rate_limit_delay err b n used = (d, used') \<and> er' = er) \<or> (d = 0 \<and> used' = used \<and> er' = er)
      \<or> (d = unat (next_delay_ms (observe_retry er)) \<and> used' = used \<and> er' = observe_retry er
         \<and> er_attempts er < max_empty_completion_retries)"
    using assms
    by (auto simp: run_attempt_def decide_unopened_def decide_end_def Let_def case_prod_unfold should_retry_empty_def
        split: upstream.splits if_splits read_end.splits)
      (metis prod.collapse)+
  then show ?thesis
  proof (elim disjE exE conjE)
    fix err
    assume "rate_limit_delay err b n used = (d, used')" "er' = er"
    then show ?thesis
      using short long by (cases rule: rate_limit_delay_cases) auto
  next
    assume "d = 0" "used' = used" "er' = er"
    then show ?thesis by (intro short) auto
  next
    assume "d = unat (next_delay_ms (observe_retry er))" "used' = used" "er' = observe_retry er"
      "er_attempts er < max_empty_completion_retries"
    then show ?thesis by (rule empty)
  qed
qed

text \<open>
  The budget is advanced before the delay is read, so the delays are 1000 ms and none, not the
  500 ms and 1000 ms the constants are documented with.
\<close>

lemma empty_delays:
  "unat (next_delay_ms (observe_retry empty_retry_new)) = 1000"
  "er_attempts er = 1 \<Longrightarrow> unat (next_delay_ms (observe_retry er)) = 0"
  by (simp_all add: next_delay_ms_def observe_retry_def empty_retry_new_def max_empty_completion_retries_def
      empty_completion_base_delay_ms_def sat_add_def word_le_nat_alt)

lemma observe_retry_attempts: "er_attempts (observe_retry empty_retry_new) = 1"
  by (simp add: observe_retry_def empty_retry_new_def sat_add_def)

lemma sleeps_third: "snd (attempt_loop uni ge b ups 3 used er) = []"
  by (cases rule: attempt_loop_cases [of uni ge b 3 used er ups]) (auto simp: max_stream_attempts_def)

lemma sum_slept [simp]: "sum_list (slept d) = d"
  by (simp add: slept_def)

lemma sleeps_second:
  assumes "er = empty_retry_new \<or> er_attempts er = 1"
  shows "sum_list (snd (attempt_loop uni ge b ups 2 used er)) \<le> (if used then 0 else b) + (if er_attempts er = 1 then 500 else 1000)"
proof (cases rule: attempt_loop_cases [of uni ge b 2 used er ups])
  case (stop ys fin)
  then show ?thesis by simp
next
  case (again d used' er')
  have "d \<le> (if used then 0 else b) + (if er_attempts er = 1 then 500 else 1000)"
    using again(1) assms
    by (cases rule: again_delay_cases) (auto simp: empty_delays empty_retry_new_def [THEN arg_cong, of er_attempts])
  then show ?thesis
    unfolding again(3) snd_conv using sleeps_third [of uni ge b ups used' er'] by simp
qed

lemma sleeps_first:
  "sum_list (snd (attempt_loop uni ge b ups 1 False empty_retry_new)) \<le> b + 1500"
proof (cases rule: attempt_loop_cases [of uni ge b 1 False empty_retry_new ups])
  case (stop ys fin)
  then show ?thesis by simp
next
  case (again d used' er')
  have new: "er_attempts empty_retry_new \<noteq> 1"
    by (simp add: empty_retry_new_def)
  have "d + sum_list (snd (attempt_loop uni ge b ups 2 used' er')) \<le> b + 1500"
    using again(1)
  proof (cases rule: again_delay_cases)
    case short
    then show ?thesis using sleeps_second [of er' uni ge b ups used'] new by simp
  next
    case long
    then show ?thesis using sleeps_second [of er' uni ge b ups used'] new by simp
  next
    case empty
    then show ?thesis
      using sleeps_second [of er' uni ge b ups used'] observe_retry_attempts empty_delays(1) by simp
  qed
  then show ?thesis unfolding again(3) by (simp add: numeral_2_eq_2)
qed

text \<open>
  C26. Whatever the three attempts meet, all the sleeping of a stream together is at most the
  rate-limit wait, itself capped at 90 s, and a second and a half.
\<close>

theorem stream_sleeps_bounded:
  "sum_list (snd (stream_request uni ge wait ups)) \<le> min wait 90000 + 1500"
  using sleeps_first [of uni ge "min wait stream_rate_limit_wait_cap" ups]
  by (simp add: stream_request_def stream_rate_limit_wait_cap_def)

section \<open>What the deadline does\<close>

text \<open>
  A deadline that passes between two reads ends the loop as the end of the stream does: a reply that
  is cut there is closed with the end marker, while one cut inside a read ends with an error.
\<close>

lemma deadline_between_reads_looks_complete:
  "fst (stream_request uni False wait
      (\<lambda>_. Opened [Response \<lparr>usage_metadata = None, resp_parts = Some [PText ''half'']\<rparr>, DeadlinePassed]))
    = [Inr (ChText ''half''), Inr ChDone]"
  unfolding stream_request_def
  by (subst attempt_loop.simps) (simp add: run_attempt_def attempt_start_def tracker_new_def
      read_usage_def deliver_guarded_def stall_on_def deliver_def tracker_observe_def decide_end_def
      is_safe_to_retry_def)

end
