(* ===== verification/Kod_Retry.thy ===== *)
theory Kod_Retry
  imports Kod_Error
begin

text \<open>
  Retrying provider calls, \<open>crates/kod-provider/src/retry.rs\<close>: the policy and its backoff, the
  loop \<open>with_retry\<close>, and the delay hints of an error response. Durations are natural numbers of
  nanoseconds. The jitter, a floating-point factor seeded by the clock, is an argument; the sleep
  function's calls are recorded. The lemmas show which result the loop returns after how many
  calls, how long it may sleep in all, and that the largest hint is the one taken.
\<close>

section \<open>Policy\<close>

definition secs :: "nat \<Rightarrow> nat" where
  "secs n = n * 10 ^ 9"

definition millis :: "nat \<Rightarrow> nat" where
  "millis n = n * 10 ^ 6"

definition duration_max :: nat where
  "duration_max = 2 ^ 64 * 10 ^ 9 - 1"

record retry_policy =
  max_attempts :: nat
  base_delay :: nat
  max_delay :: nat
  jittered :: bool
  max_rate_limit_wait :: nat

definition retry_policy_default :: retry_policy where
  "retry_policy_default =
     \<lparr> max_attempts = 3, base_delay = millis 250, max_delay = secs 8, jittered = True, max_rate_limit_wait = 0 \<rparr>"

definition retry_policy_immediate :: retry_policy where
  "retry_policy_immediate =
     \<lparr> max_attempts = 3, base_delay = 0, max_delay = 0, jittered = False, max_rate_limit_wait = 0 \<rparr>"

text \<open>The delay before jitter, and after: \<open>jit n d\<close> is what the factor makes of \<open>d\<close> at attempt \<open>n\<close>.\<close>

definition capped_delay :: "retry_policy \<Rightarrow> nat \<Rightarrow> nat" where
  "capped_delay p attempt = min (min duration_max (base_delay p * 2 ^ min (attempt - 1) 5)) (max_delay p)"

definition delay_for :: "(nat \<Rightarrow> nat \<Rightarrow> nat) \<Rightarrow> retry_policy \<Rightarrow> nat \<Rightarrow> nat" where
  "delay_for jit p attempt = (if jittered p then jit attempt (capped_delay p attempt) else capped_delay p attempt)"

section \<open>The loop\<close>

definition hinted_wait :: "retry_policy \<Rightarrow> nat \<Rightarrow> bool \<Rightarrow> nat \<times> bool" where
  "hinted_wait p hint used =
     (if hint > max_delay p \<and> hint \<le> max_rate_limit_wait p \<and> \<not> used then (hint, True) else (min hint (max_delay p), used))"

definition retry_delay :: "(nat \<Rightarrow> nat \<Rightarrow> nat) \<Rightarrow> retry_policy \<Rightarrow> nat \<Rightarrow> bool \<Rightarrow> kod_error \<Rightarrow> nat \<times> bool" where
  "retry_delay jit p attempt used e =
     (case e of
        KRateLimited n \<Rightarrow> hinted_wait p (secs n) used
      | KServerBusy n \<Rightarrow> hinted_wait p (secs n) used
      | _ \<Rightarrow> (delay_for jit p attempt, used))"

text \<open>\<open>f n\<close> is what the \<open>n\<close>-th call returns; the second component are the sleeps.\<close>

function retry_loop ::
    "(kod_error \<Rightarrow> bool) \<Rightarrow> (nat \<Rightarrow> nat \<Rightarrow> nat) \<Rightarrow> retry_policy \<Rightarrow> (nat \<Rightarrow> kod_error + 'a) \<Rightarrow> nat \<Rightarrow> bool \<Rightarrow>
     (kod_error + 'a) \<times> nat list" where
  "retry_loop retryable jit p f attempt used =
     (case f attempt of
        Inr v \<Rightarrow> (Inr v, [])
      | Inl e \<Rightarrow>
          (if \<not> retryable e then (Inl e, [])
           else if attempt \<ge> max_attempts p then (Inl e, [])
           else (let (d, used') = retry_delay jit p attempt used e;
                     (r, sleeps) = retry_loop retryable jit p f (attempt + 1) used'
                 in (r, d # sleeps))))"
  by pat_completeness auto
termination
  by (relation "measure (\<lambda>(r, j, p, f, attempt, used). max_attempts p - attempt)") auto

declare retry_loop.simps [simp del]

definition with_retry ::
    "(kod_error \<Rightarrow> bool) \<Rightarrow> (nat \<Rightarrow> nat \<Rightarrow> nat) \<Rightarrow> retry_policy \<Rightarrow> (nat \<Rightarrow> kod_error + 'a) \<Rightarrow> (kod_error + 'a) \<times> nat list" where
  "with_retry retryable jit p f = retry_loop retryable jit p f 1 False"

section \<open>Hints of an error response\<close>

record retry_hints =
  hint_delay :: "nat option"
  cap_declined :: bool

definition hint_cap :: nat where
  "hint_cap = secs 60"

definition parse_millis :: "string \<Rightarrow> nat option" where
  "parse_millis v = map_option millis (parse_uint 10 (2 ^ 64) (trim v))"

definition parse_retry_after :: "string \<Rightarrow> nat option" where
  "parse_retry_after v = map_option secs (parse_uint 10 (2 ^ 64) (trim v))"

definition parse_i64 :: "string \<Rightarrow> int option" where
  "parse_i64 s =
     (case s of
        CHR ''-'' # ds \<Rightarrow> if ds \<noteq> [] \<and> hd ds \<noteq> CHR ''+'' then map_option (\<lambda>n. - int n) (parse_uint 10 (2 ^ 63 + 1) ds) else None
      | _ \<Rightarrow> map_option int (parse_uint 10 (2 ^ 63) s))"

text \<open>Epoch milliseconds, epoch seconds or seconds from now, told apart by size.\<close>

definition parse_rate_limit_reset :: "int \<Rightarrow> string \<Rightarrow> nat option" where
  "parse_rate_limit_reset now_ms v =
     (case parse_i64 (trim v) of
        None \<Rightarrow> None
      | Some n \<Rightarrow>
          Some (if n > 1000000000000 then millis (nat (n - now_ms))
                else if n > 1000000000 then secs (nat (n - now_ms div 1000))
                else secs (nat n)))"

definition scan_suffix_hint :: "string \<Rightarrow> nat option" where
  "scan_suffix_hint body =
     (case split_once (rev ''retry-after-ms='') (rev body) of
        None \<Rightarrow> None
      | Some (dehind, _) \<Rightarrow> map_option millis (parse_uint 10 (2 ^ 64) (takeWhile is_digit_char (rev dehind))))"

definition header_hint :: "int \<Rightarrow> string \<times> string \<Rightarrow> nat option" where
  "header_hint now_ms h =
     (let k = map ascii_lower (fst h) in
      if k = ''retry-after-ms'' then parse_millis (snd h)
      else if k = ''retry-after'' then parse_retry_after (snd h)
      else if k = ''x-ratelimit-reset-ms'' \<or> k = ''x-ratelimit-reset'' then parse_rate_limit_reset now_ms (snd h)
      else None)"

definition push_hint :: "nat option \<Rightarrow> nat \<Rightarrow> nat option" where
  "push_hint best d = (case best of Some b \<Rightarrow> if b \<ge> d then Some b else Some d | None \<Rightarrow> Some d)"

definition push_found :: "nat option \<Rightarrow> nat option \<Rightarrow> nat option" where
  "push_found best found = (case found of Some d \<Rightarrow> push_hint best d | None \<Rightarrow> best)"

definition extract_retry_hints :: "int \<Rightarrow> (string \<times> string) list \<Rightarrow> string \<Rightarrow> retry_hints" where
  "extract_retry_hints now_ms headers body =
     (let best = foldl (\<lambda>best h. push_found best (header_hint now_ms h)) None headers;
          best = push_found best (scan_suffix_hint body);
          best = push_found best (map_option secs (scan_text_hint body))
      in case best of
           Some d \<Rightarrow> \<lparr> hint_delay = Some d, cap_declined = (d > hint_cap) \<rparr>
         | None \<Rightarrow> \<lparr> hint_delay = None, cap_declined = False \<rparr>)"

section \<open>What the loop returns\<close>

lemma retry_loop_result:
  assumes "retry_loop retryable jit p f attempt used = (r, sleeps)"
  shows "\<exists>k \<ge> attempt. r = f k \<and> length sleeps = k - attempt \<and> k \<le> max attempt (max_attempts p)
     \<and> (\<forall>j. attempt \<le> j \<and> j < k \<longrightarrow> (\<exists>e. f j = Inl e \<and> retryable e))
     \<and> (\<forall>e. f k = Inl e \<longrightarrow> \<not> retryable e \<or> k \<ge> max_attempts p)"
  using assms
proof (induction retryable jit p f attempt used arbitrary: r sleeps rule: retry_loop.induct)
  case (1 retryable jit p f attempt used)
  show ?case
  proof (cases "\<exists>e. f attempt = Inl e \<and> retryable e \<and> attempt < max_attempts p")
    case False
    then have "(r, sleeps) = (f attempt, [])"
      using 1(2) by (subst (asm) retry_loop.simps) (auto split: sum.splits if_splits)
    then show ?thesis using False by (intro exI [of _ attempt]) auto
  next
    case True
    then obtain e where e: "f attempt = Inl e" "retryable e" "attempt < max_attempts p" by blast
    obtain d used' where d: "retry_delay jit p attempt used e = (d, used')" by fastforce
    obtain r' sleeps' where r': "retry_loop retryable jit p f (attempt + 1) used' = (r', sleeps')" by fastforce
    have "r = r'" "sleeps = d # sleeps'"
      using 1(2) e d r' by (subst (asm) retry_loop.simps; simp)+
    moreover obtain k where k: "k \<ge> attempt + 1" "r' = f k" "length sleeps' = k - (attempt + 1)"
        "k \<le> max (attempt + 1) (max_attempts p)"
        "\<forall>j. attempt + 1 \<le> j \<and> j < k \<longrightarrow> (\<exists>e. f j = Inl e \<and> retryable e)"
        "\<forall>e. f k = Inl e \<longrightarrow> \<not> retryable e \<or> k \<ge> max_attempts p"
      using 1(1) [OF e(1) _ _ d [symmetric] refl r'] e by auto
    moreover have "\<exists>e. f j = Inl e \<and> retryable e" if "attempt \<le> j \<and> j < k" for j
      using that e k(5) by (cases "j = attempt") auto
    ultimately show ?thesis
      using e by (intro exI [of _ k]) auto
  qed
qed

text \<open>
  C38. The loop returns what one call returned, the first that succeeded or failed for good, or the
  last that was allowed: it makes at most as many calls as the policy says (one when it says none), every earlier
  call failed with an error worth retrying, and it slept once between two calls. In particular a
  second long rate-limit window does not end the loop. Two comments of \<open>retry.rs\<close> say that it fails
  the call; the code, as its test expects, sleeps \<open>max_delay\<close> and calls again, which
  \<open>second_long_window_is_retried\<close> below shows.
\<close>

theorem with_retry_returns_one_call:
  assumes "with_retry retryable jit p f = (r, sleeps)"
  shows "\<exists>k \<ge> 1. r = f k \<and> length sleeps = k - 1 \<and> k \<le> max 1 (max_attempts p)
     \<and> (\<forall>j. 1 \<le> j \<and> j < k \<longrightarrow> (\<exists>e. f j = Inl e \<and> retryable e))
     \<and> (\<forall>e. f k = Inl e \<longrightarrow> \<not> retryable e \<or> k \<ge> max_attempts p)"
  using retry_loop_result assms unfolding with_retry_def by blast

lemma with_retry_returns_one_call_witness:
  "\<exists>k \<ge> 1. Inr True = (if k < 2 then Inl (KNetwork []) else Inr True) \<and> length [0 :: nat] = k - (1 :: nat)"
proof -
  have "with_retry (\<lambda>_. True) (\<lambda>_ d. d) retry_policy_immediate (\<lambda>k. if k < 2 then Inl (KNetwork []) else Inr True) = (Inr True, [0])"
    by (simp add: with_retry_def retry_loop.simps [of _ _ _ _ "Suc 0"] retry_loop.simps [of _ _ _ _ "Suc (Suc 0)"] retry_delay_def
        delay_for_def capped_delay_def retry_policy_immediate_def)
  from with_retry_returns_one_call [OF this] show ?thesis by (elim exE conjE) (intro exI conjI)
qed

text \<open>Two windows of ten minutes, each within the budget: the first is slept out, the second for eight seconds.\<close>

lemma second_long_window_is_retried:
  "with_retry (\<lambda>_. True) (\<lambda>_ d. d)
      (retry_policy_default\<lparr>max_rate_limit_wait := secs 1200\<rparr>)
      (\<lambda>k. if k \<le> 2 then Inl (KRateLimited 600) else Inr ''done'') = (Inr ''done'', [secs 600, secs 8])"
  by (simp add: with_retry_def retry_loop.simps [of _ _ _ _ "Suc 0"] retry_loop.simps [of _ _ _ _ "Suc (Suc 0)"]
      retry_loop.simps [of _ _ _ _ "Suc (Suc (Suc 0))"] retry_delay_def hinted_wait_def secs_def
      retry_policy_default_def)

section \<open>How long it sleeps\<close>

lemma hinted_wait_bounds:
  "fst (hinted_wait p h u) \<le> (if u \<or> \<not> snd (hinted_wait p h u) then max_delay p else max_rate_limit_wait p)"
  "u \<Longrightarrow> snd (hinted_wait p h u)"
  by (auto simp: hinted_wait_def)

text \<open>Each sleep is within the bound, except that the one flagged may be as long as the budget.\<close>

lemma retry_delay_bounds:
  assumes "retry_delay jit p attempt used e = (d, used')" "delay_for jit p attempt \<le> B" "max_delay p \<le> B"
  shows "d \<le> B \<or> \<not> used \<and> used' \<and> d \<le> max_rate_limit_wait p" "used \<Longrightarrow> used'"
proof -
  have h: "hinted_wait p n used = (d, used') \<Longrightarrow>
      (d \<le> B \<or> \<not> used \<and> used' \<and> d \<le> max_rate_limit_wait p) \<and> (used \<longrightarrow> used')" for n
    using hinted_wait_bounds(1) [of p n used] hinted_wait_bounds(2) [of used p n] assms(3) by (auto split: if_splits)
  show "d \<le> B \<or> \<not> used \<and> used' \<and> d \<le> max_rate_limit_wait p" "used \<Longrightarrow> used'"
    using assms(1,2) h by (auto simp: retry_delay_def split: kod_error.splits)
qed

lemma sleeps_step:
  assumes "d \<le> B \<or> \<not> used \<and> used' \<and> d \<le> M" "used \<longrightarrow> used'"
    and "sum_list ds \<le> (if used' then 0 else M) + length ds * B \<and> length (filter (\<lambda>d. B < d) ds) \<le> (if used' then 0 else 1)"
  shows "sum_list (d # ds) \<le> (if used then 0 else M) + length (d # ds) * B
    \<and> length (filter (\<lambda>d. B < d) (d # ds)) \<le> (if used then 0 else 1)"
  using assms by (cases used; cases used'; cases "d \<le> B") auto

lemma retry_loop_sleeps:
  assumes "retry_loop retryable jit p f attempt used = (r, sleeps)"
    and "\<And>n. delay_for jit p n \<le> B" "max_delay p \<le> B"
  shows "sum_list sleeps \<le> (if used then 0 else max_rate_limit_wait p) + length sleeps * B
     \<and> length (filter (\<lambda>d. B < d) sleeps) \<le> (if used then 0 else 1)"
  using assms
proof (induction retryable jit p f attempt used arbitrary: r sleeps rule: retry_loop.induct)
  case (1 retryable jit p f attempt used)
  show ?case
  proof (cases "\<exists>e. f attempt = Inl e \<and> retryable e \<and> attempt < max_attempts p")
    case False
    then have "sleeps = []"
      using 1(2) by (subst (asm) retry_loop.simps) (auto split: sum.splits if_splits)
    then show ?thesis by simp
  next
    case True
    then obtain e where e: "f attempt = Inl e" "retryable e" "attempt < max_attempts p" by blast
    obtain d used' where d: "retry_delay jit p attempt used e = (d, used')" by fastforce
    obtain r' sleeps' where r': "retry_loop retryable jit p f (attempt + 1) used' = (r', sleeps')" by fastforce
    have s: "sleeps = d # sleeps'"
      using 1(2) e d r' by (subst (asm) retry_loop.simps) simp
    have rest: "sum_list sleeps' \<le> (if used' then 0 else max_rate_limit_wait p) + length sleeps' * B
        \<and> length (filter (\<lambda>d. B < d) sleeps') \<le> (if used' then 0 else 1)"
      using 1(1) [OF e(1) _ _ d [symmetric] refl r' 1(3,4)] e by simp
    show ?thesis
      unfolding s using retry_delay_bounds [OF d 1(3,4)] by (intro sleeps_step [OF _ _ rest]) auto
  qed
qed

text \<open>
  All the sleeping together is bounded: one long wait within the budget, once, and for every
  other retry at most the longest backoff the policy gives.
\<close>

theorem with_retry_sleeps_bounded:
  assumes "with_retry retryable jit p f = (r, sleeps)"
    and "\<And>n. delay_for jit p n \<le> B" "max_delay p \<le> B"
  shows "sum_list sleeps \<le> max_rate_limit_wait p + (max_attempts p - 1) * B
     \<and> length (filter (\<lambda>d. B < d) sleeps) \<le> 1"
proof -
  obtain k where "length sleeps = k - 1" "k \<le> max 1 (max_attempts p)"
    using retry_loop_result assms(1) unfolding with_retry_def by blast
  then have "length sleeps * B \<le> (max_attempts p - 1) * B"
    by (intro mult_right_mono) auto
  then show ?thesis
    using retry_loop_sleeps [OF assms(1) [unfolded with_retry_def] assms(2,3)] by (auto intro: order_trans)
qed

lemma with_retry_sleeps_bounded_witness:
  "sum_list (snd (with_retry (\<lambda>_. True) (\<lambda>_ d. d) (retry_policy_immediate\<lparr>max_rate_limit_wait := secs 1500\<rparr>)
      (\<lambda>k. Inl (KRateLimited 1200) :: kod_error + nat))) \<le> secs 1500 + 2 * 0"
proof -
  let ?p = "retry_policy_immediate\<lparr>max_rate_limit_wait := secs 1500\<rparr>"
  have "delay_for (\<lambda>_ d. d) ?p n \<le> 0" for n
    by (simp add: delay_for_def capped_delay_def retry_policy_immediate_def)
  from with_retry_sleeps_bounded [OF surjective_pairing this, THEN conjunct1]
  show ?thesis by (simp add: retry_policy_immediate_def)
qed

text \<open>The jitter is applied after the cap, so a backoff may exceed it.\<close>

lemma jitter_exceeds_cap:
  "delay_for (\<lambda>_ d. d + d div 4) retry_policy_default 6 = secs 10 \<and> max_delay retry_policy_default = secs 8"
  by (simp add: delay_for_def capped_delay_def retry_policy_default_def secs_def millis_def duration_max_def)

section \<open>The largest hint\<close>

definition all_hints :: "int \<Rightarrow> (string \<times> string) list \<Rightarrow> string \<Rightarrow> nat list" where
  "all_hints now_ms headers body =
     List.map_filter (header_hint now_ms) headers @ List.map_filter id [scan_suffix_hint body, map_option secs (scan_text_hint body)]"

definition largest :: "nat list \<Rightarrow> nat option" where
  "largest ds = (if ds = [] then None else Some (Max (set ds)))"

lemma largest_snoc: "largest (ds @ [d]) = push_hint (largest ds) d"
  by (cases "ds = []") (auto simp: largest_def push_hint_def max_def)

lemma push_found_largest: "push_found (largest ds) x = largest (ds @ List.map_filter id [x])"
  by (cases x) (simp_all add: push_found_def largest_snoc map_filter_simps)

lemma fold_hints: "foldl (\<lambda>best h. push_found best (header_hint now h)) (largest ds) hs
    = largest (ds @ List.map_filter (header_hint now) hs)"
proof (induction hs arbitrary: ds)
  case (Cons h hs)
  have "push_found (largest ds) (header_hint now h) = largest (ds @ List.map_filter id [header_hint now h])"
    by (rule push_found_largest)
  then show ?case
    using Cons [of "ds @ List.map_filter id [header_hint now h]"]
    by (cases "header_hint now h") (simp_all add: map_filter_simps)
qed (simp add: map_filter_simps)

text \<open>
  The hint taken is the largest of all that the headers and the body suggest, there is one when
  any suggests one, and the retry is declined exactly when it exceeds a minute.
\<close>

theorem largest_hint_wins:
  "hint_delay (extract_retry_hints now headers body) = largest (all_hints now headers body)
   \<and> (cap_declined (extract_retry_hints now headers body) \<longleftrightarrow> (\<exists>d \<in> set (all_hints now headers body). d > secs 60))"
proof -
  have "foldl (\<lambda>best h. push_found best (header_hint now h)) None headers = largest (List.map_filter (header_hint now) headers)"
    using fold_hints [of now "[]" headers] by (simp add: largest_def)
  then have "push_found (push_found (foldl (\<lambda>best h. push_found best (header_hint now h)) None headers) (scan_suffix_hint body))
      (map_option secs (scan_text_hint body)) = largest (all_hints now headers body)"
    by (simp add: push_found_largest all_hints_def map_filter_simps split: option.splits)
  then have e: "extract_retry_hints now headers body =
      (case largest (all_hints now headers body) of
         Some d \<Rightarrow> \<lparr> hint_delay = Some d, cap_declined = (d > hint_cap) \<rparr>
       | None \<Rightarrow> \<lparr> hint_delay = None, cap_declined = False \<rparr>)"
    by (simp add: extract_retry_hints_def Let_def)
  show ?thesis
  proof (cases "all_hints now headers body = []")
    case False
    then have "Max (set (all_hints now headers body)) > secs 60 \<longleftrightarrow> (\<exists>d \<in> set (all_hints now headers body). d > secs 60)"
      by (simp add: Max_gr_iff)
    then show ?thesis using False by (simp add: e largest_def hint_cap_def)
  qed (simp add: e largest_def)
qed

end
