(* ===== verification/Kod_Engine_Control.thy ===== *)
theory Kod_Engine_Control
  imports Kod_Error
begin

text \<open>
  Cancels and waits of the engine, \<open>crates/kod-core/src/engine/control.rs\<close>: the table of
  cancel requests with their fire epochs and reasons, the waitable window of a rate limit and
  the wait itself, in slices of a second, and the process-wide gate of
  \<open>crates/kod-core/src/pause_gate.rs\<close>. The lemmas show which cancels outlive a clear, how
  long a wait lasts and when it ends early.
\<close>

section \<open>Cancel requests\<close>

datatype cancel_reason = CancelUser | CancelWatchdogRetry

type_synonym cancels = "(string, u64 \<times> bool \<times> cancel_reason) hmap"

definition request_cancel_with_reason :: "string \<Rightarrow> cancel_reason \<Rightarrow> cancels \<Rightarrow> u64 \<times> cancels" where
  "request_cancel_with_reason key reason m =
     (let (e, _, _) = (case map_of m key of Some x \<Rightarrow> x | None \<Rightarrow> (0, False, reason))
      in (e + 1, AList.update key (e + 1, True, reason) m))"

definition request_cancel_for :: "string \<Rightarrow> cancels \<Rightarrow> u64 \<times> cancels" where
  "request_cancel_for key = request_cancel_with_reason key CancelUser"

definition request_retry_cancel_for :: "string \<Rightarrow> cancels \<Rightarrow> u64 \<times> cancels" where
  "request_retry_cancel_for key = request_cancel_with_reason key CancelWatchdogRetry"

definition cancel_reason_for :: "string \<Rightarrow> cancels \<Rightarrow> cancel_reason option" where
  "cancel_reason_for key m =
     (case map_of m key of Some (_, fired, reason) \<Rightarrow> (if fired then Some reason else None) | None \<Rightarrow> None)"

definition clear_cancel_for :: "string \<Rightarrow> cancels \<Rightarrow> cancels" where
  "clear_cancel_for key m = AList.delete key m"

definition cancel_epoch_for :: "string \<Rightarrow> cancels \<Rightarrow> u64" where
  "cancel_epoch_for key m = (case map_of m key of Some (e, _, _) \<Rightarrow> e | None \<Rightarrow> 0)"

definition clear_cancel_through :: "string \<Rightarrow> u64 \<Rightarrow> cancels \<Rightarrow> cancels" where
  "clear_cancel_through key observed m =
     (case map_of m key of
        Some (e, _, _) \<Rightarrow> (if e \<le> observed then AList.delete key m else m)
      | None \<Rightarrow> m)"

definition is_cancelled_for :: "string \<Rightarrow> cancels \<Rightarrow> bool" where
  "is_cancelled_for key m = (case map_of m key of Some (_, fired, _) \<Rightarrow> fired | None \<Rightarrow> False)"

text \<open>What other tasks may do to the table while an attempt runs.\<close>

datatype cancel_call = CallCancel string cancel_reason | CallClear string | CallClearThrough string u64

fun cancel_step :: "cancels \<Rightarrow> cancel_call \<Rightarrow> cancels" where
  "cancel_step m (CallCancel key reason) = snd (request_cancel_with_reason key reason m)"
| "cancel_step m (CallClear key) = clear_cancel_for key m"
| "cancel_step m (CallClearThrough key observed) = clear_cancel_through key observed m"

section \<open>A cancel outlives a clear of an older epoch\<close>

lemma request_cancel_lookup:
  "map_of (snd (request_cancel_with_reason key reason m)) k =
     (if k = key then Some (cancel_epoch_for key m + 1, True, reason) else map_of m k)"
  by (auto simp: request_cancel_with_reason_def cancel_epoch_for_def Let_def case_prod_unfold split: option.splits)

lemma request_cancel_epoch: "fst (request_cancel_with_reason key reason m) = cancel_epoch_for key m + 1"
  by (auto simp: request_cancel_with_reason_def cancel_epoch_for_def case_prod_unfold split: option.splits)

lemma cancel_epoch_request [simp]:
  "cancel_epoch_for k (snd (request_cancel_with_reason key reason m)) =
     (if k = key then cancel_epoch_for key m + 1 else cancel_epoch_for k m)"
  by (simp add: cancel_epoch_for_def [of k] request_cancel_lookup)

text \<open>A call that does not clear the key: a request, or a clear of another key.\<close>

fun clears_key :: "string \<Rightarrow> cancel_call \<Rightarrow> bool" where
  "clears_key k (CallCancel _ _) = False"
| "clears_key k (CallClear key) = (key = k)"
| "clears_key k (CallClearThrough key _) = (key = k)"

fun requests_of :: "string \<Rightarrow> cancel_call list \<Rightarrow> cancel_reason list" where
  "requests_of k [] = []"
| "requests_of k (CallCancel key reason # cs) = (if key = k then reason # requests_of k cs else requests_of k cs)"
| "requests_of k (_ # cs) = requests_of k cs"

lemma length_requests: "length (requests_of k cs) \<le> length cs"
  by (induction k cs rule: requests_of.induct) auto

lemma step_other_key:
  assumes "\<not> clears_key k c" "requests_of k [c] = []"
  shows "map_of (cancel_step m c) k = map_of m k"
  using assms
  by (cases c) (auto simp: request_cancel_lookup clear_cancel_for_def clear_cancel_through_def
      split: option.splits if_splits)

text \<open>Over calls that do not clear the key, its entry is that of the last request, as many epochs on.\<close>

lemma run_without_clear:
  assumes "\<forall>c \<in> set cs. \<not> clears_key k c"
  shows "map_of (foldl cancel_step m cs) k =
    (if requests_of k cs = [] then map_of m k
     else Some (cancel_epoch_for k m + of_nat (length (requests_of k cs)), True, last (requests_of k cs)))"
  using assms
proof (induction cs arbitrary: m)
  case (Cons c cs)
  have tail: "\<forall>c \<in> set cs. \<not> clears_key k c" using Cons.prems by simp
  show ?case
  proof (cases "requests_of k [c] = []")
    case True
    have same: "map_of (cancel_step m c) k = map_of m k"
      using Cons.prems True by (intro step_other_key) auto
    moreover have "requests_of k (c # cs) = requests_of k cs"
      using True by (cases c) (auto split: if_splits)
    ultimately show ?thesis
      using Cons.IH [OF tail, of "cancel_step m c"] by (simp add: cancel_epoch_for_def)
  next
    case False
    then obtain reason where c: "c = CallCancel k reason"
      by (cases c) (auto split: if_splits)
    show ?thesis
      using Cons.IH [OF tail, of "cancel_step m c"]
      by (simp add: c request_cancel_lookup algebra_simps)
  qed
qed simp

text \<open>
  A clear through the epoch seen before a stretch of calls leaves the entry alone when one of the
  calls was a request, as long as the epoch does not wrap.
\<close>

lemma clear_through_keeps_newer:
  assumes "\<forall>c \<in> set cs. \<not> clears_key k c" "requests_of k cs \<noteq> []"
    and "unat (cancel_epoch_for k m) + length cs < 2 ^ 64"
  shows "cancel_reason_for k (clear_cancel_through k (cancel_epoch_for k m) (foldl cancel_step m cs))
    = Some (last (requests_of k cs))"
proof -
  define n where "n = length (requests_of k cs)"
  have n: "0 < n" "n \<le> length cs"
    using assms(2) length_requests [of k cs] by (simp_all add: n_def)
  have "unat (cancel_epoch_for k m + of_nat n) = unat (cancel_epoch_for k m) + n"
    using assms(3) n by (simp add: unat_word_ariths unat_of_nat take_bit_nat_eq_self)
  then have "\<not> cancel_epoch_for k m + of_nat n \<le> cancel_epoch_for k m"
    using n by (simp add: word_le_nat_alt)
  then show ?thesis
    using run_without_clear [OF assms(1), of m] assms(2)
    by (simp add: cancel_reason_for_def clear_cancel_through_def n_def)
qed

lemma clear_through_drops_older:
  assumes "\<forall>c \<in> set cs. \<not> clears_key k c" "requests_of k cs = []"
  shows "cancel_reason_for k (clear_cancel_through k (cancel_epoch_for k m) (foldl cancel_step m cs)) = None"
  using run_without_clear [OF assms(1), of m] assms(2)
  by (auto simp: cancel_reason_for_def clear_cancel_through_def cancel_epoch_for_def split: option.splits)

text \<open>
  C27. A cancel that arrives while an attempt runs outlives the clear of what was seen before it, and
  a cancel from before does not: after the clear the transcript is cancelled exactly when there was
  a request during the attempt, for the reason of the last one.
\<close>

theorem cancel_survives_scoped_clear:
  assumes "\<forall>c \<in> set cs. \<not> clears_key k c" "unat (cancel_epoch_for k m) + length cs < 2 ^ 64"
  shows "cancel_reason_for k (clear_cancel_through k (cancel_epoch_for k m) (foldl cancel_step m cs))
    = (if requests_of k cs = [] then None else Some (last (requests_of k cs)))"
  using clear_through_keeps_newer [OF assms(1) _ assms(2)] clear_through_drops_older [OF assms(1)] by simp

theorem cancel_survives_scoped_clear_witness:
  "cancel_reason_for ''a'' (clear_cancel_through ''a'' 0
      (foldl cancel_step [] [CallCancel ''b'' CancelUser, CallCancel ''a'' CancelUser, CallClear ''b'']))
    = Some CancelUser"
  using cancel_survives_scoped_clear
    [of "[CallCancel ''b'' CancelUser, CallCancel ''a'' CancelUser, CallClear ''b'']" "''a''" "[]"]
  by (simp add: cancel_epoch_for_def)

text \<open>
  The reason is that of the last request: a watchdog that fires after the user replaces the user's
  reason by its own, and what was a stop becomes a retry.
\<close>

lemma watchdog_overwrites_user:
  "cancel_reason_for k (snd (request_retry_cancel_for k (snd (request_cancel_for k m)))) = Some CancelWatchdogRetry"
  by (simp add: request_retry_cancel_for_def cancel_reason_for_def request_cancel_lookup)

text \<open>
  The epoch restarts when an entry is cleared: a cancel after that is again the first, and a clear
  through an epoch seen before erases it.
\<close>

lemma epoch_restarts:
  assumes "map_of m k = Some (1, True, CancelUser)"
  shows "cancel_reason_for k (clear_cancel_through k (cancel_epoch_for k m)
      (foldl cancel_step m [CallClear k, CallCancel k CancelUser])) = None"
  using assms
  by (simp add: cancel_reason_for_def clear_cancel_through_def clear_cancel_for_def request_cancel_lookup
      cancel_epoch_for_def)

section \<open>Waiting out a rate limit\<close>

definition max_rate_limit_retries :: nat where
  "max_rate_limit_retries = 2"

definition max_server_busy_retries :: nat where
  "max_server_busy_retries = 4"

text \<open>The waitable window, in seconds, under a budget in seconds.\<close>

definition rate_limit_hint_within_budget :: "(string \<Rightarrow> string) \<Rightarrow> nat \<Rightarrow> kod_error \<Rightarrow> nat option" where
  "rate_limit_hint_within_budget uni budget err =
     (case (case err of
              KRateLimited n \<Rightarrow> Some n
            | KServerBusy n \<Rightarrow> Some n
            | _ \<Rightarrow> (case classify uni (show_error err) of
                      TransportRateLimit h \<Rightarrow> h
                    | TransportServerBusy h \<Rightarrow> h
                    | _ \<Rightarrow> None)) of
        None \<Rightarrow> None
      | Some hint \<Rightarrow> (if hint = 0 then None else if budget = 0 \<or> budget < hint then None else Some hint))"

datatype wait_end = WaitedOut | WaitCancelled

text \<open>
  The sleep of \<open>hint\<close> milliseconds in slices of at most a second; \<open>cancelled k\<close> is what the \<open>k\<close>-th
  look at the cancel flag finds. The slices slept are returned.
\<close>

function wait_slices :: "(nat \<Rightarrow> bool) \<Rightarrow> nat \<Rightarrow> nat \<Rightarrow> nat \<Rightarrow> wait_end \<times> nat list" where
  "wait_slices cancelled k waited hint =
     (if waited < hint then
        if cancelled k then (WaitCancelled, [])
        else
          (let slice = min 1000 (hint - waited);
               (fin, slices) = wait_slices cancelled (k + 1) (waited + slice) hint
           in (fin, slice # slices))
      else (WaitedOut, []))"
  by pat_completeness auto
termination
  by (relation "measure (\<lambda>(c, k, waited, hint). hint - waited)") auto

declare wait_slices.simps [simp del]

definition is_busy :: "(string \<Rightarrow> string) \<Rightarrow> kod_error \<Rightarrow> bool" where
  "is_busy uni err =
     ((case err of KServerBusy _ \<Rightarrow> True | _ \<Rightarrow> False)
      \<or> (case classify uni (show_error err) of TransportServerBusy _ \<Rightarrow> True | _ \<Rightarrow> False))"

text \<open>The outcome of a wait: not waitable, waited out, or cancelled; with the slices slept.\<close>

definition rate_limit_retry_wait ::
    "(string \<Rightarrow> string) \<Rightarrow> nat \<Rightarrow> (nat \<Rightarrow> bool) \<Rightarrow> kod_error \<Rightarrow> nat \<Rightarrow> (kod_error + unit option) \<times> nat list" where
  "rate_limit_retry_wait uni budget cancelled err attempt =
     (let cap = (if is_busy uni err then max_server_busy_retries else max_rate_limit_retries) in
      if attempt \<ge> cap then (Inr None, [])
      else (case rate_limit_hint_within_budget uni budget err of
              None \<Rightarrow> (Inr None, [])
            | Some hint \<Rightarrow>
                (case wait_slices cancelled 0 0 (hint * 1000) of
                   (WaitCancelled, slices) \<Rightarrow> (Inl (KInvalidState ''cancelled by user''), slices)
                 | (WaitedOut, slices) \<Rightarrow> (Inr (Some ()), slices))))"

lemma wait_slices_spec:
  "waited \<le> hint \<Longrightarrow> wait_slices cancelled k waited hint = (fin, slices) \<Longrightarrow>
     waited + sum_list slices \<le> hint \<and> (\<forall>s \<in> set slices. s \<le> 1000)
     \<and> (\<forall>j < length slices. \<not> cancelled (k + j))
     \<and> (case fin of WaitedOut \<Rightarrow> waited + sum_list slices = hint
        | WaitCancelled \<Rightarrow> cancelled (k + length slices))"
proof (induction cancelled k waited hint arbitrary: fin slices rule: wait_slices.induct)
  case (1 cancelled k waited hint)
  show ?case
  proof (cases "waited < hint \<and> \<not> cancelled k")
    case True
    let ?s = "min 1000 (hint - waited)"
    obtain f ss where r: "wait_slices cancelled (k + 1) (waited + ?s) hint = (f, ss)" by fastforce
    have out: "fin = f" "slices = ?s # ss"
      using 1(3) True r by (simp_all add: wait_slices.simps [of cancelled k] Let_def)
    have le: "waited + ?s \<le> hint" using True by linarith
    have ih: "waited + ?s + sum_list ss \<le> hint \<and> (\<forall>s \<in> set ss. s \<le> 1000)
        \<and> (\<forall>j < length ss. \<not> cancelled (k + 1 + j))
        \<and> (case f of WaitedOut \<Rightarrow> waited + ?s + sum_list ss = hint
           | WaitCancelled \<Rightarrow> cancelled (k + 1 + length ss))"
      using 1(1) [OF _ _ refl le r] True by simp
    have "\<not> cancelled (k + j)" if "j < length slices" for j
      using that ih True by (cases j) (auto simp: out)
    then show ?thesis using ih out by (cases f) (simp_all add: out)
  next
    case False
    then show ?thesis using 1(2,3) by (auto simp: wait_slices.simps [of cancelled k] split: if_splits)
  qed
qed

text \<open>
  A wait is exact and cancellable: it only starts for a hint within the budget; waited out it
  has slept exactly the hint in slices of at most a second; cancelled, it stopped at the first look
  that found the flag and has slept no more than the hint.
\<close>

theorem rate_limit_wait_exact:
  assumes "rate_limit_retry_wait uni budget cancelled err attempt = (result, slices)"
  shows "(result = Inr None \<and> slices = [])
    \<or> (\<exists>hint. rate_limit_hint_within_budget uni budget err = Some hint \<and> hint \<le> budget
        \<and> sum_list slices \<le> hint * 1000 \<and> list_all (\<lambda>s. s \<le> 1000) slices
        \<and> list_all (\<lambda>j. \<not> cancelled j) [0..<length slices]
        \<and> ((result = Inr (Some ()) \<and> sum_list slices = hint * 1000)
           \<or> (result = Inl (KInvalidState ''cancelled by user'') \<and> cancelled (length slices))))"
proof (cases "rate_limit_hint_within_budget uni budget err")
  case None
  then show ?thesis using assms by (auto simp: rate_limit_retry_wait_def Let_def split: if_splits)
next
  case (Some hint)
  obtain fin ss where w: "wait_slices cancelled 0 0 (hint * 1000) = (fin, ss)" by fastforce
  have le: "hint \<le> budget"
    using Some by (auto simp: rate_limit_hint_within_budget_def split: option.splits if_splits)
  show ?thesis
  proof (cases "result = Inr None")
    case True
    then show ?thesis
      using assms Some w by (auto simp: rate_limit_retry_wait_def Let_def split: if_splits wait_end.splits)
  next
    case False
    then have "slices = ss" "result = (case fin of WaitedOut \<Rightarrow> Inr (Some ()) | WaitCancelled \<Rightarrow> Inl (KInvalidState ''cancelled by user''))"
      using assms Some w by (auto simp: rate_limit_retry_wait_def Let_def split: if_splits wait_end.splits)
    moreover have "sum_list ss \<le> hint * 1000 \<and> list_all (\<lambda>s. s \<le> 1000) ss \<and> list_all (\<lambda>j. \<not> cancelled j) [0..<length ss]
        \<and> (case fin of WaitedOut \<Rightarrow> sum_list ss = hint * 1000 | WaitCancelled \<Rightarrow> cancelled (length ss))"
      using wait_slices_spec [OF _ w] by (auto simp: list_all_iff split: wait_end.splits)
    ultimately show ?thesis using Some le by (intro disjI2 exI [of _ hint]) (cases fin; simp)
  qed
qed

theorem rate_limit_wait_exact_witness:
  "rate_limit_retry_wait (\<lambda>c. c) 10 (\<lambda>k. k = 2) (KRateLimited 5) 0 = (Inl (KInvalidState ''cancelled by user''), [1000, 1000])
   \<and> (\<exists>hint. rate_limit_hint_within_budget (\<lambda>c. c) 10 (KRateLimited 5) = Some hint \<and> hint \<le> 10)"
proof -
  have busy: "max_rate_limit_retries = 2" "max_server_busy_retries = 4"
    by (simp_all add: max_rate_limit_retries_def max_server_busy_retries_def)
  have r: "rate_limit_retry_wait (\<lambda>c. c) 10 (\<lambda>k. k = 2) (KRateLimited 5) 0
      = (Inl (KInvalidState ''cancelled by user''), [1000, 1000])"
    by (simp add: rate_limit_retry_wait_def busy rate_limit_hint_within_budget_def wait_slices.simps Let_def)
  show ?thesis using rate_limit_wait_exact [OF r] r by auto
qed

section \<open>The pause gate\<close>

record pause_gate =
  paused :: bool

definition pause_gate_new :: pause_gate where
  "pause_gate_new = \<lparr> paused = False \<rparr>"

definition pause :: "pause_gate \<Rightarrow> pause_gate" where
  "pause g = g\<lparr>paused := True\<rparr>"

definition resume :: "pause_gate \<Rightarrow> pause_gate" where
  "resume g = g\<lparr>paused := False\<rparr>"

definition is_paused :: "pause_gate \<Rightarrow> bool" where
  "is_paused g = paused g"

text \<open>A waiter at a boundary: it returns at the first state of the gate that is not paused.\<close>

fun wait_if_paused :: "pause_gate list \<Rightarrow> nat option" where
  "wait_if_paused [] = None"
| "wait_if_paused (g # gs) = (if paused g then map_option Suc (wait_if_paused gs) else Some 0)"

lemma wait_ends_iff_resumed: "wait_if_paused gs = None \<longleftrightarrow> (\<forall>g \<in> set gs. is_paused g)"
  by (induction gs) (auto simp: is_paused_def)

lemma pause_idempotent: "pause (pause g) = pause g" "resume (resume g) = resume g" "\<not> is_paused (resume g)"
  by (simp_all add: pause_def resume_def is_paused_def)

end
