(* ===== verification/Kod_Swarm_Waves.thy ===== *)
theory Kod_Swarm_Waves
  imports Kod_Engine_Control
begin

text \<open>
  How a swarm runs its subtasks, \<open>crates/kod-core/src/swarm_runner.rs\<close>: the attempts of one
  subtask with its cancels, the dependency waves with their deadlines, and the files two agents
  wrote. What an agent answers, the clock and the cancels of other tasks are arguments. The
  lemmas show that a run gives every subtask one result, that on an acyclic plan a subtask runs
  when its dependencies succeeded and only then, and how often an agent is restarted.
\<close>

section \<open>Subtasks\<close>

datatype capability =
    Coding | Testing | Documentation | CodeReview | Planning | Research | Debugging | Refactoring

record subtask =
  st_name :: string
  st_description :: string
  expected_writes :: "string list"
  st_capability :: capability
  depends_on :: "string list"

section \<open>The attempts of one agent\<close>

text \<open>
  What an attempt meets: the writes and the text of an answer, an error of the engine, the
  timeout, or a panic of the task.
\<close>

datatype engine_end = EngineOk "string list" string | EngineErr kod_error | EngineElapsed | EnginePanic

type_synonym agent_result = "string list \<times> (string + string)"

text \<open>The events of the attempts: a start, and a retry with its number, the budget and the error.\<close>

datatype agent_event = AgentStarted | AgentRetrying nat nat string

definition coordinator_cancelled :: string where
  "coordinator_cancelled = ''a coordinator cancelled this agent''"

text \<open>
  The loop over the attempts. \<open>env attempt err\<close> is what happens to attempt \<open>attempt\<close>, whose prompt
  carries the previous error: the cancel calls that arrive before it, those that arrive while it
  runs, and how it ends. The attempts left are counted down, the attempt counter is the code's.
\<close>

fun attempt_agent ::
    "(kod_error \<Rightarrow> bool) \<Rightarrow> nat \<Rightarrow> (nat \<Rightarrow> string option \<Rightarrow> cancel_call list \<times> cancel_call list \<times> engine_end) \<Rightarrow>
     string \<Rightarrow> nat \<Rightarrow> nat \<Rightarrow> string option \<Rightarrow> cancels \<Rightarrow> agent_result \<times> agent_event list \<times> cancels" where
  "attempt_agent retryable timeout env key max_attempts 0 last_error m =
     (([], Inl ''agent panicked''), [], m)"
| "attempt_agent retryable timeout env key max_attempts (Suc left) last_error m =
     (let attempt = max_attempts - left;
          (before, during, fin) = env attempt last_error;
          m = foldl cancel_step m before;
          epoch = cancel_epoch_for key m;
          m = clear_cancel_through key epoch (foldl cancel_step m during);
          fail = (\<lambda>err retry.
            if attempt \<ge> max_attempts then (([], Inl err), [AgentStarted], m)
            else (case cancel_reason_for key m of
                    Some CancelUser \<Rightarrow> (([], Inl coordinator_cancelled), [AgentStarted], m)
                  | reason \<Rightarrow>
                      (if reason = None \<and> \<not> retry then (([], Inl err), [AgentStarted], m)
                       else (let m = (if reason = None then m else clear_cancel_for key m);
                                 (r, evs, m) = attempt_agent retryable timeout env key max_attempts left (Some err) m
                             in (r, AgentStarted # AgentRetrying (attempt + 1) max_attempts err # evs, m)))))
      in case fin of
           EngineOk writes txt \<Rightarrow> ((writes, Inr txt), [AgentStarted], m)
         | EngineErr e \<Rightarrow> fail (show_error e) (retryable e)
         | EngineElapsed \<Rightarrow> fail (''timed out after '' @ show_nat timeout @ ''s'') True
         | EnginePanic \<Rightarrow> (([], Inl ''agent panicked''), [AgentStarted], m))"

definition run_agent ::
    "(kod_error \<Rightarrow> bool) \<Rightarrow> nat \<Rightarrow> nat \<Rightarrow> (nat \<Rightarrow> string option \<Rightarrow> cancel_call list \<times> cancel_call list \<times> engine_end) \<Rightarrow>
     string \<Rightarrow> cancels \<Rightarrow> agent_result \<times> agent_event list \<times> cancels" where
  "run_agent retryable timeout agent_retries env key m =
     attempt_agent retryable timeout env key (1 + agent_retries) (1 + agent_retries) None m"

section \<open>Dependency waves\<close>

datatype wave_event =
    DependencyFailed nat string
  | RunTimeout nat
  | RunStopped

text \<open>What the clock says at an iteration, and whether the deadline passes while the wave runs.\<close>

datatype wave_clock = ClockGo | ClockDeadline | ClockHandoff | ClockNoTime | ClockMidWave

record wave_run =
  wr_remaining :: "nat list"
  wr_completed :: "string list"
  wr_failed :: "string list"
  wr_raw :: "(nat \<times> agent_result) list"
  wr_events :: "wave_event list"

definition wave_start :: "nat \<Rightarrow> wave_run" where
  "wave_start n = \<lparr> wr_remaining = [0..<n], wr_completed = [], wr_failed = [], wr_raw = [], wr_events = [] \<rparr>"

definition failed_out :: "subtask list \<Rightarrow> wave_run \<Rightarrow> nat list" where
  "failed_out sts w =
     filter (\<lambda>i. list_ex (\<lambda>d. d \<in> set (wr_failed w)) (depends_on (sts ! i))) (wr_remaining w)"

definition wave_ready :: "subtask list \<Rightarrow> wave_run \<Rightarrow> nat list" where
  "wave_ready sts w =
     filter (\<lambda>i. \<not> list_ex (\<lambda>d. d \<in> set (wr_failed w)) (depends_on (sts ! i))
       \<and> list_all (\<lambda>d. d \<in> set (wr_completed w)) (depends_on (sts ! i))) (wr_remaining w)"

definition wave_blocked :: "subtask list \<Rightarrow> wave_run \<Rightarrow> nat list" where
  "wave_blocked sts w =
     filter (\<lambda>i. \<not> list_ex (\<lambda>d. d \<in> set (wr_failed w)) (depends_on (sts ! i))
       \<and> \<not> list_all (\<lambda>d. d \<in> set (wr_completed w)) (depends_on (sts ! i))) (wr_remaining w)"

text \<open>A subtask whose dependency failed is failed itself; the event names the first such dependency.\<close>

definition skip_failed :: "subtask list \<Rightarrow> wave_run \<Rightarrow> nat \<Rightarrow> wave_run" where
  "skip_failed sts w i =
     (let failed = wr_failed w @ [st_name (sts ! i)];
          culprit = (case find (\<lambda>d. d \<in> set failed) (depends_on (sts ! i)) of Some d \<Rightarrow> d | None \<Rightarrow> [])
      in w\<lparr>wr_failed := failed,
           wr_events := wr_events w @ [DependencyFailed i culprit],
           wr_raw := wr_raw w @ [(i, ([], Inl ''dependency failed''))]\<rparr>)"

text \<open>The subtasks of this wave and those left, once the cycle fallback is applied.\<close>

definition wave_pick :: "subtask list \<Rightarrow> wave_run \<Rightarrow> nat list \<times> nat list" where
  "wave_pick sts w =
     (if wave_ready sts w = [] \<and> failed_out sts w = [] then (wave_blocked sts w, [])
      else (wave_ready sts w, wave_blocked sts w))"

definition record_result :: "subtask list \<Rightarrow> (nat \<Rightarrow> agent_result) \<Rightarrow> wave_run \<Rightarrow> nat \<Rightarrow> wave_run" where
  "record_result sts out w i =
     (case snd (out i) of
        Inr _ \<Rightarrow> w\<lparr>wr_completed := wr_completed w @ [st_name (sts ! i)], wr_raw := wr_raw w @ [(i, out i)]\<rparr>
      | Inl _ \<Rightarrow> w\<lparr>wr_failed := wr_failed w @ [st_name (sts ! i)], wr_raw := wr_raw w @ [(i, out i)]\<rparr>)"

definition wave_step :: "subtask list \<Rightarrow> (nat \<Rightarrow> agent_result) \<Rightarrow> wave_run \<Rightarrow> wave_run" where
  "wave_step sts out w =
     (let (ready, blocked) = wave_pick sts w;
          w = foldl (skip_failed sts) w (failed_out sts w);
          w = foldl (record_result sts out) w ready
      in w\<lparr>wr_remaining := blocked\<rparr>)"

definition report_run_timeout :: "nat list \<Rightarrow> wave_run \<Rightarrow> wave_run" where
  "report_run_timeout is w = w\<lparr>wr_events := wr_events w @ map RunTimeout is @ [RunStopped]\<rparr>"

text \<open>The loop with its guard; \<open>clock\<close> is read once per iteration, by the guard's value.\<close>

fun wave_loop :: "subtask list \<Rightarrow> (nat \<Rightarrow> agent_result) \<Rightarrow> (nat \<Rightarrow> wave_clock) \<Rightarrow> nat \<Rightarrow> wave_run \<Rightarrow> wave_run" where
  "wave_loop sts out clock 0 w = w"
| "wave_loop sts out clock (Suc guard) w =
     (if wr_remaining w = [] then w
      else (case clock guard of
              ClockDeadline \<Rightarrow> report_run_timeout (wr_remaining w) w
            | ClockHandoff \<Rightarrow> w
            | ClockNoTime \<Rightarrow>
                report_run_timeout (fst (wave_pick sts w)) (foldl (skip_failed sts) w (failed_out sts w))
            | ClockMidWave \<Rightarrow>
                report_run_timeout (fst (wave_pick sts w) @ snd (wave_pick sts w))
                  (foldl (skip_failed sts) w (failed_out sts w))
            | ClockGo \<Rightarrow> wave_loop sts out clock guard (wave_step sts out w)))"

definition run_waves :: "subtask list \<Rightarrow> (nat \<Rightarrow> agent_result) \<Rightarrow> (nat \<Rightarrow> wave_clock) \<Rightarrow> wave_run" where
  "run_waves sts out clock = wave_loop sts out clock (length sts + 1) (wave_start (length sts))"

section \<open>How often an agent is restarted, and what a cancel does\<close>

lemma attempts_count:
  "count_list (fst (snd (attempt_agent retryable timeout env key max_attempts left err m))) AgentStarted
     \<in> (if left = 0 then {0} else {1..left})"
proof (induction left arbitrary: err m)
  case (Suc left)
  obtain before during fin where e: "env (max_attempts - left) err = (before, during, fin)"
    by (metis prod_cases3)
  show ?case
    using Suc.IH by (fastforce simp: e Let_def case_prod_unfold split: engine_end.splits option.splits cancel_reason.splits if_splits)
qed simp

text \<open>
  An agent is started at least once and at most once more than it may be retried.
\<close>

theorem attempts_bounded:
  "count_list (fst (snd (run_agent retryable timeout agent_retries env key m))) AgentStarted \<in> {1..1 + agent_retries}"
  using attempts_count [of retryable timeout env key "1 + agent_retries" "1 + agent_retries" None m]
  by (simp add: run_agent_def)

declare attempt_agent.simps [simp del]

text \<open>How an attempt failed: the text of the error, and whether it is worth another.\<close>

definition failure_of :: "(kod_error \<Rightarrow> bool) \<Rightarrow> nat \<Rightarrow> engine_end \<Rightarrow> (string \<times> bool) option" where
  "failure_of retryable timeout fin =
     (case fin of
        EngineErr e \<Rightarrow> Some (show_error e, retryable e)
      | EngineElapsed \<Rightarrow> Some (''timed out after '' @ show_nat timeout @ ''s'', True)
      | _ \<Rightarrow> None)"

lemma failed_attempt:
  assumes env: "env (max_attempts - Suc left) err = (before, during, fin)"
    and fail: "failure_of retryable timeout fin = Some (txt, retry)"
    and more_left: "Suc left < max_attempts"
    and m': "m' = clear_cancel_through key (cancel_epoch_for key (foldl cancel_step m before))
        (foldl cancel_step (foldl cancel_step m before) during)"
  shows "attempt_agent retryable timeout env key max_attempts (Suc (Suc left)) err m =
    (case cancel_reason_for key m' of
       Some CancelUser \<Rightarrow> (([], Inl coordinator_cancelled), [AgentStarted], m')
     | reason \<Rightarrow>
         (if reason = None \<and> \<not> retry then (([], Inl txt), [AgentStarted], m')
          else (let (r, evs, m'') = attempt_agent retryable timeout env key max_attempts (Suc left) (Some txt)
                     (if reason = None then m' else clear_cancel_for key m')
                in (r, AgentStarted # AgentRetrying (max_attempts - left) max_attempts txt # evs, m''))))"
proof -
  have n: "\<not> max_attempts - Suc left \<ge> max_attempts" "max_attempts - Suc left + 1 = max_attempts - left"
    using more_left by simp_all
  have f: "(\<exists>e. fin = EngineErr e \<and> txt = show_error e \<and> retry = retryable e)
      \<or> (fin = EngineElapsed \<and> txt = ''timed out after '' @ show_nat timeout @ ''s'' \<and> retry)"
    using fail by (auto simp: failure_of_def split: engine_end.splits)
  show ?thesis
    unfolding attempt_agent.simps(2) [of retryable timeout env key max_attempts "Suc left"] Let_def env prod.case m' [symmetric]
    using f n by (elim disjE exE conjE) (simp_all only: engine_end.case if_False HOL.simp_thms)
qed

text \<open>
  What a cancel does to a failed attempt that has another one left, for any requests that arrive
  during it: the slot of the key holds one reason, so the request written last decides.
\<close>

lemma last_cancel_decides:
  assumes env: "env (max_attempts - Suc left) err = (before, during, fin)"
    and fail: "failure_of retryable timeout fin = Some (txt, retry)"
    and more_left: "Suc left < max_attempts"
    and only: "\<forall>c \<in> set during. \<not> clears_key key c"
    and epochs: "unat (cancel_epoch_for key (foldl cancel_step m before)) + length during < 2 ^ 64"
    and run: "attempt_agent retryable timeout env key max_attempts (Suc (Suc left)) err m = (r, evs, m')"
  shows "(tl evs \<noteq> []) = (if requests_of key during = [] then retry else last (requests_of key during) = CancelWatchdogRetry)
    \<and> (tl evs = [] \<longrightarrow> r = ([], Inl (if requests_of key during = [] then txt else coordinator_cancelled)))"
proof -
  let ?m = "clear_cancel_through key (cancel_epoch_for key (foldl cancel_step m before))
      (foldl cancel_step (foldl cancel_step m before) during)"
  have reason: "cancel_reason_for key ?m =
      (if requests_of key during = [] then None else Some (last (requests_of key during)))"
    using clear_through_keeps_newer [OF only _ epochs] clear_through_drops_older [OF only] by auto
  show ?thesis
    using failed_attempt [where env = env and max_attempts = max_attempts and left = left and err = err
        and before = before and during = during and fin = fin and key = key and m = m,
        OF env fail more_left refl] run
    unfolding reason
    by (cases "last (requests_of key during)") (auto simp: case_prod_unfold Let_def split: if_splits)
qed

text \<open>
  C7. What a cancel does to a failed attempt that has another one left. When the user's stop is among
  the requests of the attempt and no watchdog cancel is written over it, the agent is not started
  again, whether or not the error could be retried and whatever the watchdog asked for before the
  stop; when the watchdog alone cancelled, the agent is started again, even for an error that is not
  retried; with no cancel during the attempt the error alone decides. A cancel from before the
  attempt counts for nothing. The stop that a later watchdog cancel overwrites is excluded by the
  hypothesis \<open>stop_last\<close>: there the code restarts the agent, which
  \<open>user_stop_lost_to_watchdog\<close> below shows.
\<close>

theorem cancel_decides_restart:
  assumes env: "env (max_attempts - Suc left) err = (before, during, fin)"
    and fail: "failure_of retryable timeout fin = Some (txt, retry)"
    and more_left: "Suc left < max_attempts"
    and only: "\<forall>c \<in> set during. \<not> clears_key key c"
    and epochs: "unat (cancel_epoch_for key (foldl cancel_step m before)) + length during < 2 ^ 64"
    and stop_last: "CancelUser \<in> set (requests_of key during) \<longrightarrow> last (requests_of key during) = CancelUser"
    and run: "attempt_agent retryable timeout env key max_attempts (Suc (Suc left)) err m = (r, evs, m')"
  shows "(tl evs \<noteq> []) =
      (if requests_of key during = [] then retry else CancelUser \<notin> set (requests_of key during))
    \<and> (tl evs = [] \<longrightarrow> r = ([], Inl (if CancelUser \<in> set (requests_of key during) then coordinator_cancelled else txt)))"
proof -
  have "last (requests_of key during) = CancelWatchdogRetry \<longleftrightarrow> CancelUser \<notin> set (requests_of key during)"
    if "requests_of key during \<noteq> []"
    using stop_last last_in_set [OF that] by (metis cancel_reason.distinct(1) cancel_reason.exhaust)
  then show ?thesis
    using last_cancel_decides [OF env fail more_left only epochs run] by (auto split: if_splits)
qed

theorem cancel_decides_restart_witness:
  "tl (fst (snd (attempt_agent (\<lambda>_. True) 300
      (\<lambda>_ _. ([], [CallCancel ''a'' CancelWatchdogRetry, CallCancel ''a'' CancelUser], EngineElapsed)) ''a'' 3 2 None []))) = []"
proof -
  let ?env = "\<lambda>(_::nat) (_::string option).
    ([]::cancel_call list, [CallCancel ''a'' CancelWatchdogRetry, CallCancel ''a'' CancelUser], EngineElapsed)"
  obtain r evs m' where run: "attempt_agent (\<lambda>_. True) 300 ?env ''a'' 3 (Suc (Suc 0)) None [] = (r, evs, m')"
    by (metis prod_cases3)
  have "tl evs = []"
    using cancel_decides_restart [where env = ?env and max_attempts = 3 and left = 0 and err = None and fin = EngineElapsed
        and retryable = "\<lambda>_. True" and timeout = 300 and retry = True and key = "''a''" and m = "[]", OF refl _ _ _ _ _ run]
    by (simp add: failure_of_def cancel_epoch_for_def)
  then show ?thesis using run by (simp add: numeral_2_eq_2)
qed

text \<open>
  A stop of the user is lost when the watchdog fires after it in the same attempt: the agent is
  started again.
\<close>

lemma user_stop_lost_to_watchdog:
  "fst (snd (attempt_agent (\<lambda>_. False) 300
      (\<lambda>n _. ([], if n = 1 then [CallCancel ''a'' CancelUser, CallCancel ''a'' CancelWatchdogRetry] else [],
         if n = 1 then EngineElapsed else EngineOk [] ''done'')) ''a'' 2 2 None []))
   = [AgentStarted, AgentRetrying 2 2 (''timed out after '' @ show_nat 300 @ ''s''), AgentStarted]"
  by (simp add: attempt_agent.simps numeral_2_eq_2 cancel_epoch_for_def request_cancel_with_reason_def
      clear_cancel_through_def cancel_reason_for_def Let_def del: show_nat.simps)

section \<open>Every subtask gets one result\<close>

lemma skip_failed_all [simp]:
  "wr_remaining (foldl (skip_failed sts) w is) = wr_remaining w"
  "wr_completed (foldl (skip_failed sts) w is) = wr_completed w"
  "wr_failed (foldl (skip_failed sts) w is) = wr_failed w @ map (\<lambda>i. st_name (sts ! i)) is"
  "wr_raw (foldl (skip_failed sts) w is) = wr_raw w @ map (\<lambda>i. (i, ([], Inl ''dependency failed''))) is"
  by (induction "is" arbitrary: w) (simp_all add: skip_failed_def Let_def)

definition succeeds :: "agent_result \<Rightarrow> bool" where
  "succeeds r = (case snd r of Inr _ \<Rightarrow> True | Inl _ \<Rightarrow> False)"

lemma record_result_all:
  "foldl (record_result sts out) w is =
    w\<lparr>wr_completed := wr_completed w @ map (\<lambda>i. st_name (sts ! i)) (filter (\<lambda>i. succeeds (out i)) is),
      wr_failed := wr_failed w @ map (\<lambda>i. st_name (sts ! i)) (filter (\<lambda>i. \<not> succeeds (out i)) is),
      wr_raw := wr_raw w @ map (\<lambda>i. (i, out i)) is\<rparr>"
proof (induction "is" arbitrary: w)
  case (Cons i "is")
  show ?case
    unfolding foldl_Cons by (subst Cons.IH) (simp add: record_result_def succeeds_def split: sum.splits)
qed simp

text \<open>What an iteration does to each part of the state.\<close>

lemma wave_step_simps:
  "wr_remaining (wave_step sts out w) = snd (wave_pick sts w)"
  "wr_completed (wave_step sts out w) =
     wr_completed w @ map (\<lambda>i. st_name (sts ! i)) (filter (\<lambda>i. succeeds (out i)) (fst (wave_pick sts w)))"
  "wr_failed (wave_step sts out w) =
     wr_failed w @ map (\<lambda>i. st_name (sts ! i)) (failed_out sts w)
       @ map (\<lambda>i. st_name (sts ! i)) (filter (\<lambda>i. \<not> succeeds (out i)) (fst (wave_pick sts w)))"
  "wr_raw (wave_step sts out w) =
     wr_raw w @ map (\<lambda>i. (i, ([], Inl ''dependency failed''))) (failed_out sts w)
       @ map (\<lambda>i. (i, out i)) (fst (wave_pick sts w))"
  by (simp_all add: wave_step_def case_prod_unfold Let_def record_result_all)

lemma classes_partition:
  "mset (failed_out sts w) + mset (wave_ready sts w) + mset (wave_blocked sts w) = mset (wr_remaining w)"
proof -
  have "mset (filter (\<lambda>i. P i) xs) + mset (filter (\<lambda>i. \<not> P i \<and> Q i) xs) + mset (filter (\<lambda>i. \<not> P i \<and> \<not> Q i) xs)
      = mset xs" for P Q and xs :: "nat list"
    by (induction xs) auto
  then show ?thesis unfolding failed_out_def wave_ready_def wave_blocked_def .
qed

lemma pick_partition:
  "mset (failed_out sts w) + mset (fst (wave_pick sts w)) + mset (snd (wave_pick sts w)) = mset (wr_remaining w)"
  using classes_partition [of sts w] by (cases "wave_ready sts w = [] \<and> failed_out sts w = []") (auto simp: wave_pick_def)

lemma wave_step_shrinks:
  assumes "wr_remaining w \<noteq> []"
  shows "length (wr_remaining (wave_step sts out w)) < length (wr_remaining w)"
proof -
  have "length (failed_out sts w) + length (fst (wave_pick sts w)) + length (snd (wave_pick sts w))
      = length (wr_remaining w)"
    using arg_cong [OF pick_partition [of sts w], of size] by simp
  moreover have "failed_out sts w \<noteq> [] \<or> fst (wave_pick sts w) \<noteq> []"
  proof (rule ccontr)
    assume none: "\<not> ?thesis"
    then have "wave_blocked sts w = []" "wave_ready sts w = []"
      by (auto simp: wave_pick_def split: if_splits)
    then show False
      using classes_partition [of sts w] none assms by simp
  qed
  ultimately show ?thesis by (cases "failed_out sts w"; cases "fst (wave_pick sts w)") (simp_all add: wave_step_simps)
qed

lemma wave_step_partition:
  "mset (wr_remaining (wave_step sts out w)) + mset (map fst (wr_raw (wave_step sts out w)))
     = mset (wr_remaining w) + mset (map fst (wr_raw w))"
  using pick_partition [of sts w] by (simp add: wave_step_simps comp_def ac_simps)

text \<open>The guard never ends the loop: it starts above the number of subtasks, and each iteration settles one.\<close>

lemma wave_loop_settles:
  "length (wr_remaining w) < guard \<Longrightarrow>
     wr_remaining (wave_loop sts out (\<lambda>_. ClockGo) guard w) = []
     \<and> mset (map fst (wr_raw (wave_loop sts out (\<lambda>_. ClockGo) guard w)))
       = mset (wr_remaining w) + mset (map fst (wr_raw w))"
proof (induction guard arbitrary: w)
  case (Suc guard)
  show ?case
  proof (cases "wr_remaining w = []")
    case False
    have "length (wr_remaining (wave_step sts out w)) < guard"
      using wave_step_shrinks [OF False, of sts out] Suc.prems by simp
    then show ?thesis
      using Suc.IH [of "wave_step sts out w"] False wave_step_partition [of sts out w] by simp
  qed simp
qed simp

lemma run_waves_settles:
  "wr_remaining (run_waves sts out (\<lambda>_. ClockGo)) = []
   \<and> mset (map fst (wr_raw (run_waves sts out (\<lambda>_. ClockGo)))) = mset [0..<length sts]"
  using wave_loop_settles [of "wave_start (length sts)" "length sts + 1" sts out]
  by (simp add: run_waves_def wave_start_def)

text \<open>
  C6. A run that is not cut by the clock settles every subtask exactly once, whatever the plan's
  dependencies: cycles, unknown names and failures included.
\<close>

theorem every_subtask_settled_once:
  "wr_remaining (run_waves sts out (\<lambda>_. ClockGo)) = []
   \<and> mset (map fst (wr_raw (run_waves sts out (\<lambda>_. ClockGo)))) = mset [0..<length sts]"
  by (rule run_waves_settles)

section \<open>On an acyclic plan the dependencies decide\<close>

text \<open>The results so far that succeeded or failed under a name.\<close>

definition succeeded_in :: "subtask list \<Rightarrow> (nat \<times> agent_result) list \<Rightarrow> string \<Rightarrow> bool" where
  "succeeded_in sts rs d = list_ex (\<lambda>(j, r). st_name (sts ! j) = d \<and> succeeds r) rs"

definition failed_in :: "subtask list \<Rightarrow> (nat \<times> agent_result) list \<Rightarrow> string \<Rightarrow> bool" where
  "failed_in sts rs d = list_ex (\<lambda>(j, r). st_name (sts ! j) = d \<and> \<not> succeeds r) rs"

text \<open>
  An entry is justified by those before it: the subtask ran and all its dependencies had
  succeeded, or it was skipped and one of them had failed.
\<close>

definition justified :: "subtask list \<Rightarrow> (nat \<Rightarrow> agent_result) \<Rightarrow> (nat \<times> agent_result) list \<Rightarrow> nat \<times> agent_result \<Rightarrow> bool" where
  "justified sts out pre e =
     ((snd e = out (fst e) \<and> list_all (succeeded_in sts pre) (depends_on (sts ! fst e)))
      \<or> (snd e = ([], Inl ''dependency failed'') \<and> list_ex (failed_in sts pre) (depends_on (sts ! fst e))))"

fun all_justified :: "subtask list \<Rightarrow> (nat \<Rightarrow> agent_result) \<Rightarrow> (nat \<times> agent_result) list \<Rightarrow> (nat \<times> agent_result) list \<Rightarrow> bool" where
  "all_justified sts out pre [] = True"
| "all_justified sts out pre (e # es) = (justified sts out pre e \<and> all_justified sts out (pre @ [e]) es)"

lemma all_justified_append:
  "all_justified sts out pre (es @ fs) \<longleftrightarrow> all_justified sts out pre es \<and> all_justified sts out (pre @ es) fs"
  by (induction es arbitrary: pre) auto

lemma in_append [simp]:
  "succeeded_in sts (rs @ rs') d \<longleftrightarrow> succeeded_in sts rs d \<or> succeeded_in sts rs' d"
  "failed_in sts (rs @ rs') d \<longleftrightarrow> failed_in sts rs d \<or> failed_in sts rs' d"
  by (auto simp: succeeded_in_def failed_in_def)

lemma justified_mono: "justified sts out pre e \<Longrightarrow> justified sts out (pre @ more_rs) e"
  by (auto simp: justified_def list_ex_iff list_all_iff)

lemma all_justified_from:
  "(\<And>e. e \<in> set es \<Longrightarrow> justified sts out pre e) \<Longrightarrow> all_justified sts out pre es"
proof (induction es arbitrary: pre)
  case (Cons e es)
  have "all_justified sts out (pre @ [e]) es"
    by (rule Cons.IH) (use Cons.prems justified_mono in auto)
  then show ?case using Cons.prems by simp
qed simp

text \<open>A plan whose dependencies are names of the plan, of smaller rank: acyclic and closed.\<close>

definition ranked_plan :: "subtask list \<Rightarrow> (nat \<Rightarrow> nat) \<Rightarrow> bool" where
  "ranked_plan sts rank =
     list_all (\<lambda>i. list_all (\<lambda>d. list_ex (\<lambda>j. st_name (sts ! j) = d \<and> rank j < rank i) [0..<length sts])
       (depends_on (sts ! i))) [0..<length sts]"

definition wave_ok :: "subtask list \<Rightarrow> (nat \<Rightarrow> agent_result) \<Rightarrow> wave_run \<Rightarrow> bool" where
  "wave_ok sts out w =
     (all_justified sts out [] (wr_raw w)
      \<and> (\<forall>d. d \<in> set (wr_completed w) \<longleftrightarrow> succeeded_in sts (wr_raw w) d)
      \<and> (\<forall>d. d \<in> set (wr_failed w) \<longleftrightarrow> failed_in sts (wr_raw w) d)
      \<and> set (wr_remaining w) \<union> fst ` set (wr_raw w) = {0..<length sts})"

lemma in_skipped [simp]:
  "succeeded_in sts (map (\<lambda>i. (i, ([], Inl e))) is) d = False"
  "failed_in sts (map (\<lambda>i. (i, ([], Inl e))) is) d \<longleftrightarrow> d \<in> (\<lambda>i. st_name (sts ! i)) ` set is"
  by (auto simp: succeeded_in_def failed_in_def list_ex_iff succeeds_def)

lemma in_ran [simp]:
  "succeeded_in sts (map (\<lambda>i. (i, out i)) is) d \<longleftrightarrow> d \<in> (\<lambda>i. st_name (sts ! i)) ` {i \<in> set is. succeeds (out i)}"
  "failed_in sts (map (\<lambda>i. (i, out i)) is) d \<longleftrightarrow> d \<in> (\<lambda>i. st_name (sts ! i)) ` {i \<in> set is. \<not> succeeds (out i)}"
  by (auto simp: succeeded_in_def failed_in_def list_ex_iff)

text \<open>On a ranked plan something is ready or failed out as long as anything remains: no fallback.\<close>

lemma ranked_progress:
  assumes ok: "wave_ok sts out w" and ranked: "ranked_plan sts rank" and left: "wr_remaining w \<noteq> []"
  shows "wave_ready sts w \<noteq> [] \<or> failed_out sts w \<noteq> []"
proof -
  obtain i where i: "i \<in> set (wr_remaining w)" and least: "\<And>j. j \<in> set (wr_remaining w) \<Longrightarrow> rank i \<le> rank j"
    using left arg_min_if_finite [of "set (wr_remaining w)" rank]
    by (metis List.finite_set arg_min_least set_empty)
  have known: "d \<in> set (wr_completed w) \<or> d \<in> set (wr_failed w)" if d: "d \<in> set (depends_on (sts ! i))" for d
  proof -
    have "i < length sts" using ok i by (auto simp: wave_ok_def)
    then obtain j where j: "j < length sts" "st_name (sts ! j) = d" "rank j < rank i"
      using ranked d unfolding ranked_plan_def list_all_iff list_ex_iff by fastforce
    then have "j \<notin> set (wr_remaining w)" using least [of j] by auto
    then obtain r where "(j, r) \<in> set (wr_raw w)" using ok j by (fastforce simp: wave_ok_def)
    then have "succeeded_in sts (wr_raw w) d \<or> failed_in sts (wr_raw w) d"
      using j by (auto simp: succeeded_in_def failed_in_def list_ex_iff)
    then show ?thesis using ok by (simp add: wave_ok_def)
  qed
  show ?thesis
  proof (cases "list_ex (\<lambda>d. d \<in> set (wr_failed w)) (depends_on (sts ! i))")
    case True
    then have "i \<in> set (failed_out sts w)" using i by (simp add: failed_out_def)
    then show ?thesis by auto
  next
    case False
    then have "i \<in> set (wave_ready sts w)"
      using i known by (auto simp: wave_ready_def list_ex_iff list_all_iff)
    then show ?thesis by auto
  qed
qed

lemma ranked_pick:
  assumes "wave_ok sts out w" "ranked_plan sts rank"
  shows "wave_pick sts w = (wave_ready sts w, wave_blocked sts w)"
proof (cases "wr_remaining w = []")
  case True
  then show ?thesis by (simp add: wave_pick_def wave_ready_def wave_blocked_def)
next
  case False
  then show ?thesis using ranked_progress [OF assms False] by (auto simp: wave_pick_def)
qed

lemma failed_out_justified:
  assumes "wave_ok sts out w" "i \<in> set (failed_out sts w)"
  shows "justified sts out (wr_raw w) (i, ([], Inl ''dependency failed''))"
  using assms by (auto simp: failed_out_def justified_def wave_ok_def list_ex_iff)

lemma ready_justified:
  assumes "wave_ok sts out w" "i \<in> set (wave_ready sts w)"
  shows "justified sts out (wr_raw w) (i, out i)"
  using assms by (auto simp: wave_ready_def justified_def wave_ok_def list_all_iff)

lemma skip_ok:
  assumes "wave_ok sts out w"
  shows "all_justified sts out [] (wr_raw (foldl (skip_failed sts) w (failed_out sts w)))"
  using assms failed_out_justified [OF assms]
  by (auto simp: wave_ok_def all_justified_append intro!: all_justified_from)

lemma wave_step_ok:
  assumes ok: "wave_ok sts out w" and ranked: "ranked_plan sts rank"
  shows "wave_ok sts out (wave_step sts out w)"
proof -
  let ?f = "failed_out sts w" and ?r = "wave_ready sts w" and ?b = "wave_blocked sts w"
  have pick: "wave_pick sts w = (?r, ?b)" by (rule ranked_pick [OF assms])
  have "all_justified sts out [] (wr_raw (wave_step sts out w))"
    using skip_ok [OF ok] ready_justified [OF ok]
    by (auto simp: wave_step_simps pick all_justified_append intro!: all_justified_from justified_mono)
  moreover have "set (wr_remaining (wave_step sts out w)) \<union> fst ` set (wr_raw (wave_step sts out w)) = {0..<length sts}"
    using arg_cong [OF wave_step_partition [of sts out w], of set_mset] ok by (simp add: wave_ok_def)
  ultimately show ?thesis
    using ok by (auto simp: wave_ok_def wave_step_simps pick)
qed

lemma wave_loop_justified:
  "wave_ok sts out w \<Longrightarrow> ranked_plan sts rank \<Longrightarrow> all_justified sts out [] (wr_raw (wave_loop sts out clock guard w))"
proof (induction guard arbitrary: w)
  case (Suc guard)
  then show ?case
    using wave_step_ok [OF Suc.prems] skip_ok [OF Suc.prems(1)]
    by (auto simp: report_run_timeout_def wave_ok_def split: wave_clock.splits)
qed (simp add: wave_ok_def)

text \<open>
  C5. On an acyclic plan whose dependencies name subtasks of the plan, the dependencies alone decide:
  wherever the clock cuts the run, each result it has is either what the agent answered, after
  all the dependencies succeeded, or that of a subtask skipped after one of them failed.
\<close>

theorem waves_respect_dependencies:
  assumes "ranked_plan sts rank"
  shows "all_justified sts out [] (wr_raw (run_waves sts out clock))"
  unfolding run_waves_def
  by (rule wave_loop_justified [OF _ assms])
    (simp add: wave_ok_def wave_start_def succeeded_in_def failed_in_def)

definition sample_plan :: "subtask list" where
  "sample_plan = map (\<lambda>(n, ds). \<lparr>st_name = n, st_description = n, expected_writes = [], st_capability = Coding, depends_on = ds\<rparr>)
     [(''use'', [''schema'', ''docs'']), (''schema'', []), (''docs'', [''schema''])]"

theorem waves_respect_dependencies_witness:
  "ranked_plan sample_plan (\<lambda>i. if i = 0 then 2 else if i = 1 then 0 else 1)
   \<and> all_justified sample_plan (\<lambda>i. ([], if i = 2 then Inl ''x'' else Inr ''y'')) []
       (wr_raw (run_waves sample_plan (\<lambda>i. ([], if i = 2 then Inl ''x'' else Inr ''y'')) (\<lambda>_. ClockGo)))"
proof -
  have "ranked_plan sample_plan (\<lambda>i. if i = 0 then 2 else if i = 1 then 0 else 1)"
    by (simp add: ranked_plan_def sample_plan_def upt_rec)
  then show ?thesis using waves_respect_dependencies by blast
qed

text \<open>
  The fallback for a cycle or an unknown name runs all that is blocked, also a subtask that only
  waits for one of those: here the second runs together with the dependency it names.
\<close>

lemma fallback_runs_past_dependency:
  assumes "map depends_on sts = [[''missing''], [''a'']]" "map st_name sts = [''a'', ''b'']"
  shows "wave_pick sts (wave_start 2) = ([0, 1], [])"
proof -
  obtain a b where "sts = [a, b]" "depends_on a = [''missing'']" "depends_on b = [''a'']"
    using assms by (auto simp: map_eq_Cons_conv)
  then show ?thesis
    by (simp add: wave_pick_def wave_ready_def failed_out_def wave_blocked_def wave_start_def upt_rec)
qed

end
