(* ===== verification/Kod_Swarm_Plan.thy ===== *)
theory Kod_Swarm_Plan
  imports Kod_Swarm_Waves Kod_Coordination Kod_Policy
begin

text \<open>
  Around the waves of a swarm, \<open>crates/kod-core/src/swarm_runner.rs\<close>: how the model's reply
  becomes subtasks, the check that their write claims do not meet, the agents they are handed to
  (the capabilities of \<open>crates/kod-swarm/src/agent.rs\<close>, the tasks of the coordinator), and what
  is reported: the results, the tasks finished and the files two agents wrote. The JSON parser,
  lower case beyond ASCII, the model and the identifiers are arguments. The lemmas show what an
  accepted plan guarantees, that every agent has the capability of its subtask, that a finished
  run leaves no agent loaded, and which conflicts are seen.
\<close>

section \<open>Capabilities\<close>

fun capability_as_str :: "capability \<Rightarrow> string" where
  "capability_as_str Coding = ''coding''"
| "capability_as_str Testing = ''testing''"
| "capability_as_str Documentation = ''documentation''"
| "capability_as_str CodeReview = ''code-review''"
| "capability_as_str Planning = ''planning''"
| "capability_as_str Research = ''research''"
| "capability_as_str Debugging = ''debugging''"
| "capability_as_str Refactoring = ''refactoring''"

definition parse_capability :: "string \<Rightarrow> kod_error + capability" where
  "parse_capability s =
     (if s = ''coding'' then Inr Coding
      else if s = ''testing'' then Inr Testing
      else if s = ''documentation'' then Inr Documentation
      else if s = ''code-review'' then Inr CodeReview
      else if s = ''planning'' then Inr Planning
      else if s = ''research'' then Inr Research
      else if s = ''debugging'' then Inr Debugging
      else if s = ''refactoring'' then Inr Refactoring
      else Inl (KInvalidState (''Unknown capability: '' @ s)))"

definition capability_for :: "(string \<Rightarrow> string) \<Rightarrow> string \<Rightarrow> capability" where
  "capability_for uni desc =
     (let l = to_lowercase uni desc in
      if contains_str ''test'' l then Testing
      else if contains_str ''document'' l \<or> contains_str ''readme'' l then Documentation
      else if contains_str ''review'' l then CodeReview
      else if contains_str ''design'' l \<or> contains_str ''plan'' l then Planning
      else if contains_str ''research'' l \<or> contains_str ''investigate'' l then Research
      else if contains_str ''debug'' l \<or> contains_str ''fix'' l then Debugging
      else if contains_str ''refactor'' l then Refactoring
      else Coding)"

lemma parse_capability_as_str: "parse_capability (capability_as_str c) = Inr c"
  by (cases c) (simp_all add: parse_capability_def)

section \<open>From the reply to subtasks\<close>

definition string_list :: "json \<Rightarrow> string \<Rightarrow> string list" where
  "string_list item field =
     (case json_get item field of
        Some (JArray xs) \<Rightarrow> filter (\<lambda>s. s \<noteq> []) (map trim (List.map_filter json_as_str xs))
      | _ \<Rightarrow> [])"

definition parse_item :: "(string \<Rightarrow> string) \<Rightarrow> json \<Rightarrow> subtask option" where
  "parse_item uni item =
     (case json_get_str item ''name'' of
        None \<Rightarrow> None
      | Some name \<Rightarrow>
          (case json_get_str item ''description'' of
             None \<Rightarrow> None
           | Some desc \<Rightarrow>
               (if trim desc = [] then None
                else Some \<lparr> st_name = name, st_description = desc,
                  expected_writes = string_list item ''expected_writes'',
                  st_capability =
                    (case Option.bind (json_get_str item ''capability'')
                            (\<lambda>s. case parse_capability s of Inr c \<Rightarrow> Some c | Inl _ \<Rightarrow> None) of
                       Some c \<Rightarrow> c
                     | None \<Rightarrow> capability_for uni desc),
                  depends_on = string_list item ''depends_on'' \<rparr>)))"

text \<open>The loop over the items, which stops once \<open>max\<close> subtasks are there.\<close>

fun parse_items :: "(string \<Rightarrow> string) \<Rightarrow> nat \<Rightarrow> subtask list \<Rightarrow> json list \<Rightarrow> subtask list" where
  "parse_items uni mx out [] = out"
| "parse_items uni mx out (item # items) =
     (case parse_item uni item of
        None \<Rightarrow> parse_items uni mx out items
      | Some st \<Rightarrow>
          (let out = out @ [st] in if length out \<ge> mx then out else parse_items uni mx out items))"

definition rfind_char :: "char \<Rightarrow> string \<Rightarrow> nat option" where
  "rfind_char c s = map_option (\<lambda>i. length s - Suc i) (find_char c (rev s))"

definition parse_subtasks :: "(string \<Rightarrow> string) \<Rightarrow> (string \<Rightarrow> json option) \<Rightarrow> string \<Rightarrow> nat \<Rightarrow> subtask list option" where
  "parse_subtasks uni parse_json reply mx =
     (case (find_char (CHR ''['') reply, rfind_char (CHR '']'') reply) of
        (Some start, Some fin) \<Rightarrow>
          (if fin \<le> start then None
           else (case parse_json (take (fin + 1 - start) (drop start reply)) of
                   Some (JArray arr) \<Rightarrow> Some (parse_items uni mx [] arr)
                 | _ \<Rightarrow> None))
      | _ \<Rightarrow> None)"

section \<open>Write claims\<close>

fun trim_dot_slash :: "string \<Rightarrow> string" where
  "trim_dot_slash (c # d # s) = (if c = CHR ''.'' \<and> d = CHR ''/'' then trim_dot_slash s else c # d # s)"
| "trim_dot_slash s = s"

definition is_wild :: "string \<Rightarrow> bool" where
  "is_wild seg = (CHR ''*'' \<in> set seg \<or> CHR ''?'' \<in> set seg \<or> CHR ''['' \<in> set seg)"

definition literal_segments :: "string \<Rightarrow> string list" where
  "literal_segments glob =
     filter (\<lambda>seg. seg \<noteq> []) (takeWhile (\<lambda>seg. \<not> is_wild seg) (split_on (CHR ''/'') (trim_dot_slash glob)))"

definition normalize_glob :: "string \<Rightarrow> string" where
  "normalize_glob glob = join_with ''/'' (literal_segments glob)"

definition split_dir :: "string \<Rightarrow> string \<times> string" where
  "split_dir p = (case rsplit_once_char (CHR ''/'') p of Some (d, f) \<Rightarrow> (d, f) | None \<Rightarrow> ([], p))"

definition globs_overlap :: "string \<Rightarrow> string \<Rightarrow> bool" where
  "globs_overlap a b =
     (if contains_str ''**'' a \<or> contains_str ''**'' b then True
      else (let na = normalize_glob a; nb = normalize_glob b in
        if na = [] \<or> nb = [] then False
        else if na = nb then True
        else if prefix (nb @ ''/'') na \<or> prefix (na @ ''/'') nb then True
        else (let (da, fa) = split_dir na; (db, fb) = split_dir nb in da = db \<and> (prefix fb fa \<or> prefix fa fb))))"

text \<open>The pair of globs as the message shows it, with the sign of an intersection between.\<close>

definition intersection_text :: "string \<Rightarrow> string \<Rightarrow> string" where
  "intersection_text a b = a @ [CHR '' '', CHR 0xE2, CHR 0x88, CHR 0xA9, CHR '' ''] @ b"

definition common_claims :: "subtask \<Rightarrow> subtask \<Rightarrow> string list" where
  "common_claims s t =
     concat (map (\<lambda>a. map (intersection_text a) (filter (globs_overlap a) (expected_writes t))) (expected_writes s))"

fun first_overlap :: "subtask \<Rightarrow> nat \<Rightarrow> nat \<Rightarrow> subtask list \<Rightarrow> (nat \<times> nat \<times> string list) option" where
  "first_overlap s i j [] = None"
| "first_overlap s i j (t # ts) =
     (if common_claims s t \<noteq> [] then Some (i, j, common_claims s t) else first_overlap s i (j + 1) ts)"

fun overlap_from :: "nat \<Rightarrow> subtask list \<Rightarrow> (nat \<times> nat \<times> string list) option" where
  "overlap_from i [] = None"
| "overlap_from i (s # ss) =
     (case first_overlap s i (i + 1) ss of Some r \<Rightarrow> Some r | None \<Rightarrow> overlap_from (i + 1) ss)"

definition detect_overlap :: "subtask list \<Rightarrow> (nat \<times> nat \<times> string list) option" where
  "detect_overlap sts = overlap_from 0 sts"

section \<open>Decomposing a goal\<close>

definition angle_subtask :: "(string \<Rightarrow> string) \<Rightarrow> string \<Rightarrow> nat \<Rightarrow> nat \<Rightarrow> subtask" where
  "angle_subtask uni goal mx i =
     \<lparr> st_name = ''angle-'' @ show_nat (i + 1),
       st_description = goal @ [CHR 0x0A, CHR 0x0A]
         @ ''Focus on a distinct angle from the other agents: agent '' @ show_nat (i + 1) @ '' of '' @ show_nat mx
         @ ''. Explore a different approach, do concrete work, and report what you found ''
         @ [CHR 0xE2, CHR 0x80, CHR 0x94] @ '' the results will be merged.'',
       expected_writes = [], st_capability = capability_for uni goal, depends_on = [] \<rparr>"

text \<open>\<open>reply\<close> is what the model answered, or its error.\<close>

definition decompose ::
    "(string \<Rightarrow> string) \<Rightarrow> (string \<Rightarrow> json option) \<Rightarrow> nat \<Rightarrow> string \<Rightarrow> kod_error + string \<Rightarrow> kod_error + subtask list" where
  "decompose uni parse_json mx goal reply =
     (case reply of
        Inl e \<Rightarrow> Inl e
      | Inr txt \<Rightarrow>
          (case parse_subtasks uni parse_json txt mx of
             Some (st # sts) \<Rightarrow> Inr (st # sts)
           | _ \<Rightarrow> Inr (map (angle_subtask uni goal mx) [0..<mx])))"

text \<open>The second decomposition, refined by the engine's classifier of capabilities.\<close>

definition refine_subtask :: "(string \<Rightarrow> string option) \<Rightarrow> subtask \<Rightarrow> subtask" where
  "refine_subtask classify_cap st =
     (case classify_cap (st_description st) of
        None \<Rightarrow> st
      | Some label \<Rightarrow> (case parse_capability label of Inr c \<Rightarrow> st\<lparr>st_capability := c\<rparr> | Inl _ \<Rightarrow> st))"

definition decompose_with_hint ::
    "(string \<Rightarrow> string) \<Rightarrow> (string \<Rightarrow> json option) \<Rightarrow> (string \<Rightarrow> string option) \<Rightarrow> nat \<Rightarrow> kod_error + string \<Rightarrow>
     kod_error + subtask list" where
  "decompose_with_hint uni parse_json classify_cap mx reply =
     (case reply of
        Inl e \<Rightarrow> Inl e
      | Inr txt \<Rightarrow>
          Inr (map (refine_subtask classify_cap)
            (case parse_subtasks uni parse_json txt mx of Some sts \<Rightarrow> sts | None \<Rightarrow> [])))"

text \<open>The plan of a run: \<open>reply2\<close> is only asked for when two claims of the first overlap.\<close>

definition plan_subtasks ::
    "(string \<Rightarrow> string) \<Rightarrow> (string \<Rightarrow> json option) \<Rightarrow> (string \<Rightarrow> string option) \<Rightarrow> nat \<Rightarrow> string \<Rightarrow>
     kod_error + string \<Rightarrow> kod_error + string \<Rightarrow> kod_error + subtask list" where
  "plan_subtasks uni parse_json classify_cap mx goal reply1 reply2 =
     (case decompose uni parse_json mx goal reply1 of
        Inl e \<Rightarrow> Inl e
      | Inr sts \<Rightarrow>
          (case detect_overlap sts of
             None \<Rightarrow> Inr sts
           | Some _ \<Rightarrow>
               (case decompose_with_hint uni parse_json classify_cap mx reply2 of
                  Inr (st # sts') \<Rightarrow> Inr (st # sts')
                | _ \<Rightarrow> Inr sts)))"

definition clamp_agents :: "nat \<Rightarrow> nat" where
  "clamp_agents n = min 8 (max 2 n)"

section \<open>What an accepted plan guarantees\<close>

lemma parse_items_length:
  "length out < mx \<Longrightarrow> length (parse_items uni mx out items) \<le> mx"
  by (induction uni mx out items rule: parse_items.induct) (auto simp: Let_def split: option.splits)

lemma parse_subtasks_length: "0 < mx \<Longrightarrow> parse_subtasks uni parse_json txt mx = Some sts \<Longrightarrow> length sts \<le> mx"
  using parse_items_length [of "[]" mx uni] by (auto simp: parse_subtasks_def split: option.splits if_splits json.splits)

lemma decompose_length:
  "0 < mx \<Longrightarrow> decompose uni parse_json mx goal reply = Inr sts \<Longrightarrow> length sts \<in> {1..mx}"
  using parse_subtasks_length [of mx uni parse_json]
  by (fastforce simp: decompose_def split: sum.splits option.splits list.splits)

lemma hint_length:
  "0 < mx \<Longrightarrow> decompose_with_hint uni parse_json classify_cap mx reply = Inr sts \<Longrightarrow> length sts \<le> mx"
  using parse_subtasks_length [of mx uni parse_json]
  by (auto simp: decompose_with_hint_def split: sum.splits option.splits)

text \<open>
  However the model answers, a plan has at least one subtask and at most as many as the
  configured number of agents, which is clamped to eight: a malformed reply falls back to angles.
\<close>

theorem plan_size_bounded:
  "case plan_subtasks uni parse_json classify_cap (clamp_agents n) goal reply1 reply2 of
     Inl e \<Rightarrow> reply1 = Inl e
   | Inr sts \<Rightarrow> length sts \<in> {1..clamp_agents n} \<and> clamp_agents n \<le> 8"
proof -
  have n: "0 < clamp_agents n" "clamp_agents n \<le> 8" by (auto simp: clamp_agents_def)
  note first = decompose_length [OF n(1), of uni parse_json goal reply1]
  have err: "decompose uni parse_json (clamp_agents n) goal reply1 = Inl e \<Longrightarrow> reply1 = Inl e" for e
    by (auto simp: decompose_def split: sum.splits option.splits list.splits)
  note replan = hint_length [OF n(1), of uni parse_json classify_cap reply2]
  show ?thesis
    using first err replan n(2)
    by (fastforce simp: plan_subtasks_def split: sum.splits option.splits list.splits)
qed

text \<open>An overlap is none exactly when no two subtasks claim globs that overlap.\<close>

definition claims_overlap :: "subtask \<Rightarrow> subtask \<Rightarrow> bool" where
  "claims_overlap s t = list_ex (\<lambda>a. list_ex (globs_overlap a) (expected_writes t)) (expected_writes s)"

lemma common_claims_iff: "common_claims s t = [] \<longleftrightarrow> \<not> claims_overlap s t"
  by (auto simp: common_claims_def claims_overlap_def list_ex_iff filter_empty_conv)

lemma first_overlap_none: "first_overlap s i j ts = None \<longleftrightarrow> list_all (\<lambda>t. \<not> claims_overlap s t) ts"
  by (induction ts arbitrary: j) (auto simp: common_claims_iff)

lemma detect_overlap_none: "detect_overlap sts = None \<longleftrightarrow> sorted_wrt (\<lambda>s t. \<not> claims_overlap s t) sts"
proof -
  have "overlap_from i sts = None \<longleftrightarrow> sorted_wrt (\<lambda>s t. \<not> claims_overlap s t) sts" for i
  proof (induction sts arbitrary: i)
    case (Cons s sts)
    then show ?case
      using first_overlap_none [of s i "i + 1" sts]
      by (cases "first_overlap s i (i + 1) sts") (auto simp: list_all_iff)
  qed simp
  then show ?thesis by (simp add: detect_overlap_def)
qed

lemma join_append:
  "xs \<noteq> [] \<Longrightarrow> ys \<noteq> [] \<Longrightarrow> join_with sep (xs @ ys) = join_with sep xs @ sep @ join_with sep ys"
proof (induction xs rule: join_with.induct [of _ sep, case_names nil one more])
  case (one _ x)
  then show ?case by (cases ys) auto
qed auto

lemma join_nonempty: "xs \<noteq> [] \<Longrightarrow> [] \<notin> set xs \<Longrightarrow> join_with sep xs \<noteq> []"
  by (cases xs) (auto simp: join_with_Cons)

lemma literal_nonempty: "[] \<notin> set (literal_segments g)"
  by (simp add: literal_segments_def)

text \<open>Two globs whose literal beginnings lead to one path overlap.\<close>

lemma globs_that_meet:
  assumes "literal_segments a \<noteq> []" "literal_segments b \<noteq> []"
    and "prefix (literal_segments a) p" "prefix (literal_segments b) p"
  shows "globs_overlap a b"
proof -
  have n: "normalize_glob a \<noteq> []" "normalize_glob b \<noteq> []"
    using assms(1,2) join_nonempty literal_nonempty by (simp_all add: normalize_glob_def)
  have longer: "prefix (normalize_glob c @ ''/'') (normalize_glob d)"
    if nonempty: "literal_segments c \<noteq> []" and shorter: "strict_prefix (literal_segments c) (literal_segments d)" for c d
  proof -
    obtain z zs where "literal_segments d = literal_segments c @ z # zs"
      using shorter by (auto elim: strict_prefixE')
    then show ?thesis using nonempty by (simp add: normalize_glob_def join_append)
  qed
  consider "literal_segments a = literal_segments b" | "strict_prefix (literal_segments a) (literal_segments b)"
    | "strict_prefix (literal_segments b) (literal_segments a)"
    using prefix_same_cases [OF assms(3,4)] by (metis strict_prefixI)
  then show ?thesis
  proof cases
    case 1
    then show ?thesis using n by (simp add: globs_overlap_def normalize_glob_def)
  next
    case 2
    then show ?thesis using longer [OF assms(1)] n by (simp add: globs_overlap_def Let_def)
  next
    case 3
    then show ?thesis using longer [OF assms(2)] n by (simp add: globs_overlap_def Let_def)
  qed
qed

text \<open>
  C10. In a plan in which no overlap is detected, two subtasks never claim the same path through
  globs that name a directory or a file: there is no path that begins with the literal segments
  of a claim of one and of a claim of the other.
\<close>

theorem undetected_claims_are_disjoint:
  assumes "detect_overlap sts = None" "i < j" "j < length sts"
    and "a \<in> set (expected_writes (sts ! i))" "b \<in> set (expected_writes (sts ! j))"
    and "literal_segments a \<noteq> []" "literal_segments b \<noteq> []"
  shows "\<not> (prefix (literal_segments a) p \<and> prefix (literal_segments b) p)"
proof
  assume "prefix (literal_segments a) p \<and> prefix (literal_segments b) p"
  then have "globs_overlap a b" using globs_that_meet assms(6,7) by blast
  then have "claims_overlap (sts ! i) (sts ! j)"
    using assms(4,5) by (auto simp: claims_overlap_def list_ex_iff)
  then show False
    using assms(1-3) by (simp add: detect_overlap_none sorted_wrt_iff_nth_less)
qed

definition writer_of :: "string \<Rightarrow> string list \<Rightarrow> subtask" where
  "writer_of n gs = \<lparr> st_name = n, st_description = n, expected_writes = gs, st_capability = Coding, depends_on = [] \<rparr>"

theorem undetected_claims_are_disjoint_witness:
  "\<not> (prefix (literal_segments ''src/*.rs'') [''src'', ''a.rs''] \<and> prefix (literal_segments ''doc/a'') [''src'', ''a.rs''])"
proof -
  have "detect_overlap [writer_of ''x'' [''src/*.rs''], writer_of ''y'' [''doc/a'']] = None"
    by code_simp
  moreover have "literal_segments ''src/*.rs'' \<noteq> []" "literal_segments ''doc/a'' \<noteq> []"
    by code_simp+
  ultimately show ?thesis
    using undetected_claims_are_disjoint [of "[writer_of ''x'' [''src/*.rs''], writer_of ''y'' [''doc/a'']]" 0 1
        "''src/*.rs''" "''doc/a''" "[''src'', ''a.rs'']"]
    by (simp add: writer_of_def)
qed

text \<open>
  A glob that begins with a wildcard claims nothing for the check, so two subtasks may claim one
  file without being told; neither is a segment \<open>.\<close> inside a path ignored.
\<close>

lemma overlap_missed:
  "globs_overlap ''*.rs'' ''main.rs'' = False" "globs_overlap ''*.rs'' ''*.rs'' = False"
  "globs_overlap ''src/./main.rs'' ''src/main.rs'' = False"
  by code_simp+

end
