(* ===== verification/Kod_Swarm_Report.thy ===== *)
theory Kod_Swarm_Report
  imports Kod_Swarm_Plan Kod_Message
begin

text \<open>
  Handing the subtasks of a swarm to agents and reporting what they did,
  \<open>crates/kod-core/src/swarm_runner.rs\<close>: the pool of agents and the tasks of the coordinator,
  the results and the tasks finished after the waves, the writes of an agent's tool calls and
  the files two agents wrote. The lemmas show that an agent has the capability of its subtasks,
  that a run leaves no agent loaded, and which conflicts are reported.
\<close>

section \<open>The pool and the dispatch\<close>

definition sanitize :: "(string \<Rightarrow> string) \<Rightarrow> string \<Rightarrow> string" where
  "sanitize uni s =
     take 24 (join_with ''-'' (filter (\<lambda>p. p \<noteq> [])
       (split_on (CHR ''-'')
         (map (\<lambda>ch. case ch of [c] \<Rightarrow> (if alnum_ascii c then c else CHR ''-'') | _ \<Rightarrow> CHR ''-'')
           (utf8_chars (to_lowercase uni s))))))"

definition distinct_capabilities :: "subtask list \<Rightarrow> capability list" where
  "distinct_capabilities sts =
     foldl (\<lambda>cs st. if st_capability st \<in> set cs then cs else cs @ [st_capability st]) [] sts"

definition pool_capabilities :: "nat \<Rightarrow> subtask list \<Rightarrow> capability list" where
  "pool_capabilities mx sts =
     (let cs = distinct_capabilities sts in if length cs \<le> mx then cs else map st_capability sts)"

record pool_agent =
  pa_id :: string
  pa_name :: string
  pa_capability :: capability

definition build_pool :: "(string \<Rightarrow> string) \<Rightarrow> (nat \<Rightarrow> string) \<Rightarrow> capability list \<Rightarrow> pool_agent list" where
  "build_pool uni pool_id caps =
     map (\<lambda>(i, c). \<lparr> pa_id = pool_id i, pa_name = ''agent-'' @ show_nat (i + 1) @ ''-'' @ sanitize uni (capability_as_str c),
         pa_capability = c \<rparr>) (zip [0..<length caps] caps)"

definition choose_agent :: "pool_agent list \<Rightarrow> subtask \<Rightarrow> coordinator \<Rightarrow> string" where
  "choose_agent pool st c =
     (case map pa_id (filter (\<lambda>a. pa_capability a = st_capability st) pool) of
        [] \<Rightarrow> (case pool of [] \<Rightarrow> [] | a # _ \<Rightarrow> pa_id a)
      | [x] \<Rightarrow> x
      | x # xs \<Rightarrow> (case least_loaded_agent (x # xs) c of Some y \<Rightarrow> y | None \<Rightarrow> x))"

record agent_handle =
  ah_agent :: string
  ah_name :: string
  ah_subtask :: subtask
  ah_task :: string

definition handle_name :: "pool_agent list \<Rightarrow> subtask \<Rightarrow> string \<Rightarrow> string" where
  "handle_name pool st chosen =
     (case find (\<lambda>a. pa_id a = chosen) pool of Some a \<Rightarrow> pa_name a | None \<Rightarrow> ''agent-'' @ st_name st)"

text \<open>One task per subtask, registered and assigned; an error of the coordinator ends the run.\<close>

fun assign_subtasks ::
    "(nat \<Rightarrow> string) \<Rightarrow> nat \<Rightarrow> pool_agent list \<Rightarrow> nat \<Rightarrow> subtask list \<Rightarrow> coordinator \<Rightarrow>
     (coord_error + agent_handle list) \<times> coordinator" where
  "assign_subtasks tid now pool k [] c = (Inr [], c)"
| "assign_subtasks tid now pool k (st # sts) c =
     (let chosen = choose_agent pool st c in
      case register_task (task_new (tid k) (st_description st) PrioMedium) c of
        (Inl e, c) \<Rightarrow> (Inl e, c)
      | (Inr _, c) \<Rightarrow>
          (case assign_task (tid k) chosen now c of
             (Inl e, c) \<Rightarrow> (Inl e, c)
           | (Inr _, c) \<Rightarrow>
               (case assign_subtasks tid now pool (k + 1) sts c of
                  (Inl e, c) \<Rightarrow> (Inl e, c)
                | (Inr hs, c) \<Rightarrow>
                    (Inr (\<lparr> ah_agent = chosen, ah_name = handle_name pool st chosen, ah_subtask = st, ah_task = tid k \<rparr> # hs), c))))"

definition watchdog_idle_secs :: "nat \<Rightarrow> nat" where
  "watchdog_idle_secs timeout = (if timeout = 0 then 90 else min timeout (max 90 (timeout div 4)))"

section \<open>Reporting the results\<close>

datatype agent_outcome = OutcomeCompleted string | OutcomeFailed string

record swarm_result =
  sr_name :: string
  sr_subtask :: string
  sr_outcome :: agent_outcome

definition report_one :: "agent_handle list \<Rightarrow> coordinator \<Rightarrow> nat \<times> agent_result \<Rightarrow> coordinator" where
  "report_one hs c e =
     (case e of (i, _, res) \<Rightarrow>
        (case res of
           Inr _ \<Rightarrow> snd (complete_task (ah_task (hs ! i)) c)
         | Inl _ \<Rightarrow> snd (fail_task (ah_task (hs ! i)) c)))"

definition report_results :: "agent_handle list \<Rightarrow> (nat \<times> agent_result) list \<Rightarrow> coordinator \<Rightarrow> swarm_result list \<times> coordinator" where
  "report_results hs raw c =
     (map (\<lambda>(i, _, res).
        \<lparr> sr_name = ah_name (hs ! i), sr_subtask = st_description (ah_subtask (hs ! i)),
          sr_outcome = (case res of Inr t \<Rightarrow> OutcomeCompleted t | Inl e \<Rightarrow> OutcomeFailed e) \<rparr>) raw,
      foldl (report_one hs) c raw)"

definition concatenate :: "swarm_result list \<Rightarrow> string" where
  "concatenate rs =
     trim_end (concat (map (\<lambda>r. ''=== '' @ sr_name r @ '' ==='' @ [CHR 0x0A]
       @ ''Subtask: '' @ sr_subtask r @ [CHR 0x0A, CHR 0x0A]
       @ (case sr_outcome r of OutcomeCompleted t \<Rightarrow> t | OutcomeFailed e \<Rightarrow> ''(failed: '' @ e @ '')'')
       @ [CHR 0x0A, CHR 0x0A]) rs))"

section \<open>Files written by two agents\<close>

definition write_path :: "tool_call \<Rightarrow> tool_result option \<Rightarrow> string list" where
  "write_path call res =
     (if call_tool call \<noteq> ''write_file'' then []
      else (case (case res of Some (ToolSuccess v) \<Rightarrow> json_get_str v ''path'' | _ \<Rightarrow> None) of
              Some p \<Rightarrow> [p]
            | None \<Rightarrow> (case json_get_str (call_args call) ''path'' of Some p \<Rightarrow> [p] | None \<Rightarrow> [])))"

definition sort_dedup :: "string list \<Rightarrow> string list" where
  "sort_dedup xs = remdups_adj (sort xs)"

definition collect_writes :: "tool_call list \<Rightarrow> tool_result list \<Rightarrow> string list" where
  "collect_writes calls results =
     sort_dedup (concat (map (\<lambda>(call, res). write_path call (Some res)) (zip calls results))
       @ concat (map (\<lambda>call. write_path call None) (drop (min (length results) (length calls)) calls)))"

text \<open>The writes of all agents, each path relative to the agent's worktree when it has one.\<close>

definition file_writes ::
    "agent_handle list \<Rightarrow> (nat \<Rightarrow> string option) \<Rightarrow> (nat \<times> agent_result) list \<Rightarrow> (string \<times> string) list" where
  "file_writes hs worktree raw =
     concat (map (\<lambda>(i, ws, _). map (\<lambda>p.
         (case worktree i of Some wt \<Rightarrow> relative_to wt p | None \<Rightarrow> p, ah_name (hs ! i))) ws) raw)"

definition add_writer :: "(string, string list) hmap \<Rightarrow> string \<times> string \<Rightarrow> (string, string list) hmap" where
  "add_writer m fn =
     (case fn of (f, n) \<Rightarrow>
        AList.update f ((case map_of m f of Some ns \<Rightarrow> ns | None \<Rightarrow> []) @ [n]) m)"

definition writers_per_file :: "(string \<times> string) list \<Rightarrow> (string, string list) hmap" where
  "writers_per_file fns = foldl add_writer [] fns"

definition file_conflicts :: "(string \<times> string) list \<Rightarrow> (string \<times> string list) list" where
  "file_conflicts fns =
     sort_key fst (filter (\<lambda>(f, ags). length ags \<ge> 2)
       (map (\<lambda>(f, ns). (f, sort_dedup ns)) (writers_per_file fns)))"

section \<open>Which conflicts are seen\<close>

lemma strict_remdups_adj: "sorted xs \<Longrightarrow> sorted_wrt (<) (remdups_adj (xs :: 'a::linorder list))"
  by (induction xs rule: remdups_adj.induct) (auto simp: order.strict_iff_order)

lemma sort_dedup_set: "sort_dedup xs = sorted_list_of_set (set xs)"
proof -
  have "sorted_wrt (<) (sort_dedup xs)"
    unfolding sort_dedup_def by (rule strict_remdups_adj) simp
  then have "sorted (sort_dedup xs)" "distinct (sort_dedup xs)"
    by (simp_all add: strict_sorted_iff)
  then show ?thesis
    using sorted_list_of_set.idem_if_sorted_distinct [of "sort_dedup xs"] by (simp add: sort_dedup_def)
qed

lemma distinct_keys_sort: "keys_distinct (sort_key fst xs) \<longleftrightarrow> keys_distinct xs"
  by (rule mset_eq_imp_distinct_iff) simp

lemma writers_keys: "keys_distinct m \<Longrightarrow> keys_distinct (foldl add_writer m fns)"
  by (induction fns arbitrary: m) (auto simp: add_writer_def keys_distinct_update)

lemma writers_lookup:
  "map_of (foldl add_writer m fns) f =
    (if \<exists>n. (f, n) \<in> set fns
     then Some ((case map_of m f of Some ns \<Rightarrow> ns | None \<Rightarrow> []) @ map snd (filter (\<lambda>fn. fst fn = f) fns))
     else map_of m f)"
proof (induction fns arbitrary: m)
  case (Cons fn fns)
  obtain g n where fn: "fn = (g, n)" by (cases fn)
  show ?case
    using Cons.IH [of "add_writer m (g, n)"]
    by (cases "g = f") (auto simp: fn add_writer_def filter_empty_conv split: option.splits)
qed simp

text \<open>
  C9. The conflicts reported are exactly the files with writes under two or more agent names, each
  with the sorted names of its writers, and no file is reported twice.
\<close>

theorem conflicts_are_shared_files:
  "distinct (map fst (file_conflicts fns))
   \<and> (\<forall>f ags. ((f, ags) \<in> set (file_conflicts fns)) =
        (ags = sorted_list_of_set {n. (f, n) \<in> set fns} \<and> 2 \<le> card {n. (f, n) \<in> set fns}))"
proof -
  let ?m = "writers_per_file fns"
  have keys: "keys_distinct ?m" unfolding writers_per_file_def by (rule writers_keys) simp
  have names: "set (map snd (filter (\<lambda>fn. fst fn = f) fns)) = {n. (f, n) \<in> set fns}" for f
    by (auto simp: image_iff)
  have look: "map_of ?m f = (if {n. (f, n) \<in> set fns} = {} then None
      else Some (map snd (filter (\<lambda>fn. fst fn = f) fns)))" for f
    using writers_lookup [of "[]" fns f] by (auto simp: writers_per_file_def)
  have size: "length (sort_dedup ns) = card (set ns)" for ns
    by (simp add: sort_dedup_set)
  have "((f, ags) \<in> set (file_conflicts fns)) =
      (\<exists>ns. map_of ?m f = Some ns \<and> ags = sort_dedup ns \<and> 2 \<le> length ags)" for f ags
    unfolding set_alist_iff [OF keys, symmetric] by (force simp: file_conflicts_def)
  then have "((f, ags) \<in> set (file_conflicts fns)) =
      (ags = sorted_list_of_set {n. (f, n) \<in> set fns} \<and> 2 \<le> card {n. (f, n) \<in> set fns})" for f ags
    unfolding look using names [of f] size by (auto simp: sort_dedup_set)
  moreover have "distinct (map fst (file_conflicts fns))"
    using keys by (simp add: file_conflicts_def distinct_keys_sort distinct_map_filter comp_def case_prod_unfold)
  ultimately show ?thesis by blast
qed

text \<open>
  The names are those of the pool's agents, and the subtasks of one capability share an agent: when
  two of them write the same file there is one name, and no conflict.
\<close>

lemma same_agent_conflict_missed:
  assumes "ah_name (hs ! 0) = ah_name (hs ! 1)"
  shows "file_conflicts (file_writes hs (\<lambda>_. None) [(0, [''f''], Inr a), (1, [''f''], Inr b)]) = []"
  using assms
  by (simp add: file_conflicts_def file_writes_def writers_per_file_def add_writer_def sort_dedup_def)

lemma one_capability_one_agent:
  "st_capability s = st_capability t \<Longrightarrow> pool_capabilities (Suc mx) [s, t] = [st_capability s]"
  by (simp add: pool_capabilities_def distinct_capabilities_def)

section \<open>An agent has the capability of its subtasks\<close>

lemma distinct_capabilities_set: "set (distinct_capabilities sts) = st_capability ` set sts"
proof -
  have "set (foldl (\<lambda>cs st. if st_capability st \<in> set cs then cs else cs @ [st_capability st]) acc sts)
      = set acc \<union> st_capability ` set sts" for acc
    by (induction sts arbitrary: acc) auto
  then show ?thesis by (simp add: distinct_capabilities_def)
qed

lemma pool_capabilities_set: "set (pool_capabilities mx sts) = st_capability ` set sts"
  by (simp add: pool_capabilities_def Let_def distinct_capabilities_set)

lemma choose_agent_capable:
  assumes "st_capability st \<in> pa_capability ` set pool"
  shows "\<exists>a \<in> set pool. pa_id a = choose_agent pool st c \<and> pa_capability a = st_capability st"
proof -
  let ?xs = "map pa_id (filter (\<lambda>a. pa_capability a = st_capability st) pool)"
  obtain x xs where xs: "?xs = x # xs"
    using assms by (cases ?xs) (auto simp: filter_empty_conv)
  have "choose_agent pool st c \<in> set ?xs"
    using least_loaded_is_least [of "x # xs" c] unfolding choose_agent_def xs
    by (auto split: list.splits option.splits)
  then show ?thesis by auto
qed

lemma assign_subtasks_handles:
  "assign_subtasks tid now pool k sts c = (Inr hs, c') \<Longrightarrow>
   map ah_subtask hs = sts \<and> map ah_task hs = map tid [k..<k + length sts]
   \<and> (\<forall>h \<in> set hs. \<exists>c. ah_agent h = choose_agent pool (ah_subtask h) c)"
proof (induction tid now pool k sts c arbitrary: hs c' rule: assign_subtasks.induct)
  case (2 tid now pool k st sts c)
  then show ?case
    by (auto simp: Let_def upt_conv_Cons simp del: upt_Suc split: prod.splits sum.splits) blast
qed simp

text \<open>
  Every subtask that is handed out goes to an agent of the pool with the capability the planner
  gave it, also when the pool holds several of them and the load decides.
\<close>

theorem agents_fit_their_subtasks:
  assumes "assign_subtasks tid now (build_pool uni pool_id (pool_capabilities mx sts)) k sts c = (Inr hs, c')"
  shows "map ah_subtask hs = sts
    \<and> list_all (\<lambda>h. list_ex (\<lambda>a. pa_id a = ah_agent h \<and> pa_capability a = st_capability (ah_subtask h))
        (build_pool uni pool_id (pool_capabilities mx sts))) hs"
proof -
  let ?pool = "build_pool uni pool_id (pool_capabilities mx sts)"
  have "map pa_capability ?pool = pool_capabilities mx sts"
    by (simp add: build_pool_def comp_def case_prod_unfold)
  then have caps: "pa_capability ` set ?pool = st_capability ` set sts"
    using pool_capabilities_set [of mx sts] by (metis set_map)
  have hs: "map ah_subtask hs = sts" "\<forall>h \<in> set hs. \<exists>c. ah_agent h = choose_agent ?pool (ah_subtask h) c"
    using assign_subtasks_handles [OF assms] by simp_all
  have "\<exists>a \<in> set ?pool. pa_id a = ah_agent h \<and> pa_capability a = st_capability (ah_subtask h)" if "h \<in> set hs" for h
  proof -
    have "st_capability (ah_subtask h) \<in> pa_capability ` set ?pool"
      using that hs(1) caps by auto
    then show ?thesis using choose_agent_capable hs(2) that by metis
  qed
  then show ?thesis using hs(1) by (simp add: list_all_iff list_ex_iff)
qed

definition two_coders :: "subtask list" where
  "two_coders = [writer_of ''x'' [''a''], writer_of ''y'' [''b'']]"

theorem agents_fit_their_subtasks_witness:
  "map ah_agent (projr (fst (assign_subtasks (\<lambda>k. show_nat k) 0 (build_pool (\<lambda>c. c) (\<lambda>i. ''p'' @ show_nat i) (pool_capabilities 4 two_coders))
      0 two_coders coordinator_new))) = [''p0'', ''p0'']
   \<and> list_ex (\<lambda>a. pa_id a = ''p0'' \<and> pa_capability a = Coding)
        (build_pool (\<lambda>c. c) (\<lambda>i. ''p'' @ show_nat i) (pool_capabilities 4 two_coders))"
proof -
  let ?pool = "build_pool (\<lambda>c. c) (\<lambda>i. ''p'' @ show_nat i) (pool_capabilities 4 two_coders)"
  let ?r = "assign_subtasks (\<lambda>k. show_nat k) 0 ?pool 0 two_coders coordinator_new"
  have agents: "map ah_agent (projr (fst ?r)) = [''p0'', ''p0'']" "isl (fst ?r) = False"
    by code_simp+
  then obtain hs c where r: "?r = (Inr hs, c)" by (cases ?r; cases "fst ?r") auto
  have "map ah_subtask hs = two_coders"
      "list_all (\<lambda>h. list_ex (\<lambda>a. pa_id a = ah_agent h \<and> pa_capability a = st_capability (ah_subtask h)) ?pool) hs"
    using agents_fit_their_subtasks [OF r] by simp_all
  then have "list_ex (\<lambda>a. pa_id a = ''p0'' \<and> pa_capability a = Coding) ?pool"
    using agents(1) r by (cases hs) (auto simp: two_coders_def writer_of_def)
  then show ?thesis using agents(1) by simp
qed

section \<open>A finished run leaves no agent loaded\<close>

lemma finish_task_lookup:
  "map_of (tasks (snd (finish_task i st c))) j =
    (if j = i then map_option (\<lambda>t. if is_terminal_status (task_status t) \<or> task_status t = st then t else t\<lparr>task_status := st\<rparr>)
       (map_of (tasks c) i)
     else map_of (tasks c) j)"
  by (auto simp: finish_task_def run_at_once_def finish_first_def split: option.splits)

definition task_settled :: "coordinator \<Rightarrow> string \<Rightarrow> bool" where
  "task_settled c i = (case map_of (tasks c) i of Some t \<Rightarrow> is_terminal_status (task_status t) | None \<Rightarrow> True)"

lemma finish_task_settles:
  "is_terminal_status st \<Longrightarrow> task_settled (snd (finish_task i st c)) i"
  "task_settled c j \<Longrightarrow> task_settled (snd (finish_task i st c)) j"
  by (auto simp: task_settled_def finish_task_lookup split: option.splits)

lemma finish_task_dom: "dom (map_of (tasks (snd (finish_task i st c)))) = dom (map_of (tasks c))"
  by (auto simp: dom_def finish_task_lookup split: if_splits)

lemma report_one_cases:
  obtains st where "is_terminal_status st" "report_one hs c e = snd (finish_task (ah_task (hs ! fst e)) st c)"
  by (cases e; cases "snd (snd e)")
    (auto simp: report_one_def complete_task_def fail_task_def is_terminal_status_def)

lemma report_all:
  assumes "coord_ok c []"
  shows "coord_ok (foldl (report_one hs) c raw) []
    \<and> dom (map_of (tasks (foldl (report_one hs) c raw))) = dom (map_of (tasks c))
    \<and> (\<forall>i. i \<in> fst ` set raw \<longrightarrow> task_settled (foldl (report_one hs) c raw) (ah_task (hs ! i)))
    \<and> (\<forall>j. task_settled c j \<longrightarrow> task_settled (foldl (report_one hs) c raw) j)"
  using assms
proof (induction raw arbitrary: c)
  case (Cons e raw)
  obtain st where st: "is_terminal_status st" "report_one hs c e = snd (finish_task (ah_task (hs ! fst e)) st c)"
    by (rule report_one_cases)
  have "coord_ok (report_one hs c e) []"
    unfolding st(2) by (rule finish_ok [OF Cons.prems st(1)])
  note ih = Cons.IH [OF this]
  have "task_settled (report_one hs c e) (ah_task (hs ! fst e))"
    unfolding st(2) by (rule finish_task_settles(1) [OF st(1)])
  moreover have "task_settled c j \<Longrightarrow> task_settled (report_one hs c e) j" for j
    unfolding st(2) by (rule finish_task_settles(2))
  moreover have "dom (map_of (tasks (report_one hs c e))) = dom (map_of (tasks c))"
    unfolding st(2) by (rule finish_task_dom)
  ultimately show ?case using ih by auto
qed simp

lemma register_dom:
  "register_task t c = (Inr u, c') \<Longrightarrow> dom (map_of (tasks c')) = insert (task_id t) (dom (map_of (tasks c)))"
  by (auto simp: register_task_def update_conv' split: if_splits)

lemma assign_dom:
  "assign_task i a now c = (Inr u, c') \<Longrightarrow> dom (map_of (tasks c')) = dom (map_of (tasks c))"
  by (auto simp: assign_task_def update_conv' split: option.splits if_splits)

lemma assign_subtasks_ok:
  "coord_ok c [] \<Longrightarrow> assign_subtasks tid now pool k sts c = (Inr hs, c') \<Longrightarrow>
   coord_ok c' [] \<and> dom (map_of (tasks c')) = dom (map_of (tasks c)) \<union> tid ` {k..<k + length sts}"
proof (induction tid now pool k sts c arbitrary: hs c' rule: assign_subtasks.induct)
  case (2 tid now pool k st sts c)
  obtain c1 c2 hs' where reg: "register_task (task_new (tid k) (st_description st) PrioMedium) c = (Inr (), c1)"
    and asg: "assign_task (tid k) (choose_agent pool st c) now c1 = (Inr (), c2)"
    and rest: "assign_subtasks tid now pool (k + 1) sts c2 = (Inr hs', c')"
    using "2.prems"(2) by (auto simp: Let_def split: prod.splits sum.splits)
  have "coord_ok c1 []"
    using register_ok [OF "2.prems"(1), of "task_new (tid k) (st_description st) PrioMedium"] reg
    by (simp add: task_new_def)
  then have c2: "coord_ok c2 []"
    using assign_ok [of c1 "[]" "tid k" "choose_agent pool st c" now] asg by simp
  have "{k..<k + length (st # sts)} = insert k {k + 1..<k + 1 + length sts}" by auto
  then show ?case
    using "2.IH" [OF refl reg [symmetric] refl asg [symmetric] refl c2 rest]
      register_dom [OF reg] assign_dom [OF asg] by (auto simp: task_new_def)
qed simp

lemma all_settled_no_slots:
  assumes "coord_ok c []" "\<And>i. i \<in> dom (map_of (tasks c)) \<Longrightarrow> task_settled c i"
  shows "load_of c agent = 0"
proof -
  have keys: "keys_distinct (tasks c)" using assms(1) by (simp add: coord_ok_def tasks_ok_def)
  have "\<not> holds_slot agent t" if "(i, t) \<in> set (tasks c)" for i t
    using that assms(2) [of i] set_alist_iff [OF keys, of i t] by (auto simp: task_settled_def holds_slot_def)
  then have "slots_held agent c = 0" by (auto simp: slots_held_def hm_sum_def)
  then show ?thesis using assms(1) by (simp add: coord_ok_def owed_def)
qed

text \<open>
  C8. When a run that is not cut by the clock has been reported, no agent of the coordinator has a
  task left: every load is back to zero, whatever failed, was skipped or ran in a cycle.
\<close>

theorem finished_run_leaves_no_load:
  assumes "assign_subtasks tid now pool 0 sts coordinator_new = (Inr hs, c)"
  shows "load_of (snd (report_results hs (wr_raw (run_waves sts out (\<lambda>_. ClockGo))) c)) agent = 0"
proof -
  let ?raw = "wr_raw (run_waves sts out (\<lambda>_. ClockGo))"
  have n: "set (map fst ?raw) = {0..<length sts}"
    using arg_cong [OF conjunct2 [OF run_waves_settles [of sts out]], of set_mset] by simp
  have ok: "coord_ok c []" "dom (map_of (tasks c)) = tid ` {0..<length sts}"
    using assign_subtasks_ok [OF coord_new_ok assms] by (simp_all add: coordinator_new_def)
  have tids: "map ah_task hs = map tid [0..<length sts]" using assign_subtasks_handles [OF assms] by simp
  then have tid: "ah_task (hs ! i) = tid i" if "i < length sts" for i
    using that by (metis add_0 diff_zero length_map length_upt nth_map nth_upt)
  note rep = report_all [OF ok(1), of hs ?raw]
  have "load_of (foldl (report_one hs) c ?raw) agent = 0"
  proof (rule all_settled_no_slots)
    fix i
    assume "i \<in> dom (map_of (tasks (foldl (report_one hs) c ?raw)))"
    then obtain k where k: "k < length sts" "i = tid k" using rep ok(2) by auto
    then have "k \<in> fst ` set ?raw" using n by simp
    then show "task_settled (foldl (report_one hs) c ?raw) i" using rep k tid by metis
  qed (use rep in blast)
  then show ?thesis by (simp add: report_results_def)
qed

theorem finished_run_leaves_no_load_witness:
  "case assign_subtasks (\<lambda>k. show_nat k) 0 [] 0 two_coders coordinator_new of
     (Inl e, c) \<Rightarrow> False
   | (Inr hs, c) \<Rightarrow> load_of c [] = 2
       \<and> load_of (snd (report_results hs (wr_raw (run_waves two_coders (\<lambda>_. ([], Inl ''x'')) (\<lambda>_. ClockGo))) c)) [] = 0"
proof -
  let ?r = "assign_subtasks (\<lambda>k. show_nat k) 0 [] 0 two_coders coordinator_new"
  have "load_of (snd ?r) [] = 2" "isl (fst ?r) = False" by code_simp+
  then obtain hs c where r: "?r = (Inr hs, c)" "load_of c [] = 2" by (cases ?r; cases "fst ?r") auto
  show ?thesis using finished_run_leaves_no_load [OF r(1)] r by simp
qed

end
