(* ===== verification/Kod_Overnight.thy ===== *)
theory Kod_Overnight
  imports Kod_Swarm_Report
begin

text \<open>
  Overnight runs: the completion report an agent closes its answer with,
  \<open>crates/kod-swarm/src/completion_report.rs\<close>, the phases of a run and its morning report,
  \<open>crates/kod-core/src/overnight.rs\<close>, and the cards the terminal interface builds from the
  results of a swarm (\<open>crates/kod-tui/src/main_loop.rs\<close>). Instants and durations are
  milliseconds. The lemmas show that a printed report is read back, that the phases only advance
  and when the last wave starts, and that the cards are looked up under the wrong key.
\<close>

section \<open>The completion report\<close>

datatype report_status = ReportDone | ReportFailed | ReportBlocked | ReportUnknown

fun report_status_as_str :: "report_status \<Rightarrow> string" where
  "report_status_as_str ReportDone = ''done''"
| "report_status_as_str ReportFailed = ''failed''"
| "report_status_as_str ReportBlocked = ''blocked''"
| "report_status_as_str ReportUnknown = ''unknown''"

definition parse_report_status :: "string \<Rightarrow> report_status" where
  "parse_report_status s =
     (let l = map ascii_lower (trim s) in
      if l = ''done'' then ReportDone
      else if l = ''failed'' then ReportFailed
      else if l = ''blocked'' then ReportBlocked
      else ReportUnknown)"

record completion_report =
  cr_status :: report_status
  cr_summary :: string
  cr_validation :: "string option"
  cr_followups :: "string list"
  had_block :: bool

definition open_prefix :: string where
  "open_prefix = ''<completion-report''"

definition report_close_tag :: string where
  "report_close_tag = ''</completion-report>''"

definition trim_matches :: "char \<Rightarrow> string \<Rightarrow> string" where
  "trim_matches c s = rev (dropWhile ((=) c) (rev (dropWhile ((=) c) s)))"

definition strip_key :: "string \<Rightarrow> string \<Rightarrow> string option" where
  "strip_key key line = map_option trim (strip_prefix key line)"

text \<open>The first \<open>status\<close> at or after an offset that follows whitespace.\<close>

function status_attr_at :: "string \<Rightarrow> nat \<Rightarrow> nat option" where
  "status_attr_at line at =
     (case find_text ''status'' (drop at line) of
        None \<Rightarrow> None
      | Some found \<Rightarrow>
          (let chars = utf8_chars (take (at + found) line) in
           if chars = [] \<or> is_ws_char (last chars) then Some (at + found)
           else status_attr_at line (at + found + 6)))"
  by pat_completeness auto
termination
  by (relation "measure (\<lambda>(line, at). length line - at)") (auto dest: find_text_le)

declare status_attr_at.simps [simp del]

definition extract_status :: "string \<Rightarrow> report_status" where
  "extract_status line =
     (case status_attr_at line 0 of
        None \<Rightarrow> ReportUnknown
      | Some eq \<Rightarrow>
          (case strip_prefix ''='' (trim_start (drop (eq + 6) line)) of
             None \<Rightarrow> ReportUnknown
           | Some rest \<Rightarrow>
               parse_report_status (trim_matches (CHR 39) (trim_matches (CHR 34)
                 (concat (takeWhile (\<lambda>ch. \<not> is_ws_char ch \<and> ch \<noteq> ''>'') (utf8_chars (trim_start rest))))))))"

text \<open>The loop over the lines of the block: the summary, the validation, the follow-ups, and whether they are being read.\<close>

fun report_lines ::
    "string list \<Rightarrow> string \<times> string option \<times> string list \<times> bool \<Rightarrow> string \<times> string option \<times> string list \<times> bool" where
  "report_lines [] acc = acc"
| "report_lines (l # ls) (summ, vali, fups, reading) =
     (let line = trim l in
      if line = [] then report_lines ls (summ, vali, fups, reading)
      else (case strip_key ''summary:'' line of
              Some rest \<Rightarrow> report_lines ls (rest, vali, fups, False)
            | None \<Rightarrow>
                (case strip_key ''validation:'' line of
                   Some rest \<Rightarrow> report_lines ls (summ, (if rest \<noteq> [] then Some rest else vali), fups, False)
                 | None \<Rightarrow>
                     (case strip_key ''followups:'' line of
                        Some rest \<Rightarrow> report_lines ls (summ, vali, (if rest \<noteq> [] then fups @ [rest] else fups), True)
                      | None \<Rightarrow>
                          (if reading then report_lines ls (summ, vali, fups @ [line], reading)
                           else if summ = [] then report_lines ls (line, vali, fups, reading)
                           else report_lines ls (summ, vali, fups, reading))))))"

definition parse_completion :: "string \<Rightarrow> completion_report" where
  "parse_completion t =
     (case find_text open_prefix t of
        None \<Rightarrow>
          \<lparr> cr_status = ReportUnknown, cr_summary = trim t, cr_validation = None, cr_followups = [], had_block = False \<rparr>
      | Some open_at \<Rightarrow>
          (let after = drop open_at t;
               line_end = (case find_char (CHR ''>'') after of None \<Rightarrow> length after | Some i \<Rightarrow> i + 1);
               st = extract_status (take line_end after);
               rest = drop (open_at + line_end) t;
               body = trim (case find_text report_close_tag rest of None \<Rightarrow> rest | Some i \<Rightarrow> take i rest);
               preamble = trim (take open_at t);
               (summ, vali, fups, _) = report_lines (rust_lines body) ([], None, [], False)
           in \<lparr> cr_status = st,
                cr_summary = (if summ = [] then (if preamble = [] then body else preamble) else summ),
                cr_validation = vali, cr_followups = fups, had_block = True \<rparr>))"

section \<open>Phases\<close>

datatype phase = PhaseRunning | PhaseWindDown | PhaseMorningReport | PhaseDone

definition allows_new_work :: "phase \<Rightarrow> bool" where
  "allows_new_work p = (p = PhaseRunning)"

record overnight_manifest =
  mission :: string
  target_wake_at :: int
  handoff_ready_at :: int
  artifacts_dir :: string

text \<open>Division of a signed integer rounds towards zero.\<close>

definition trunc_div :: "int \<Rightarrow> int \<Rightarrow> int" where
  "trunc_div a b = (if a < 0 then - (- a div b) else a div b)"

definition for_duration :: "string \<Rightarrow> int \<Rightarrow> string \<Rightarrow> int \<Rightarrow> overnight_manifest" where
  "for_duration mis duration dir now =
     (let margin_secs = min (trunc_div (trunc_div duration 1000) 4) (30 * 60);
          target = now + duration
      in \<lparr> mission = mis, target_wake_at = target, handoff_ready_at = target - margin_secs * 1000, artifacts_dir = dir \<rparr>)"

definition starting_now :: "string \<Rightarrow> nat \<Rightarrow> string \<Rightarrow> int \<Rightarrow> overnight_manifest" where
  "starting_now mis duration dir now =
     for_duration mis (1000 * min (int (duration div 1000)) (2 ^ 63 - 1)) dir now"

definition phase_at :: "overnight_manifest \<Rightarrow> int \<Rightarrow> bool \<Rightarrow> phase" where
  "phase_at m now report_done =
     (if report_done then PhaseDone
      else if now \<ge> target_wake_at m then PhaseMorningReport
      else if now \<ge> handoff_ready_at m then PhaseWindDown
      else PhaseRunning)"

text \<open>The gate of the wave loop for a run with a manifest, whose clock reads \<open>nows guard\<close> at an iteration.\<close>

definition overnight_clock :: "overnight_manifest \<Rightarrow> (nat \<Rightarrow> int) \<Rightarrow> nat \<Rightarrow> wave_clock" where
  "overnight_clock m nows guard =
     (if allows_new_work (phase_at m (nows guard) False) then ClockGo else ClockHandoff)"

section \<open>Task cards\<close>

datatype card_status = CardDone | CardFailed

record task_card =
  card_name :: string
  card_description :: string
  card_summary :: string
  card_validation :: "string option"
  card_followups :: "string list"
  files_written :: "string list"
  max_risk :: "string option"
  card_status :: card_status

definition build_task_card :: "subtask \<Rightarrow> swarm_result \<Rightarrow> string list \<Rightarrow> string option \<Rightarrow> task_card" where
  "build_task_card st r files risk =
     (let (summ, vali, fups, stat) =
        (case sr_outcome r of
           OutcomeCompleted t \<Rightarrow>
             (let rep = parse_completion t in (cr_summary rep, cr_validation rep, cr_followups rep, CardDone))
         | OutcomeFailed e \<Rightarrow> (e, None, [], CardFailed))
      in \<lparr> card_name = st_name st, card_description = st_description st, card_summary = summ, card_validation = vali,
           card_followups = fups, files_written = files, max_risk = risk, card_status = stat \<rparr>)"

definition nl2 :: string where
  "nl2 = [CHR 0x0A, CHR 0x0A]"

definition render_card :: "task_card \<Rightarrow> string" where
  "render_card c =
     (case card_status c of CardDone \<Rightarrow> ''[x]'' | CardFailed \<Rightarrow> ''[ ]'') @ '' **'' @ card_name c @ ''**'' @ nl2
     @ trim (card_summary c) @ nl2
     @ (case card_validation c of Some v \<Rightarrow> ''*Validation:* '' @ trim v @ nl2 | None \<Rightarrow> [])
     @ (if files_written c \<noteq> [] then ''*Files:* '' @ join_with '', '' (files_written c) @ nl2 else [])
     @ (case max_risk c of
          Some r \<Rightarrow> (if r \<noteq> ''safe'' \<and> r \<noteq> ''low'' then ''*Risk:* '' @ r @ nl2 else [])
        | None \<Rightarrow> [])
     @ (if card_followups c \<noteq> []
        then ''*Open questions:*'' @ [CHR 0x0A]
          @ concat (map (\<lambda>f. ''- '' @ trim f @ [CHR 0x0A]) (card_followups c)) @ [CHR 0x0A]
        else [])"

definition render_report :: "string \<Rightarrow> task_card list \<Rightarrow> string \<Rightarrow> string" where
  "render_report mis cards merged =
     (let finished = length (filter (\<lambda>c. card_status c = CardDone) cards);
          failed = length cards - finished
      in ''# Overnight: '' @ mis @ nl2
         @ show_nat finished @ '' of '' @ show_nat (length cards) @ '' subtasks completed''
         @ (if failed > 0 then '', '' @ show_nat failed @ '' failed'' else []) @ ''.'' @ nl2
         @ (if trim merged \<noteq> [] then ''## Result'' @ nl2 @ trim merged @ nl2 else [])
         @ ''## Subtasks'' @ nl2
         @ concat (map render_card cards))"

text \<open>The cards of a swarm's answer, as the terminal interface collects them.\<close>

definition overnight_cards :: "subtask list \<Rightarrow> swarm_result list \<Rightarrow> task_card list" where
  "overnight_cards sts rs =
     List.map_filter (\<lambda>st. map_option (\<lambda>r. build_task_card st r [] None) (find (\<lambda>r. sr_subtask r = st_name st) rs)) sts"

section \<open>The phases only advance\<close>

fun phase_rank :: "phase \<Rightarrow> nat" where
  "phase_rank PhaseRunning = 0"
| "phase_rank PhaseWindDown = 1"
| "phase_rank PhaseMorningReport = 2"
| "phase_rank PhaseDone = 3"

lemma handoff_margin:
  assumes "0 \<le> d"
  shows "target_wake_at (for_duration mis d dir now) = now + d"
    "4 * (now + d - handoff_ready_at (for_duration mis d dir now)) \<le> d"
    "now + d - handoff_ready_at (for_duration mis d dir now) \<le> 30 * 60 * 1000"
    "handoff_ready_at (for_duration mis d dir now) \<le> now + d"
  using assms by (auto simp: for_duration_def trunc_div_def Let_def min_def)

text \<open>
  For a run of a nonnegative duration, time moves the phase forwards only; work starts until at
  most half an hour, and at most a quarter of the duration, is left, and never after that.
\<close>

theorem phases_advance:
  assumes "0 \<le> d" "t \<le> t'"
  shows "phase_rank (phase_at (for_duration mis d dir now) t False) \<le> phase_rank (phase_at (for_duration mis d dir now) t' False)
    \<and> (allows_new_work (phase_at (for_duration mis d dir now) t False) \<longleftrightarrow> t < handoff_ready_at (for_duration mis d dir now))
    \<and> now + d - min (30 * 60 * 1000) (d div 4) \<le> handoff_ready_at (for_duration mis d dir now)"
  using handoff_margin [OF assms(1), where mis = mis and dir = dir and now = now] assms(2)
  by (auto simp: phase_at_def allows_new_work_def)

theorem phases_advance_witness:
  "phase_at (for_duration ''m'' 28800000 ''d'' 0) 27000000 False = PhaseWindDown
   \<and> phase_at (for_duration ''m'' 28800000 ''d'' 0) 26999999 False = PhaseRunning
   \<and> 0 + 28800000 - min (30 * 60 * 1000) (28800000 div 4) \<le> handoff_ready_at (for_duration ''m'' 28800000 ''d'' 0)"
  using phases_advance [of 28800000 26999999 27000000 "''m''" "''d''" 0]
  by (simp add: phase_at_def for_duration_def trunc_div_def)

text \<open>No wave starts once the clock has passed the handoff: what is left stays unrun.\<close>

lemma no_wave_after_handoff:
  assumes "\<And>g. nows g \<ge> handoff_ready_at m"
  shows "wr_raw (run_waves sts out (overnight_clock m nows)) = []"
proof -
  have "overnight_clock m nows g = ClockHandoff" for g
    using assms [of g] by (auto simp: overnight_clock_def allows_new_work_def phase_at_def)
  then show ?thesis by (simp add: run_waves_def wave_start_def)
qed

section \<open>The morning report has no cards\<close>

text \<open>
  A result of the swarm carries the description of its subtask, and the cards are looked up by the
  name: unless a name equals a description, there is no card, and the report says that none of no
  subtasks was completed.
\<close>

lemma results_carry_descriptions:
  "set (map sr_subtask (fst (report_results hs raw c))) \<subseteq> st_description ` ah_subtask ` set hs \<or> \<not> fst ` set raw \<subseteq> {..<length hs}"
  by (fastforce simp: report_results_def)

lemma no_card_is_found:
  assumes "\<And>st r. st \<in> set sts \<Longrightarrow> r \<in> set rs \<Longrightarrow> sr_subtask r \<noteq> st_name st"
  shows "overnight_cards sts rs = []"
proof -
  have "find (\<lambda>r. sr_subtask r = st_name st) rs = None" if "st \<in> set sts" for st
    using assms that by (simp add: find_None_iff)
  then show ?thesis by (auto simp: overnight_cards_def List.map_filter_def)
qed

text \<open>A subtask whose agent reports that it failed is still marked done: the card only looks at the outcome.\<close>

lemma reported_failure_marked_done:
  "card_status (build_task_card st \<lparr>sr_name = n, sr_subtask = d, sr_outcome = OutcomeCompleted t\<rparr> fs risk) = CardDone"
  by (simp add: build_task_card_def Let_def)

section \<open>A printed report is read back\<close>

lemma find_text_skip: "c \<notin> set a \<Longrightarrow> find_text (c # p) (a @ (c # p) @ s) = Some (length a)"
  by (induction a) auto

lemma find_char_skip: "c \<notin> set a \<Longrightarrow> find_char c (a @ c # s) = Some (length a)"
  by (induction a) auto

text \<open>A line of the block: not empty, no whitespace at its ends, one line, no tag inside.\<close>

definition report_line :: "string \<Rightarrow> bool" where
  "report_line l = (l \<noteq> [] \<and> solid (hd l) \<and> solid (last l) \<and> CHR 0x0A \<notin> set l \<and> CHR ''<'' \<notin> set l)"

lemma solid_not_cr: "solid c \<Longrightarrow> c \<noteq> CHR 0x0D"
  by (auto simp: solid_def ws_seqs_def)

lemma rust_lines_join:
  assumes "ls \<noteq> []" "list_all report_line ls"
  shows "rust_lines (join_with [CHR 0x0A] ls) = ls"
proof -
  have s: "split_on (CHR 0x0A) (join_with [CHR 0x0A] ls) = ls"
    using assms by (intro split_on_join) (auto simp: list_all_iff report_line_def)
  have "strip_cr l = l" if "l \<in> set ls" for l
    using that assms(2) solid_not_cr by (auto simp: list_all_iff report_line_def strip_cr_def)
  then have "map strip_cr (butlast ls) = butlast ls"
    by (intro map_idI) (auto dest: in_set_butlastD)
  moreover have "last ls \<noteq> []" using assms by (auto simp: list_all_iff report_line_def)
  ultimately show ?thesis using assms(1) by (simp add: rust_lines_def s)
qed

lemma trim_inner: "s \<noteq> [] \<Longrightarrow> solid (hd s) \<Longrightarrow> solid (last s) \<Longrightarrow> trim (CHR 0x0A # s @ [CHR 0x0A]) = s"
  by (rule trim_between) (simp_all add: is_ws_char_def ws_seqs_def is_cont_def)

lemma rows_as_join: "ls \<noteq> [] \<Longrightarrow> concat (map (\<lambda>l. l @ [c]) ls) = join_with [c] ls @ [c]"
  by (induction "[c]" ls rule: join_with.induct) auto

lemma join_ends:
  "ls \<noteq> [] \<Longrightarrow> [] \<notin> set ls \<Longrightarrow>
     join_with sep ls \<noteq> [] \<and> hd (join_with sep ls) = hd (hd ls) \<and> last (join_with sep ls) = last (last ls)"
  by (induction sep ls rule: join_with.induct) auto

lemma trim_rows:
  assumes "ls \<noteq> []" "list_all report_line ls"
  shows "trim (CHR 0x0A # concat (map (\<lambda>l. l @ [CHR 0x0A]) ls)) = join_with [CHR 0x0A] ls"
proof -
  have "[] \<notin> set ls" "solid (hd (hd ls))" "solid (last (last ls))"
    using assms by (auto simp: list_all_iff report_line_def)
  then show ?thesis
    using join_ends [OF assms(1), of "[CHR 0x0A]"] trim_inner [of "join_with [CHR 0x0A] ls"]
    by (simp add: rows_as_join [OF assms(1)])
qed

definition key_line :: "string \<Rightarrow> bool" where
  "key_line l = (prefix ''summary:'' l \<or> prefix ''validation:'' l \<or> prefix ''followups:'' l)"

definition print_lines :: "string \<Rightarrow> string option \<Rightarrow> string list \<Rightarrow> string list" where
  "print_lines summ vali fups =
     [''summary: '' @ summ] @ (case vali of Some v \<Rightarrow> [''validation: '' @ v] | None \<Rightarrow> [])
     @ (if fups = [] then [] else ''followups:'' # fups)"

definition print_completion :: "report_status \<Rightarrow> string \<Rightarrow> string option \<Rightarrow> string list \<Rightarrow> string" where
  "print_completion st summ vali fups =
     open_prefix @ '' status='' @ report_status_as_str st @ ''>'' @ [CHR 0x0A]
     @ concat (map (\<lambda>l. l @ [CHR 0x0A]) (print_lines summ vali fups)) @ report_close_tag"

lemma report_line_trim: "report_line l \<Longrightarrow> trim l = l" "report_line l \<Longrightarrow> l \<noteq> []"
  by (simp_all add: report_line_def trim_solid)

lemma trim_space: "report_line l \<Longrightarrow> trim (CHR '' '' # l) = l"
proof -
  assume l: "report_line l"
  have ws: "is_ws_char [CHR '' '']" by (simp add: is_ws_char_def ws_seqs_def)
  obtain x xs where x: "l = x # xs" "solid x" using l by (cases l) (auto simp: report_line_def)
  then have "trim_start (CHR '' '' # l) = trim_start l"
    using ws by (simp add: trim_start_def solid_def)
  then show ?thesis using report_line_trim(1) [OF l] by (simp add: trim_def)
qed

lemma trim_nil: "trim [] = []"
  by (simp add: trim_def trim_start_def trim_end_def)

lemma report_followups:
  "list_all (\<lambda>f. report_line f \<and> \<not> key_line f) fups \<Longrightarrow>
   report_lines fups (summ, vali, acc, True) = (summ, vali, acc @ fups, True)"
  by (induction fups arbitrary: acc)
    (auto simp: report_line_trim key_line_def strip_key_def strip_prefix_def Let_def)

lemma solid_keys: "solid (CHR ''s'')" "solid (CHR ''v'')" "solid (CHR ''f'')" "solid (CHR '':'')"
  by code_simp+

lemma print_lines_ok:
  assumes "report_line summ" "case vali of Some v \<Rightarrow> report_line v | None \<Rightarrow> True"
    and "list_all (\<lambda>f. report_line f \<and> \<not> key_line f) fups"
  shows "list_all report_line (print_lines summ vali fups)"
proof -
  have "report_line (''summary: '' @ summ)" "\<And>v. report_line v \<Longrightarrow> report_line (''validation: '' @ v)"
    using assms(1) by (simp_all add: report_line_def solid_keys)
  moreover have "report_line ''followups:''" by (simp add: report_line_def solid_keys)
  ultimately show ?thesis
    using assms(2,3) by (auto simp: print_lines_def list_all_iff split: option.splits)
qed

lemma report_print_lines:
  assumes "report_line summ" "case vali of Some v \<Rightarrow> report_line v | None \<Rightarrow> True"
    and "list_all (\<lambda>f. report_line f \<and> \<not> key_line f) fups"
  shows "report_lines (print_lines summ vali fups) ([], None, [], False) = (summ, vali, fups, fups \<noteq> [])"
proof -
  have lines: "list_all report_line (print_lines summ vali fups)" by (rule print_lines_ok [OF assms])
  have s: "trim (''summary: '' @ summ) = ''summary: '' @ summ" "trim ''followups:'' = ''followups:''"
    "\<And>v. vali = Some v \<Longrightarrow> trim (''validation: '' @ v) = ''validation: '' @ v"
    using lines report_line_trim(1) [of "''summary: '' @ summ"] report_line_trim(1) [of "''validation: '' @ the vali"]
      trim_solid [of "''followups:''"] by (auto simp: print_lines_def solid_keys)
  have v: "\<And>v. vali = Some v \<Longrightarrow> trim (CHR '' '' # v) = v \<and> v \<noteq> []"
    using assms(2) trim_space report_line_trim(2) by auto
  show ?thesis
    using s v trim_space [OF assms(1)] report_followups [OF assms(3), of summ vali "[]"]
    by (cases vali; cases "fups = []") (simp_all add: print_lines_def strip_key_def strip_prefix_def Let_def trim_nil)
qed

lemma extract_printed:
  "extract_status (open_prefix @ '' status='' @ report_status_as_str st @ ''>'') = st"
  by (cases st) (simp_all, code_simp+)

text \<open>
  A report an agent prints in the format it is asked for, after any answer without a tag and
  before anything, is read back: its status, its summary, what it validated and its follow-ups.
\<close>

theorem completion_report_roundtrip:
  assumes "report_line summ" "case vali of Some v \<Rightarrow> report_line v | None \<Rightarrow> True"
    and "list_all (\<lambda>f. report_line f \<and> \<not> key_line f) fups" "CHR ''<'' \<notin> set answer"
  shows "parse_completion (answer @ print_completion st summ vali fups @ tail_text) =
    \<lparr> cr_status = st, cr_summary = summ, cr_validation = vali, cr_followups = fups, had_block = True \<rparr>"
proof -
  define ls where "ls = print_lines summ vali fups"
  define rows where "rows = CHR 0x0A # concat (map (\<lambda>l. l @ [CHR 0x0A]) ls)"
  define hd_tag where "hd_tag = open_prefix @ '' status='' @ report_status_as_str st"
  define rest where "rest = rows @ report_close_tag @ tail_text"
  define doc where "doc = answer @ hd_tag @ CHR ''>'' # rest"
  have lines: "list_all report_line ls" "ls \<noteq> []"
    using print_lines_ok [OF assms(1-3)] by (simp_all add: ls_def print_lines_def)
  have at: "find_text open_prefix doc = Some (length answer)"
    using find_text_skip [OF assms(4), of "tl open_prefix" "'' status='' @ report_status_as_str st @ CHR ''>'' # rest"]
    by (simp add: open_prefix_def doc_def hd_tag_def)
  have "CHR ''>'' \<notin> set hd_tag" by (cases st) (simp_all add: hd_tag_def open_prefix_def)
  then have gt: "find_char (CHR ''>'') (hd_tag @ CHR ''>'' # rest) = Some (length hd_tag)"
    by (rule find_char_skip)
  have "CHR ''<'' \<notin> set rows"
    using lines(1) by (auto simp: list_all_iff report_line_def rows_def)
  from find_text_skip [OF this, of "tl report_close_tag" tail_text]
  have close: "find_text report_close_tag rest = Some (length rows)"
    by (simp add: report_close_tag_def rest_def)
  have body: "trim (take (length rows) rest) = join_with [CHR 0x0A] ls"
    using trim_rows [OF lines(2,1)] by (simp add: rest_def rows_def)
  have status: "extract_status (hd_tag @ ''>'') = st"
    using extract_printed [of st] by (simp add: hd_tag_def)
  have parts: "take (length answer) doc = answer" "drop (length answer) doc = hd_tag @ CHR ''>'' # rest"
    "drop (Suc (length answer + length hd_tag)) doc = rest"
    "take (Suc (length hd_tag)) (hd_tag @ CHR ''>'' # rest) = hd_tag @ ''>''"
    by (simp_all add: doc_def)
  have "parse_completion doc =
    \<lparr> cr_status = st, cr_summary = summ, cr_validation = vali, cr_followups = fups, had_block = True \<rparr>"
    using report_print_lines [OF assms(1-3)] report_line_trim(2) [OF assms(1)]
    by (simp add: parse_completion_def Let_def at parts gt close body status rust_lines_join [OF lines(2,1)] flip: ls_def)
  moreover have "answer @ print_completion st summ vali fups @ tail_text = doc"
    by (simp add: print_completion_def doc_def hd_tag_def rest_def rows_def ls_def)
  ultimately show ?thesis by simp
qed

theorem completion_report_roundtrip_witness:
  "cr_followups (parse_completion (''Done.'' @ print_completion ReportDone ''added it'' (Some ''cargo test'') [''wire it''] @ [])) = [''wire it'']"
proof -
  have "report_line ''added it''" "report_line ''cargo test''" "report_line ''wire it''" "\<not> key_line ''wire it''"
    "CHR ''<'' \<notin> set ''Done.''"
    by code_simp+
  then show ?thesis
    using completion_report_roundtrip [of "''added it''" "Some ''cargo test''" "[''wire it'']" "''Done.''" ReportDone "[]"]
    by simp
qed

end
