(* ===== verification/Kod_Conflict.thy ===== *)
theory Kod_Conflict
  imports Kod_Fs Kod_Policy
begin

text \<open>
  Merge conflicts addressed by id: \<open>crates/kod-tools/src/conflict_handler.rs\<close>. \<open>scan\<close> finds the
  marker blocks of a text, \<open>resolve_conflict\<close> lists the blocks of a file and registers each
  under a hash of its path, offset and bytes, and \<open>write_conflict\<close> splices a resolution over a
  registered block. Which file a path string denotes is the argument \<open>loc\<close>; the text of an
  operating system error is the argument \<open>msg\<close>. The lemmas show that the blocks found are
  disjoint pieces of the text, that printed conflicts are found again, and that a write changes
  nothing but the bytes of the block that was registered.
\<close>

section \<open>Blocks and their ids\<close>

record conflict_block =
  cb_id :: string
  ours_label :: string
  theirs_label :: string
  b_start :: nat
  b_end :: nat
  ours :: string
  theirs :: string

record registered =
  reg_path :: string
  reg_block :: conflict_block
  reg_body :: string

type_synonym conflict_store = "(string, registered) hmap"

datatype protocol_error = Malformed string string | HandlerError string string

definition max_scan_bytes :: nat where
  "max_scan_bytes = 10 * 1024 * 1024"

definition conflict_register :: "string \<Rightarrow> conflict_block \<Rightarrow> string \<Rightarrow> conflict_store \<Rightarrow> conflict_store" where
  "conflict_register path b body st =
     AList.update (cb_id b) \<lparr> reg_path = path, reg_block = b, reg_body = body \<rparr> st"

definition conflict_take :: "string \<Rightarrow> conflict_store \<Rightarrow> registered option \<times> conflict_store" where
  "conflict_take i st = (map_of st i, AList.delete i st)"

definition hex8 :: "nat \<Rightarrow> string" where
  "hex8 n = map (\<lambda>i. hex_digit (n div 16 ^ i mod 16)) (rev [0..<8])"

definition stable_id :: "string \<Rightarrow> nat \<Rightarrow> string \<Rightarrow> string" where
  "stable_id path start body =
     (let h = foldl fnv1a_byte (foldl fnv1a_byte (foldl fnv1a_byte fnv_offset path) (le_bytes8 start)) body
      in hex8 (unat ((h XOR drop_bit 32 h) AND 0xFFFFFFFF)))"

section \<open>Scanning\<close>

abbreviation lf :: char where
  "lf \<equiv> CHR 0x0A"

definition line_starts :: "string \<Rightarrow> nat list" where
  "line_starts text = 0 # map Suc (filter (\<lambda>i. text ! i = lf) [0..<length text])"

definition span_end :: "string \<Rightarrow> nat \<Rightarrow> nat" where
  "span_end text start =
     (case find_char lf (drop start text) of Some n \<Rightarrow> start + n + 1 | None \<Rightarrow> length text)"

type_synonym span = "nat \<times> nat \<times> string"

definition line_span :: "string \<Rightarrow> nat \<Rightarrow> span" where
  "line_span text s = (s, span_end text s, take (span_end text s - s) (drop s text))"

definition line_is :: "string \<Rightarrow> span \<Rightarrow> bool" where
  "line_is marker sp = prefix marker (snd (snd sp))"

definition skip_base :: "span list \<Rightarrow> span list" where
  "skip_base ls = dropWhile (\<lambda>sp. \<not> line_is ''======='' sp) ls"

definition marker_label :: "char \<Rightarrow> string \<Rightarrow> string" where
  "marker_label c l = trim (dropWhile (\<lambda>x. x = c) l)"

lemma length_skip_base [termination_simp]: "length (skip_base ls) \<le> length ls"
  by (simp add: skip_base_def length_dropWhile_le)

text \<open>The inner loop from the line after the opening marker: the label, the end, the two sides and
  the lines that follow the closing marker, or nothing when the text ends first.\<close>

function block_walk ::
  "bool \<Rightarrow> string \<Rightarrow> string \<Rightarrow> span list \<Rightarrow> (string \<times> nat \<times> string \<times> string \<times> span list) option" where
  "block_walk in_theirs us them [] = None"
| "block_walk in_theirs us them (sp # ls) =
     (if line_is ''|||||||'' sp then block_walk in_theirs us them (skip_base ls)
      else if line_is ''======='' sp then block_walk True us them ls
      else if line_is ''>>>>>>>'' sp then
        Some (marker_label (CHR ''>'') (snd (snd sp)), fst (snd sp), us, them, ls)
      else if in_theirs then block_walk in_theirs us (them @ snd (snd sp)) ls
      else block_walk in_theirs (us @ snd (snd sp)) them ls)"
  by pat_completeness auto
termination
  by (relation "measure (\<lambda>(_, _, _, ls). length ls)") (auto simp: le_imp_less_Suc length_skip_base)

declare block_walk.simps(2) [simp del]

lemma block_walk_suffix: "block_walk it us them ls = Some (lb, e, u, t, rest) \<Longrightarrow> \<exists>pre s l. ls = pre @ (s, e, l) # rest"
proof (induction it us them ls rule: block_walk.induct)
  case (2 it us them sp ls)
  have skip: "\<exists>pre. ls = pre @ skip_base ls"
    unfolding skip_base_def by (metis takeWhile_dropWhile_id)
  show ?case
  proof (cases "line_is ''>>>>>>>'' sp \<and> \<not> line_is ''======='' sp \<and> \<not> line_is ''|||||||'' sp")
    case True
    then show ?thesis using "2.prems" by (cases sp) (auto simp: block_walk.simps(2))
  next
    case False
    then obtain ls' it' us' them' where w: "block_walk it' us' them' ls' = Some (lb, e, u, t, rest)"
      and ih: "\<exists>pre s l. ls' = pre @ (s, e, l) # rest" and sub: "\<exists>pre. ls = pre @ ls'"
      using 2 skip by (auto simp: block_walk.simps(2) split: if_splits)
    then show ?thesis by (metis append_Cons append_assoc)
  qed
qed simp

lemma block_walk_shorter [termination_simp]: "block_walk it us them ls = Some (lb, e, u, t, rest) \<Longrightarrow> length rest < length ls"
  using block_walk_suffix by fastforce

function scan_from :: "string \<Rightarrow> span list \<Rightarrow> conflict_block list" where
  "scan_from text [] = []"
| "scan_from text (sp # ls) =
     (if line_is ''<<<<<<<'' sp then
        (case block_walk False [] [] ls of
           Some (lb, e, us, them, rest) \<Rightarrow>
             \<lparr> cb_id = stable_id [] (fst sp) (take (e - fst sp) (drop (fst sp) text)),
               ours_label = marker_label (CHR ''<'') (snd (snd sp)), theirs_label = lb,
               b_start = fst sp, b_end = e, ours = us, theirs = them \<rparr> # scan_from text rest
         | None \<Rightarrow> scan_from text ls)
      else scan_from text ls)"
  by pat_completeness auto
termination
  by (relation "measure (\<lambda>(_, ls). length ls)") (auto dest: block_walk_shorter)

declare scan_from.simps(2) [simp del]

definition scan :: "string \<Rightarrow> conflict_block list" where
  "scan text = scan_from text (map (line_span text) (line_starts text))"

section \<open>The handler\<close>

record resolved_resource =
  res_text :: string
  res_mime :: "string option"
  res_immutable :: bool

definition plain_resource :: "string \<Rightarrow> resolved_resource" where
  "plain_resource t = \<lparr> res_text = t, res_mime = Some ''text/plain'', res_immutable = False \<rparr>"

definition nls :: string where
  "nls = [lf]"

definition conflict_text :: "registered \<Rightarrow> string" where
  "conflict_text r =
     (let b = reg_block r in
      ''conflict '' @ cb_id b @ '' in '' @ reg_path r @ nls
        @ ''<<<<<<< '' @ ours_label b @ nls @ ours b @ ''======='' @ nls @ theirs b
        @ ''>>>>>>> '' @ theirs_label b @ nls @ nls
        @ ''Resolve it with: write conflict://'' @ cb_id b
        @ '' with the final text for this block (the markers are removed for you).'')"

definition listing_entry :: "string \<Rightarrow> conflict_block \<Rightarrow> string" where
  "listing_entry i b =
     ''conflict://'' @ i @ nls
       @ ''  ours ('' @ ours_label b @ ''): '' @ show_nat (length (rust_lines (ours b))) @ '' line(s)'' @ nls
       @ ''  theirs ('' @ theirs_label b @ ''): '' @ show_nat (length (rust_lines (theirs b))) @ '' line(s)''
       @ nls @ nls"

definition block_body :: "string \<Rightarrow> conflict_block \<Rightarrow> string" where
  "block_body text b = take (b_end b - b_start b) (drop (b_start b) text)"

definition register_block :: "string \<Rightarrow> string \<Rightarrow> string \<times> conflict_store \<Rightarrow> conflict_block \<Rightarrow> string \<times> conflict_store" where
  "register_block path text acc b =
     (let i = stable_id path (b_start b) (block_body text b)
      in (fst acc @ listing_entry i b,
          conflict_register path (b\<lparr>cb_id := i\<rparr>) (block_body text b) (snd acc)))"

definition resolve_conflict ::
  "(string \<Rightarrow> path) \<Rightarrow> (string \<Rightarrow> string) \<Rightarrow> string \<Rightarrow> disk \<Rightarrow> string \<Rightarrow> conflict_store
     \<Rightarrow> (protocol_error + resolved_resource) \<times> conflict_store" where
  "resolve_conflict loc msg wd d url st =
     (case strip_prefix ''conflict://'' url of
        None \<Rightarrow> (Inl (Malformed url ''not a conflict:// url''), st)
      | Some rest \<Rightarrow>
          (case map_of st rest of
             Some r \<Rightarrow> (Inr (plain_resource (conflict_text r)), st)
           | None \<Rightarrow>
               (let p = join_path wd rest in
                case read_bytes d (loc p) of
                  None \<Rightarrow> (Inl (HandlerError url (msg p)), st)
                | Some bytes \<Rightarrow>
                    if max_scan_bytes < length bytes then
                      (Inl (HandlerError url (''file is '' @ show_nat (length bytes) @ '' bytes, over the ''
                         @ show_nat max_scan_bytes @ '' byte conflict-scan cap'')), st)
                    else (case read_to_string d (loc p) of
                        None \<Rightarrow> (Inl (HandlerError url (msg p)), st)
                      | Some text \<Rightarrow>
                          (let blocks = scan text in
                           if blocks = [] then
                             (Inr (plain_resource (''no conflict markers in '' @ p)), st)
                           else
                             (let (listing, st') = foldl (register_block p text)
                                (show_nat (length blocks) @ '' conflict(s) in '' @ p @ '':'' @ nls @ nls, st) blocks
                              in (Inr (plain_resource listing), st')))))))"

definition conflict_target :: "string \<Rightarrow> conflict_store \<Rightarrow> string option" where
  "conflict_target url st =
     (case strip_prefix ''conflict://'' url of
        None \<Rightarrow> None | Some i \<Rightarrow> map_option reg_path (map_of st i))"

definition ended_line :: "string \<Rightarrow> string" where
  "ended_line s = (if ends_with nls s then s else s @ nls)"

definition splice :: "string \<Rightarrow> nat \<Rightarrow> nat \<Rightarrow> string \<Rightarrow> string" where
  "splice text s e new = take s text @ new @ drop e text"

definition slice_get :: "string \<Rightarrow> nat \<Rightarrow> nat \<Rightarrow> string option" where
  "slice_get text s e =
     (if s \<le> e \<and> e \<le> length text \<and> is_char_boundary text s \<and> is_char_boundary text e
      then Some (take (e - s) (drop s text)) else None)"

definition write_conflict ::
  "(string \<Rightarrow> path) \<Rightarrow> (string \<Rightarrow> string) \<Rightarrow> io_env \<Rightarrow> string \<Rightarrow> string \<Rightarrow> disk \<times> conflict_store
     \<Rightarrow> (protocol_error + unit) \<times> disk \<times> conflict_store" where
  "write_conflict loc msg env url new ds =
     (case strip_prefix ''conflict://'' url of
        None \<Rightarrow> (Inl (Malformed url ''not a conflict:// url''), ds)
      | Some i \<Rightarrow>
          (case conflict_take i (snd ds) of
             (None, st) \<Rightarrow> (Inl (HandlerError url (''unknown or already-resolved conflict '' @ i)), fst ds, st)
           | (Some r, st) \<Rightarrow>
               (case read_to_string (fst ds) (loc (reg_path r)) of
                  None \<Rightarrow> (Inl (HandlerError url (msg (reg_path r))), fst ds, st)
                | Some text \<Rightarrow>
                    (let b = reg_block r in
                     if length text < b_end b \<or> b_end b < b_start b then
                       (Inl (Malformed url ''registered block no longer fits the file (it changed)''), fst ds, st)
                     else (case slice_get text (b_start b) (b_end b) of
                         None \<Rightarrow>
                           (Inl (Malformed url
                              ''registered conflict block no longer fits the file (it changed)''), fst ds, st)
                       | Some body \<Rightarrow>
                           if body \<noteq> reg_body r then
                             (Inl (Malformed url ''registered conflict block changed since the scan''), fst ds, st)
                           else
                             (let (ok, d') = atomic_write env (fst ds) (loc (reg_path r))
                                (splice text (b_start b) (b_end b) (ended_line new))
                              in (if ok then Inr () else Inl (HandlerError url (msg (reg_path r))), d', st)))))))"

section \<open>The lines of a text\<close>

fun nl_lines :: "string \<Rightarrow> string list" where
  "nl_lines [] = [[]]"
| "nl_lines (c # cs) =
     (if c = lf then [lf] # nl_lines cs
      else (case nl_lines cs of [] \<Rightarrow> [[c]] | l # ls \<Rightarrow> (c # l) # ls))"

fun place :: "nat \<Rightarrow> string list \<Rightarrow> span list" where
  "place n [] = []"
| "place n (l # ls) = (n, n + length l, l) # place (n + length l) ls"

lemma nl_lines_nonempty [simp]: "nl_lines t \<noteq> []"
  by (cases t) (auto split: list.splits)

lemma nl_lines_other: "c \<noteq> lf \<Longrightarrow> nl_lines (c # t) = (c # hd (nl_lines t)) # tl (nl_lines t)"
  by (cases "nl_lines t") auto

lemma concat_nl_lines [simp]: "concat (nl_lines t) = t"
proof (induction t)
  case (Cons c t)
  then show ?case by (cases "nl_lines t") auto
qed simp

lemma place_shift: "map (\<lambda>(s, e, l). (Suc s, Suc e, l)) (place n ls) = place (Suc n) ls"
  by (induction ls arbitrary: n) auto

lemma line_starts_Cons:
  "line_starts (c # cs) = 0 # map Suc (if c = lf then line_starts cs else tl (line_starts cs))"
  by (simp add: line_starts_def upt_conv_Cons map_Suc_upt [symmetric] filter_map comp_def del: upt_Suc)

lemma line_span_Suc: "line_span (c # cs) (Suc s) = (case line_span cs s of (s', e, l) \<Rightarrow> (Suc s', Suc e, l))"
  by (simp add: line_span_def span_end_def split: option.splits)

lemma spans_placed: "map (line_span t) (line_starts t) = place 0 (nl_lines t)"
proof (induction t)
  case Nil
  show ?case by (simp add: line_starts_def line_span_def span_end_def)
next
  case (Cons c t)
  have sh: "map (line_span (c # t)) (map Suc xs) = map (\<lambda>(s, e, l). (Suc s, Suc e, l)) (map (line_span t) xs)" for xs
    by (simp add: line_span_Suc)
  have hd: "line_span t 0 = (0, length (hd (nl_lines t)), hd (nl_lines t))"
    "map (line_span t) (tl (line_starts t)) = place (length (hd (nl_lines t))) (tl (nl_lines t))"
    using Cons by (cases "nl_lines t"; simp add: line_starts_def)+
  have l0: "c \<noteq> lf \<Longrightarrow> line_span (c # t) 0 = (case line_span t 0 of (s', e, l) \<Rightarrow> (0, Suc e, c # l))"
    by (simp add: line_span_def span_end_def split: option.splits)
  show ?case
  proof (cases "c = lf")
    case True
    have "line_span (c # t) 0 = (0, 1, [lf])" using True by (simp add: line_span_def span_end_def)
    moreover have "map (line_span (c # t)) (line_starts (c # t)) = line_span (c # t) 0 # place (Suc 0) (nl_lines t)"
      by (simp only: line_starts_Cons if_P [OF True] list.map(2) sh Cons place_shift)
    ultimately show ?thesis using True by simp
  next
    case False
    then show ?thesis
      by (simp only: line_starts_Cons if_False list.map(2) sh hd(2) place_shift l0 [OF False] hd(1) nl_lines_other [OF False]) simp
  qed
qed

text \<open>The spans from an offset on: lines laid end to end up to the end of the text, each but the
  last ended by a newline.\<close>

definition tail_lines :: "string \<Rightarrow> nat \<Rightarrow> span list \<Rightarrow> bool" where
  "tail_lines t n sps \<longleftrightarrow>
     (\<exists>ls. sps = place n ls \<and> concat ls = drop n t \<and> n \<le> length t
        \<and> list_all (\<lambda>l. l \<noteq> [] \<and> last l = lf) (butlast ls)
        \<and> (n = 0 \<or> sps = [] \<or> t ! (n - 1) = lf))"

lemma nl_lines_ended: "list_all (\<lambda>l. l \<noteq> [] \<and> last l = lf) (butlast (nl_lines t))"
proof (induction t)
  case (Cons c t)
  then show ?case by (cases "nl_lines t"; cases "tl (nl_lines t)") auto
qed simp

lemma tail_lines_start: "tail_lines t 0 (map (line_span t) (line_starts t))"
  unfolding tail_lines_def spans_placed by (intro exI [of _ "nl_lines t"]) (simp add: nl_lines_ended)

lemma tail_lines_step:
  assumes "tail_lines t n ((s, e, l) # sps)"
  shows "s = n" "e = n + length l" "e \<le> length t" "prefix l (drop n t)" "tail_lines t e sps"
    "n = 0 \<or> t ! (n - 1) = lf"
proof -
  obtain ls where pl: "(s, e, l) # sps = place n ls" and c: "concat ls = drop n t" and n: "n \<le> length t"
    and q: "list_all (\<lambda>l. l \<noteq> [] \<and> last l = lf) (butlast ls)" and z: "n = 0 \<or> t ! (n - 1) = lf"
    using assms by (auto simp: tail_lines_def)
  obtain ls' where ls: "ls = l # ls'" and e: "s = n" "e = n + length l" "sps = place e ls'"
    using pl by (cases ls) auto
  have len: "length l + length (concat ls') = length t - n"
    using arg_cong [OF c, of length] ls by simp
  show "s = n" "e = n + length l" "n = 0 \<or> t ! (n - 1) = lf" by fact+
  show le: "e \<le> length t" using len e n by simp
  show "prefix l (drop n t)" using c ls by (metis concat.simps(2) prefixI)
  have d: "concat ls' = drop e t"
    using c ls e by (metis append_eq_conv_conj concat.simps(2) drop_drop add.commute)
  have "e = 0 \<or> ls' = [] \<or> t ! (e - 1) = lf"
  proof (cases "ls' = []")
    case False
    then have l: "l \<noteq> []" "last l = lf" using q ls by auto
    then have b: "l = butlast l @ [lf]" by (metis append_butlast_last_id)
    have "t = take n t @ butlast l @ lf # concat ls'"
      using c ls b by (metis append_take_drop_id append_Cons append_Nil append_assoc concat.simps(2))
    then have "t ! (n + length (butlast l)) = lf"
      using n nth_append_length [of "take n t @ butlast l" lf "concat ls'"] by simp
    moreover have "e - 1 = n + length (butlast l)" using e l by (cases l) auto
    ultimately show ?thesis by simp
  qed simp
  moreover have "list_all (\<lambda>l. l \<noteq> [] \<and> last l = lf) (butlast ls')"
    using q ls by (cases ls') auto
  ultimately show "tail_lines t e sps"
    unfolding tail_lines_def using d e le by (intro exI [of _ ls']) (cases ls'; auto)
qed

lemma tail_lines_skip:
  "tail_lines t n (pre @ (s, e, l) # rest) \<Longrightarrow> tail_lines t e rest \<and> n \<le> s \<and> s \<le> e \<and> e \<le> length t
     \<and> prefix l (drop s t) \<and> s + length l = e"
proof (induction pre arbitrary: n)
  case Nil
  then show ?case using tail_lines_step [of t n s e l rest] by auto
next
  case (Cons sp pre)
  obtain s1 e1 l1 where sp: "sp = (s1, e1, l1)" by (cases sp)
  show ?case using tail_lines_step [OF Cons.prems [unfolded sp append_Cons]] Cons.IH [of e1] by auto
qed

lemma line_isD: "tail_lines t n ((s, e, l) # sps) \<Longrightarrow> line_is m (s, e, l) \<Longrightarrow> prefix m (drop s t) \<and> s + length m \<le> e"
  using tail_lines_step [of t n s e l sps] by (auto simp: line_is_def dest: prefix_length_le prefix_order.trans)

definition starts_line :: "string \<Rightarrow> nat \<Rightarrow> bool" where
  "starts_line t n = (n = 0 \<or> t ! (n - 1) = lf)"

lemma prefix_take: "prefix p x \<Longrightarrow> length p \<le> n \<Longrightarrow> prefix p (take n x)"
  by (auto simp: prefix_def)

text \<open>A piece of the text from an opening marker in the first column to the end of a line.\<close>

definition block_in :: "string \<Rightarrow> conflict_block \<Rightarrow> bool" where
  "block_in t b =
     (b_start b < b_end b \<and> b_end b \<le> length t \<and> starts_line t (b_start b)
      \<and> prefix ''<<<<<<<'' (block_body t b) \<and> (b_end b = length t \<or> starts_line t (b_end b)))"

lemma tail_lines_end: "tail_lines t e sps \<Longrightarrow> e = length t \<or> starts_line t e"
proof (cases sps)
  case Nil
  assume "tail_lines t e sps"
  then obtain ls where "[] = place e ls" "concat ls = drop e t" "e \<le> length t"
    using Nil unfolding tail_lines_def by metis
  then show ?thesis by (cases ls) auto
next
  case (Cons sp rest)
  assume "tail_lines t e sps"
  then show ?thesis using Cons by (auto simp: tail_lines_def starts_line_def)
qed

lemma scan_from_blocks:
  "tail_lines t n sps \<Longrightarrow>
     list_all (\<lambda>b. n \<le> b_start b \<and> block_in t b \<and> cb_id b = stable_id [] (b_start b) (block_body t b)) (scan_from t sps)
     \<and> sorted_wrt (\<lambda>a b. b_end a \<le> b_start b) (scan_from t sps)"
proof (induction t sps arbitrary: n rule: scan_from.induct)
  case (2 t sp ls)
  obtain s e l where sp: "sp = (s, e, l)" by (cases sp)
  note st = tail_lines_step [OF "2.prems" [unfolded sp]]
  show ?case
  proof (cases "line_is ''<<<<<<<'' sp")
    case False
    then show ?thesis using "2.IH"(3) [OF False st(5)] st(1,2) by (auto simp: scan_from.simps(2) list_all_iff)
  next
    case opened: True
    show ?thesis
    proof (cases "block_walk False [] [] ls")
      case None
      then show ?thesis using "2.IH"(1) [OF opened None st(5)] st(1,2) opened by (auto simp: scan_from.simps(2) list_all_iff)
    next
      case (Some w)
      obtain lb e' us them rest where w: "w = (lb, e', us, them, rest)" by (cases w)
      obtain pre s' l' where ls: "ls = pre @ (s', e', l') # rest"
        using block_walk_suffix Some w by blast
      have rest: "tail_lines t e' rest" "e \<le> s'" "s' \<le> e'" "e' \<le> length t"
        using tail_lines_skip [of t e pre s' e' l' rest] st(5) ls by auto
      have m: "prefix ''<<<<<<<'' (drop s t)" "s + 7 \<le> e"
        using line_isD [OF "2.prems" [unfolded sp] opened [unfolded sp]] by auto
      let ?b = "\<lparr> cb_id = stable_id [] s (take (e' - s) (drop s t)), ours_label = marker_label (CHR ''<'') l,
        theirs_label = lb, b_start = s, b_end = e', ours = us, theirs = them \<rparr>"
      have sc: "scan_from t (sp # ls) = ?b # scan_from t rest"
        using opened by (simp add: scan_from.simps(2) Some w sp)
      have body: "prefix ''<<<<<<<'' (block_body t ?b)"
        using m rest by (simp add: block_body_def prefix_take)
      have "block_in t ?b"
        using body tail_lines_end [OF rest(1)] m rest st(6)
        by (auto simp: block_in_def starts_line_def st(1))
      moreover have "list_all (\<lambda>b. e' \<le> b_start b \<and> block_in t b \<and> cb_id b = stable_id [] (b_start b) (block_body t b)) (scan_from t rest)
        \<and> sorted_wrt (\<lambda>a b. b_end a \<le> b_start b) (scan_from t rest)"
        by (rule "2.IH"(2) [OF opened Some [unfolded w] refl refl refl refl rest(1)])
      ultimately show ?thesis
        using rest st(1,2) by (auto simp: sc list_all_iff block_body_def)
    qed
  qed
qed simp

text \<open>
  The blocks found in any text are in order and disjoint, each from an opening marker in the
  first column to the end of a line, and an id depends on nothing but the offset and the bytes of
  its block.
\<close>

theorem scanned_blocks_are_disjoint:
  "list_all (\<lambda>b. block_in t b \<and> cb_id b = stable_id [] (b_start b) (block_body t b)) (scan t)
     \<and> sorted_wrt (\<lambda>a b. b_end a \<le> b_start b) (scan t)"
  using scan_from_blocks [OF tail_lines_start, of t] by (auto simp: scan_def list_all_iff)

section \<open>Printed conflicts are found again\<close>

record printed_conflict =
  pc_ours_label :: string
  pc_theirs_label :: string
  pc_ours :: "string list"
  pc_base :: "string list option"
  pc_theirs :: "string list"

datatype merge_part = PlainLine string | ConflictPart printed_conflict

definition full_line :: "string \<Rightarrow> bool" where
  "full_line l = (l \<noteq> [] \<and> last l = lf \<and> lf \<notin> set (butlast l))"

definition marker_free :: "string \<Rightarrow> bool" where
  "marker_free l =
     (full_line l \<and> \<not> prefix ''|||||||'' l \<and> \<not> prefix ''======='' l \<and> \<not> prefix ''>>>>>>>'' l)"

definition label_ok :: "string \<Rightarrow> bool" where
  "label_ok s = (lf \<notin> set s \<and> (s = [] \<or> solid (hd s) \<and> solid (last s)))"

fun part_lines :: "merge_part \<Rightarrow> string list" where
  "part_lines (PlainLine l) = [l]"
| "part_lines (ConflictPart c) =
     [''<<<<<<< '' @ pc_ours_label c @ nls] @ pc_ours c
     @ (case pc_base c of None \<Rightarrow> [] | Some ls \<Rightarrow> (''||||||| base'' @ nls) # ls)
     @ [''======='' @ nls] @ pc_theirs c @ [''>>>>>>> '' @ pc_theirs_label c @ nls]"

fun part_ok :: "merge_part \<Rightarrow> bool" where
  "part_ok (PlainLine l) = (full_line l \<and> \<not> prefix ''<<<<<<<'' l)"
| "part_ok (ConflictPart c) =
     (label_ok (pc_ours_label c) \<and> label_ok (pc_theirs_label c)
      \<and> list_all marker_free (pc_ours c) \<and> list_all marker_free (pc_theirs c)
      \<and> (case pc_base c of None \<Rightarrow> True
          | Some ls \<Rightarrow> list_all (\<lambda>l. full_line l \<and> \<not> prefix ''======='' l) ls))"

fun part_conflict :: "merge_part \<Rightarrow> (string \<times> string \<times> string \<times> string \<times> string) list" where
  "part_conflict (PlainLine l) = []"
| "part_conflict (ConflictPart c) =
     [(pc_ours_label c, concat (pc_ours c), pc_theirs_label c, concat (pc_theirs c),
       concat (part_lines (ConflictPart c)))]"

definition found_conflict :: "string \<Rightarrow> conflict_block \<Rightarrow> string \<times> string \<times> string \<times> string \<times> string" where
  "found_conflict t b = (ours_label b, ours b, theirs_label b, theirs b, block_body t b)"

lemma nl_lines_step: "lf \<notin> set a \<Longrightarrow> nl_lines (a @ lf # t) = (a @ [lf]) # nl_lines t"
  by (induction a) auto

lemma nl_lines_full: "list_all full_line ls \<Longrightarrow> nl_lines (concat ls) = ls @ [[]]"
proof (induction ls)
  case (Cons l ls)
  then have "l = butlast l @ [lf]" "lf \<notin> set (butlast l)"
    by (auto simp: full_line_def) (metis append_butlast_last_id)
  then have "nl_lines (l @ concat ls) = l # nl_lines (concat ls)"
    by (metis nl_lines_step append_Cons append_Nil append_assoc)
  then show ?case using Cons by simp
qed simp

lemma full_line_nls: "lf \<notin> set a \<Longrightarrow> full_line (a @ nls)"
  by (simp add: full_line_def nls_def butlast_append)

lemma marker_free_full: "list_all marker_free ls \<Longrightarrow> list_all full_line ls"
  by (auto simp: list_all_iff marker_free_def)

lemma markers_full:
  "label_ok s \<Longrightarrow> full_line (''<<<<<<< '' @ s @ nls)" "label_ok s \<Longrightarrow> full_line (''>>>>>>> '' @ s @ nls)"
  "full_line (''||||||| base'' @ nls)" "full_line (''======='' @ nls)"
  unfolding append_assoc [symmetric] by (rule full_line_nls, simp add: label_ok_def)+

lemma part_lines_full: "part_ok p \<Longrightarrow> list_all full_line (part_lines p)"
proof (cases p)
  case (ConflictPart c)
  assume "part_ok p"
  moreover have "list_all full_line ls" if "list_all (\<lambda>l. full_line l \<and> \<not> prefix ''======='' l) ls" for ls
    using that by (auto simp: list_all_iff)
  ultimately show ?thesis
    using ConflictPart markers_full
    by (simp add: marker_free_full list_all_append del: append_Cons split: option.splits)
qed simp

lemma place_append: "place n (ls @ ls') = place n ls @ place (n + length (concat ls)) ls'"
  by (induction ls arbitrary: n) (auto simp: add.assoc)

lemma marker_label_printed:
  "label_ok s \<Longrightarrow> c \<noteq> CHR '' '' \<Longrightarrow> marker_label c ([c, c, c, c, c, c, c, CHR '' ''] @ s @ nls) = s"
  unfolding marker_label_def nls_def
  by (simp, rule trim_between) (auto simp: label_ok_def is_ws_char_def ws_seqs_def is_cont_def)

lemma block_walk_sides:
  "list_all marker_free ls \<Longrightarrow>
   block_walk False us them (place n ls @ sps) = block_walk False (us @ concat ls) them sps"
  "list_all marker_free ls \<Longrightarrow>
   block_walk True us them (place n ls @ sps) = block_walk True us (them @ concat ls) sps"
  by (induction ls arbitrary: n us them)
    (simp_all add: block_walk.simps(2) line_is_def marker_free_def del: prefix_code)

lemma skip_base_lines:
  "list_all (\<lambda>l. full_line l \<and> \<not> prefix ''======='' l) ls \<Longrightarrow> skip_base (place n ls @ sps) = skip_base sps"
  by (induction ls arbitrary: n) (auto simp: skip_base_def line_is_def)

text \<open>The inner loop over the lines of a printed conflict, whatever the marker lines carry.\<close>

lemma block_walk_pieces:
  assumes "prefix ''======='' sep" "\<not> prefix ''|||||||'' sep"
    and cl: "prefix ''>>>>>>>'' cl" "\<not> prefix ''|||||||'' cl" "\<not> prefix ''======='' cl"
    and sides: "list_all marker_free us" "list_all marker_free ths"
    and mid: "mid = [] \<or> (\<exists>base bs. mid = base # bs \<and> prefix ''|||||||'' base
      \<and> list_all (\<lambda>l. full_line l \<and> \<not> prefix ''======='' l) bs)"
    and k: "k = n + length (concat (us @ mid @ [sep] @ ths @ [cl]))"
  shows "block_walk False [] [] (place n (us @ mid @ [sep] @ ths @ [cl] @ rest)) =
     Some (marker_label (CHR ''>'') cl, k, concat us, concat ths, place k rest)"
proof -
  have from_sep: "block_walk False (concat us) [] (place m ([sep] @ ths @ [cl] @ rest)) =
      Some (marker_label (CHR ''>'') cl, k, concat us, concat ths, place k rest)"
    if "k = m + length (concat ([sep] @ ths @ [cl]))" for m
    using assms(1,2) cl sides that
    by (simp add: block_walk.simps(2) line_is_def place_append block_walk_sides add.assoc del: prefix_code)
  have "skip_base (place m (bs @ [sep] @ ths @ [cl] @ rest)) =
      place (m + length (concat bs)) ([sep] @ ths @ [cl] @ rest)"
    if "list_all (\<lambda>l. full_line l \<and> \<not> prefix ''======='' l) bs" for m bs
    using that assms(1) by (simp add: place_append skip_base_lines del: prefix_code)
      (simp add: skip_base_def line_is_def del: prefix_code)
  note skip = this
  have from_mid: "block_walk False (concat us) [] (place m (mid @ [sep] @ ths @ [cl] @ rest)) =
      Some (marker_label (CHR ''>'') cl, k, concat us, concat ths, place k rest)"
    if m: "k = m + length (concat (mid @ [sep] @ ths @ [cl]))" for m
  proof (cases "mid = []")
    case True
    then show ?thesis using from_sep [of m] m by simp
  next
    case False
    then obtain base bs where mid: "mid = base # bs" "prefix ''|||||||'' base"
      "list_all (\<lambda>l. full_line l \<and> \<not> prefix ''======='' l) bs" using mid by blast
    then have "block_walk False (concat us) [] (place m (mid @ [sep] @ ths @ [cl] @ rest)) =
        block_walk False (concat us) [] (skip_base (place (m + length base) (bs @ [sep] @ ths @ [cl] @ rest)))"
      by (simp add: block_walk.simps(2) line_is_def del: prefix_code)
    then show ?thesis
      using from_sep [of "m + length base + length (concat bs)"] m by (simp only: skip [OF mid(3)]) (simp add: mid add.assoc)
  qed
  show ?thesis
    using from_mid [of "n + length (concat us)"] k sides
    by (simp only: place_append [of n us] block_walk_sides append_Nil) (simp add: add.assoc)
qed

lemma block_walk_printed:
  assumes "part_ok (ConflictPart c)"
    and k: "k = n + length (concat (tl (part_lines (ConflictPart c))))"
  shows "block_walk False [] [] (place n (tl (part_lines (ConflictPart c)) @ rest)) =
     Some (pc_theirs_label c, k, concat (pc_ours c), concat (pc_theirs c), place k rest)"
proof -
  let ?close = "''>>>>>>> '' @ pc_theirs_label c @ nls"
  let ?mid = "case pc_base c of None \<Rightarrow> [] | Some ls \<Rightarrow> (''||||||| base'' @ nls) # ls"
  have lab: "marker_label (CHR ''>'') ?close = pc_theirs_label c"
    using marker_label_printed [of "pc_theirs_label c" "CHR ''>''"] assms by simp
  have tl: "tl (part_lines (ConflictPart c)) = pc_ours c @ ?mid @ [''======='' @ nls] @ pc_theirs c @ [?close]"
    by simp
  have "?mid = [] \<or> (\<exists>base bs. ?mid = base # bs \<and> prefix ''|||||||'' base
      \<and> list_all (\<lambda>l. full_line l \<and> \<not> prefix ''======='' l) bs)"
    using assms(1) by (cases "pc_base c") simp_all
  note w = block_walk_pieces [where sep = "''======='' @ nls" and cl = ?close and us = "pc_ours c"
      and ths = "pc_theirs c" and mid = ?mid, OF _ _ _ _ _ _ _ this, of k n rest]
  show ?thesis
    unfolding tl append_assoc using w assms(1) k unfolding tl lab by simp
qed

lemma drop_prefix_take: "prefix a (drop n t) \<Longrightarrow> take (length a) (drop n t) = a"
  by (auto simp: prefix_def)

lemma scan_from_open:
  assumes "prefix ''<<<<<<<'' op" "k = n + length (op @ concat tls)"
    and "block_walk False [] [] (place (n + length op) (tls @ rest)) = Some (lb, k, us, th, place k rest)"
    and "prefix (op @ concat tls) (drop n t)"
  shows "map (found_conflict t) (scan_from t (place n (op # tls @ rest))) =
     (marker_label (CHR ''<'') op, us, lb, th, op @ concat tls) # map (found_conflict t) (scan_from t (place k rest))"
  using assms drop_prefix_take [OF assms(4)]
  by (simp add: scan_from.simps(2) line_is_def found_conflict_def block_body_def del: prefix_code)

lemma scan_from_part:
  assumes "part_ok p" and "prefix (concat (part_lines p)) (drop n t)"
  shows "map (found_conflict t) (scan_from t (place n (part_lines p @ rest))) =
     part_conflict p @ map (found_conflict t) (scan_from t (place (n + length (concat (part_lines p))) rest))"
proof (cases p)
  case (PlainLine l)
  then show ?thesis using assms(1) by (simp add: scan_from.simps(2) line_is_def del: prefix_code)
next
  case (ConflictPart c)
  let ?open = "''<<<<<<< '' @ pc_ours_label c @ nls"
  let ?tl = "tl (part_lines p)"
  have ls: "part_lines p = ?open # ?tl" using ConflictPart by simp
  then have cat: "concat (part_lines p) = ?open @ concat ?tl" by (metis concat.simps(2))
  have lab: "marker_label (CHR ''<'') ?open = pc_ours_label c"
    using marker_label_printed [of "pc_ours_label c" "CHR ''<''"] assms(1) ConflictPart by simp
  show ?thesis
    using scan_from_open [of ?open "n + length (concat (part_lines p))" n ?tl rest "pc_theirs_label c"
        "concat (pc_ours c)" "concat (pc_theirs c)" t]
      block_walk_printed [OF assms(1) [unfolded ConflictPart], of "n + length (concat (part_lines p))" "n + length ?open" rest]
      assms(2) lab ls cat ConflictPart
    by simp
qed

lemma scan_from_parts:
  "list_all part_ok ps \<Longrightarrow> drop n t = concat (concat (map part_lines ps)) \<Longrightarrow>
   map (found_conflict t) (scan_from t (place n (concat (map part_lines ps) @ [[]]))) = concat (map part_conflict ps)"
proof (induction ps arbitrary: n)
  case Nil
  then show ?case by (simp add: scan_from.simps(2) line_is_def)
next
  case (Cons p ps)
  then have d: "drop n t = concat (part_lines p) @ concat (concat (map part_lines ps))" by simp
  then have "drop (n + length (concat (part_lines p))) t = concat (concat (map part_lines ps))"
    by (metis add.commute append_eq_conv_conj drop_drop)
  then have "map (found_conflict t) (scan_from t (place (n + length (concat (part_lines p)))
      (concat (map part_lines ps) @ [[]]))) = concat (map part_conflict ps)"
    using Cons by simp
  moreover have "part_ok p" "prefix (concat (part_lines p)) (drop n t)" using Cons.prems d by auto
  ultimately show ?case using scan_from_part [of p n t "concat (map part_lines ps) @ [[]]"] by simp
qed

text \<open>
  C13. A text made of plain lines and of conflicts printed the way a merge prints them, with or
  without a diff3 base, is scanned back into exactly its conflicts: their labels, both sides, and
  the bytes of each block.
\<close>

theorem printed_conflicts_scanned:
  assumes "list_all part_ok ps"
  defines "t \<equiv> concat (concat (map part_lines ps))"
  shows "map (found_conflict t) (scan t) = concat (map part_conflict ps)"
proof -
  have "list_all full_line (concat (map part_lines ps))"
    using assms(1) part_lines_full by (fastforce simp: list_all_iff)
  then show ?thesis
    using scan_from_parts [OF assms(1), of 0 t] by (simp add: scan_def spans_placed nl_lines_full t_def)
qed

definition sample_conflict :: "merge_part list" where
  "sample_conflict =
     [PlainLine (''before'' @ nls),
      ConflictPart \<lparr> pc_ours_label = ''HEAD'', pc_theirs_label = ''other'', pc_ours = [''a'' @ nls],
        pc_base = Some [''b'' @ nls], pc_theirs = [''c'' @ nls] \<rparr>,
      PlainLine (''after'' @ nls)]"

theorem printed_conflicts_scanned_witness:
  "map (\<lambda>b. (ours b, theirs b)) (scan (concat (concat (map part_lines sample_conflict)))) = [(''a'' @ nls, ''c'' @ nls)]"
proof -
  have "list_all part_ok sample_conflict" by code_simp
  from arg_cong [OF printed_conflicts_scanned [OF this], of "map (\<lambda>(_, u, _, v, _). (u, v))"]
  show ?thesis by (simp add: found_conflict_def comp_def) (simp add: sample_conflict_def)
qed

section \<open>Resolutions\<close>

definition two_blocks :: string where
  "two_blocks = ''<<<<<<< a'' @ nls @ ''======='' @ nls @ ''>>>>>>> b'' @ nls @ ''<<<<<<< c'' @ nls @ ''======='' @ nls @ ''>>>>>>> d'' @ nls"

definition bare_block :: "nat \<Rightarrow> nat \<Rightarrow> conflict_block" where
  "bare_block s e = \<lparr> cb_id = [], ours_label = [], theirs_label = [], b_start = s, b_end = e, ours = [], theirs = [] \<rparr>"

definition two_entries :: conflict_store where
  "two_entries = map (\<lambda>(i, b). (i, \<lparr> reg_path = ''f'', reg_block = b, reg_body = block_body two_blocks b \<rparr>))
     [(''a'', bare_block 0 28), (''b'', bare_block 28 56)]"

definition one_block :: string where
  "one_block = ''<<<<<<< a'' @ nls @ ''======='' @ nls @ ''>>>>>>> b'' @ nls @ ''end''"

lemma utf8_head: "utf8_vals (x # xs) \<Longrightarrow> \<not> cont_val x"
  by (cases "x # xs" rule: utf8_vals.cases) (auto simp: cont_val_def split: if_splits)

lemma utf8_ascii_step: "utf8_vals (a # xs) \<Longrightarrow> a < 128 \<Longrightarrow> utf8_vals xs"
  by (cases "a # xs" rule: utf8_vals.cases) auto

lemma utf8_wide_step:
  assumes u: "utf8_vals (a # xs)" and wide: "\<not> a < 128"
  shows "\<exists>ys zs. xs = ys @ zs \<and> list_all cont_val ys \<and> utf8_vals zs"
proof -
  have split: "\<exists>k. k \<le> length xs \<and> list_all cont_val (take k xs) \<and> utf8_vals (drop k xs)"
  proof (cases xs)
    case Nil
    then show ?thesis by simp
  next
    case b: (Cons b bs)
    show ?thesis
    proof (cases bs)
      case Nil
      then show ?thesis using u wide b by (intro exI [of _ 1]) simp
    next
      case c: (Cons c cs)
      show ?thesis
      proof (cases cs)
        case Nil
        then show ?thesis using u wide b c
          by (intro exI [of _ "if a < 224 then 1 else 2"]) (simp split: if_splits)
      next
        case (Cons e es)
        then show ?thesis using u wide b c
          by (intro exI [of _ "if a < 224 then 1 else if a < 240 then 2 else 3"])
            (simp only: utf8_vals.simps(5) if_False split: if_splits, simp_all)
      qed
    qed
  qed
  then show ?thesis by (metis append_take_drop_id)
qed

lemma utf8_after_ascii:
  "utf8_vals xs \<Longrightarrow> xs ! i < 128 \<Longrightarrow> Suc i < length xs \<Longrightarrow> \<not> cont_val (xs ! Suc i)"
proof (induction "length xs" arbitrary: xs i rule: less_induct)
  case less
  then obtain a ys where xs: "xs = a # ys" by (cases xs) simp_all
  show ?case
  proof (cases "a < 128")
    case True
    then have u: "utf8_vals ys" using less.prems xs utf8_ascii_step by blast
    show ?thesis
    proof (cases i)
      case 0
      then show ?thesis using u utf8_head xs less.prems(3) by (cases ys) auto
    next
      case (Suc j)
      then show ?thesis using less.hyps [of ys j] less.prems u xs by simp
    qed
  next
    case False
    then obtain us zs where ys: "ys = us @ zs" "list_all cont_val us" "utf8_vals zs"
      using utf8_wide_step less.prems xs by blast
    obtain j where j: "i = Suc j" using False less.prems xs by (cases i) auto
    have "\<not> j < length us"
      using ys j less.prems xs by (auto simp: list_all_length nth_append cont_val_def)
    then show ?thesis
      using less.hyps [of zs "j - length us"] less.prems ys j xs by (simp add: nth_append Suc_diff_le)
  qed
qed

lemma is_cont_val: "is_cont c = cont_val (of_char c)"
  by (simp add: is_cont_def cont_val_def Let_def)

lemma starts_line_boundary:
  assumes "valid_utf8 t" "starts_line t n" "n \<le> length t"
  shows "is_char_boundary t n"
proof (cases "n = 0 \<or> n = length t")
  case False
  then obtain m where n: "n = Suc m" "m < length t" "t ! m = lf" "Suc m < length t"
    using assms by (cases n) (auto simp: starts_line_def)
  have "\<not> cont_val (map of_char t ! Suc m)"
    by (rule utf8_after_ascii) (use assms n in \<open>simp_all add: valid_utf8_def\<close>)
  then show ?thesis using n by (simp add: is_char_boundary_def is_cont_val)
qed (auto simp: is_char_boundary_def)

lemma block_slice:
  assumes "valid_utf8 t" "block_in t b"
  shows "slice_get t (b_start b) (b_end b) = Some (block_body t b)"
  using assms starts_line_boundary [of t "b_start b"] starts_line_boundary [of t "b_end b"]
  by (auto simp: block_in_def slice_get_def block_body_def is_char_boundary_def)

lemma slice_body: "slice_get t (b_start b) (b_end b) = Some s \<Longrightarrow> s = block_body t b \<and> b_start b \<le> b_end b \<and> b_end b \<le> length t"
  by (auto simp: slice_get_def block_body_def split: if_splits)

lemma atomic_write_pair:
  "atomic_write env d p s = (ok, d') \<longleftrightarrow> ok = (io_outcome env = AllOk) \<and> d' = snd (atomic_write env d p s)"
  by (cases "atomic_write env d p s") (use atomic_write_ok [of env d p s] in auto)

lemma write_conflict_outcome:
  assumes "write_conflict loc msg env url new (d, st) = (res, d', st')"
  shows "(d' = d \<and> (\<exists>e. res = Inl e)) \<or>
     (\<exists>i r t. url = ''conflict://'' @ i \<and> map_of st i = Some r \<and> st' = AList.delete i st
        \<and> read_to_string d (loc (reg_path r)) = Some t
        \<and> slice_get t (b_start (reg_block r)) (b_end (reg_block r)) = Some (reg_body r)
        \<and> (res = Inr ()) = (io_outcome env = AllOk)
        \<and> d' = snd (atomic_write env d (loc (reg_path r))
             (splice t (b_start (reg_block r)) (b_end (reg_block r)) (ended_line new))))"
  using assms
  by (auto simp: write_conflict_def conflict_take_def Let_def strip_prefix_def prefix_def atomic_write_pair
      split: option.splits if_splits prod.splits)

lemma write_conflict_confined:
  assumes "write_conflict loc msg env url new (d, st) = (res, d', st')" and "user_path q"
  shows "files d' q = files d q
    \<or> (res = Inr () \<and> (\<exists>i r t. url = ''conflict://'' @ i \<and> map_of st i = Some r \<and> q = loc (reg_path r)
        \<and> read_to_string d q = Some t \<and> block_body t (reg_block r) = reg_body r
        \<and> b_start (reg_block r) \<le> b_end (reg_block r) \<and> b_end (reg_block r) \<le> length t
        \<and> map_option content (files d' q) =
            Some (take (b_start (reg_block r)) t @ ended_line new @ drop (b_end (reg_block r)) t)))"
proof (cases "d' = d")
  case False
  then obtain i r t where w: "url = ''conflict://'' @ i" "map_of st i = Some r"
    "read_to_string d (loc (reg_path r)) = Some t"
    "slice_get t (b_start (reg_block r)) (b_end (reg_block r)) = Some (reg_body r)"
    "(res = Inr ()) = (io_outcome env = AllOk)"
    "d' = snd (atomic_write env d (loc (reg_path r))
       (splice t (b_start (reg_block r)) (b_end (reg_block r)) (ended_line new)))"
    using write_conflict_outcome [OF assms(1)] by blast
  note nt = user_path_not_temp [OF assms(2)]
  show ?thesis
  proof (cases "q = loc (reg_path r) \<and> io_outcome env = AllOk")
    case True
    then show ?thesis
      using w nt slice_body [OF w(4)] atomic_write_success [of env q d] by (auto simp: replaced_file_def splice_def)
  next
    case False
    then show ?thesis using w(6) atomic_write_failure atomic_write_frame nt by metis
  qed
qed simp

text \<open>
  C35. A resolution, whatever its outcome, changes no file but the one its id was registered for,
  and that one only when the call succeeds: the bytes recorded at the scan are still at their
  place, the new text, ended by a newline, stands there afterwards, and everything before and
  after the block is as it was.
\<close>

theorem resolution_stays_in_its_block:
  assumes "write_conflict loc msg env url new (d, st) = (res, d', st')" and "user_path q"
  shows "files d' q = files d q
    \<or> (res = Inr () \<and> (\<exists>i r t. url = ''conflict://'' @ i \<and> map_of st i = Some r \<and> q = loc (reg_path r)
        \<and> read_to_string d q = Some t \<and> block_body t (reg_block r) = reg_body r
        \<and> b_start (reg_block r) \<le> b_end (reg_block r) \<and> b_end (reg_block r) \<le> length t
        \<and> map_option content (files d' q) =
            Some (take (b_start (reg_block r)) t @ ended_line new @ drop (b_end (reg_block r)) t)))"
  by (rule write_conflict_confined [OF assms])

text \<open>
  C36. A refused resolution costs its registration and nothing else: no file of the user changes,
  the id is known no more, and the reason is one of four: the id was unknown, the file could not
  be read, the bytes recorded at the scan are no longer a slice at their place, or the operating
  system refused the replacement.
\<close>

theorem refused_resolution_changes_nothing:
  assumes "write_conflict loc msg env (''conflict://'' @ i) new (d, st) = (Inl e, d', st')"
  shows "st' = AList.delete i st \<and> (user_path q \<longrightarrow> files d' q = files d q)
    \<and> (case map_of st i of
         None \<Rightarrow> e = HandlerError (''conflict://'' @ i) (''unknown or already-resolved conflict '' @ i)
       | Some r \<Rightarrow>
           (case read_to_string d (loc (reg_path r)) of
              None \<Rightarrow> e = HandlerError (''conflict://'' @ i) (msg (reg_path r))
            | Some t \<Rightarrow>
                if slice_get t (b_start (reg_block r)) (b_end (reg_block r)) = Some (reg_body r)
                then io_outcome env \<noteq> AllOk \<and> e = HandlerError (''conflict://'' @ i) (msg (reg_path r))
                else (\<exists>why. e = Malformed (''conflict://'' @ i) why)))"
proof -
  have "user_path q \<Longrightarrow> files d' q = files d q"
    using write_conflict_confined [OF assms] by blast
  then show ?thesis
    using assms
    by (auto simp: write_conflict_def conflict_take_def Let_def strip_prefix_def atomic_write_pair slice_get_def
        split: option.splits if_splits prod.splits)
qed

theorem refused_resolution_changes_nothing_witness:
  "files (fst (snd (write_conflict (\<lambda>p. [p]) (\<lambda>_. []) (calm\<lparr>io_outcome := SyncFails\<rparr>) (''conflict://'' @ ''c'') ''x''
      (one_file [''f''] two_blocks, two_entries)))) [''f''] = files (one_file [''f''] two_blocks) [''f'']"
proof -
  let ?w = "write_conflict (\<lambda>p. [p]) (\<lambda>_. []) (calm\<lparr>io_outcome := SyncFails\<rparr>) (''conflict://'' @ ''c'') ''x''
      (one_file [''f''] two_blocks, two_entries)"
  have "map_of two_entries ''c'' = None" by (simp add: two_entries_def)
  then obtain e d' st' where w: "?w = (Inl e, d', st')"
    by (simp add: write_conflict_def strip_prefix_def conflict_take_def)
  have "user_path [''f'']" by (simp add: user_path_def)
  then show ?thesis using refused_resolution_changes_nothing [OF w, of "[''f'']"] w by simp
qed

theorem resolution_stays_in_its_block_witness:
  "\<exists>res d' st'. write_conflict (\<lambda>p. [p]) (\<lambda>_. []) calm ''conflict://a'' ''x'' (one_file [''f''] two_blocks, two_entries)
       = (res, d', st') \<and> (files d' [''f''] = files (one_file [''f''] two_blocks) [''f''] \<or> res = Inr ())"
proof -
  obtain res d' st' where w: "write_conflict (\<lambda>p. [p]) (\<lambda>_. []) calm ''conflict://a'' ''x''
      (one_file [''f''] two_blocks, two_entries) = (res, d', st')"
    by (metis surj_pair)
  have "user_path [''f'']" by (simp add: user_path_def)
  from resolution_stays_in_its_block [OF w this] show ?thesis using w by blast
qed

lemma write_registered:
  assumes "map_of st i = Some r" "read_to_string d (loc (reg_path r)) = Some t"
    and "slice_get t (b_start (reg_block r)) (b_end (reg_block r)) = Some (reg_body r)"
    and "io_outcome env = AllOk" "user_path (loc (reg_path r))"
  shows "\<exists>d'. write_conflict loc msg env (''conflict://'' @ i) new (d, st) = (Inr (), d', AList.delete i st)
     \<and> map_option content (files d' (loc (reg_path r))) =
         Some (splice t (b_start (reg_block r)) (b_end (reg_block r)) (ended_line new))"
  using assms slice_body [OF assms(3)] atomic_write_success [OF assms(4) user_path_not_temp [OF assms(5)]]
  by (auto simp: write_conflict_def conflict_take_def strip_prefix_def Let_def atomic_write_pair replaced_file_def
      split: prod.splits)

lemma register_other:
  "i \<notin> (\<lambda>b. stable_id p (b_start b) (block_body t b)) ` set bs \<Longrightarrow>
   map_of (snd (foldl (register_block p t) acc bs)) i = map_of (snd acc) i"
  by (induction bs arbitrary: acc) (auto simp: register_block_def conflict_register_def Let_def)

lemma registered_all:
  "distinct (map (\<lambda>b. stable_id p (b_start b) (block_body t b)) bs) \<Longrightarrow> b \<in> set bs \<Longrightarrow>
   map_of (snd (foldl (register_block p t) acc bs)) (stable_id p (b_start b) (block_body t b)) =
     Some \<lparr> reg_path = p, reg_block = b\<lparr>cb_id := stable_id p (b_start b) (block_body t b)\<rparr>,
       reg_body = block_body t b \<rparr>"
proof (induction bs arbitrary: acc)
  case (Cons x bs)
  show ?case
  proof (cases "b \<in> set bs")
    case True
    then show ?thesis using Cons by simp
  next
    case False
    then have x: "b = x" and n: "stable_id p (b_start x) (block_body t x)
        \<notin> (\<lambda>b. stable_id p (b_start b) (block_body t b)) ` set bs"
      using Cons.prems by auto
    have "snd (register_block p t acc x) = AList.update (stable_id p (b_start x) (block_body t x))
        \<lparr> reg_path = p, reg_block = x\<lparr>cb_id := stable_id p (b_start x) (block_body t x)\<rparr>,
          reg_body = block_body t x \<rparr> (snd acc)"
      by (simp add: register_block_def conflict_register_def Let_def)
    then show ?thesis using register_other [OF n, of "register_block p t acc x"] x by simp
  qed
qed simp

lemma resolve_registers:
  assumes "read_to_string d (loc (join_path wd rest)) = Some t" "length t \<le> max_scan_bytes" "map_of st rest = None"
    and "b \<in> set (scan t)"
  shows "\<exists>l0. snd (resolve_conflict loc msg wd d (''conflict://'' @ rest) st) =
     snd (foldl (register_block (join_path wd rest) t) (l0, st) (scan t))"
proof -
  have "read_bytes d (loc (join_path wd rest)) = Some t"
    using assms(1) by (auto simp: read_to_string_def split: option.splits if_splits)
  then show ?thesis
    using assms by (auto simp: resolve_conflict_def strip_prefix_def Let_def split: prod.splits)
      (metis snd_conv)
qed

text \<open>
  Listing a file and then resolving one of the listed blocks by its id replaces exactly that
  block: for a file of at most 10 MiB whose blocks got different ids, the write succeeds, the file
  becomes the text with the block replaced by the resolution, and the id is known no more.
\<close>

theorem listed_block_is_resolved:
  fixes msg :: "string \<Rightarrow> string"
  assumes "read_to_string d (loc (join_path wd rest)) = Some t" "length t \<le> max_scan_bytes" "map_of st rest = None"
    and ids: "distinct (map (\<lambda>b. stable_id (join_path wd rest) (b_start b) (block_body t b)) (scan t))"
    and b: "b \<in> set (scan t)" and ok: "io_outcome env = AllOk" and user: "user_path (loc (join_path wd rest))"
  defines "st1 \<equiv> snd (resolve_conflict loc msg wd d (''conflict://'' @ rest) st)"
  defines "i \<equiv> stable_id (join_path wd rest) (b_start b) (block_body t b)"
  shows "\<exists>d'. write_conflict loc msg env (''conflict://'' @ i) new (d, st1) = (Inr (), d', AList.delete i st1)
     \<and> map_option content (files d' (loc (join_path wd rest))) =
         Some (take (b_start b) t @ ended_line new @ drop (b_end b) t)"
proof -
  let ?p = "join_path wd rest"
  obtain l0 where st1: "st1 = snd (foldl (register_block ?p t) (l0, st) (scan t))"
    using resolve_registers [where loc = loc and d = d and wd = wd and rest = rest, OF assms(1-3) b] unfolding st1_def by blast
  have r: "map_of st1 i = Some \<lparr> reg_path = ?p, reg_block = b\<lparr>cb_id := i\<rparr>, reg_body = block_body t b \<rparr>"
    unfolding st1 i_def by (rule registered_all [OF ids b])
  have v: "valid_utf8 t" using assms(1) by (auto simp: read_to_string_def split: option.splits if_splits)
  have bi: "block_in t b" using scan_from_blocks [OF tail_lines_start, of t] b by (auto simp: scan_def list_all_iff)
  show ?thesis
    using write_registered [where loc = loc and d = d and st = st1 and i = i, OF r] block_slice [OF v bi] assms(1) ok user
    by (auto simp: splice_def)
qed

theorem listed_block_is_resolved_witness:
  "\<exists>d' st'. write_conflict (\<lambda>p. [p]) (\<lambda>_. []) calm
         (''conflict://'' @ stable_id ''f'' 0 (block_body one_block (hd (scan one_block)))) ''x''
         (one_file [''f''] one_block, snd (resolve_conflict (\<lambda>p. [p]) (\<lambda>_. []) [] (one_file [''f''] one_block)
            (''conflict://'' @ ''f'') [])) = (Inr (), d', st')
       \<and> map_option content (files d' [''f'']) = Some (ended_line ''x'' @ ''end'')"
proof -
  have p: "join_path [] ''f'' = ''f''" by (simp add: join_path_def)
  have r: "read_to_string (one_file [''f''] one_block) [join_path [] ''f''] = Some one_block" by code_simp
  have l: "length one_block \<le> max_scan_bytes" by (simp add: one_block_def nls_def max_scan_bytes_def)
  have sc: "map (\<lambda>b. (b_start b, b_end b)) (scan one_block) = [(0, 28)]"
    by (simp add: scan_def spans_placed one_block_def nls_def scan_from.simps(2) block_walk.simps(2) line_is_def)
  then obtain b where b: "scan one_block = [b]" "b_start b = 0" "b_end b = 28" by auto
  have u: "user_path [join_path [] ''f'']" by (simp add: p user_path_def)
  have dr: "drop 28 one_block = ''end''" by code_simp
  from listed_block_is_resolved [where loc = "\<lambda>p. [p]" and wd = "[]" and rest = "''f''" and b = b and env = calm
      and st = "[]" and msg = "\<lambda>_. []" and new = "''x''", OF r l _ _ _ _ u]
  obtain d' where d': "write_conflict (\<lambda>p. [p]) (\<lambda>_. []) calm (''conflict://'' @ stable_id ''f'' 0 (block_body one_block b)) ''x''
      (one_file [''f''] one_block, snd (resolve_conflict (\<lambda>p. [p]) (\<lambda>_. []) [] (one_file [''f''] one_block) (''conflict://'' @ ''f'') []))
      = (Inr (), d', AList.delete (stable_id ''f'' 0 (block_body one_block b))
          (snd (resolve_conflict (\<lambda>p. [p]) (\<lambda>_. []) [] (one_file [''f''] one_block) (''conflict://'' @ ''f'') [])))"
    "map_option content (files d' [''f'']) = Some (ended_line ''x'' @ ''end'')"
    using b dr unfolding p by (auto simp: calm_def)
  show ?thesis using d' b by (intro exI conjI) (simp_all only: list.sel)
qed

text \<open>
  Resolving a block moves every block below it, so the next resolution is refused unless the first
  had the exact length of its block, and the refusal also forgets the block.
\<close>

lemma two_blocks_apart: "map (\<lambda>b. (b_start b, b_end b)) (scan two_blocks) = [(0, 28), (28, 56)]"
  by (simp add: scan_def spans_placed two_blocks_def nls_def scan_from.simps(2) block_walk.simps(2) line_is_def)

lemma write_moved:
  assumes "map_of st i = Some r" "read_to_string d (loc (reg_path r)) = Some t"
    and "length t < b_end (reg_block r)"
  shows "write_conflict loc msg env (''conflict://'' @ i) new (d, st) =
    (Inl (Malformed (''conflict://'' @ i) ''registered block no longer fits the file (it changed)''),
     d, AList.delete i st)"
  using assms by (simp add: write_conflict_def conflict_take_def strip_prefix_def Let_def)

lemma ascii_utf8: "list_all (\<lambda>a. a < 128) xs \<Longrightarrow> utf8_vals xs"
  by (induction xs rule: utf8_vals.induct) auto

lemma later_block_refused:
  "\<exists>d1. write_conflict (\<lambda>p. [p]) msg calm ''conflict://a'' ''x'' (one_file [''f''] two_blocks, two_entries)
       = (Inr (), d1, AList.delete ''a'' two_entries)
     \<and> write_conflict (\<lambda>p. [p]) msg calm ''conflict://b'' ''y'' (d1, AList.delete ''a'' two_entries)
       = (Inl (Malformed ''conflict://b'' ''registered block no longer fits the file (it changed)''), d1, [])"
proof -
  let ?e = "\<lambda>s e. \<lparr> reg_path = ''f'', reg_block = bare_block s e, reg_body = block_body two_blocks (bare_block s e) \<rparr>"
  have u: "user_path [reg_path (?e 0 28)]" by (simp add: user_path_def)
  have v: "valid_utf8 two_blocks" "valid_utf8 (''x'' @ nls @ drop 28 two_blocks)"
    unfolding valid_utf8_def by (rule ascii_utf8, code_simp)+
  have r: "read_to_string (one_file [''f''] two_blocks) [reg_path (?e 0 28)] = Some two_blocks"
    using v by (simp add: read_to_string_def read_bytes_def one_file_def)
  have a: "map_of two_entries ''a'' = Some (?e 0 28)" by (simp add: two_entries_def)
  have len: "length two_blocks = 56" by code_simp
  have ok: "io_outcome calm = AllOk" by (simp add: calm_def)
  have s: "slice_get two_blocks 0 28 = Some (take 28 two_blocks)"
    by (simp add: slice_get_def len) code_simp
  obtain d1 where d1: "write_conflict (\<lambda>p. [p]) msg calm (''conflict://'' @ ''a'') ''x'' (one_file [''f''] two_blocks, two_entries)
      = (Inr (), d1, AList.delete ''a'' two_entries)"
    "map_option content (files d1 [''f'']) = Some (splice two_blocks 0 28 (ended_line ''x''))"
    using write_registered [where loc = "\<lambda>p. [p]" and d = "one_file [''f''] two_blocks" and env = calm and new = "''x''" and msg = msg,
        OF a r _ _ u] s ok
    by (auto simp: bare_block_def block_body_def)
  have n: "splice two_blocks 0 28 (ended_line ''x'') = ''x'' @ nls @ drop 28 two_blocks"
    by (simp add: splice_def ended_line_def ends_with_def nls_def)
  have r1: "read_to_string d1 [reg_path (?e 28 56)] = Some (''x'' @ nls @ drop 28 two_blocks)"
    using d1(2) v unfolding n by (auto simp: read_to_string_def read_bytes_def)
  have b: "map_of (AList.delete ''a'' two_entries) ''b'' = Some (?e 28 56)" by (simp add: two_entries_def)
  have "length (''x'' @ nls @ drop 28 two_blocks) < b_end (reg_block (?e 28 56))"
    by (simp add: len nls_def bare_block_def)
  from write_moved [where loc = "\<lambda>p. [p]" and d = d1, OF b r1 this] show ?thesis
    using d1(1) by (intro exI [of _ d1]) (simp add: two_entries_def)
qed

lemma longer_underline_is_dropped:
  "map (\<lambda>b. (ours b, theirs b)) (scan (''<<<<<<< a'' @ nls @ ''title'' @ nls @ ''=========='' @ nls @ ''x'' @ nls
     @ ''======='' @ nls @ ''y'' @ nls @ ''>>>>>>> b'' @ nls)) = [(''title'' @ nls, ''x'' @ nls @ ''y'' @ nls)]"
  by (simp add: scan_def spans_placed nls_def scan_from.simps(2) block_walk.simps(2) line_is_def)

end
