(* ===== verification/Kod_Concurrency.thy ===== *)
theory Kod_Concurrency
  imports Kod_Prelude
begin

text \<open>
  The cap on concurrent requests to one provider: \<open>crates/kod-provider/src/concurrency.rs\<close>. The
  counter and its operations are functions; \<open>conc_step\<close> interleaves the critical sections of the
  tasks that use it. A task is named by a number. The waiting list is that of
  \<open>tokio::sync::Notify\<close>, whose documented behaviour is part of the steps: \<open>notify_one\<close> wakes any
  one registered waiter or, when there is none, is stored for the next to register,
  \<open>notify_waiters\<close> wakes those registered and stores nothing, and a future dropped after
  \<open>notify_one\<close> woke it passes the wake on. The lemmas show that the cap is kept, that no slot is
  leaked, and that a waiter is never left without a request or a wake it can wait for.
\<close>

section \<open>The counter\<close>

record conc =
  conc_cap :: nat
  in_flight :: nat

definition can_acquire :: "conc \<Rightarrow> bool" where
  "can_acquire s = (conc_cap s = 0 \<or> in_flight s < conc_cap s)"

definition conc_new :: "nat \<Rightarrow> conc" where
  "conc_new c = \<lparr> conc_cap = c, in_flight = 0 \<rparr>"

definition conc_default :: conc where
  "conc_default = conc_new 0"

definition cap_grew :: "nat \<Rightarrow> nat \<Rightarrow> bool" where
  "cap_grew old new =
     (if old = 0 \<and> new = 0 then False
      else if new = 0 then True
      else if old = 0 then False
      else old < new)"

text \<open>The new state, and whether the waiters are to be woken.\<close>

definition set_cap :: "nat \<Rightarrow> conc \<Rightarrow> bool \<times> conc" where
  "set_cap c s = (cap_grew (conc_cap s) c, s\<lparr>conc_cap := c\<rparr>)"

definition try_acquire :: "conc \<Rightarrow> conc option" where
  "try_acquire s = (if can_acquire s then Some (s\<lparr>in_flight := in_flight s + 1\<rparr>) else None)"

definition permit_drop :: "conc \<Rightarrow> conc" where
  "permit_drop s = s\<lparr>in_flight := in_flight s - 1\<rparr>"

section \<open>Tasks\<close>

text \<open>
  Where the tasks are: \<open>holders\<close> have a permit, \<open>refused\<close> ones failed the test and have not
  registered yet, \<open>parked\<close> ones are registered, \<open>woken\<close> ones were woken by \<open>notify_one\<close> and
  \<open>roused\<close> ones by \<open>notify_waiters\<close>. \<open>releases\<close> counts the wakes due after a drop, \<open>broadcasts\<close>
  those due after a resize, and \<open>stored_wake\<close> is the wake kept for the next to register.
\<close>

record conc_world =
  counter :: conc
  holders :: "nat set"
  refused :: "nat set"
  parked :: "nat set"
  woken :: "nat set"
  roused :: "nat set"
  releases :: nat
  broadcasts :: nat
  stored_wake :: bool

definition world_new :: "nat \<Rightarrow> conc_world" where
  "world_new c =
     \<lparr> counter = conc_new c, holders = {}, refused = {}, parked = {}, woken = {}, roused = {},
       releases = 0, broadcasts = 0, stored_wake = False \<rparr>"

definition idle :: "nat \<Rightarrow> conc_world \<Rightarrow> bool" where
  "idle t w = (t \<notin> holders w \<union> refused w \<union> parked w \<union> woken w \<union> roused w)"

text \<open>One pass of the loop of \<open>acquire\<close> up to the test.\<close>

definition test_slot :: "nat \<Rightarrow> conc_world \<Rightarrow> conc_world" where
  "test_slot t w =
     (let w' = w\<lparr>woken := woken w - {t}, roused := roused w - {t}\<rparr> in
      case try_acquire (counter w) of
        Some s \<Rightarrow> w'\<lparr>counter := s, holders := insert t (holders w)\<rparr>
      | None \<Rightarrow> w'\<lparr>refused := insert t (refused w)\<rparr>)"

text \<open>
  Dropping a permit: the counter goes down under the lock, and the call of \<open>notify_one\<close> after it is
  due. The call then wakes one registered waiter.
\<close>

definition drop_held :: "nat \<Rightarrow> conc_world \<Rightarrow> conc_world" where
  "drop_held t w =
     w\<lparr>counter := permit_drop (counter w), holders := holders w - {t}, releases := releases w + 1\<rparr>"

definition wake_waiter :: "nat \<Rightarrow> conc_world \<Rightarrow> conc_world" where
  "wake_waiter t w =
     w\<lparr>releases := releases w - 1, parked := parked w - {t}, woken := insert t (woken w)\<rparr>"

text \<open>
  The steps of the tasks already there: the loop of \<open>acquire\<close> after a wake, the registration after
  a failed test, the drop of a permit held, and the wakes that are due. No new request, no change of
  the cap and no cancelled future is among them.
\<close>

inductive serve_step :: "conc_world \<Rightarrow> conc_world \<Rightarrow> bool" where
  retest: "t \<in> woken w \<union> roused w \<Longrightarrow> serve_step w (test_slot t w)"
| register: "t \<in> refused w \<Longrightarrow> \<not> stored_wake w \<Longrightarrow>
    serve_step w (w\<lparr>refused := refused w - {t}, parked := insert t (parked w)\<rparr>)"
| take_stored: "t \<in> refused w \<Longrightarrow> stored_wake w \<Longrightarrow>
    serve_step w (w\<lparr>refused := refused w - {t}, woken := insert t (woken w), stored_wake := False\<rparr>)"
| drop_permit: "t \<in> holders w \<Longrightarrow> serve_step w (drop_held t w)"
| wake_one: "0 < releases w \<Longrightarrow> t \<in> parked w \<Longrightarrow> serve_step w (wake_waiter t w)"
| wake_stored: "0 < releases w \<Longrightarrow> parked w = {} \<Longrightarrow>
    serve_step w (w\<lparr>releases := releases w - 1, stored_wake := True\<rparr>)"
| wake_all: "0 < broadcasts w \<Longrightarrow>
    serve_step w (w\<lparr>broadcasts := broadcasts w - 1, roused := roused w \<union> parked w, parked := {}\<rparr>)"

text \<open>Every step: those, a new request, a resize and a future that is dropped.\<close>

inductive conc_step :: "conc_world \<Rightarrow> conc_world \<Rightarrow> bool" where
  serve: "serve_step w w' \<Longrightarrow> conc_step w w'"
| arrive: "idle t w \<Longrightarrow> conc_step w (test_slot t w)"
| resize: "set_cap c (counter w) = (grew, s) \<Longrightarrow>
    conc_step w (w\<lparr>counter := s, broadcasts := broadcasts w + (if grew then 1 else 0)\<rparr>)"
| cancel_parked: "t \<in> parked w \<union> roused w \<Longrightarrow>
    conc_step w (w\<lparr>parked := parked w - {t}, roused := roused w - {t}\<rparr>)"
| cancel_woken: "t \<in> woken w \<Longrightarrow> conc_step w (w\<lparr>woken := woken w - {t}, releases := releases w + 1\<rparr>)"

definition conc_reachable :: "nat \<Rightarrow> conc_world \<Rightarrow> bool" where
  "conc_reachable c w = conc_step\<^sup>*\<^sup>* (world_new c) w"

section \<open>What every interleaving keeps\<close>

definition conc_inv :: "conc_world \<Rightarrow> bool" where
  "conc_inv w =
     (finite (holders w) \<and> in_flight (counter w) = card (holders w)
      \<and> disjnt (holders w) (refused w \<union> parked w \<union> woken w \<union> roused w)
      \<and> disjnt (refused w) (parked w \<union> woken w \<union> roused w)
      \<and> disjnt (parked w) (woken w \<union> roused w) \<and> disjnt (woken w) (roused w)
      \<and> (stored_wake w \<longrightarrow> parked w = {})
      \<and> (refused w \<union> parked w \<noteq> {} \<longrightarrow>
           holders w \<noteq> {} \<or> stored_wake w \<or> woken w \<noteq> {} \<or> releases w > 0))"

lemma conc_inv_new: "conc_inv (world_new c)"
  by (simp add: conc_inv_def world_new_def conc_new_def)

lemma test_slot_inv:
  assumes "conc_inv w" and "t \<notin> holders w \<union> refused w \<union> parked w"
  shows "conc_inv (test_slot t w)"
proof (cases "can_acquire (counter w)")
  case True
  then show ?thesis using assms
    by (auto simp: test_slot_def try_acquire_def conc_inv_def disjnt_def)
next
  case False
  then have "holders w \<noteq> {}" using assms(1) by (auto simp: can_acquire_def conc_inv_def)
  then show ?thesis using assms False
    by (auto simp: test_slot_def try_acquire_def conc_inv_def disjnt_def)
qed

lemma serve_step_inv: "serve_step w w' \<Longrightarrow> conc_inv w \<Longrightarrow> conc_inv w'"
proof (induction rule: serve_step.induct)
  case (retest t w)
  then show ?case by (intro test_slot_inv) (auto simp: conc_inv_def disjnt_def)
next
  case (drop_permit t w)
  then show ?case by (auto simp: conc_inv_def disjnt_def permit_drop_def drop_held_def)
qed (auto simp: conc_inv_def disjnt_def wake_waiter_def)

lemma conc_step_inv: "conc_step w w' \<Longrightarrow> conc_inv w \<Longrightarrow> conc_inv w'"
proof (induction rule: conc_step.induct)
  case (serve w w')
  then show ?case by (blast intro: serve_step_inv)
next
  case (arrive t w)
  then show ?case by (auto simp: idle_def intro!: test_slot_inv)
qed (auto simp: conc_inv_def disjnt_def set_cap_def)

lemma conc_reachable_inv: "conc_reachable c w \<Longrightarrow> conc_inv w"
proof -
  assume "conc_reachable c w"
  then have "conc_step\<^sup>*\<^sup>* (world_new c) w" by (simp add: conc_reachable_def)
  then show ?thesis by (induction rule: rtranclp_induct) (auto intro: conc_inv_new conc_step_inv)
qed

lemma serve_grows_only_by_test:
  "serve_step w w' \<Longrightarrow> conc_inv w \<Longrightarrow> card (holders w) < card (holders w') \<Longrightarrow>
   \<exists>t. w' = test_slot t w \<and> can_acquire (counter w)"
proof (induction rule: serve_step.induct)
  case (retest t w)
  then show ?case by (intro exI [of _ t]) (auto simp: test_slot_def try_acquire_def split: if_splits)
next
  case (drop_permit t w)
  then show ?case using card_Diff1_le [of "holders w" t] by (simp add: drop_held_def)
qed (auto simp: wake_waiter_def)

lemma grows_only_by_test:
  "conc_step w w' \<Longrightarrow> conc_inv w \<Longrightarrow> card (holders w) < card (holders w') \<Longrightarrow>
   \<exists>t. w' = test_slot t w \<and> can_acquire (counter w)"
proof (induction rule: conc_step.induct)
  case (serve w w')
  then show ?case by (blast intro: serve_grows_only_by_test)
next
  case (arrive t w)
  then show ?case by (intro exI [of _ t]) (auto simp: test_slot_def try_acquire_def split: if_splits)
qed auto

text \<open>
  C15. Whatever the interleaving of requests, drops, cancels and resizes: the counter is the number
  of permits held, and a step that hands out a permit happens under the cap in force, so the count
  after it is within it. Nothing else raises the count.
\<close>

theorem admission_respects_cap:
  assumes "conc_reachable c w" and "conc_step w w'"
  shows "in_flight (counter w') = card (holders w')
    \<and> (card (holders w') \<le> card (holders w)
       \<or> card (holders w') = card (holders w) + 1
         \<and> (conc_cap (counter w') = 0 \<or> card (holders w') \<le> conc_cap (counter w')))"
proof -
  note inv = conc_reachable_inv [OF assms(1)]
  have "in_flight (counter w') = card (holders w')"
    using conc_step_inv [OF assms(2) inv] by (simp add: conc_inv_def)
  moreover have "card (holders w') = card (holders w) + 1
      \<and> (conc_cap (counter w') = 0 \<or> card (holders w') \<le> conc_cap (counter w'))"
    if more_held: "card (holders w) < card (holders w')"
  proof -
    obtain t where t: "w' = test_slot t w" "can_acquire (counter w)"
      using grows_only_by_test [OF assms(2) inv more_held] by blast
    then have "holders w' = insert t (holders w)"
      by (simp add: test_slot_def try_acquire_def)
    then have "card (holders w') = card (holders w) + 1"
      using more_held inv by (metis Suc_eq_plus1 card_insert_if conc_inv_def less_irrefl)
    moreover have "conc_cap (counter w') = conc_cap (counter w)" using t by (simp add: test_slot_def try_acquire_def)
    ultimately show ?thesis using t(2) inv by (auto simp: can_acquire_def conc_inv_def)
  qed
  ultimately show ?thesis by linarith
qed

theorem admission_respects_cap_witness:
  "in_flight (counter (test_slot 7 (world_new 2))) = card (holders (test_slot 7 (world_new 2)))"
proof -
  have "conc_reachable 2 (world_new 2)" by (simp add: conc_reachable_def)
  moreover have "conc_step (world_new 2) (test_slot 7 (world_new 2))"
    by (rule arrive) (simp add: idle_def world_new_def)
  ultimately show ?thesis using admission_respects_cap by blast
qed

section \<open>No waiter is stranded\<close>

definition waiting :: "conc_world \<Rightarrow> nat set" where
  "waiting w = refused w \<union> parked w \<union> woken w \<union> roused w"

text \<open>Only finitely many tasks have asked.\<close>

lemma serve_step_finite: "serve_step w w' \<Longrightarrow> finite (waiting w) \<Longrightarrow> finite (waiting w')"
  by (induction rule: serve_step.induct)
     (auto simp: waiting_def test_slot_def try_acquire_def drop_held_def wake_waiter_def)

lemma conc_step_finite: "conc_step w w' \<Longrightarrow> finite (waiting w) \<Longrightarrow> finite (waiting w')"
proof (induction rule: conc_step.induct)
  case (serve w w')
  then show ?case by (blast intro: serve_step_finite)
qed (auto simp: waiting_def test_slot_def try_acquire_def)

lemma conc_reachable_finite: "conc_reachable c w \<Longrightarrow> finite (waiting w)"
proof -
  assume "conc_reachable c w"
  then have "conc_step\<^sup>*\<^sup>* (world_new c) w" by (simp add: conc_reachable_def)
  then show ?thesis
  proof (induction rule: rtranclp_induct)
    case base
    then show ?case by (simp add: waiting_def world_new_def)
  next
    case (step y z)
    then show ?case by (blast intro: conc_step_finite)
  qed
qed

text \<open>
  What the tasks already there still have to do: the tasks left, the wakes due, and the tests and
  registrations due. Each of their steps makes it smaller.
\<close>

definition serve_order :: "(conc_world \<times> conc_world) set" where
  "serve_order = measures
     [\<lambda>w. card (holders w \<union> waiting w),
      \<lambda>w. 2 * releases w + of_bool (stored_wake w) + broadcasts w,
      \<lambda>w. 2 * card (woken w \<union> roused w) + card (refused w)]"

lemma wf_serve_order: "wf serve_order"
  by (simp add: serve_order_def)

lemma retest_shrinks:
  assumes inv: "conc_inv w" and fin: "finite (waiting w)" and t: "t \<in> woken w \<union> roused w"
  shows "(test_slot t w, w) \<in> serve_order"
proof -
  let ?w = "test_slot t w"
  have same: "holders ?w \<union> waiting ?w = holders w \<union> waiting w" "releases ?w = releases w"
      "stored_wake ?w = stored_wake w" "broadcasts ?w = broadcasts w"
    using t by (auto simp: test_slot_def try_acquire_def waiting_def)
  have rest: "woken ?w \<union> roused ?w = (woken w \<union> roused w) - {t}"
    by (auto simp: test_slot_def try_acquire_def)
  have "finite (woken w \<union> roused w)" "finite (refused w)" using fin by (simp_all add: waiting_def)
  moreover have "card (refused ?w) \<le> card (refused w) + 1"
    using calculation(2) by (simp add: test_slot_def try_acquire_def card_insert_if)
  ultimately have "2 * card (woken ?w \<union> roused ?w) + card (refused ?w) < 2 * card (woken w \<union> roused w) + card (refused w)"
    unfolding rest using card_Suc_Diff1 [of "woken w \<union> roused w" t] t by simp
  then show ?thesis by (simp add: serve_order_def same)
qed

lemma serve_step_shrinks:
  "serve_step w w' \<Longrightarrow> conc_inv w \<Longrightarrow> finite (waiting w) \<Longrightarrow> (w', w) \<in> serve_order"
proof (induction rule: serve_step.induct)
  case (retest t w)
  then show ?case by (intro retest_shrinks) simp_all
next
  case (register t w)
  let ?w = "w\<lparr>refused := refused w - {t}, parked := insert t (parked w)\<rparr>"
  have "holders ?w \<union> waiting ?w = holders w \<union> waiting w" using register(1) by (auto simp: waiting_def)
  moreover have "card (refused w - {t}) < card (refused w)"
    using register by (intro card_Diff1_less) (simp_all add: waiting_def)
  ultimately show ?case by (simp add: serve_order_def)
next
  case (take_stored t w)
  let ?w = "w\<lparr>refused := refused w - {t}, woken := insert t (woken w), stored_wake := False\<rparr>"
  have "holders ?w \<union> waiting ?w = holders w \<union> waiting w" using take_stored(1) by (auto simp: waiting_def)
  then show ?case using take_stored(2) by (simp add: serve_order_def)
next
  case (drop_permit t w)
  have "holders (drop_held t w) \<union> waiting (drop_held t w) \<subset> holders w \<union> waiting w"
    using drop_permit by (auto simp: drop_held_def waiting_def conc_inv_def disjnt_def)
  moreover have "finite (holders w \<union> waiting w)" using drop_permit by (simp add: conc_inv_def)
  ultimately show ?case by (simp add: serve_order_def psubset_card_mono)
next
  case (wake_one w t)
  have "holders (wake_waiter t w) \<union> waiting (wake_waiter t w) = holders w \<union> waiting w"
    using wake_one(2) by (auto simp: wake_waiter_def waiting_def)
  then show ?case using wake_one(1) by (simp add: serve_order_def wake_waiter_def)
next
  case (wake_stored w)
  then show ?case by (auto simp: serve_order_def waiting_def)
next
  case (wake_all w)
  let ?w = "w\<lparr>broadcasts := broadcasts w - 1, roused := roused w \<union> parked w, parked := {}\<rparr>"
  have "holders ?w \<union> waiting ?w = holders w \<union> waiting w" by (auto simp: waiting_def)
  then show ?case using wake_all(1) by (simp add: serve_order_def)
qed

text \<open>While a task waits one of the tasks already there has a step, and no step loses the task.\<close>

lemma waiting_can_step:
  assumes inv: "conc_inv w" and t: "t \<in> waiting w"
  shows "\<exists>w'. serve_step w w'"
proof -
  consider x where "x \<in> woken w \<union> roused w" | x where "x \<in> refused w" | h where "h \<in> holders w"
    | "t \<in> parked w" "0 < releases w"
    using inv t by (auto simp: conc_inv_def waiting_def)
  then show ?thesis
    by cases (blast intro: serve_step.intros)+
qed

lemma serve_step_keeps:
  "serve_step w w' \<Longrightarrow> conc_inv w \<Longrightarrow> t \<in> waiting w \<Longrightarrow> t \<in> holders w' \<or> t \<in> waiting w'"
  by (induction rule: serve_step.induct)
     (auto simp: waiting_def test_slot_def try_acquire_def drop_held_def wake_waiter_def)

text \<open>
  On every run of the tasks already there the condition holds at some point: now, or a step is
  possible and after each possible step it is inevitable.
\<close>

inductive inevitably :: "(conc_world \<Rightarrow> bool) \<Rightarrow> conc_world \<Rightarrow> bool" for P where
  now: "P w \<Longrightarrow> inevitably P w"
| later: "\<exists>w'. serve_step w w' \<Longrightarrow> \<forall>w'. serve_step w w' \<longrightarrow> inevitably P w' \<Longrightarrow> inevitably P w"

text \<open>So no run, however long, avoids the condition.\<close>

lemma inevitably_on_every_run:
  "inevitably P w \<Longrightarrow> run 0 = w \<Longrightarrow> \<forall>n. serve_step (run n) (run (Suc n)) \<Longrightarrow> \<exists>n. P (run n)"
proof (induction arbitrary: run rule: inevitably.induct)
  case (now w)
  then show ?case by blast
next
  case (later w)
  have "serve_step w (run 1)" using later.prems by (metis One_nat_def)
  then have "\<exists>n. P (run (Suc n))"
    using later.IH later.prems(2) by (elim allE [of _ "run 1"]) auto
  then show ?case by blast
qed

lemma waiter_inevitably_served:
  "conc_inv w \<Longrightarrow> finite (waiting w) \<Longrightarrow> t \<in> holders w \<or> t \<in> waiting w \<Longrightarrow> inevitably (\<lambda>w. t \<in> holders w) w"
proof (induction w rule: wf_induct_rule [OF wf_serve_order])
  case (1 w)
  show ?case
  proof (cases "t \<in> holders w")
    case False
    then have t: "t \<in> waiting w" using 1 by blast
    have "inevitably (\<lambda>w. t \<in> holders w) w'" if s: "serve_step w w'" for w'
      using s 1 t serve_step_shrinks serve_step_inv serve_step_finite serve_step_keeps by blast
    then show ?thesis using waiting_can_step [OF 1(2) t] by (blast intro: later)
  qed (rule now)
qed

text \<open>
  C14. In every reachable state, for every task that waits (refused and about to register,
  registered, or woken): on every run of the tasks already there it gets a permit, whichever of
  them moves at each point and whichever waiter each wake picks. The runs are made of the drops of
  permits held, the wakes due, the registrations and the tests of \<open>acquire\<close>; no resize, no cancel
  and no new request is among them, and each of them is as long as some step is possible. So the
  bracket cannot deadlock, also after a shrink below the number of requests in flight and after a
  broadcast that missed the task. Moreover while a task is registered some other task holds a
  permit, or a wake is on its way. That each holder drops its permit at some time is the part of the
  callers.
\<close>

theorem waiter_is_never_stranded:
  assumes "conc_reachable c w" and "t \<in> waiting w"
  shows "(t \<in> parked w \<longrightarrow> holders w \<noteq> {} \<or> woken w \<noteq> {} \<or> releases w > 0)
    \<and> inevitably (\<lambda>w'. t \<in> holders w') w"
  using waiter_inevitably_served [OF conc_reachable_inv [OF assms(1)] conc_reachable_finite [OF assms(1)]]
    conc_reachable_inv [OF assms(1)] assms(2)
  by (auto simp: conc_inv_def)

text \<open>A run in which task 2 tests between the two sections of a resize: it parks with a slot free
  and no wake due.\<close>

definition full_world :: conc_world where
  "full_world = (world_new 1)\<lparr>counter := \<lparr> conc_cap = 1, in_flight = 1 \<rparr>, holders := {1}, parked := {2}\<rparr>"

lemma run_to_full: "conc_reachable 1 full_world"
proof -
  let ?a = "test_slot 1 (world_new 1)"
  let ?b = "test_slot 2 ?a"
  have "conc_step (world_new 1) ?a" by (rule arrive) (simp add: idle_def world_new_def)
  moreover have "conc_step ?a ?b"
    by (rule arrive) (simp add: idle_def world_new_def test_slot_def try_acquire_def can_acquire_def conc_new_def)
  moreover have "conc_step ?b (?b\<lparr>refused := refused ?b - {2}, parked := insert 2 (parked ?b)\<rparr>)"
    by (rule serve, rule register) (simp_all add: world_new_def test_slot_def try_acquire_def can_acquire_def conc_new_def)
  moreover have "?b\<lparr>refused := refused ?b - {2}, parked := insert 2 (parked ?b)\<rparr> = full_world"
    by (simp add: full_world_def world_new_def test_slot_def try_acquire_def can_acquire_def conc_new_def)
  ultimately show ?thesis
    unfolding conc_reachable_def by (metis converse_rtranclp_into_rtranclp rtranclp.rtrancl_refl)
qed

theorem waiter_is_never_stranded_witness: "2 \<in> parked full_world \<and> inevitably (\<lambda>w'. 2 \<in> holders w') full_world"
  using waiter_is_never_stranded [OF run_to_full, of 2] by (simp add: full_world_def waiting_def)

lemma resize_wake_can_be_lost:
  "\<exists>w. conc_reachable 1 w \<and> 2 \<in> parked w \<and> can_acquire (counter w)
     \<and> woken w = {} \<and> roused w = {} \<and> releases w = 0 \<and> broadcasts w = 0 \<and> \<not> stored_wake w"
proof -
  let ?a = "test_slot 1 (world_new 1)"
  let ?b = "test_slot 2 ?a"
  let ?c = "?b\<lparr>counter := \<lparr> conc_cap = 2, in_flight = 1 \<rparr>, broadcasts := broadcasts ?b + (if True then 1 else 0)\<rparr>"
  let ?d = "?c\<lparr>broadcasts := broadcasts ?c - 1, roused := roused ?c \<union> parked ?c, parked := {}\<rparr>"
  let ?e = "?d\<lparr>refused := refused ?d - {2}, parked := insert 2 (parked ?d)\<rparr>"
  note world = world_new_def test_slot_def try_acquire_def can_acquire_def conc_new_def
  have "conc_step (world_new 1) ?a" by (rule arrive) (simp add: idle_def world_new_def)
  moreover have "conc_step ?a ?b" by (rule arrive) (simp add: idle_def world)
  moreover have "conc_step ?b ?c" by (rule resize [of 2]) (simp add: set_cap_def cap_grew_def world)
  moreover have "conc_step ?c ?d" by (rule serve, rule wake_all) (simp add: world)
  moreover have "conc_step ?d ?e" by (rule serve, rule register) (simp_all add: world)
  ultimately have "conc_reachable 1 ?e"
    unfolding conc_reachable_def by (meson converse_rtranclp_into_rtranclp rtranclp.rtrancl_refl)
  moreover have "2 \<in> parked ?e" "can_acquire (counter ?e)" "woken ?e = {}" "roused ?e = {}" "releases ?e = 0"
    "broadcasts ?e = 0" "\<not> stored_wake ?e"
    by (simp_all add: world)
  ultimately show ?thesis by blast
qed

end
