(* ===== verification/Kod_Session_Log.thy ===== *)
theory Kod_Session_Log
  imports Kod_Message Kod_Error Kod_Fs
begin

text \<open>
  The session log: \<open>crates/kod-core-state/src/session_log.rs\<close>, a file of one JSON line for every
  event, with the walk of \<open>redact_json\<close> (\<open>crates/kod-types/src/redact.rs\<close>). The JSON printer and
  reader, the redactor's rules, fresh message ids and the conversion of time stamps are arguments.
  Reals (a cost, a confidence) are of the type argument \<open>'f\<close>. The lemmas show what a crash leaves
  readable, that the interrupted calls are those started and not completed, and that a rehydrated
  transcript pairs every call with its result.
\<close>

section \<open>Entries\<close>

type_synonym redaction = "string \<times> nat"

datatype 'f session_entry =
    ToolCallEntry u64 string string json u64 json
  | ModelFallback u64 string string string string
  | CostEntry u64 string string string nat nat 'f
  | PolicyDecisionEntry u64 string string string string string
  | MemoryWrite u64 string string "string list"
  | ApprovalEntry u64 string string string "json option"
  | DiagnosticsEntry u64 string nat nat
  | MemoryRetrieval u64 u64 string "(string \<times> 'f) list" "string list" bool nat "(string \<times> string) list"
  | RedactionEntry u64 "redaction list"
  | ToolOutcomeEntry u64 string string string string 'f u64 string
  | JevDecision u64 string string string string json 'f u64 bool string
  | SessionExit u64 string string "string list"
  | ToolExecutionStart u64 string string "string option"
  | SessionInit u64 string string string "string list" u64

section \<open>Recording\<close>

type_synonym redactor = "string \<Rightarrow> string \<times> redaction list"

text \<open>A string is replaced when some rule fired, an object is rebuilt when some key is one to redact.\<close>

definition redact_text :: "redactor \<Rightarrow> string \<Rightarrow> string \<times> redaction list" where
  "redact_text r s = (case r s of (s', ev) \<Rightarrow> if ev \<noteq> [] then (s', ev) else (s, []))"

definition redact_keys :: "redactor \<Rightarrow> (string \<times> json) list \<Rightarrow> (string \<times> json) list \<times> redaction list" where
  "redact_keys r ms =
     (if list_ex (\<lambda>(k, _). snd (r k) \<noteq> []) ms
      then (foldl (\<lambda>obj (k, v). AList.update (fst (r k)) v obj) [] ms, concat (map (\<lambda>(k, _). snd (r k)) ms))
      else (ms, []))"

fun redact_json :: "redactor \<Rightarrow> json \<Rightarrow> json \<times> redaction list" where
  "redact_json r (JString s) = map_prod JString id (redact_text r s)"
| "redact_json r (JArray vs) =
     (let rs = map (redact_json r) vs in (JArray (map fst rs), concat (map snd rs)))"
| "redact_json r (JObject ms) =
     (let rs = map (\<lambda>(k, v). (k, redact_json r v)) ms;
          (ms', ev) = redact_keys r (map (\<lambda>(k, p). (k, fst p)) rs)
      in (JObject ms', concat (map (snd \<circ> snd) rs) @ ev))"
| "redact_json r v = (v, [])"

fun redact_entry :: "redactor \<Rightarrow> 'f session_entry \<Rightarrow> 'f session_entry \<times> redaction list" where
  "redact_entry r (ToolCallEntry ts h t args d res) =
     (let (args', e1) = redact_json r args; (res', e2) = redact_json r res
      in (ToolCallEntry ts h t args' d res', e1 @ e2))"
| "redact_entry r (PolicyDecisionEntry ts h t out rl src) =
     (let (rl', ev) = redact_text r rl in (PolicyDecisionEntry ts h t out rl' src, ev))"
| "redact_entry r (ModelFallback ts h a b err) =
     (let (err', ev) = redact_text r err in (ModelFallback ts h a b err', ev))"
| "redact_entry r (JevDecision ts h p pre q ans c l ca src) =
     (let (pre', e1) = redact_text r pre; (ans', e2) = redact_json r ans
      in (JevDecision ts h p pre' q ans' c l ca src, e1 @ e2))"
| "redact_entry r (ApprovalEntry ts h t dec (Some v)) =
     (let (v', ev) = redact_json r v in (ApprovalEntry ts h t dec (Some v'), ev))"
| "redact_entry r e = (e, [])"

definition add_redaction :: "(string, nat) hmap \<Rightarrow> redaction \<Rightarrow> (string, nat) hmap" where
  "add_redaction agg x =
     AList.update (fst x) ((case map_of agg (fst x) of None \<Rightarrow> 0 | Some n \<Rightarrow> n) + snd x) agg"

definition aggregate :: "redaction list \<Rightarrow> redaction list" where
  "aggregate rs = sort_key fst (foldl add_redaction [] rs)"

text \<open>The bytes one \<open>record\<close> appends, when every write succeeds.\<close>

definition log_line :: "('e \<Rightarrow> string) \<Rightarrow> 'e \<Rightarrow> string" where
  "log_line ser e = ser e @ [CHR 0x0A]"

definition record_bytes ::
  "redactor \<Rightarrow> ('f session_entry \<Rightarrow> string) \<Rightarrow> u64 \<Rightarrow> 'f session_entry \<Rightarrow> string" where
  "record_bytes r ser now e =
     (let (e', rs) = redact_entry r e
      in log_line ser e' @ (if rs \<noteq> [] then log_line ser (RedactionEntry now (aggregate rs)) else []))"

section \<open>Reading\<close>

definition max_session_log_bytes :: nat where
  "max_session_log_bytes = 256 * 1024 * 1024"

fun read_log_lines ::
  "(string \<Rightarrow> string + 'e) \<Rightarrow> (string \<Rightarrow> bool) \<Rightarrow> bool \<Rightarrow> nat \<Rightarrow> string list \<Rightarrow> 'e list \<Rightarrow> kod_error + 'e list" where
  "read_log_lines parse is_json ended i [] out = Inr out"
| "read_log_lines parse is_json ended i (l # ls) out =
     (if trim l = [] then read_log_lines parse is_json ended (i + 1) ls out
      else (case parse l of
          Inr e \<Rightarrow> read_log_lines parse is_json ended (i + 1) ls (out @ [e])
        | Inl why \<Rightarrow>
            if is_json l then read_log_lines parse is_json ended (i + 1) ls out
            else if ls = [] \<and> \<not> ended then read_log_lines parse is_json ended (i + 1) ls out
            else Inl (KDeserialization (''line '' @ show_nat (i + 1) @ '': '' @ why))))"

definition read_session ::
  "(string \<Rightarrow> string + 'e) \<Rightarrow> (string \<Rightarrow> bool) \<Rightarrow> (string \<Rightarrow> string) \<Rightarrow> string \<Rightarrow> string option \<Rightarrow> kod_error + 'e list" where
  "read_session parse is_json io_text shown file =
     (case file of
        None \<Rightarrow> Inl (KIo (io_text shown))
      | Some bytes \<Rightarrow>
          if max_session_log_bytes < length bytes then
            Inl (KInvalidParameters (''session log '' @ shown @ '' is '' @ show_nat (length bytes)
              @ '' bytes; refusing to load (cap '' @ show_nat max_session_log_bytes @ '' bytes)''))
          else if \<not> valid_utf8 bytes then Inl (KIo (io_text shown))
          else read_log_lines parse is_json (ends_with [CHR 0x0A] bytes) 0 (rust_lines bytes) [])"

definition session_init_for ::
  "string \<Rightarrow> 'f session_entry list \<Rightarrow> (string \<times> string \<times> string list \<times> u64) option" where
  "session_init_for holder es =
     foldl (\<lambda>found e. case e of
         SessionInit _ h ep model tools hash \<Rightarrow> if h = holder then Some (ep, model, tools, hash) else found
       | _ \<Rightarrow> found) None es"

section \<open>Interrupted calls\<close>

record pending_maps =
  by_id :: "(string, string) hmap"
  by_id_name :: "(string, string list) hmap"
  by_name :: "(string, string list) hmap"

definition queue_at :: "(string, string list) hmap \<Rightarrow> string \<Rightarrow> string list" where
  "queue_at m t = (case map_of m t of None \<Rightarrow> [] | Some q \<Rightarrow> q)"

definition pending_start :: "string \<Rightarrow> string option \<Rightarrow> pending_maps \<Rightarrow> pending_maps" where
  "pending_start t cid p =
     (case cid of
        Some i \<Rightarrow> p\<lparr>by_id := AList.update i t (by_id p),
                    by_id_name := AList.update t (queue_at (by_id_name p) t @ [i]) (by_id_name p)\<rparr>
      | None \<Rightarrow> p\<lparr>by_name := AList.update t (queue_at (by_name p) t @ [t]) (by_name p)\<rparr>)"

definition pending_done :: "string \<Rightarrow> pending_maps \<Rightarrow> pending_maps" where
  "pending_done t p =
     (case queue_at (by_name p) t of
        _ # q \<Rightarrow> p\<lparr>by_name := AList.update t q (by_name p)\<rparr>
      | [] \<Rightarrow>
          (case queue_at (by_id_name p) t of
             i # q \<Rightarrow> p\<lparr>by_id_name := AList.update t q (by_id_name p), by_id := AList.delete i (by_id p)\<rparr>
           | [] \<Rightarrow> p))"

fun pending_step :: "string \<Rightarrow> pending_maps \<Rightarrow> 'f session_entry \<Rightarrow> pending_maps" where
  "pending_step holder p (ToolExecutionStart _ h t cid) = (if h = holder then pending_start t cid p else p)"
| "pending_step holder p (ToolCallEntry _ h t _ _ _) = (if h = holder then pending_done t p else p)"
| "pending_step holder p _ = p"

definition pending_tool_calls :: "'f session_entry list \<Rightarrow> string \<Rightarrow> string list" where
  "pending_tool_calls es holder =
     (let p = foldl (pending_step holder) \<lparr> by_id = [], by_id_name = [], by_name = [] \<rparr> es
      in sort (map snd (by_id p) @ concat (map snd (by_name p))))"

section \<open>Rehydration\<close>

datatype rehydration_mode = Prose | Structured

definition render_result_text :: "(json \<Rightarrow> string) \<Rightarrow> json \<Rightarrow> string" where
  "render_result_text dump v =
     (case json_get v ''success'' of
        Some (JString s) \<Rightarrow> s
      | Some w \<Rightarrow> dump w
      | None \<Rightarrow>
          (case json_get_str v ''error'' of
             Some s \<Rightarrow> ''Error: '' @ s
           | None \<Rightarrow> if json_get v ''requires_confirmation'' \<noteq> None
               then ''(rehydrated: tool call required confirmation)'' else dump v))"

definition pad4 :: "nat \<Rightarrow> string" where
  "pad4 n = replicate (4 - length (show_nat n)) (CHR ''0'') @ show_nat n"

definition log_time :: "(int \<Rightarrow> int option) \<Rightarrow> u64 \<Rightarrow> int" where
  "log_time to_time ts = (case to_time (uint ts * 1000000) of Some t \<Rightarrow> t | None \<Rightarrow> 0)"

definition rehydrate_step ::
  "(int \<Rightarrow> int option) \<Rightarrow> (json \<Rightarrow> string) \<Rightarrow> (nat \<Rightarrow> string) \<Rightarrow> string \<Rightarrow> chat_message list \<Rightarrow> 'f session_entry
     \<Rightarrow> chat_message list" where
  "rehydrate_step to_time dump fresh holder out e =
     (case e of
        ToolCallEntry ts h t args _ res \<Rightarrow>
          if h \<noteq> holder then out
          else
            (let i = ''rehydrated-'' @ pad4 (length out);
                 call = \<lparr> call_id = Some i, call_tool = t, call_args = args \<rparr>;
                 assistant = (message_text (fresh (length out)) RoleAssistant [] (log_time to_time ts))\<lparr>msg_calls := [call]\<rparr>;
                 answer = (message_text (fresh (length out + 1)) RoleTool (render_result_text dump res) (log_time to_time ts))
                   \<lparr>msg_call_id := Some i\<rparr>
             in out @ [assistant, answer])
      | _ \<Rightarrow> out)"

definition rehydrate_turns ::
  "(int \<Rightarrow> int option) \<Rightarrow> (json \<Rightarrow> string) \<Rightarrow> (nat \<Rightarrow> string) \<Rightarrow> 'f session_entry list \<Rightarrow> string \<Rightarrow> chat_message list" where
  "rehydrate_turns to_time dump fresh es holder = foldl (rehydrate_step to_time dump fresh holder) [] es"

definition prose_step ::
  "(int \<Rightarrow> int option) \<Rightarrow> (json \<Rightarrow> string) \<Rightarrow> (nat \<Rightarrow> string) \<Rightarrow> string \<Rightarrow> chat_message list \<Rightarrow> 'f session_entry
     \<Rightarrow> chat_message list" where
  "prose_step to_time dump fresh holder out e =
     (case e of
        ToolCallEntry ts h t args _ res \<Rightarrow>
          if h \<noteq> holder then out
          else out @ [message_text (fresh (length out)) RoleUser
            (''[rehydrated] Tool call `'' @ t @ ''` with arguments '' @ dump args @ '' returned:'' @ [CHR 0x0A]
              @ render_result_text dump res) (log_time to_time ts)]
      | _ \<Rightarrow> out)"

definition rehydrate_prose_turns ::
  "(int \<Rightarrow> int option) \<Rightarrow> (json \<Rightarrow> string) \<Rightarrow> (nat \<Rightarrow> string) \<Rightarrow> 'f session_entry list \<Rightarrow> string \<Rightarrow> chat_message list" where
  "rehydrate_prose_turns to_time dump fresh es holder = foldl (prose_step to_time dump fresh holder) [] es"

section \<open>Sweeping old logs\<close>

definition max_session_files :: nat where
  "max_session_files = 1000"

text \<open>The files of the directory that are \<open>.jsonl\<close> files, with their time and size; the result is
  the number removed and the files that stay. \<open>rm\<close> says which removals succeed.\<close>

definition sweep_session_logs ::
  "(string \<Rightarrow> bool) \<Rightarrow> (string \<times> nat \<times> nat) list \<Rightarrow> nat \<times> (string \<times> nat \<times> nat) list" where
  "sweep_session_logs rm fs =
     (let empties = filter (\<lambda>(p, t, n). n = 0) fs;
          full = filter (\<lambda>(p, t, n). n \<noteq> 0) fs;
          drop_list = (if max_session_files < length full
            then take (length full - max_session_files) (sort_key (\<lambda>(p, t, n). t) full) else []);
          gone = filter (\<lambda>(p, _). rm p) (empties @ drop_list)
      in (length gone, filter (\<lambda>f. f \<notin> set gone) fs))"

section \<open>What a crash leaves readable\<close>

text \<open>
  What is asked of the printer and the reader: a printed entry is one line, is read back as the
  entry, and no proper prefix of it is an entry.
\<close>

definition prints_lines :: "('e \<Rightarrow> string) \<Rightarrow> (string \<Rightarrow> string + 'e) \<Rightarrow> 'e list \<Rightarrow> bool" where
  "prints_lines ser parse es =
     list_all (\<lambda>e. parse (ser e) = Inr e \<and> plain_row (ser e) \<and> trim (ser e) \<noteq> []
       \<and> (\<forall>n < length (ser e). \<exists>why. parse (take n (ser e)) = Inl why)) es"

text \<open>How many lines a prefix of the given length holds completely, their last newline apart.\<close>

fun whole_lines :: "nat \<Rightarrow> string list \<Rightarrow> nat" where
  "whole_lines n [] = 0"
| "whole_lines n (l # ls) = (if n < length l then 0 else Suc (whole_lines (n - length l - 1) ls))"

lemma rust_lines_step: "CHR 0x0A \<notin> set x \<Longrightarrow> rust_lines (x @ CHR 0x0A # s) = strip_cr x # rust_lines s"
proof -
  assume x: "CHR 0x0A \<notin> set x"
  have "split_on (CHR 0x0A) s \<noteq> []" by (cases s) (auto split: list.splits)
  then show ?thesis using x by (simp add: rust_lines_def split_on_step Let_def)
qed

lemma rust_lines_partial: "CHR 0x0A \<notin> set x \<Longrightarrow> rust_lines x = (if x = [] then [] else [x])"
  by (simp add: rust_lines_def split_on_none)

lemma trim_empty [simp]: "trim [] = []"
  by (simp add: trim_def trim_start_def trim_end_def)

lemma whole_lines_zero: "prints_lines ser parse es \<Longrightarrow> whole_lines 0 (map ser es) = 0"
  by (cases es) (auto simp: prints_lines_def)

lemma read_log_prefix:
  assumes "prints_lines ser parse es"
    and "take n (concat (map (\<lambda>e. ser e @ [CHR 0x0A]) es)) \<noteq> [] \<Longrightarrow>
      ended = ends_with [CHR 0x0A] (take n (concat (map (\<lambda>e. ser e @ [CHR 0x0A]) es)))"
  shows "read_log_lines parse is_json ended i (rust_lines (take n (concat (map (\<lambda>e. ser e @ [CHR 0x0A]) es)))) out
     = Inr (out @ take (whole_lines n (map ser es)) es)"
  using assms
proof (induction es arbitrary: n i out)
  case Nil
  then show ?case by (simp add: rust_lines_partial)
next
  case (Cons e es)
  let ?more = "concat (map (\<lambda>e. ser e @ [CHR 0x0A]) es)"
  have e: "parse (ser e) = Inr e" "CHR 0x0A \<notin> set (ser e)" "strip_cr (ser e) = ser e" "trim (ser e) \<noteq> []"
    and es: "prints_lines ser parse es"
    using Cons.prems(1) by (auto simp: prints_lines_def plain_row_def strip_cr_def)
  consider "n < length (ser e)" | "n = length (ser e)" | m where "n = length (ser e) + 1 + m"
    by (metis Suc_eq_plus1 add_Suc less_iff_Suc_add linorder_neqE_nat add.commute)
  then show ?case
  proof cases
    case 1
    let ?x = "take n (ser e)"
    obtain why where why: "parse ?x = Inl why" using Cons.prems(1) 1 by (auto simp: prints_lines_def)
    have x: "CHR 0x0A \<notin> set ?x" using e(2) by (meson in_set_takeD)
    have tk: "take n (concat (map (\<lambda>e. ser e @ [CHR 0x0A]) (e # es))) = ?x" using 1 by simp
    have "\<not> ended" if "?x \<noteq> []"
    proof -
      have "ended = ends_with [CHR 0x0A] ?x" using Cons.prems(2) that unfolding tk by blast
      moreover have "last ?x \<noteq> CHR 0x0A" using x that by (metis last_in_set)
      ultimately show ?thesis using that by (cases ?x rule: rev_cases) (simp_all add: ends_with_def)
    qed
    then show ?thesis unfolding tk using 1 why by (simp add: rust_lines_partial [OF x])
  next
    case 2
    then show ?thesis using e whole_lines_zero [OF es] by (auto simp: rust_lines_partial)
  next
    case 3
    then have tk: "take n (concat (map (\<lambda>e. ser e @ [CHR 0x0A]) (e # es))) = ser e @ CHR 0x0A # take m ?more" by simp
    have "ended = ends_with [CHR 0x0A] (take m ?more)" if "take m ?more \<noteq> []"
      using Cons.prems(2) that unfolding tk by (cases "take m ?more" rule: rev_cases) (auto simp: ends_with_def)
    then have "read_log_lines parse is_json ended (i + 1) (rust_lines (take m ?more)) (out @ [e])
        = Inr (out @ e # take (whole_lines m (map ser es)) es)"
      using Cons.IH [OF es, of m "i + 1" "out @ [e]"] by simp
    then show ?thesis unfolding tk using e 3 by (simp add: rust_lines_step)
  qed
qed

text \<open>
  C16. A log cut at any byte, as a crash cuts it, is read back up to the last entry that was
  written completely, as long as the cut is not inside a character: the partial line at the end is
  dropped, as the comment in the body of \<open>read_session\<close> says. The doc comment above the function
  says the opposite, that a partial line is a hard error and not skipped.
\<close>

theorem cut_log_is_read_back:
  fixes n :: nat
  assumes "prints_lines ser parse es"
  defines "bytes \<equiv> take n (concat (map (log_line ser) es))"
  assumes "valid_utf8 bytes" and "length bytes \<le> max_session_log_bytes"
  shows "read_session parse is_json io_text shown (Some bytes) = Inr (take (whole_lines n (map ser es)) es)"
proof -
  have b: "bytes = take n (concat (map (\<lambda>e. ser e @ [CHR 0x0A]) es))" by (simp add: bytes_def log_line_def [abs_def])
  have "read_log_lines parse is_json (ends_with [CHR 0x0A] bytes) 0 (rust_lines bytes) []
      = Inr ([] @ take (whole_lines n (map ser es)) es)"
    unfolding b by (rule read_log_prefix [OF assms(1)]) simp
  then show ?thesis using assms(3,4) by (simp add: read_session_def)
qed

definition toy_print :: "bool \<Rightarrow> string" where
  "toy_print b = (if b then ''{}'' else ''{1}'')"

definition toy_parse :: "string \<Rightarrow> string + bool" where
  "toy_parse s = (if s = ''{}'' then Inr True else if s = ''{1}'' then Inr False else Inl ''bad'')"

theorem cut_log_is_read_back_witness:
  "read_session toy_parse (\<lambda>_. False) (\<lambda>_. []) ''log'' (Some (take 5 (concat (map (log_line toy_print) [True, False]))))
     = Inr [True]"
proof -
  have bad: "\<exists>why. toy_parse (take n ''{}'') = Inl why" if "n < 2" for n
    using that by (cases n; cases "n - 1") (auto simp: toy_parse_def)
  have bad1: "\<exists>why. toy_parse (take n ''{1}'') = Inl why" if "n < 3" for n
    using that by (cases n; cases "n - 1"; cases "n - 2") (auto simp: toy_parse_def)
  have t: "trim ''{}'' = ''{}''" "trim ''{1}'' = ''{1}''" by code_simp+
  have p: "prints_lines toy_print toy_parse [True, False]"
    using bad bad1 t by (simp add: prints_lines_def toy_print_def plain_row_def) (simp add: toy_parse_def)
  have v: "valid_utf8 (take 5 (concat (map (log_line toy_print) [True, False])))"
    "length (take 5 (concat (map (log_line toy_print) [True, False]))) \<le> max_session_log_bytes"
    by (simp_all add: log_line_def toy_print_def valid_utf8_def max_session_log_bytes_def)
  show ?thesis using cut_log_is_read_back [OF p v] by (simp add: toy_print_def)
qed

text \<open>A cut inside a character makes the whole log unreadable, and so does a line appended to a
  partial one.\<close>

lemma cut_inside_character_loses_log:
  "length bytes \<le> max_session_log_bytes \<Longrightarrow> \<not> valid_utf8 bytes \<Longrightarrow>
   read_session parse is_json io_text shown (Some bytes) = Inl (KIo (io_text shown))"
  by (simp add: read_session_def)

lemma character_cut: "valid_utf8 (utf8_char 233) \<and> \<not> valid_utf8 (take 1 (utf8_char 233))"
  by (simp add: valid_utf8_def utf8_char_def cont_val_def)

lemma appended_line_loses_log:
  assumes "parse (x @ y) = Inl why" "\<not> is_json (x @ y)" "trim (x @ y) \<noteq> []" "plain_row (x @ y)"
    and "valid_utf8 (x @ y @ [CHR 0x0A])" "length (x @ y) < max_session_log_bytes"
  shows "read_session parse is_json io_text shown (Some (x @ y @ [CHR 0x0A]))
     = Inl (KDeserialization (''line 1: '' @ why))"
proof -
  have "rust_lines ((x @ y) @ [CHR 0x0A]) = [x @ y]"
    using rust_lines_rows [of "[x @ y]"] assms(4) by simp
  moreover have "show_nat 1 = ''1''" by code_simp
  ultimately show ?thesis using assms
    by (simp add: read_session_def ends_with_def)
qed

section \<open>Interrupted calls are those started and not completed\<close>

text \<open>The specification: a count for every tool, which a completion lowers when it is positive.\<close>

fun balance_step :: "string \<Rightarrow> string \<Rightarrow> nat \<Rightarrow> 'f session_entry \<Rightarrow> nat" where
  "balance_step holder t n (ToolExecutionStart _ h u _) = (if h = holder \<and> u = t then n + 1 else n)"
| "balance_step holder t n (ToolCallEntry _ h u _ _ _) = (if h = holder \<and> u = t then n - 1 else n)"
| "balance_step holder t n _ = n"

fun started_id :: "string \<Rightarrow> 'f session_entry \<Rightarrow> string list" where
  "started_id holder (ToolExecutionStart _ h _ (Some i)) = (if h = holder then [i] else [])"
| "started_id holder _ = []"

lemma hm_sum_update:
  "keys_distinct m \<Longrightarrow> hm_sum f (AList.update k v m) + (case map_of m k of None \<Rightarrow> 0 | Some w \<Rightarrow> f w) = hm_sum f m + f v"
  using hm_sum_update_new [of m k f v] hm_sum_update_old [of m k _ f v] by (cases "map_of m k") auto

definition pending_inv :: "pending_maps \<Rightarrow> bool" where
  "pending_inv p =
     (keys_distinct (by_id p) \<and> keys_distinct (by_id_name p) \<and> keys_distinct (by_name p)
      \<and> (\<forall>t. distinct (queue_at (by_id_name p) t) \<and> set (queue_at (by_name p) t) \<subseteq> {t}
           \<and> (\<forall>i. i \<in> set (queue_at (by_id_name p) t) \<longrightarrow> map_of (by_id p) i = Some t)
           \<and> hm_sum (\<lambda>u. of_bool (u = t)) (by_id p) = length (queue_at (by_id_name p) t)
           \<and> hm_sum (\<lambda>q. count_list q t) (by_name p) = length (queue_at (by_name p) t)))"

definition pending_count :: "pending_maps \<Rightarrow> string \<Rightarrow> nat" where
  "pending_count p t = length (queue_at (by_id_name p) t) + length (queue_at (by_name p) t)"

lemma queue_at_update [simp]: "queue_at (AList.update k v m) t = (if t = k then v else queue_at m t)"
  by (cases "t = k") (simp_all add: queue_at_def)

lemma count_queue: "set q \<subseteq> {t} \<Longrightarrow> count_list q u = (if u = t then length q else 0)"
  by (induction q) auto

lemma pending_start_inv:
  assumes "pending_inv p" and "\<And>i. cid = Some i \<Longrightarrow> map_of (by_id p) i = None"
  shows "pending_inv (pending_start t cid p)"
    and "pending_count (pending_start t cid p) u = pending_count p u + of_bool (u = t)"
proof -
  show "pending_count (pending_start t cid p) u = pending_count p u + of_bool (u = t)"
    by (cases cid) (auto simp: pending_start_def pending_count_def)
  show "pending_inv (pending_start t cid p)"
  proof (cases cid)
    case (Some i)
    then have "map_of (by_id p) i = None" using assms(2) by simp
    moreover from this have "i \<notin> set (queue_at (by_id_name p) t)" using assms(1) by (force simp: pending_inv_def)
    moreover have "map_of (by_id p) j = Some u \<Longrightarrow> map_of (AList.update i t (by_id p)) j = Some u" for j u
      using \<open>map_of (by_id p) i = None\<close> by (cases "j = i") auto
    ultimately show ?thesis using assms(1) Some
      by (auto simp: pending_start_def pending_inv_def keys_distinct_update hm_sum_update_new)
  next
    case None
    have q: "hm_sum (\<lambda>q. count_list q u) (AList.update t (queue_at (by_name p) t @ [t]) (by_name p))
        = hm_sum (\<lambda>q. count_list q u) (by_name p) + of_bool (u = t)" for u
      using hm_sum_update [of "by_name p" "\<lambda>q. count_list q u" t "queue_at (by_name p) t @ [t]"] assms(1)
        count_queue [of "queue_at (by_name p) t" t u]
      by (cases "map_of (by_name p) t") (auto simp: pending_inv_def queue_at_def)
    show ?thesis using assms(1) None q by (auto simp: pending_start_def pending_inv_def keys_distinct_update)
  qed
qed

lemma pending_done_inv:
  assumes "pending_inv p"
  shows "pending_inv (pending_done t p)"
    and "pending_count (pending_done t p) u = (if u = t then pending_count p u - 1 else pending_count p u)"
proof -
  show "pending_count (pending_done t p) u = (if u = t then pending_count p u - 1 else pending_count p u)"
    by (auto simp: pending_done_def pending_count_def split: list.splits)
  show "pending_inv (pending_done t p)"
  proof (cases "queue_at (by_name p) t")
    case (Cons x q)
    have sub: "set (queue_at (by_name p) t) \<subseteq> {t}" using assms by (simp add: pending_inv_def)
    have m: "map_of (by_name p) t = Some (x # q)" using Cons by (auto simp: queue_at_def split: option.splits)
    have "hm_sum (\<lambda>q. count_list q u) (AList.update t q (by_name p)) + (if u = t then 1 else 0)
        = hm_sum (\<lambda>q. count_list q u) (by_name p)" for u
      using hm_sum_update_old [of "by_name p" t "x # q" "\<lambda>q. count_list q u" q] assms m sub Cons
        count_queue [of q t u] by (auto simp: pending_inv_def split: if_splits)
    then have "hm_sum (\<lambda>q. count_list q u) (AList.update t q (by_name p))
        = hm_sum (\<lambda>q. count_list q u) (by_name p) - (if u = t then 1 else 0)" for u
      by (metis add_diff_cancel_right')
    moreover have "set q \<subseteq> {t}" using sub Cons by simp
    ultimately show ?thesis using assms Cons
      by (auto simp: pending_done_def pending_inv_def keys_distinct_update)
  next
    case no_name: Nil
    show ?thesis
    proof (cases "queue_at (by_id_name p) t")
      case Nil
      then show ?thesis using no_name assms by (simp add: pending_done_def)
    next
      case (Cons i q)
      have m: "map_of (by_id p) i = Some t" and d: "i \<notin> set q" "distinct q"
        using assms Cons unfolding pending_inv_def by (metis list.set_intros(1), metis distinct.simps(2), metis distinct.simps(2))
      have other: "map_of (AList.delete i (by_id p)) j = map_of (by_id p) j"
        if "j \<in> set (queue_at (by_id_name p) u)" "u \<noteq> t" for j u
        using that assms m by (cases "j = i") (auto simp: pending_inv_def)
      have same: "map_of (AList.delete i (by_id p)) j = Some t" if "j \<in> set q" for j
        using that assms Cons d by (cases "j = i") (auto simp: pending_inv_def)
      have "hm_sum (\<lambda>v. of_bool (v = u)) (AList.delete i (by_id p)) + of_bool (t = u)
          = hm_sum (\<lambda>v. of_bool (v = u)) (by_id p)" for u
        using hm_sum_delete [of "by_id p" i t "\<lambda>v. of_bool (v = u)"] assms m by (simp add: pending_inv_def)
      then have sum: "hm_sum (\<lambda>v. of_bool (v = u)) (AList.delete i (by_id p))
          = hm_sum (\<lambda>v. of_bool (v = u)) (by_id p) - of_bool (t = u)" for u
        by (metis add_diff_cancel_right')
      show ?thesis using assms no_name Cons d other same
        by (auto simp: pending_done_def pending_inv_def keys_distinct_update keys_distinct_delete sum)
    qed
  qed
qed

text \<open>What one entry does to the maps, by cases.\<close>

lemma pending_step_cases:
  obtains (other) "pending_step h p e = p" "\<And>t n. balance_step h t n e = n" "started_id h e = []"
    | (start) u cid where "pending_step h p e = pending_start u cid p"
        "\<And>t n. balance_step h t n e = n + of_bool (t = u)"
        "started_id h e = (case cid of None \<Rightarrow> [] | Some i \<Rightarrow> [i])"
    | (settle) u where "pending_step h p e = pending_done u p"
        "\<And>t n. balance_step h t n e = (if t = u then n - 1 else n)" "started_id h e = []"
proof (cases e)
  case (ToolExecutionStart ts g u cid)
  then show ?thesis
    using start [of u cid] other by (cases "g = h"; cases cid) auto
next
  case (ToolCallEntry ts g u args d res)
  then show ?thesis using settle [of u] other by (cases "g = h") auto
qed (auto intro: other)

lemma pending_id_seen:
  "map_of (by_id (pending_step h p e)) i \<noteq> None \<Longrightarrow> map_of (by_id p) i \<noteq> None \<or> i \<in> set (started_id h e)"
  by (cases rule: pending_step_cases [of h p e])
    (auto simp: pending_start_def pending_done_def update_conv' delete_conv' split: option.splits list.splits if_splits)

lemma pending_step_inv:
  assumes "pending_inv p" and "\<forall>i \<in> set (started_id h e). map_of (by_id p) i = None"
  shows "pending_inv (pending_step h p e)"
    and "pending_count (pending_step h p e) t = balance_step h t (pending_count p t) e"
  using assms
  by (cases rule: pending_step_cases [of h p e]; auto simp: pending_start_inv pending_done_inv split: option.splits)+

lemma pending_run:
  "pending_inv p \<Longrightarrow> distinct (concat (map (started_id h) es)) \<Longrightarrow>
   \<forall>i \<in> set (concat (map (started_id h) es)). map_of (by_id p) i = None \<Longrightarrow>
   pending_inv (foldl (pending_step h) p es)
     \<and> pending_count (foldl (pending_step h) p es) t = foldl (balance_step h t) (pending_count p t) es"
proof (induction es arbitrary: p)
  case (Cons e es)
  have "\<forall>i \<in> set (started_id h e). map_of (by_id p) i = None" using Cons.prems(3) by simp
  note st = pending_step_inv [OF Cons.prems(1) this]
  have "map_of (by_id (pending_step h p e)) i = None" if "i \<in> set (concat (map (started_id h) es))" for i
    using that Cons.prems(2,3) pending_id_seen [of h p e i] by auto
  then show ?case using Cons.IH [OF st(1)] Cons.prems(2) st(2) by simp
qed simp

lemma count_values: "count_list (map snd m) v = hm_sum (\<lambda>u. of_bool (u = v)) m"
  by (induction m) (auto simp: hm_sum_def)

lemma count_queues: "count_list (concat (map snd m)) v = hm_sum (\<lambda>q. count_list q v) m"
  by (induction m) (auto simp: hm_sum_def)

lemma pending_counts:
  assumes "distinct (concat (map (started_id holder) es))"
  shows "count_list (pending_tool_calls es holder) t = foldl (balance_step holder t) 0 es
    \<and> sorted (pending_tool_calls es holder)"
proof -
  let ?start = "\<lparr> by_id = [], by_id_name = [], by_name = [] \<rparr>"
  let ?p = "foldl (pending_step holder) ?start es"
  have "pending_inv ?start" "pending_count ?start t = 0"
    by (simp_all add: pending_inv_def pending_count_def queue_at_def)
  moreover have "\<forall>i \<in> set (concat (map (started_id holder) es)). map_of (by_id ?start) i = None" by simp
  ultimately have r: "pending_inv ?p" "pending_count ?p t = foldl (balance_step holder t) 0 es"
    using pending_run [OF _ assms, of ?start t] by metis+
  have "count_list (sort xs) t = count_list xs t" for xs :: "string list"
    by (metis count_mset mset_sort)
  then show ?thesis
    using r(1) r(2) [symmetric] unfolding pending_tool_calls_def Let_def pending_inv_def pending_count_def
    by (simp add: count_values count_queues del: foldl_Cons)
qed

text \<open>
  The report is a sorted list, so the counts determine it. When the calls of a first part of the log
  are all completed, that part does not change the report on the rest.
\<close>

lemma sorted_by_counts: "sorted xs \<Longrightarrow> sorted ys \<Longrightarrow> (\<And>t. count_list xs t = count_list ys t) \<Longrightarrow> xs = (ys :: string list)"
proof -
  assume s: "sorted xs" "sorted ys" and c: "\<And>t. count_list xs t = count_list ys t"
  have "mset xs = mset ys" using c by (intro multiset_eqI) (simp add: count_mset)
  then show ?thesis using s by (metis sorted_sort_id properties_for_sort)
qed

lemma settled_part_is_forgotten:
  assumes "distinct (concat (map (started_id holder) (before @ rest)))" and "pending_tool_calls before holder = []"
  shows "pending_tool_calls (before @ rest) holder = pending_tool_calls rest holder"
proof -
  have d: "distinct (concat (map (started_id holder) before))" "distinct (concat (map (started_id holder) rest))"
    using assms(1) by simp_all
  have "foldl (balance_step holder t) 0 before = 0" for t
    using pending_counts [OF d(1), of t] assms(2) by simp
  then have "count_list (pending_tool_calls (before @ rest) holder) t = count_list (pending_tool_calls rest holder) t" for t
    using pending_counts [OF assms(1), of t] pending_counts [OF d(2), of t] by simp
  then show ?thesis
    using sorted_by_counts pending_counts [OF assms(1)] pending_counts [OF d(2)] by blast
qed


definition sample_session :: "nat session_entry list" where
  "sample_session =
     [ToolExecutionStart 1 ''s'' ''bash'' (Some ''a''), ToolExecutionStart 2 ''s'' ''bash'' (Some ''b''),
      ToolCallEntry 3 ''s'' ''bash'' JNull 5 JNull, ToolExecutionStart 4 ''s'' ''grep'' None]"


text \<open>A call of an earlier session stays in the report, and two calls that share an id count once.\<close>

lemma earlier_session_still_reported:
  "pending_tool_calls [ToolExecutionStart 1 ''s'' ''bash'' (Some ''a''), SessionInit 2 ''s'' e m ts h] ''s'' = [''bash'']"
  by (simp add: pending_tool_calls_def pending_start_def Let_def)

lemma shared_id_counts_once:
  "pending_tool_calls [ToolExecutionStart 1 ''s'' ''bash'' (Some ''a''), ToolExecutionStart 2 ''s'' ''grep'' (Some ''a'')] ''s''
     = [''grep'']"
  by (simp add: pending_tool_calls_def pending_start_def Let_def)

section \<open>A rehydrated transcript pairs calls and results\<close>

definition answers :: "chat_message \<Rightarrow> chat_message \<Rightarrow> bool" where
  "answers a b =
     (msg_role a = RoleAssistant \<and> msg_role b = RoleTool \<and> msg_call_id b \<noteq> None
      \<and> map call_id (msg_calls a) = [msg_call_id b])"

fun paired :: "chat_message list \<Rightarrow> bool" where
  "paired [] = True"
| "paired [m] = False"
| "paired (a # b # ms) = (answers a b \<and> paired ms)"

fun logged_call :: "string \<Rightarrow> 'f session_entry \<Rightarrow> (string \<times> json) list" where
  "logged_call holder (ToolCallEntry _ h t args _ _) = (if h = holder then [(t, args)] else [])"
| "logged_call holder _ = []"

definition result_ids :: "chat_message list \<Rightarrow> string list" where
  "result_ids ms = List.map_filter msg_call_id ms"

lemma paired_append: "paired xs \<Longrightarrow> paired ys \<Longrightarrow> paired (xs @ ys)"
  by (induction xs rule: paired.induct) auto

lemma parse_zeros: "parse_digits 10 0 (replicate k (CHR ''0'') @ s) = parse_digits 10 0 s"
proof -
  have "digit_val (CHR ''0'') = Some 0" by code_simp
  then show ?thesis by (induction k) simp_all
qed

lemma pad4_inject: "pad4 m = pad4 n \<Longrightarrow> m = n"
  by (metis pad4_def parse_zeros parse_digits_show_nat option.inject)

definition turns_inv :: "chat_message list \<Rightarrow> (string \<times> json) list \<Rightarrow> bool" where
  "turns_inv out calls =
     (paired out \<and> length out = 2 * length calls
      \<and> map (\<lambda>c. (call_tool c, call_args c)) (concat (map msg_calls out)) = calls
      \<and> result_ids out = map (\<lambda>k. ''rehydrated-'' @ pad4 (2 * k)) [0..<length calls])"

lemma rehydrate_step_inv:
  "turns_inv out calls \<Longrightarrow> turns_inv (rehydrate_step tt dump fresh h out e) (calls @ logged_call h e)"
  by (cases e)
    (auto simp: turns_inv_def rehydrate_step_def Let_def paired_append answers_def message_text_def
      result_ids_def map_filter_def)

text \<open>
  C18. Rehydration rebuilds a well-formed transcript from any log: every assistant message carries
  one call and is followed by the tool message that answers it by its id, the ids are all
  different, and the calls are those logged for the holder, in order, with their arguments.
\<close>

theorem rehydrated_calls_are_answered:
  "paired (rehydrate_turns tt dump fresh es h) \<and> distinct (result_ids (rehydrate_turns tt dump fresh es h))
     \<and> map (\<lambda>c. (call_tool c, call_args c)) (concat (map msg_calls (rehydrate_turns tt dump fresh es h)))
         = concat (map (logged_call h) es)"
proof -
  have "turns_inv out calls \<Longrightarrow>
      turns_inv (foldl (rehydrate_step tt dump fresh h) out es) (calls @ concat (map (logged_call h) es))" for out calls
  proof (induction es arbitrary: out calls)
    case (Cons e es)
    then show ?case using Cons.IH [OF rehydrate_step_inv [OF Cons.prems]] by simp
  qed simp
  moreover have "turns_inv [] []" by (simp add: turns_inv_def result_ids_def map_filter_def)
  ultimately have "turns_inv (rehydrate_turns tt dump fresh es h) (concat (map (logged_call h) es))"
    unfolding rehydrate_turns_def by fastforce
  then show ?thesis by (auto simp: turns_inv_def distinct_map inj_on_def dest: pad4_inject)
qed

section \<open>The sweep keeps the newest logs\<close>

lemma sorted_key_split:
  assumes "f \<in> set (take k (sort_key key xs))" "g \<in> set (drop k (sort_key key xs))"
  shows "key f \<le> key g"
proof -
  have "sorted (map key (take k (sort_key key xs) @ drop k (sort_key key xs)))"
    by (simp only: append_take_drop_id sorted_sort_key)
  then have "\<forall>x \<in> key ` set (take k (sort_key key xs)). \<forall>y \<in> key ` set (drop k (sort_key key xs)). x \<le> y"
    unfolding map_append sorted_append set_map by blast
  then show ?thesis using assms by blast
qed

text \<open>
  When every removal succeeds, the sweep leaves at most 1000 logs and no empty one, every log
  it removes is counted, and a log with content is removed only to make room for 1000 that are not
  older.
\<close>

theorem sweep_keeps_the_newest:
  assumes "distinct fs"
  defines "kept \<equiv> snd (sweep_session_logs (\<lambda>_. True) fs)"
  shows "length kept \<le> max_session_files \<and> set kept \<subseteq> set fs \<and> list_all (\<lambda>(p, t, n). n \<noteq> 0) kept
    \<and> fst (sweep_session_logs (\<lambda>_. True) fs) + length kept = length fs
    \<and> (\<forall>f \<in> set fs - set kept. snd (snd f) = 0
         \<or> length kept = max_session_files \<and> (\<forall>g \<in> set kept. fst (snd f) \<le> fst (snd g)))"
proof -
  let ?full = "filter (\<lambda>(p, t, n). n \<noteq> 0) fs"
  let ?empty = "filter (\<lambda>(p, t, n). n = 0) fs"
  let ?s = "sort_key (\<lambda>(p, t, n). t) ?full"
  define k where "k = length ?full - max_session_files"
  have drp: "(if max_session_files < length ?full then take (length ?full - max_session_files) ?s else []) = take k ?s"
    by (simp add: k_def)
  have sw: "sweep_session_logs (\<lambda>_. True) fs = (length (?empty @ take k ?s), filter (\<lambda>f. f \<notin> set (?empty @ take k ?s)) fs)"
    unfolding sweep_session_logs_def Let_def drp by (simp add: case_prod_unfold)
  have ds: "distinct ?s" "set ?s = set ?full" using assms(1) by simp_all
  have cut: "set (take k ?s) \<inter> set (drop k ?s) = {}" "set (take k ?s) \<union> set (drop k ?s) = set ?full"
    using ds by (metis append_take_drop_id distinct_append, metis append_take_drop_id set_append)
  have kept: "set kept = set (drop k ?s)"
    using cut by (auto simp: kept_def sw)
  moreover have "distinct kept" using assms(1) by (simp add: kept_def sw)
  moreover have "distinct (drop k ?s)" using ds by simp
  ultimately have len: "length kept = length ?full - k"
    by (metis distinct_card length_drop length_sort)
  have le: "k \<le> length ?full" by (simp add: k_def)
  have "length ?empty + length ?full = length fs"
    by (induction fs) auto
  then have total: "fst (sweep_session_logs (\<lambda>_. True) fs) + length kept = length fs"
    using len le unfolding sw fst_conv length_append length_take length_sort by linarith
  have old: "fst (snd f) \<le> fst (snd g)" if "f \<in> set (take k ?s)" "g \<in> set (drop k ?s)" for f g
    using sorted_key_split [OF that] by (simp add: case_prod_unfold)
  have at_cap: "length kept = max_session_files" if "f \<in> set (take k ?s)" for f
    using len that by (cases "k = 0") (auto simp: k_def)
  have "snd (snd f) = 0 \<or> length kept = max_session_files \<and> (\<forall>g \<in> set kept. fst (snd f) \<le> fst (snd g))"
    if f: "f \<in> set fs - set kept" for f
  proof (cases "snd (snd f) = 0")
    case False
    then have "f \<in> set ?full" using f by (auto simp: case_prod_unfold)
    then have "f \<in> set (take k ?s)" using f cut(2) unfolding kept by blast
    then show ?thesis using at_cap old unfolding kept by blast
  qed simp
  moreover have "list_all (\<lambda>(p, t, n). n \<noteq> 0) kept" "set kept \<subseteq> set fs"
  proof -
    have "set kept \<subseteq> set ?full" using kept cut(2) by blast
    then show "list_all (\<lambda>(p, t, n). n \<noteq> 0) kept" "set kept \<subseteq> set fs"
      unfolding list_all_iff set_filter by blast+
  qed
  ultimately show ?thesis using total len by (auto simp: k_def)
qed

theorem sweep_keeps_the_newest_witness:
  "fst (sweep_session_logs (\<lambda>_. True) [(''a'', 1, 0), (''b'', 2, 9)]) + length (snd (sweep_session_logs (\<lambda>_. True) [(''a'', 1, 0), (''b'', 2, 9)])) = 2"
  using sweep_keeps_the_newest [of "[(''a'', 1, 0), (''b'', 2, 9)]"] by simp

end
