(* ===== verification/Kod_Line_Editor.thy ===== *)
theory Kod_Line_Editor
  imports Kod_Text
begin

text \<open>
  The input box of the terminal interface: \<open>crates/kod-tui/src/app/input.rs\<close>, a text with a
  cursor in bytes, the ranges of pasted text and the history ring. The specification is a pair of
  lists of characters, those before and those after the cursor; the lemmas show that the byte
  loops implement it, so that no operation slices a character, and that the pasted ranges stay
  disjoint parts of the text.
\<close>

section \<open>State\<close>

type_synonym range = "nat \<times> nat"

record editor =
  inp :: string
  cursor :: nat
  pasted :: "range list"
  history :: "string list"
  hist_index :: "nat option"
  draft :: string

definition editor_new :: editor where
  "editor_new = \<lparr> inp = [], cursor = 0, pasted = [], history = [], hist_index = None, draft = [] \<rparr>"

abbreviation lf_char :: char where
  "lf_char \<equiv> CHR 0x0A"

abbreviation space :: char where
  "space \<equiv> CHR '' ''"

text \<open>The loops over the bytes.\<close>

function ceil_loop :: "string \<Rightarrow> nat \<Rightarrow> nat" where
  "ceil_loop s pos = (if pos < length s \<and> \<not> is_char_boundary s pos then ceil_loop s (pos + 1) else pos)"
  by pat_completeness auto
termination
  by (relation "measure (\<lambda>(s, pos). length s - pos)") auto

declare ceil_loop.simps [simp del]

fun skip_back :: "(char \<Rightarrow> bool) \<Rightarrow> string \<Rightarrow> nat \<Rightarrow> nat" where
  "skip_back P s 0 = 0"
| "skip_back P s (Suc i) = (if P (s ! i) then skip_back P s i else Suc i)"

function skip_forward :: "(char \<Rightarrow> bool) \<Rightarrow> string \<Rightarrow> nat \<Rightarrow> nat" where
  "skip_forward P s pos = (if pos < length s \<and> P (s ! pos) then skip_forward P s (pos + 1) else pos)"
  by pat_completeness auto
termination
  by (relation "measure (\<lambda>(P, s, pos). length s - pos)") auto

declare skip_forward.simps [simp del]

definition last_index_of :: "char \<Rightarrow> string \<Rightarrow> nat option" where
  "last_index_of c s = map_option (\<lambda>i. length s - 1 - i) (find_char c (rev s))"

section \<open>Pasted ranges\<close>

definition shift_block :: "nat \<Rightarrow> nat \<Rightarrow> nat \<Rightarrow> range \<Rightarrow> range option" where
  "shift_block es ee n r =
     (let d = int n - int (ee - es) in
      if snd r \<le> es then Some r
      else if ee \<le> fst r then Some (nat (int (fst r) + d), nat (int (snd r) + d))
      else None)"

definition shift_paste_blocks :: "nat \<Rightarrow> nat \<Rightarrow> nat \<Rightarrow> range list \<Rightarrow> range list" where
  "shift_paste_blocks es ee n rs = List.map_filter (shift_block es ee n) rs"

text \<open>Every edit replaces a range of the text and shifts the pasted ranges.\<close>

definition drain :: "nat \<Rightarrow> nat \<Rightarrow> editor \<Rightarrow> editor" where
  "drain s e ed = ed\<lparr>inp := take s (inp ed) @ drop e (inp ed), pasted := shift_paste_blocks s e 0 (pasted ed)\<rparr>"

section \<open>Operations\<close>

definition set_input :: "string \<Rightarrow> editor \<Rightarrow> editor" where
  "set_input s ed = ed\<lparr>inp := s, cursor := length s, pasted := []\<rparr>"

definition add_char :: "string \<Rightarrow> editor \<Rightarrow> editor" where
  "add_char ch ed =
     (let pos = min (cursor ed) (length (inp ed)) in
      ed\<lparr>pasted := shift_paste_blocks pos pos (length ch) (pasted ed),
         inp := take pos (inp ed) @ ch @ drop pos (inp ed), cursor := pos + length ch\<rparr>)"

definition insert_newline :: "editor \<Rightarrow> editor" where
  "insert_newline = add_char [lf_char]"

definition move_cursor_left :: "editor \<Rightarrow> editor" where
  "move_cursor_left ed = (if 0 < cursor ed then ed\<lparr>cursor := floor_loop (inp ed) (cursor ed - 1)\<rparr> else ed)"

definition move_cursor_right :: "editor \<Rightarrow> editor" where
  "move_cursor_right ed =
     (if cursor ed < length (inp ed) then ed\<lparr>cursor := ceil_loop (inp ed) (cursor ed + 1)\<rparr> else ed)"

definition word_start :: "string \<Rightarrow> nat \<Rightarrow> nat" where
  "word_start s pos = skip_back (\<lambda>c. c \<noteq> space \<and> c \<noteq> lf_char) s (skip_back (\<lambda>c. c = space) s pos)"

definition delete_word_before :: "editor \<Rightarrow> editor" where
  "delete_word_before ed =
     (if cursor ed = 0 then ed
      else (let start = word_start (inp ed) (cursor ed) in (drain start (cursor ed) ed)\<lparr>cursor := start\<rparr>))"

definition delete_to_line_start :: "editor \<Rightarrow> editor" where
  "delete_to_line_start ed =
     (let start = (case last_index_of lf_char (take (cursor ed) (inp ed)) of None \<Rightarrow> 0 | Some i \<Rightarrow> i + 1)
      in (drain start (cursor ed) ed)\<lparr>cursor := start\<rparr>)"

definition cursor_line_col :: "editor \<Rightarrow> nat \<times> nat" where
  "cursor_line_col ed =
     (let before = take (min (cursor ed) (length (inp ed))) (inp ed) in
      (length (filter (\<lambda>c. c = lf_char) before), char_count (last (split_on lf_char before))))"

definition is_multiline_input :: "editor \<Rightarrow> bool" where
  "is_multiline_input ed = (lf_char \<in> set (inp ed))"

definition backspace :: "editor \<Rightarrow> editor" where
  "backspace ed =
     (if 0 < cursor ed then
        (let old = min (cursor ed) (length (inp ed));
             ed1 = move_cursor_left (ed\<lparr>cursor := old\<rparr>)
         in drain (cursor ed1) old ed1)
      else ed)"

definition delete_at_cursor :: "editor \<Rightarrow> editor" where
  "delete_at_cursor ed =
     (let pos = min (cursor ed) (length (inp ed)); ed1 = ed\<lparr>cursor := pos\<rparr> in
      if length (inp ed) \<le> pos then ed1 else drain pos (ceil_loop (inp ed) (pos + 1)) ed1)"

definition clear_input :: "editor \<Rightarrow> editor" where
  "clear_input ed = ed\<lparr>inp := [], cursor := 0, pasted := []\<rparr>"

text \<open>The text of the message that is added, and the new state.\<close>

definition submit_input :: "editor \<Rightarrow> string option \<times> editor" where
  "submit_input ed =
     (if inp ed \<noteq> [] then
        (Some (inp ed), (clear_input (ed\<lparr>history := history ed @ [inp ed]\<rparr>))\<lparr>hist_index := None\<rparr>)
      else (None, ed))"

definition reset_history_index :: "editor \<Rightarrow> editor" where
  "reset_history_index ed = ed\<lparr>hist_index := None\<rparr>"

definition history_previous :: "editor \<Rightarrow> editor" where
  "history_previous ed =
     (if history ed = [] then ed
      else (case hist_index ed of
          None \<Rightarrow> set_input (history ed ! (length (history ed) - 1))
            (ed\<lparr>draft := inp ed, hist_index := Some (length (history ed) - 1)\<rparr>)
        | Some i \<Rightarrow> if i = 0 then ed else set_input (history ed ! (i - 1)) (ed\<lparr>hist_index := Some (i - 1)\<rparr>)))"

definition history_next :: "editor \<Rightarrow> editor" where
  "history_next ed =
     (if history ed = [] then ed
      else (case hist_index ed of
          None \<Rightarrow> ed
        | Some i \<Rightarrow>
            if length (history ed) - 1 \<le> i then set_input (draft ed) (ed\<lparr>hist_index := None, draft := []\<rparr>)
            else set_input (history ed ! (i + 1)) (ed\<lparr>hist_index := Some (i + 1)\<rparr>)))"

definition move_cursor_word_left :: "editor \<Rightarrow> editor" where
  "move_cursor_word_left ed =
     (if cursor ed = 0 then ed
      else ed\<lparr>cursor := floor_loop (inp ed) (word_start (inp ed) (cursor ed))\<rparr>)"

definition move_cursor_word_right :: "editor \<Rightarrow> editor" where
  "move_cursor_word_right ed =
     (if length (inp ed) \<le> cursor ed then ed
      else ed\<lparr>cursor := ceil_loop (inp ed) (skip_forward (\<lambda>c. c = space) (inp ed)
             (skip_forward (\<lambda>c. c \<noteq> space \<and> c \<noteq> lf_char) (inp ed) (cursor ed)))\<rparr>)"

definition cut_to_end :: "editor \<Rightarrow> editor" where
  "cut_to_end ed =
     (let c = min (cursor ed) (length (inp ed));
          e = (case find_char lf_char (drop c (inp ed)) of None \<Rightarrow> length (inp ed) | Some i \<Rightarrow> c + i)
      in drain c e (ed\<lparr>cursor := c\<rparr>))"

definition insert_paste :: "string \<Rightarrow> editor \<Rightarrow> editor" where
  "insert_paste text ed =
     (let clean = filter (\<lambda>c. c \<noteq> CHR 0x0D) text in
      if clean = [] then ed
      else
        (let pos = min (cursor ed) (length (inp ed));
             blocks = shift_paste_blocks pos pos (length clean) (pasted ed);
             (start, kept) = (if blocks \<noteq> [] \<and> snd (last blocks) = pos then (fst (last blocks), butlast blocks)
               else (pos, blocks))
         in ed\<lparr>inp := take pos (inp ed) @ clean @ drop pos (inp ed), cursor := pos + length clean,
               pasted := kept @ [(start, pos + length clean)]\<rparr>))"

datatype key_op =
    OpChar string | OpNewline | OpLeft | OpRight | OpDeleteWord | OpDeleteToStart | OpBackspace | OpDelete
  | OpClear | OpSubmit | OpPrevious | OpNext | OpWordLeft | OpWordRight | OpCutToEnd | OpPaste string
  | OpSet string | OpReset

fun edit_step :: "editor \<Rightarrow> key_op \<Rightarrow> editor" where
  "edit_step ed (OpChar c) = add_char c ed"
| "edit_step ed OpNewline = insert_newline ed"
| "edit_step ed OpLeft = move_cursor_left ed"
| "edit_step ed OpRight = move_cursor_right ed"
| "edit_step ed OpDeleteWord = delete_word_before ed"
| "edit_step ed OpDeleteToStart = delete_to_line_start ed"
| "edit_step ed OpBackspace = backspace ed"
| "edit_step ed OpDelete = delete_at_cursor ed"
| "edit_step ed OpClear = clear_input ed"
| "edit_step ed OpSubmit = snd (submit_input ed)"
| "edit_step ed OpPrevious = history_previous ed"
| "edit_step ed OpNext = history_next ed"
| "edit_step ed OpWordLeft = move_cursor_word_left ed"
| "edit_step ed OpWordRight = move_cursor_word_right ed"
| "edit_step ed OpCutToEnd = cut_to_end ed"
| "edit_step ed (OpPaste t) = insert_paste t ed"
| "edit_step ed (OpSet s) = set_input s ed"
| "edit_step ed OpReset = reset_history_index ed"

section \<open>The specification: characters before and after the cursor\<close>

record zipper =
  before :: "string list"
  after :: "string list"
  z_history :: "string list"
  z_index :: "nat option"
  z_draft :: string

definition space_char :: "string \<Rightarrow> bool" where
  "space_char ch = (hd ch = space)"

definition in_word :: "string \<Rightarrow> bool" where
  "in_word ch = (hd ch \<noteq> space \<and> hd ch \<noteq> lf_char)"

definition on_line :: "string \<Rightarrow> bool" where
  "on_line ch = (hd ch \<noteq> lf_char)"

definition drop_back :: "('a \<Rightarrow> bool) \<Rightarrow> 'a list \<Rightarrow> 'a list" where
  "drop_back P xs = rev (dropWhile P (rev xs))"

definition take_back :: "('a \<Rightarrow> bool) \<Rightarrow> 'a list \<Rightarrow> 'a list" where
  "take_back P xs = rev (takeWhile P (rev xs))"

definition z_set :: "string \<Rightarrow> zipper \<Rightarrow> zipper" where
  "z_set s z = z\<lparr>before := utf8_chars s, after := []\<rparr>"

fun z_step :: "zipper \<Rightarrow> key_op \<Rightarrow> zipper" where
  "z_step z (OpChar c) = z\<lparr>before := before z @ [c]\<rparr>"
| "z_step z OpNewline = z\<lparr>before := before z @ [[lf_char]]\<rparr>"
| "z_step z OpLeft =
     (if before z = [] then z else z\<lparr>before := butlast (before z), after := last (before z) # after z\<rparr>)"
| "z_step z OpRight =
     (case after z of [] \<Rightarrow> z | c # a \<Rightarrow> z\<lparr>before := before z @ [c], after := a\<rparr>)"
| "z_step z OpDeleteWord = z\<lparr>before := drop_back in_word (drop_back space_char (before z))\<rparr>"
| "z_step z OpDeleteToStart = z\<lparr>before := drop_back on_line (before z)\<rparr>"
| "z_step z OpBackspace = z\<lparr>before := butlast (before z)\<rparr>"
| "z_step z OpDelete = z\<lparr>after := tl (after z)\<rparr>"
| "z_step z OpClear = z\<lparr>before := [], after := []\<rparr>"
| "z_step z OpSubmit =
     (if before z @ after z = [] then z
      else z\<lparr>before := [], after := [], z_history := z_history z @ [concat (before z @ after z)], z_index := None\<rparr>)"
| "z_step z OpPrevious =
     (case (z_history z, z_index z) of
        ([], _) \<Rightarrow> z
      | (h # hs, None) \<Rightarrow> z_set (last (h # hs)) (z\<lparr>z_draft := concat (before z @ after z), z_index := Some (length hs)\<rparr>)
      | (h # hs, Some 0) \<Rightarrow> z
      | (h # hs, Some (Suc i)) \<Rightarrow> z_set ((h # hs) ! i) (z\<lparr>z_index := Some i\<rparr>))"
| "z_step z OpNext =
     (case (z_history z, z_index z) of
        ([], _) \<Rightarrow> z
      | (h # hs, None) \<Rightarrow> z
      | (h # hs, Some i) \<Rightarrow>
          if length hs \<le> i then z_set (z_draft z) (z\<lparr>z_index := None, z_draft := []\<rparr>)
          else z_set ((h # hs) ! Suc i) (z\<lparr>z_index := Some (Suc i)\<rparr>))"
| "z_step z OpWordLeft =
     (let b = drop_back in_word (drop_back space_char (before z))
      in z\<lparr>before := b, after := drop (length b) (before z) @ after z\<rparr>)"
| "z_step z OpWordRight =
     (let a = dropWhile space_char (dropWhile in_word (after z))
      in z\<lparr>before := before z @ take (length (after z) - length a) (after z), after := a\<rparr>)"
| "z_step z OpCutToEnd = z\<lparr>after := dropWhile on_line (after z)\<rparr>"
| "z_step z (OpPaste t) = z\<lparr>before := before z @ utf8_chars (filter (\<lambda>c. c \<noteq> CHR 0x0D) t)\<rparr>"
| "z_step z (OpSet s) = z_set s z"
| "z_step z OpReset = z\<lparr>z_index := None\<rparr>"

section \<open>The byte loops on characters\<close>

text \<open>The characters of a valid text: blocks of bytes, those that begin with an ASCII byte of length one.\<close>

definition char_ok :: "string \<Rightarrow> bool" where
  "char_ok ch = (char_block ch \<and> ((of_char (hd ch) :: nat) < 128 \<longrightarrow> tl ch = []))"

definition text_ok :: "string \<Rightarrow> bool" where
  "text_ok s = list_all char_ok (utf8_chars s)"

lemma char_ok_block: "list_all char_ok cs \<Longrightarrow> list_all char_block cs"
  by (auto simp: list_all_iff char_ok_def)

lemma char_ok_nonempty: "char_ok ch \<Longrightarrow> ch \<noteq> []"
  by (auto simp: char_ok_def char_block_def)

lemma conts_then_head:
  "list_all is_cont t \<Longrightarrow> u = [] \<or> \<not> is_cont (hd u) \<Longrightarrow> takeWhile is_cont (t @ u) = t \<and> dropWhile is_cont (t @ u) = u"
  by (induction t) (cases u; auto)+

lemma utf8_chars_blocks: "list_all char_block cs \<Longrightarrow> utf8_chars (concat cs) = cs"
proof (induction cs)
  case (Cons ch cs)
  then obtain h t where ch: "ch = h # t" "list_all is_cont t" "\<not> is_cont h" by (auto elim: char_blockE)
  have "concat cs = [] \<or> \<not> is_cont (hd (concat cs))"
    using Cons.prems by (cases cs) (auto simp: char_block_def split: list.splits)
  note conts_then_head [OF ch(2) this]
  then show ?case using Cons ch by simp
qed simp

lemma char_uniform: "char_ok ch \<Longrightarrow> (of_char x :: nat) < 128 \<Longrightarrow> c \<in> set ch \<Longrightarrow> (c = x) = (hd ch = x)"
proof -
  assume a: "char_ok ch" "(of_char x :: nat) < 128" "c \<in> set ch"
  obtain h t where ch: "ch = h # t" "\<not> is_cont h" "list_all is_cont t"
    using a(1) by (auto simp: char_ok_def elim: char_blockE)
  have "\<not> is_cont x" using a(2) by (simp add: is_cont_def)
  moreover have "t \<noteq> [] \<Longrightarrow> h \<noteq> x" using a(1,2) ch by (auto simp: char_ok_def)
  ultimately show ?thesis using a(3) ch by (cases "c = h"; cases t) (auto simp: list_all_iff)
qed

lemma ascii_keys: "(of_char space :: nat) < 128" "(of_char lf_char :: nat) < 128" "(of_char (CHR 0x0D) :: nat) < 128"
  by simp_all

lemma char_classes:
  assumes "char_ok ch" "c \<in> set ch"
  shows "(c = space) = space_char ch" "(c \<noteq> space \<and> c \<noteq> lf_char) = in_word ch" "(c \<noteq> lf_char) = on_line ch"
    "(c \<noteq> CHR 0x0D) = (hd ch \<noteq> CHR 0x0D)"
  using char_uniform [OF assms(1) ascii_keys(1) assms(2)] char_uniform [OF assms(1) ascii_keys(2) assms(2)]
    char_uniform [OF assms(1) ascii_keys(3) assms(2)]
  by (auto simp: space_char_def in_word_def on_line_def)

lemma skip_back_bytes:
  "(\<And>c. c \<in> set ch \<Longrightarrow> P c) \<Longrightarrow> skip_back P (p @ ch @ s) (length p + length ch) = skip_back P (p @ ch @ s) (length p)"
proof (induction ch arbitrary: s rule: rev_induct)
  case (snoc x xs)
  have "skip_back P (p @ (xs @ [x]) @ s) (length p + length (xs @ [x])) = skip_back P (p @ xs @ x # s) (length p + length xs)"
    using snoc.prems by (simp add: nth_append)
  then show ?case using snoc by simp
qed simp

lemma skip_back_chars:
  assumes "list_all char_ok b" and cls: "\<And>ch c. char_ok ch \<Longrightarrow> c \<in> set ch \<Longrightarrow> P c = Q ch"
  shows "skip_back P (concat b @ s) (length (concat b)) = length (concat (drop_back Q b))"
  using assms(1)
proof (induction b arbitrary: s rule: rev_induct)
  case (snoc ch b)
  have ok: "char_ok ch" "ch \<noteq> []" using snoc.prems char_ok_nonempty by auto
  show ?case
  proof (cases "Q ch")
    case True
    then show ?thesis
      using skip_back_bytes [of ch P "concat b" s] cls [OF ok(1)] snoc by (simp add: drop_back_def)
  next
    case False
    obtain n where n: "length (concat (b @ [ch])) = Suc n" using ok(2) by (cases ch) auto
    have split: "concat (b @ [ch]) @ s = (concat b @ butlast ch) @ last ch # s" using ok(2) by simp
    have "n = length (concat b @ butlast ch)" using n ok(2) by (cases ch) auto
    then have "(concat (b @ [ch]) @ s) ! n = last ch" unfolding split by (simp only: nth_append_length)
    then have "\<not> P ((concat (b @ [ch]) @ s) ! n)" using cls [OF ok(1), of "last ch"] False ok(2) by simp
    then show ?thesis using False n by (simp add: drop_back_def)
  qed
qed (simp add: drop_back_def)

lemma skip_forward_bytes:
  "(\<And>c. c \<in> set ch \<Longrightarrow> P c) \<Longrightarrow> skip_forward P (p @ ch @ s) (length p) = skip_forward P (p @ ch @ s) (length p + length ch)"
proof (induction ch arbitrary: p)
  case (Cons x ch)
  then show ?case using Cons.IH [of "p @ [x]"] by (subst skip_forward.simps) (simp add: nth_append)
qed simp

lemma skip_forward_chars:
  assumes "list_all char_ok a" and cls: "\<And>ch c. char_ok ch \<Longrightarrow> c \<in> set ch \<Longrightarrow> P c = Q ch"
  shows "skip_forward P (p @ concat a) (length p) = length p + length (concat (takeWhile Q a))"
  using assms(1)
proof (induction a arbitrary: p)
  case Nil
  then show ?case by (subst skip_forward.simps) simp
next
  case (Cons ch a)
  then have ok: "char_ok ch" "ch \<noteq> []" using char_ok_nonempty by auto
  show ?case
  proof (cases "Q ch")
    case True
    then show ?thesis
      using skip_forward_bytes [of ch P p "concat a"] cls [OF ok(1)] Cons.IH [of "p @ ch"] Cons.prems by simp
  next
    case False
    then have "\<not> P (hd ch)" using cls [OF ok(1), of "hd ch"] ok(2) by simp
    then show ?thesis using False ok(2) by (subst skip_forward.simps) (auto simp: nth_append neq_Nil_conv)
  qed
qed

lemma boundary_at: "list_all char_block a \<Longrightarrow> is_char_boundary (p @ concat a) (length p)"
  by (cases a) (auto simp: is_char_boundary_def nth_append char_block_def split: list.splits)

lemma inside_char: "char_block ch \<Longrightarrow> 0 < j \<Longrightarrow> j < length ch \<Longrightarrow> \<not> is_char_boundary (p @ ch @ s) (length p + j)"
  by (cases ch) (auto simp: is_char_boundary_def nth_append char_block_def list_all_length nth_Cons')

lemma floor_loop_char:
  assumes "char_block ch" "j < length ch" "list_all char_block a"
  shows "floor_loop (p @ ch @ concat a) (length p + j) = length p"
  using assms(2)
proof (induction j)
  case 0
  have "is_char_boundary (p @ ch @ concat a) (length p)" using boundary_at [of "ch # a" p] assms by simp
  then show ?case by (cases "length p") simp_all
next
  case (Suc j)
  then show ?case using inside_char [OF assms(1), of "Suc j" p "concat a"] by simp
qed

lemma ceil_loop_char:
  assumes "char_block ch" "list_all char_block a" "j < length ch"
  shows "ceil_loop (p @ ch @ concat a) (length p + (length ch - j)) = length p + length ch"
  using assms(3)
proof (induction j)
  case 0
  have "is_char_boundary ((p @ ch) @ concat a) (length (p @ ch))" by (rule boundary_at) fact
  then show ?case by (subst ceil_loop.simps) simp
next
  case (Suc j)
  then have "\<not> is_char_boundary (p @ ch @ concat a) (length p + (length ch - Suc j))"
    by (intro inside_char assms(1)) auto
  then show ?case using Suc by (subst ceil_loop.simps) (simp add: Suc_diff_Suc)
qed

lemma drop_back_split: "\<exists>c. b = drop_back Q b @ c \<and> list_all Q c"
proof -
  have "b = rev (dropWhile Q (rev b)) @ rev (takeWhile Q (rev b))"
    by (metis rev_append rev_rev_ident takeWhile_dropWhile_id)
  then show ?thesis unfolding drop_back_def by (metis list_all_iff set_rev set_takeWhileD)
qed

lemma drop_back_ok: "list_all P b \<Longrightarrow> list_all P (drop_back Q b)"
  using drop_back_split [of b Q] by (metis list_all_append)

lemma word_start_chars:
  assumes "list_all char_ok b"
  shows "word_start (concat b @ s) (length (concat b)) = length (concat (drop_back in_word (drop_back space_char b)))"
proof -
  obtain c where c: "b = drop_back space_char b @ c" using drop_back_split by blast
  have split: "concat b @ s = concat (drop_back space_char b) @ (concat c @ s)" using c by (metis append_assoc concat_append)
  have "skip_back (\<lambda>c. c \<noteq> space \<and> c \<noteq> lf_char) (concat b @ s) (length (concat (drop_back space_char b)))
      = length (concat (drop_back in_word (drop_back space_char b)))"
    unfolding split by (rule skip_back_chars [OF drop_back_ok [OF assms] char_classes(2)])
  moreover have "skip_back (\<lambda>c. c = space) (concat b @ s) (length (concat b)) = length (concat (drop_back space_char b))"
    by (rule skip_back_chars [OF assms char_classes(1)])
  ultimately show ?thesis by (simp add: word_start_def)
qed

lemma last_index_of_snoc: "last_index_of c (xs @ [x]) = (if x = c then Some (length xs) else last_index_of c xs)"
  by (cases "find_char c (rev xs)") (auto simp: last_index_of_def)

lemma skip_back_append: "n \<le> length xs \<Longrightarrow> skip_back P (xs @ ys) n = skip_back P xs n"
  by (induction n) (auto simp: nth_append)

lemma rfind_line_start:
  "(case last_index_of c xs of None \<Rightarrow> 0 | Some i \<Rightarrow> i + 1) = skip_back (\<lambda>x. x \<noteq> c) xs (length xs)"
  by (induction xs rule: rev_induct) (auto simp: last_index_of_snoc skip_back_append, simp add: last_index_of_def)

lemma find_line_end:
  "length p + (case find_char c xs of None \<Rightarrow> length xs | Some i \<Rightarrow> i) = skip_forward (\<lambda>x. x \<noteq> c) (p @ xs) (length p)"
proof (induction xs arbitrary: p)
  case Nil
  then show ?case by (subst skip_forward.simps) simp
next
  case (Cons x xs)
  then show ?case using Cons.IH [of "p @ [x]"]
    by (subst skip_forward.simps) (auto simp: nth_append split: option.splits)
qed

section \<open>Every operation implements its specification\<close>

definition shows_as :: "editor \<Rightarrow> zipper \<Rightarrow> bool" where
  "shows_as ed z =
     (inp ed = concat (before z @ after z) \<and> cursor ed = length (concat (before z))
      \<and> list_all char_ok (before z @ after z)
      \<and> history ed = z_history z \<and> hist_index ed = z_index z \<and> draft ed = z_draft z
      \<and> list_all text_ok (history ed) \<and> text_ok (draft ed)
      \<and> (\<forall>i. hist_index ed = Some i \<longrightarrow> i < length (history ed)))"

fun op_ok :: "key_op \<Rightarrow> bool" where
  "op_ok (OpChar c) = char_ok c"
| "op_ok (OpPaste t) = text_ok t"
| "op_ok (OpSet t) = text_ok t"
| "op_ok _ = True"

lemma text_ok_concat: "list_all char_ok cs \<Longrightarrow> text_ok (concat cs)"
  by (simp add: text_ok_def utf8_chars_blocks char_ok_block)

lemma lf_char_ok: "char_ok [lf_char]"
  by (simp add: char_ok_def char_block_def is_cont_def)

lemma text_ok_nil: "text_ok []"
  by (simp add: text_ok_def)

lemma filter_cr:
  assumes "text_ok t"
  shows "filter (\<lambda>c. c \<noteq> CHR 0x0D) t = concat (filter (\<lambda>ch. hd ch \<noteq> CHR 0x0D) (utf8_chars t))"
proof -
  have "list_all char_ok cs \<Longrightarrow> filter (\<lambda>c. c \<noteq> CHR 0x0D) (concat cs) = concat (filter (\<lambda>ch. hd ch \<noteq> CHR 0x0D) cs)" for cs
  proof (induction cs)
    case (Cons ch cs)
    then have "filter (\<lambda>c. c \<noteq> CHR 0x0D) ch = (if hd ch \<noteq> CHR 0x0D then ch else [])"
      using char_classes(4) [of ch] by (auto simp: filter_id_conv filter_empty_conv)
    then show ?case using Cons by simp
  qed simp
  then show ?thesis using assms by (metis text_ok_def concat_utf8_chars)
qed

lemma shows_as_set: "shows_as ed z \<Longrightarrow> text_ok s \<Longrightarrow> shows_as (set_input s ed) (z_set s z)"
  by (auto simp: shows_as_def set_input_def z_set_def text_ok_def)

lemma left_char:
  assumes "shows_as ed z" "before z \<noteq> []"
  shows "floor_loop (inp ed) (cursor ed - 1) = length (concat (butlast (before z)))"
proof -
  obtain b ch where b: "before z = b @ [ch]" using assms(2) by (metis rev_exhaust)
  have ok: "char_block ch" "list_all char_block (after z)" "ch \<noteq> []"
    using assms(1) b char_ok_nonempty by (auto simp: shows_as_def char_ok_block char_ok_def)
  show ?thesis
    using floor_loop_char [OF ok(1) _ ok(2), of "length ch - 1" "concat b"] assms(1) b ok(3)
    by (cases ch) (auto simp: shows_as_def)
qed

lemma right_char:
  assumes "shows_as ed z" "after z = ch # a"
  shows "ceil_loop (inp ed) (cursor ed + 1) = cursor ed + length ch"
proof -
  have ok: "char_block ch" "list_all char_block a" "ch \<noteq> []"
    using assms char_ok_nonempty by (auto simp: shows_as_def char_ok_block char_ok_def)
  show ?thesis
    using ceil_loop_char [OF ok(1,2), of "length ch - 1" "concat (before z)"] assms ok(3)
    by (simp add: shows_as_def Suc_leI)
qed

lemma cursor_zero: "shows_as ed z \<Longrightarrow> cursor ed = 0 \<longleftrightarrow> before z = []"
  using char_ok_nonempty by (cases "before z") (auto simp: shows_as_def)

lemma cursor_end: "shows_as ed z \<Longrightarrow> length (inp ed) \<le> cursor ed \<longleftrightarrow> after z = []"
  using char_ok_nonempty by (cases "after z") (auto simp: shows_as_def)

lemma drain_back:
  assumes "shows_as ed z" "before z = b @ c"
  shows "shows_as ((drain (length (concat b)) (cursor ed) ed)\<lparr>cursor := length (concat b)\<rparr>) (z\<lparr>before := b\<rparr>)"
  using assms by (auto simp: shows_as_def drain_def)

lemma drain_cursor: "drain s e (ed\<lparr>cursor := c\<rparr>) = (drain s e ed)\<lparr>cursor := c\<rparr>"
  by (simp add: drain_def)

lemma drain_forward:
  assumes "shows_as ed z" "after z = c @ a"
  shows "shows_as (drain (cursor ed) (cursor ed + length (concat c)) ed) (z\<lparr>after := a\<rparr>)"
  using assms by (auto simp: shows_as_def drain_def)

lemma skip_forward_from:
  assumes "list_all char_ok a" and "p = concat b"
  shows "skip_forward (\<lambda>c. c = space) (p @ concat a)
      (skip_forward (\<lambda>c. c \<noteq> space \<and> c \<noteq> lf_char) (p @ concat a) (length p))
    = length p + length (concat (take (length a - length (dropWhile space_char (dropWhile in_word a))) a))"
proof -
  let ?w = "takeWhile in_word a" and ?r = "dropWhile in_word a"
  have a: "a = ?w @ ?r" by simp
  have "list_all char_ok ?r" using assms(1) by (metis a list_all_append)
  then have "skip_forward (\<lambda>c. c = space) ((p @ concat ?w) @ concat ?r) (length (p @ concat ?w))
      = length (p @ concat ?w) + length (concat (takeWhile space_char ?r))"
    by (rule skip_forward_chars [OF _ char_classes(1)])
  moreover have "skip_forward (\<lambda>c. c \<noteq> space \<and> c \<noteq> lf_char) (p @ concat a) (length p)
      = length (p @ concat ?w)"
    using skip_forward_chars [where p = p, OF assms(1) char_classes(2)] by simp
  moreover have "(p @ concat ?w) @ concat ?r = p @ concat a"
    by (metis a append_assoc concat_append)
  moreover have "take (length a - length (dropWhile space_char ?r)) a = ?w @ takeWhile space_char ?r"
  proof -
    have "a = (?w @ takeWhile space_char ?r) @ dropWhile space_char ?r" by simp
    then show ?thesis by (metis append_eq_conv_conj length_append add_diff_cancel_right')
  qed
  ultimately show ?thesis by simp
qed

lemma floor_at_boundary: "is_char_boundary s n \<Longrightarrow> floor_loop s n = n"
  by (cases n) simp_all

lemma after_same: "after z = a \<Longrightarrow> z\<lparr>after := a\<rparr> = z"
  by simp

lemma before_same: "before z = b \<Longrightarrow> z\<lparr>before := b\<rparr> = z"
  by simp

lemma edit_step_shows:
  assumes "shows_as ed z" "op_ok e"
  shows "shows_as (edit_step ed e) (z_step z e)"
proof (cases e)
  case (OpChar c)
  then show ?thesis using assms by (auto simp: shows_as_def add_char_def Let_def)
next
  case OpNewline
  then show ?thesis using assms lf_char_ok by (auto simp: shows_as_def add_char_def insert_newline_def Let_def)
next
  case OpLeft
  show ?thesis
  proof (cases "before z = []")
    case True
    then show ?thesis using assms OpLeft cursor_zero [OF assms(1)] by (simp add: move_cursor_left_def)
  next
    case False
    then obtain b ch where b: "before z = b @ [ch]" by (metis rev_exhaust)
    then show ?thesis
      using assms(1) OpLeft cursor_zero [OF assms(1)] left_char [OF assms(1) False]
      by (auto simp: move_cursor_left_def shows_as_def)
  qed
next
  case OpRight
  show ?thesis
  proof (cases "after z")
    case Nil
    then show ?thesis using assms OpRight cursor_end [OF assms(1)] by (simp add: move_cursor_right_def)
  next
    case (Cons ch a)
    then have "cursor ed < length (inp ed)" using cursor_end [OF assms(1)] by simp
    then show ?thesis
      using assms(1) OpRight Cons right_char [OF assms(1) Cons] by (auto simp: move_cursor_right_def shows_as_def)
  qed
next
  case OpDeleteWord
  let ?b = "drop_back in_word (drop_back space_char (before z))"
  obtain c where c: "before z = ?b @ c"
    using drop_back_split by (metis append_assoc)
  have w: "word_start (inp ed) (cursor ed) = length (concat ?b)"
    using word_start_chars [of "before z" "concat (after z)"] assms(1) by (simp add: shows_as_def)
  show ?thesis
  proof (cases "cursor ed = 0")
    case True
    then show ?thesis using OpDeleteWord assms(1) cursor_zero [OF assms(1)]
      by (simp add: delete_word_before_def drop_back_def before_same)
  next
    case False
    then show ?thesis using drain_back [OF assms(1) c] w OpDeleteWord by (simp add: delete_word_before_def Let_def)
  qed
next
  case OpDeleteToStart
  obtain c where c: "before z = drop_back on_line (before z) @ c" using drop_back_split by blast
  have "(case last_index_of lf_char (take (cursor ed) (inp ed)) of None \<Rightarrow> 0 | Some i \<Rightarrow> i + 1)
      = length (concat (drop_back on_line (before z)))"
    using skip_back_chars [of "before z" "\<lambda>x. x \<noteq> lf_char" on_line "[]"] char_classes(3) assms(1)
    unfolding rfind_line_start by (simp add: shows_as_def)
  then show ?thesis using drain_back [OF assms(1) c] OpDeleteToStart
    by (simp only: delete_to_line_start_def Let_def edit_step.simps z_step.simps)
next
  case OpBackspace
  show ?thesis
  proof (cases "before z = []")
    case True
    then show ?thesis using assms OpBackspace cursor_zero [OF assms(1)] by (simp add: backspace_def before_same)
  next
    case False
    then obtain b ch where b: "before z = b @ [ch]" by (metis rev_exhaust)
    have "cursor ed \<le> length (inp ed)" "0 < cursor ed"
      using assms(1) cursor_zero [OF assms(1)] False by (auto simp: shows_as_def)
    then show ?thesis
      using drain_back [OF assms(1) b] left_char [OF assms(1) False] OpBackspace b
      by (simp add: backspace_def move_cursor_left_def Let_def drain_cursor min_absorb1)
  qed
next
  case OpDelete
  have le: "min (cursor ed) (length (inp ed)) = cursor ed" using assms(1) by (auto simp: shows_as_def)
  show ?thesis
  proof (cases "after z")
    case Nil
    then show ?thesis using assms OpDelete cursor_end [OF assms(1)] le by (simp add: delete_at_cursor_def after_same)
  next
    case (Cons ch a)
    then show ?thesis
      using drain_forward [OF assms(1), of "[ch]" a] cursor_end [OF assms(1)] right_char [OF assms(1) Cons] OpDelete le
      by (simp add: delete_at_cursor_def Let_def)
  qed
next
  case OpClear
  then show ?thesis using assms by (auto simp: shows_as_def clear_input_def)
next
  case OpSubmit
  have "inp ed = [] \<longleftrightarrow> before z @ after z = []"
    using assms(1) cursor_zero [OF assms(1)] cursor_end [OF assms(1)] by (auto simp: shows_as_def)
  then show ?thesis using assms OpSubmit text_ok_concat [of "before z @ after z"]
    by (auto simp: shows_as_def submit_input_def clear_input_def)
next
  case OpPrevious
  show ?thesis
  proof (cases "history ed")
    case Nil
    then show ?thesis using assms OpPrevious by (auto simp: history_previous_def shows_as_def)
  next
    case (Cons h hs)
    have ok: "list_all text_ok (h # hs)" using assms(1) unfolding shows_as_def Cons by blast
    have zh: "z_history z = h # hs" using assms(1) unfolding shows_as_def Cons by metis
    have zs: "z_index z = hist_index ed" "z_draft z = draft ed" "concat (before z @ after z) = inp ed"
      using assms(1) unfolding shows_as_def by metis+
    show ?thesis
    proof (cases "hist_index ed")
      case None
      let ?ed = "ed\<lparr>draft := inp ed, hist_index := Some (length hs)\<rparr>"
      have "shows_as ?ed (z\<lparr>z_draft := concat (before z @ after z), z_index := Some (length hs)\<rparr>)"
        using assms(1) Cons zh text_ok_concat [of "before z @ after z"] by (auto simp: shows_as_def)
      moreover have "text_ok ((h # hs) ! length hs)" using ok by (simp add: list_all_length)
      moreover have "(h # hs) ! length hs = last (h # hs)" by (simp add: last_conv_nth)
      ultimately show ?thesis using shows_as_set OpPrevious None Cons assms(1) zh
        by (simp add: history_previous_def zs zh del: concat_append)
    next
      case (Some i)
      show ?thesis
      proof (cases i)
        case 0
        then show ?thesis using assms(1) OpPrevious Some Cons zh by (simp add: history_previous_def zs zh del: concat_append)
      next
        case (Suc j)
        have "shows_as (ed\<lparr>hist_index := Some j\<rparr>) (z\<lparr>z_index := Some j\<rparr>)"
          using assms(1) Some Suc zh by (auto simp: shows_as_def)
        moreover have "text_ok ((h # hs) ! j)"
          using ok assms(1) Some Suc Cons zh by (auto simp: shows_as_def list_all_length)
        ultimately show ?thesis using shows_as_set OpPrevious Some Suc Cons assms(1) zh
          by (simp add: history_previous_def zs zh del: concat_append)
      qed
    qed
  qed
next
  case OpNext
  show ?thesis
  proof (cases "history ed")
    case Nil
    then show ?thesis using assms OpNext by (auto simp: history_next_def shows_as_def split: list.splits)
  next
    case (Cons h hs)
    have ok: "list_all text_ok (h # hs)" using assms(1) unfolding shows_as_def Cons by blast
    have zh: "z_history z = h # hs" using assms(1) unfolding shows_as_def Cons by metis
    have zs: "z_index z = hist_index ed" "z_draft z = draft ed" "concat (before z @ after z) = inp ed"
      using assms(1) unfolding shows_as_def by metis+
    show ?thesis
    proof (cases "hist_index ed")
      case None
      then show ?thesis using assms(1) OpNext Cons zh by (simp add: history_next_def zs zh)
    next
      case (Some i)
      show ?thesis
      proof (cases "length hs \<le> i")
        case True
        have "shows_as (ed\<lparr>hist_index := None, draft := []\<rparr>) (z\<lparr>z_index := None, z_draft := []\<rparr>)"
          using assms(1) text_ok_nil zh Cons by (auto simp: shows_as_def)
        moreover have "text_ok (draft ed)" using assms(1) unfolding shows_as_def by blast
        ultimately show ?thesis using shows_as_set OpNext Some True Cons assms(1) zh
          by (simp add: history_next_def zs zh)
      next
        case False
        have "shows_as (ed\<lparr>hist_index := Some (Suc i)\<rparr>) (z\<lparr>z_index := Some (Suc i)\<rparr>)"
          using assms(1) False Cons zh by (auto simp: shows_as_def)
        moreover have "text_ok ((h # hs) ! Suc i)" using ok False by (auto simp: list_all_iff)
        ultimately show ?thesis using shows_as_set OpNext Some False Cons assms(1) zh
          by (simp add: history_next_def zs zh)
      qed
    qed
  qed
next
  case OpWordLeft
  let ?b = "drop_back in_word (drop_back space_char (before z))"
  obtain c where c: "before z = ?b @ c"
    using drop_back_split by (metis append_assoc)
  have w: "word_start (inp ed) (cursor ed) = length (concat ?b)"
    using word_start_chars [of "before z" "concat (after z)"] assms(1) by (simp add: shows_as_def)
  have okc: "list_all char_ok (?b @ c)" using assms(1) c by (simp add: shows_as_def)
  have "is_char_boundary (concat ?b @ concat (c @ after z)) (length (concat ?b))"
    by (rule boundary_at) (use assms(1) okc in \<open>simp add: shows_as_def char_ok_block\<close>)
  moreover have inp: "inp ed = concat ?b @ concat (c @ after z)"
    using assms(1) c unfolding shows_as_def by (metis append_assoc concat_append)
  ultimately have f: "floor_loop (inp ed) (length (concat ?b)) = length (concat ?b)"
    by (metis floor_at_boundary)
  have d: "drop (length ?b) (before z) = c" using c by (metis append_eq_conv_conj)
  show ?thesis
  proof (cases "cursor ed = 0")
    case True
    then show ?thesis using OpWordLeft assms(1) cursor_zero [OF assms(1)]
      by (simp add: move_cursor_word_left_def drop_back_def before_same)
  next
    case False
    then show ?thesis using OpWordLeft assms(1) w f inp okc d
      by (auto simp: move_cursor_word_left_def shows_as_def Let_def)
  qed
next
  case OpWordRight
  let ?a = "dropWhile space_char (dropWhile in_word (after z))"
  let ?m = "take (length (after z) - length ?a) (after z)"
  have "\<exists>xs. after z = xs @ ?a" by (metis append_assoc takeWhile_dropWhile_id)
  then have m: "after z = ?m @ ?a" by (metis append_eq_conv_conj length_append add_diff_cancel_right')
  have ok: "list_all char_ok (?m @ ?a)" using assms(1) m by (simp add: shows_as_def)
  have pos: "skip_forward (\<lambda>c. c = space) (inp ed) (skip_forward (\<lambda>c. c \<noteq> space \<and> c \<noteq> lf_char) (inp ed) (cursor ed))
      = length (concat (before z @ ?m))"
    using skip_forward_from [of "after z" "concat (before z)" "before z"] assms(1) by (simp add: shows_as_def)
  have inp: "inp ed = concat (before z @ ?m) @ concat ?a"
    using assms(1) m unfolding shows_as_def by (metis append_assoc concat_append)
  have "is_char_boundary (concat (before z @ ?m) @ concat ?a) (length (concat (before z @ ?m)))"
    by (rule boundary_at) (use ok in \<open>simp add: char_ok_block\<close>)
  then have "ceil_loop (inp ed) (length (concat (before z @ ?m))) = length (concat (before z @ ?m))"
    unfolding inp by (subst ceil_loop.simps) simp
  then show ?thesis
    using OpWordRight assms(1) pos inp ok cursor_end [OF assms(1)]
    by (auto simp: move_cursor_word_right_def shows_as_def Let_def)
next
  case OpCutToEnd
  let ?m = "takeWhile on_line (after z)"
  have m: "after z = ?m @ dropWhile on_line (after z)" by simp
  have le: "min (cursor ed) (length (inp ed)) = cursor ed" using assms(1) by (auto simp: shows_as_def)
  have "skip_forward (\<lambda>x. x \<noteq> lf_char) (concat (before z) @ concat (after z)) (length (concat (before z)))
      = length (concat (before z)) + length (concat ?m)"
    using assms(1) by (intro skip_forward_chars char_classes(3)) (auto simp: shows_as_def)
  then have "(case find_char lf_char (drop (cursor ed) (inp ed)) of None \<Rightarrow> length (inp ed) | Some i \<Rightarrow> cursor ed + i)
      = cursor ed + length (concat ?m)"
    using find_line_end [where p = "concat (before z)" and c = lf_char and xs = "concat (after z)"] assms(1)
    by (auto simp: shows_as_def split: option.splits)
  then show ?thesis using drain_forward [OF assms(1) m] OpCutToEnd le by (simp add: cut_to_end_def Let_def)
next
  case (OpPaste t)
  let ?cs = "filter (\<lambda>ch. hd ch \<noteq> CHR 0x0D) (utf8_chars t)"
  have t: "text_ok t" using assms(2) OpPaste by simp
  have ok: "list_all char_ok ?cs" using t by (auto simp: text_ok_def list_all_iff)
  have "utf8_chars (filter (\<lambda>c. c \<noteq> CHR 0x0D) t) = ?cs"
    using filter_cr [OF t] utf8_chars_blocks [OF char_ok_block [OF ok]] by simp
  then show ?thesis
    using OpPaste assms(1) ok filter_cr [OF t]
    by (auto simp: insert_paste_def shows_as_def Let_def split: prod.splits)
next
  case (OpSet s)
  then show ?thesis using assms shows_as_set by simp
next
  case OpReset
  then show ?thesis using assms by (auto simp: shows_as_def reset_history_index_def)
qed

definition zipper_new :: zipper where
  "zipper_new = \<lparr> before = [], after = [], z_history = [], z_index = None, z_draft = [] \<rparr>"

lemma run_shows: "shows_as ed z \<Longrightarrow> list_all op_ok es \<Longrightarrow> shows_as (foldl edit_step ed es) (foldl z_step z es)"
  by (induction es arbitrary: ed z) (auto intro: edit_step_shows)

lemma new_shows: "shows_as editor_new zipper_new"
  by (simp add: shows_as_def editor_new_def zipper_new_def text_ok_nil)

lemma split_on_glue: "split_on c (u @ c # v) = split_on c u @ split_on c v"
proof (induction u)
  case (Cons x u)
  have "split_on c u \<noteq> []" by (cases u) (auto split: list.splits)
  then show ?case using Cons by (cases "split_on c u") auto
qed simp

lemma last_split_on: "c \<notin> set v \<Longrightarrow> last (split_on c (u @ c # v)) = v"
  by (simp add: split_on_glue split_on_none)

lemma last_line:
  assumes "list_all char_ok b"
  shows "last (split_on lf_char (concat b)) = concat (take_back on_line b)"
proof -
  have b: "b = drop_back on_line b @ take_back on_line b"
    unfolding drop_back_def take_back_def by (metis rev_append rev_rev_ident takeWhile_dropWhile_id)
  have okt: "list_all char_ok (take_back on_line b)" using assms b by (metis list_all_append)
  have "list_all on_line (take_back on_line b)"
    unfolding take_back_def by (auto simp: list_all_iff dest: set_takeWhileD)
  then have nn: "lf_char \<notin> set (concat (take_back on_line b))"
    using okt char_classes(3) by (auto simp: list_all_iff)
  show ?thesis
  proof (cases "drop_back on_line b" rule: rev_cases)
    case Nil
    then show ?thesis using b nn by (metis append_Nil split_on_none last.simps)
  next
    case (snoc u ch)
    have "dropWhile on_line (rev b) = ch # rev u"
      using arg_cong [OF snoc, of rev] by (simp add: drop_back_def)
    then have "\<not> on_line ch" using hd_dropWhile [of on_line "rev b"] by simp
    moreover have "char_ok ch" using assms drop_back_ok [OF assms, of on_line] snoc by simp
    ultimately have "ch = [lf_char]"
      by (cases ch) (auto simp: on_line_def char_ok_def char_block_def)
    then have "concat b = concat u @ lf_char # concat (take_back on_line b)"
      using b snoc by (metis append_Cons append_Nil append_assoc concat.simps(1) concat.simps(2) concat_append)
    then show ?thesis using last_split_on [OF nn] by simp
  qed
qed

lemma newline_count: "list_all char_ok b \<Longrightarrow> length (filter (\<lambda>c. c = lf_char) (concat b)) = length (filter (\<lambda>ch. \<not> on_line ch) b)"
proof (induction b)
  case (Cons ch b)
  then have "filter (\<lambda>c. c = lf_char) ch = (if on_line ch then [] else ch)"
    using char_classes(3) [of ch] by (auto simp: filter_id_conv filter_empty_conv)
  moreover have "\<not> on_line ch \<Longrightarrow> length ch = 1"
    using Cons.prems by (cases ch) (auto simp: on_line_def char_ok_def char_block_def)
  ultimately show ?case using Cons by simp
qed simp

text \<open>
  C37. The box is a zipper of characters: after any sequence of keys, pastes and recalls of valid
  text, the bytes are those of the characters before and after the cursor, the cursor is between
  two characters, and the line and column shown count characters.
\<close>

theorem editor_is_a_zipper:
  assumes "list_all op_ok es"
  defines "ed \<equiv> foldl edit_step editor_new es" and "z \<equiv> foldl z_step zipper_new es"
  shows "inp ed = concat (before z @ after z) \<and> take (cursor ed) (inp ed) = concat (before z)
    \<and> utf8_chars (inp ed) = before z @ after z \<and> is_char_boundary (inp ed) (cursor ed)
    \<and> cursor_line_col ed = (length (filter (\<lambda>ch. \<not> on_line ch) (before z)), length (take_back on_line (before z)))"
proof -
  have sh: "shows_as ed z" unfolding ed_def z_def by (rule run_shows [OF new_shows assms(1)])
  then have i: "inp ed = concat (before z @ after z)" "cursor ed = length (concat (before z))"
    and ok: "list_all char_ok (before z @ after z)" by (simp_all add: shows_as_def)
  have okb: "list_all char_ok (before z)" "list_all char_block (after z)" using ok by (simp_all add: char_ok_block)
  have okt: "list_all char_block (take_back on_line (before z))"
    using okb(1) unfolding take_back_def by (auto simp: list_all_iff char_ok_def dest!: set_takeWhileD)
  have "is_char_boundary (inp ed) (cursor ed)"
    using boundary_at [OF okb(2), of "concat (before z)"] i by simp
  moreover have "cursor_line_col ed = (length (filter (\<lambda>ch. \<not> on_line ch) (before z)), length (take_back on_line (before z)))"
    using i newline_count [OF okb(1)] last_line [OF okb(1)] char_indices_concat_length [OF okt]
    by (simp add: cursor_line_col_def Let_def char_count_def)
  ultimately show ?thesis using i utf8_chars_blocks [OF char_ok_block [OF ok]] by simp
qed

theorem editor_is_a_zipper_witness:
  "inp (foldl edit_step editor_new [OpChar ''a'', OpChar (utf8_char 233), OpLeft, OpBackspace]) = utf8_char 233"
proof -
  have "list_all op_ok [OpChar ''a'', OpChar (utf8_char 233), OpLeft, OpBackspace]"
    by (simp add: char_ok_def char_block_def utf8_char_def is_cont_def)
  from editor_is_a_zipper [OF this] show ?thesis by (simp add: zipper_new_def)
qed

section \<open>Pasted ranges stay disjoint parts of the text\<close>

definition apart :: "range \<Rightarrow> range \<Rightarrow> bool" where
  "apart x y = (snd x \<le> fst y \<or> snd y \<le> fst x)"

definition ranges_ok :: "nat \<Rightarrow> range list \<Rightarrow> bool" where
  "ranges_ok n rs = (list_all (\<lambda>r. fst r < snd r \<and> snd r \<le> n) rs \<and> sorted_wrt apart rs)"

lemma shift_block_cases:
  assumes "shift_block es ee n r = Some r'" "es \<le> ee" "fst r < snd r"
  shows "r' = r \<and> snd r \<le> es \<or> ee \<le> fst r \<and> fst r' + (ee - es) = fst r + n \<and> snd r' + (ee - es) = snd r + n"
  using assms by (auto simp: shift_block_def Let_def split: if_splits)

lemma sorted_wrt_map_filter:
  assumes "sorted_wrt R xs" "\<And>x y x' y'. x \<in> set xs \<Longrightarrow> y \<in> set xs \<Longrightarrow> R x y \<Longrightarrow> f x = Some x' \<Longrightarrow> f y = Some y' \<Longrightarrow> R' x' y'"
  shows "sorted_wrt R' (List.map_filter f xs)"
  using assms
proof (induction xs)
  case (Cons x xs)
  have "sorted_wrt R' (List.map_filter f xs)"
    by (rule Cons.IH) (use Cons.prems in \<open>simp, meson list.set_intros(2)\<close>)
  moreover have "R' a y" if fx: "f x = Some a" and y: "y \<in> set (List.map_filter f xs)" for a y
  proof -
    obtain w where "w \<in> set xs" "f w = Some y" using y by (auto simp: List.map_filter_def)
    then show ?thesis using Cons.prems(2) [of x w a y] Cons.prems(1) fx by simp
  qed
  ultimately show ?case by (cases "f x") (simp_all add: map_filter_simps)
qed (simp add: map_filter_simps)

lemma shift_ranges_ok:
  assumes "ranges_ok len rs" "es \<le> ee" "ee \<le> len"
  shows "ranges_ok (len - (ee - es) + n) (shift_paste_blocks es ee n rs)"
    and "r \<in> set (shift_paste_blocks es ee n rs) \<Longrightarrow> apart r (es, es + n)"
proof -
  have el: "fst r < snd r \<and> snd r \<le> len" if "r \<in> set rs" for r
    using assms(1) that by (auto simp: ranges_ok_def list_all_iff)
  have src: "\<exists>r \<in> set rs. shift_block es ee n r = Some r'" if "r' \<in> set (shift_paste_blocks es ee n rs)" for r'
    using that by (auto simp: shift_paste_blocks_def List.map_filter_def)
  show "apart r (es, es + n)" if r: "r \<in> set (shift_paste_blocks es ee n rs)"
  proof -
    obtain r0 where r0: "r0 \<in> set rs" "shift_block es ee n r0 = Some r" using src [OF r] by blast
    then show ?thesis using shift_block_cases [OF r0(2) assms(2)] el [OF r0(1)] assms(2) by (auto simp: apart_def)
  qed
  have "fst r' < snd r' \<and> snd r' \<le> len - (ee - es) + n" if r': "r' \<in> set (shift_paste_blocks es ee n rs)" for r'
  proof -
    obtain r0 where r0: "r0 \<in> set rs" "shift_block es ee n r0 = Some r'" using src [OF r'] by blast
    then show ?thesis using shift_block_cases [OF r0(2) assms(2)] el [OF r0(1)] assms(2,3) by auto
  qed
  moreover have "sorted_wrt apart (shift_paste_blocks es ee n rs)"
    unfolding shift_paste_blocks_def
  proof (rule sorted_wrt_map_filter)
    show "sorted_wrt apart rs" using assms(1) by (simp add: ranges_ok_def)
    fix x y x' y'
    assume "x \<in> set rs" "y \<in> set rs" "apart x y" "shift_block es ee n x = Some x'" "shift_block es ee n y = Some y'"
    then show "apart x' y'"
      using shift_block_cases [of es ee n x x'] shift_block_cases [of es ee n y y'] el assms(2)
      by (fastforce simp: apart_def)
  qed
  ultimately show "ranges_ok (len - (ee - es) + n) (shift_paste_blocks es ee n rs)"
    by (auto simp: ranges_ok_def list_all_iff)
qed

definition pasted_ok :: "editor \<Rightarrow> bool" where
  "pasted_ok ed = (cursor ed \<le> length (inp ed) \<and> ranges_ok (length (inp ed)) (pasted ed))"

lemma drain_pasted:
  assumes "ranges_ok (length (inp ed)) (pasted ed)" "s \<le> e" "e \<le> length (inp ed)"
  shows "ranges_ok (length (inp (drain s e ed))) (pasted (drain s e ed))" "s \<le> length (inp (drain s e ed))"
  using shift_ranges_ok(1) [OF assms, of 0] assms(2,3)
  by (simp_all add: drain_def) (metis add.commute Nat.diff_diff_right add_diff_inverse_nat diff_add_assoc2 le_add_diff_inverse not_less)

lemma insert_pasted:
  assumes "ranges_ok len rs" "pos \<le> len" "0 < n"
  defines "bs \<equiv> shift_paste_blocks pos pos n rs"
  shows "ranges_ok (len + n) bs"
    and "ranges_ok (len + n) (bs @ [(pos, pos + n)])"
    and "bs \<noteq> [] \<Longrightarrow> snd (last bs) = pos \<Longrightarrow> ranges_ok (len + n) (butlast bs @ [(fst (last bs), pos + n)])"
proof -
  show ok: "ranges_ok (len + n) bs"
    using shift_ranges_ok(1) [OF assms(1) order_refl assms(2), of n] by (simp add: bs_def)
  have ap: "r \<in> set bs \<Longrightarrow> apart r (pos, pos + n)" for r
    using shift_ranges_ok(2) [OF assms(1) order_refl assms(2)] by (simp add: bs_def)
  show "ranges_ok (len + n) (bs @ [(pos, pos + n)])"
    using ok ap assms(2,3) by (auto simp: ranges_ok_def sorted_wrt_append)
  assume b: "bs \<noteq> []" "snd (last bs) = pos"
  then obtain bs' r where bs: "bs = bs' @ [r]" by (metis rev_exhaust)
  have "apart x (fst r, pos + n)" if "x \<in> set bs'" for x
  proof -
    have "apart x r" "apart x (pos, pos + n)" "fst x < snd x" "fst r < snd r"
      using that ok ap [of x] bs by (auto simp: ranges_ok_def sorted_wrt_append list_all_iff)
    then show ?thesis using b bs by (auto simp: apart_def)
  qed
  then show "ranges_ok (len + n) (butlast bs @ [(fst (last bs), pos + n)])"
    using ok b bs assms(2) by (auto simp: ranges_ok_def sorted_wrt_append)
qed

lemma ceil_loop_bounds: "pos \<le> length s \<Longrightarrow> pos \<le> ceil_loop s pos \<and> ceil_loop s pos \<le> length s"
proof (induction s pos rule: ceil_loop.induct)
  case (1 s pos)
  then show ?case by (subst (1 2) ceil_loop.simps) auto
qed

lemma skip_forward_bounds: "pos \<le> length s \<Longrightarrow> pos \<le> skip_forward P s pos \<and> skip_forward P s pos \<le> length s"
proof (induction P s pos rule: skip_forward.induct)
  case (1 P s pos)
  then show ?case by (subst (1 2) skip_forward.simps) auto
qed

lemma skip_back_le: "skip_back P s n \<le> n"
  by (induction n) auto

lemma word_start_le: "word_start s n \<le> n"
  unfolding word_start_def using skip_back_le le_trans by blast

lemma floor_loop_bound: "floor_loop s n \<le> n"
  by (induction n) auto

lemma find_char_bound: "find_char c s = Some i \<Longrightarrow> i < length s"
  by (rule find_char_less)

lemma edit_step_pasted:
  assumes "pasted_ok ed"
  shows "pasted_ok (edit_step ed e)"
proof -
  have c: "cursor ed \<le> length (inp ed)" and r: "ranges_ok (length (inp ed)) (pasted ed)"
    using assms by (simp_all add: pasted_ok_def)
  have nil: "ranges_ok n []" for n by (simp add: ranges_ok_def)
  have set: "pasted_ok (set_input s ed')" for s ed' by (simp add: pasted_ok_def set_input_def nil)
  have moved: "pasted_ok (ed\<lparr>cursor := n\<rparr>)" if "n \<le> length (inp ed)" for n
    using that r by (simp add: pasted_ok_def)
  have dropped: "pasted_ok ((drain n (cursor ed) ed)\<lparr>cursor := n\<rparr>)" if "n \<le> cursor ed" for n
    using drain_pasted [OF r that c] by (simp add: pasted_ok_def drain_def)
  have insert: "pasted_ok (add_char ch ed)" for ch
  proof (cases "ch = []")
    case True
    then show ?thesis using shift_ranges_ok(1) [OF r order_refl c, of 0] c
      by (simp add: add_char_def pasted_ok_def Let_def min_absorb1)
  next
    case False
    then show ?thesis using insert_pasted(1) [OF r c, of "length ch"] c
      by (simp add: add_char_def pasted_ok_def Let_def min_absorb1 add.commute)
  qed
  show ?thesis
  proof (cases e)
    case (OpChar ch)
    then show ?thesis using insert by simp
  next
    case OpNewline
    then show ?thesis using insert by (simp add: insert_newline_def)
  next
    case OpLeft
    then show ?thesis using moved [of "floor_loop (inp ed) (cursor ed - 1)"] floor_loop_bound [of "inp ed" "cursor ed - 1"] c assms
      by (simp add: move_cursor_left_def)
  next
    case OpRight
    then show ?thesis using moved [of "ceil_loop (inp ed) (cursor ed + 1)"] ceil_loop_bounds [of "cursor ed + 1" "inp ed"] assms
      by (simp add: move_cursor_right_def)
  next
    case OpDeleteWord
    then show ?thesis using dropped [OF word_start_le] assms by (simp add: delete_word_before_def Let_def)
  next
    case OpDeleteToStart
    have "(case last_index_of lf_char (take (cursor ed) (inp ed)) of None \<Rightarrow> 0 | Some i \<Rightarrow> i + 1) \<le> cursor ed"
      unfolding rfind_line_start using skip_back_le [of _ "take (cursor ed) (inp ed)" "length (take (cursor ed) (inp ed))"] c by simp
    then show ?thesis using dropped OpDeleteToStart by (simp add: delete_to_line_start_def Let_def)
  next
    case OpBackspace
    have "floor_loop (inp ed) (cursor ed - 1) \<le> cursor ed" using floor_loop_bound [of "inp ed" "cursor ed - 1"] by linarith
    then show ?thesis using dropped OpBackspace assms c
      by (simp add: backspace_def move_cursor_left_def Let_def drain_cursor min_absorb1)
  next
    case OpDelete
    show ?thesis
    proof (cases "length (inp ed) \<le> cursor ed")
      case True
      then show ?thesis using OpDelete moved [OF c] c by (simp add: delete_at_cursor_def Let_def min_absorb1)
    next
      case False
      then have b: "cursor ed + 1 \<le> ceil_loop (inp ed) (cursor ed + 1)" "ceil_loop (inp ed) (cursor ed + 1) \<le> length (inp ed)"
        using ceil_loop_bounds [of "cursor ed + 1" "inp ed"] by auto
      then show ?thesis using drain_pasted [OF r, of "cursor ed" "ceil_loop (inp ed) (cursor ed + 1)"] OpDelete False
        by (simp add: delete_at_cursor_def Let_def pasted_ok_def drain_def min_absorb1)
    qed
  next
    case OpClear
    then show ?thesis by (simp add: pasted_ok_def clear_input_def nil)
  next
    case OpSubmit
    then show ?thesis using assms by (auto simp: pasted_ok_def submit_input_def clear_input_def nil)
  next
    case OpPrevious
    then show ?thesis using assms set by (auto simp: history_previous_def split: option.splits)
  next
    case OpNext
    then show ?thesis using assms set by (auto simp: history_next_def split: option.splits)
  next
    case OpWordLeft
    have "floor_loop (inp ed) (word_start (inp ed) (cursor ed)) \<le> length (inp ed)"
      using floor_loop_bound [of "inp ed" "word_start (inp ed) (cursor ed)"] word_start_le [of "inp ed" "cursor ed"] c by linarith
    then show ?thesis using moved OpWordLeft assms by (simp add: move_cursor_word_left_def)
  next
    case OpWordRight
    then show ?thesis using moved assms skip_forward_bounds ceil_loop_bounds by (simp add: move_cursor_word_right_def c)
  next
    case OpCutToEnd
    have "cursor ed + i \<le> length (inp ed)" if "find_char lf_char (drop (cursor ed) (inp ed)) = Some i" for i
      using find_char_bound [OF that] by simp
    then have "cursor ed \<le> (case find_char lf_char (drop (cursor ed) (inp ed)) of None \<Rightarrow> length (inp ed) | Some i \<Rightarrow> cursor ed + i)"
      "(case find_char lf_char (drop (cursor ed) (inp ed)) of None \<Rightarrow> length (inp ed) | Some i \<Rightarrow> cursor ed + i) \<le> length (inp ed)"
      using c by (auto split: option.splits)
    then show ?thesis using drain_pasted [OF r] OpCutToEnd c
      by (simp add: cut_to_end_def Let_def pasted_ok_def drain_def min_absorb1)
  next
    case (OpPaste t)
    let ?n = "length (filter (\<lambda>c. c \<noteq> CHR 0x0D) t)"
    show ?thesis
    proof (cases "filter (\<lambda>c. c \<noteq> CHR 0x0D) t = []")
      case True
      then show ?thesis using assms OpPaste by (simp add: insert_paste_def)
    next
      case False
      then have n: "0 < ?n" by simp
      note ins = insert_pasted [OF r c n]
      show ?thesis using OpPaste c False ins(2,3)
        by (auto simp: insert_paste_def Let_def pasted_ok_def min_absorb1 add.commute)
    qed
  next
    case (OpSet s)
    then show ?thesis using set by simp
  next
    case OpReset
    then show ?thesis using assms by (simp add: pasted_ok_def reset_history_index_def)
  qed
qed

interpretation editing: invariant_system edit_step pasted_ok
  by unfold_locales (rule edit_step_pasted)

text \<open>
  Whatever is typed, deleted, recalled or pasted, and wherever the cursor was moved to, the
  ranges of pasted text are non-empty parts of the text and no two of them overlap.
\<close>

theorem pasted_ranges_are_disjoint:
  "list_all (\<lambda>r. fst r < snd r \<and> snd r \<le> length (inp (foldl edit_step editor_new es))) (pasted (foldl edit_step editor_new es))
     \<and> sorted_wrt apart (pasted (foldl edit_step editor_new es))"
proof -
  have "pasted_ok editor_new" by (simp add: pasted_ok_def editor_new_def ranges_ok_def)
  from editing.run_keeps [OF this, of es] show ?thesis by (simp add: pasted_ok_def ranges_ok_def)
qed

section \<open>The history ring\<close>

lemma previous_run:
  "hist_index ed = None \<Longrightarrow> 0 < k \<Longrightarrow> k \<le> length (history ed) \<Longrightarrow>
   (let ed' = foldl edit_step ed (replicate k OpPrevious) in
      hist_index ed' = Some (length (history ed) - k) \<and> draft ed' = inp ed \<and> history ed' = history ed
      \<and> inp ed' = history ed ! (length (history ed) - k))"
proof (induction k)
  case (Suc k)
  show ?case
  proof (cases k)
    case 0
    then show ?thesis using Suc.prems by (auto simp: history_previous_def set_input_def)
  next
    case (Suc j)
    then have "replicate (Suc k) OpPrevious = replicate k OpPrevious @ [OpPrevious]"
      by (simp add: replicate_append_same)
    then show ?thesis using Suc.IH Suc.prems Suc
      by (auto simp: history_previous_def set_input_def Let_def simp del: replicate.simps)
  qed
qed simp

lemma next_run:
  "hist_index ed = Some i \<Longrightarrow> i < length (history ed) \<Longrightarrow>
   (let ed' = foldl edit_step ed (replicate (length (history ed) - i) OpNext) in
      hist_index ed' = None \<and> inp ed' = draft ed \<and> history ed' = history ed)"
proof (induction "length (history ed) - i" arbitrary: ed i)
  case (Suc n)
  let ?ed = "history_next ed"
  show ?case
  proof (cases "length (history ed) - 1 \<le> i")
    case True
    then have "length (history ed) - i = 1" using Suc.prems by simp
    then show ?thesis using True Suc.prems by (auto simp: history_next_def set_input_def)
  next
    case False
    then have e: "hist_index ?ed = Some (i + 1)" "history ?ed = history ed" "draft ?ed = draft ed"
      using Suc.prems by (auto simp: history_next_def set_input_def)
    have "length (history ed) - i = Suc (length (history ed) - (i + 1))" using Suc.prems by simp
    then show ?thesis using Suc.hyps(1) [of ?ed "i + 1"] Suc.hyps(2) Suc.prems False e
      by (simp add: Let_def)
  qed
qed simp

text \<open>
  Going up any number of entries of the history and down as many brings back the text that was
  being typed, and the recall is over.
\<close>

theorem recall_up_and_down:
  assumes "hist_index ed = None" "k \<le> length (history ed)"
  defines "ed' \<equiv> foldl edit_step ed (replicate k OpPrevious @ replicate k OpNext)"
  shows "inp ed' = inp ed \<and> hist_index ed' = None \<and> history ed' = history ed"
proof (cases "k = 0")
  case True
  then show ?thesis using assms by simp
next
  case False
  let ?up = "foldl edit_step ed (replicate k OpPrevious)"
  have up: "hist_index ?up = Some (length (history ed) - k)" "draft ?up = inp ed" "history ?up = history ed"
    using previous_run [of ed k] assms False by (auto simp: Let_def)
  have "length (history ?up) - (length (history ed) - k) = k" using assms(2) up(3) by simp
  then show ?thesis using next_run [OF up(1)] up assms False by (simp add: Let_def)
qed

theorem recall_up_and_down_witness:
  "inp (foldl edit_step (editor_new\<lparr>inp := ''now'', history := [''a'', ''b'']\<rparr>)
      (replicate 2 OpPrevious @ replicate 2 OpNext)) = ''now''"
proof -
  let ?ed = "editor_new\<lparr>inp := ''now'', history := [''a'', ''b'']\<rparr>"
  have "hist_index ?ed = None" "2 \<le> length (history ?ed)" by (simp_all add: editor_new_def)
  from recall_up_and_down [OF this] show ?thesis by (simp del: replicate.simps)
qed

end
