(* ===== verification/Kod_Query.thy ===== *)
theory Kod_Query
  imports Kod_Text
begin

text \<open>
  Search queries in the idiom of web search: \<open>crates/kod-tools/src/query_syntax.rs\<close>. A query text is
  cut into tokens and read into terms, phrases, exclusions and constraints; \<open>relax_until\<close> drops
  constraints until a test of the caller, which may keep a state, accepts. The lemmas show that a
  printed query is read back, that a query of plain words is kept word for word, and that
  relaxing drops exactly the constraints it reports, in the fixed order, and no more than needed.
\<close>

section \<open>Parsed queries\<close>

record parsed_query =
  q_terms :: "string list"
  q_phrases :: "string list"
  q_excluded :: "string list"
  q_site :: "string option"
  q_filetype :: "string option"
  q_before :: "string option"
  q_after :: "string option"
  q_inurl :: "string option"
  q_intitle :: "string option"
  q_lang :: "string option"
  q_or_groups :: "string list list"
  q_excluded_constraints :: "(string \<times> string) list"

definition query_default :: parsed_query where
  "query_default = \<lparr> q_terms = [], q_phrases = [], q_excluded = [], q_site = None, q_filetype = None,
     q_before = None, q_after = None, q_inurl = None, q_intitle = None, q_lang = None,
     q_or_groups = [], q_excluded_constraints = [] \<rparr>"

definition named :: "string \<Rightarrow> string option \<Rightarrow> (string \<times> string) list" where
  "named k v = (case v of None \<Rightarrow> [] | Some x \<Rightarrow> [(k, x)])"

definition constraints :: "parsed_query \<Rightarrow> (string \<times> string) list" where
  "constraints q =
     named ''filetype'' (q_filetype q) @ named ''site'' (q_site q) @ named ''inurl'' (q_inurl q)
       @ named ''intitle'' (q_intitle q) @ named ''after'' (q_after q) @ named ''before'' (q_before q)
       @ named ''lang'' (q_lang q)"

definition drop_constraint :: "string \<Rightarrow> parsed_query \<Rightarrow> string option \<times> parsed_query" where
  "drop_constraint name q =
     (if name = ''filetype'' then (q_filetype q, q\<lparr>q_filetype := None\<rparr>)
      else if name = ''site'' then (q_site q, q\<lparr>q_site := None\<rparr>)
      else if name = ''inurl'' then (q_inurl q, q\<lparr>q_inurl := None\<rparr>)
      else if name = ''intitle'' then (q_intitle q, q\<lparr>q_intitle := None\<rparr>)
      else if name = ''after'' then (q_after q, q\<lparr>q_after := None\<rparr>)
      else if name = ''before'' then (q_before q, q\<lparr>q_before := None\<rparr>)
      else if name = ''lang'' then (q_lang q, q\<lparr>q_lang := None\<rparr>)
      else (None, q))"

section \<open>Tokens\<close>

abbreviation quote_char :: string where
  "quote_char \<equiv> [CHR 0x22]"

text \<open>The loop over the characters: the tokens so far, the current one, inside quotes or not.\<close>

fun token_step :: "string list \<times> string \<times> bool \<Rightarrow> string \<Rightarrow> string list \<times> string \<times> bool" where
  "token_step (out, cur, quoted) ch =
     (if ch = quote_char then
        (if quoted then (out @ [cur @ ch], [], \<not> quoted) else (out, cur @ ch, \<not> quoted))
      else if is_ws_char ch \<and> \<not> quoted then
        (if cur \<noteq> [] then (out @ [cur], [], quoted) else (out, cur, quoted))
      else (out, cur @ ch, quoted))"

definition tokenize_query :: "string \<Rightarrow> string list" where
  "tokenize_query s =
     (case foldl token_step ([], [], False) (utf8_chars s) of
        (out, cur, _) \<Rightarrow> if cur \<noteq> [] then out @ [cur] else out)"

section \<open>Parsing\<close>

definition ignore_case_eq :: "string \<Rightarrow> string \<Rightarrow> bool" where
  "ignore_case_eq a b = (map ascii_lower a = map ascii_lower b)"

definition set_constraint :: "string \<Rightarrow> string \<Rightarrow> parsed_query \<Rightarrow> parsed_query option" where
  "set_constraint k v q =
     (if k = ''site'' then Some (q\<lparr>q_site := Some v\<rparr>)
      else if k = ''filetype'' \<or> k = ''ext'' then Some (q\<lparr>q_filetype := Some v\<rparr>)
      else if k = ''before'' then Some (q\<lparr>q_before := Some v\<rparr>)
      else if k = ''after'' then Some (q\<lparr>q_after := Some v\<rparr>)
      else if k = ''inurl'' then Some (q\<lparr>q_inurl := Some v\<rparr>)
      else if k = ''intitle'' then Some (q\<lparr>q_intitle := Some v\<rparr>)
      else if k = ''lang'' then Some (q\<lparr>q_lang := Some v\<rparr>)
      else None)"

definition exclude_constraint :: "string \<Rightarrow> string \<Rightarrow> parsed_query \<Rightarrow> parsed_query option" where
  "exclude_constraint k v q =
     (if k \<in> {''site'', ''filetype'', ''before'', ''after'', ''inurl'', ''intitle'', ''lang''}
      then Some (q\<lparr>q_excluded_constraints := q_excluded_constraints q @ [(k, v)]\<rparr>)
      else if k = ''ext'' then Some (q\<lparr>q_excluded_constraints := q_excluded_constraints q @ [(''filetype'', v)]\<rparr>)
      else None)"

definition negation :: "string \<Rightarrow> bool \<times> string" where
  "negation t = (case strip_prefix ''-'' t of Some rest \<Rightarrow> if rest \<noteq> [] then (True, rest) else (False, t) | None \<Rightarrow> (False, t))"

definition operator_of :: "string \<Rightarrow> (string \<times> string) option" where
  "operator_of body =
     (case split_once '':'' body of
        Some (k, v) \<Rightarrow> if v \<noteq> [] \<and> \<not> prefix ''://'' body then Some (map ascii_lower k, v) else None
      | None \<Rightarrow> None)"

text \<open>One token that is not \<open>OR\<close>.\<close>

definition plain_token :: "string \<Rightarrow> parsed_query \<Rightarrow> parsed_query" where
  "plain_token t q =
     (if 2 \<le> length t \<and> prefix quote_char t \<and> ends_with quote_char t
      then q\<lparr>q_phrases := q_phrases q @ [butlast (tl t)]\<rparr>
      else
        (let (negated, body) = negation t;
             taken = (case operator_of body of
                 None \<Rightarrow> None
               | Some (k, v) \<Rightarrow> if negated then exclude_constraint k v q else set_constraint k v q)
         in case taken of
              Some q' \<Rightarrow> q'
            | None \<Rightarrow> if negated then q\<lparr>q_excluded := q_excluded q @ [body]\<rparr> else q\<lparr>q_terms := q_terms q @ [t]\<rparr>))"

text \<open>The term before \<open>OR\<close>: the last term, else the last phrase, else nothing.\<close>

definition pop_operand :: "parsed_query \<Rightarrow> string \<times> parsed_query" where
  "pop_operand q =
     (if q_terms q \<noteq> [] then (last (q_terms q), q\<lparr>q_terms := butlast (q_terms q)\<rparr>)
      else if q_phrases q \<noteq> [] then (last (q_phrases q), q\<lparr>q_phrases := butlast (q_phrases q)\<rparr>)
      else ([], q))"

definition nonempty_list :: "string \<Rightarrow> string list" where
  "nonempty_list s = (if s \<noteq> [] then [s] else [])"

definition close_group :: "string list \<Rightarrow> parsed_query \<Rightarrow> parsed_query" where
  "close_group pending q = (if pending \<noteq> [] then q\<lparr>q_or_groups := q_or_groups q @ [pending]\<rparr> else q)"

fun parse_tokens :: "string list \<Rightarrow> string list \<Rightarrow> parsed_query \<Rightarrow> parsed_query" where
  "parse_tokens [] pending q = close_group pending q"
| "parse_tokens [t] pending q =
     (if ignore_case_eq t ''OR'' then
        (let (prev, q1) = pop_operand q in close_group (pending @ nonempty_list prev) q1)
      else plain_token t (close_group pending q))"
| "parse_tokens (t # u # ts) pending q =
     (if ignore_case_eq t ''OR'' then
        (let (prev, q1) = pop_operand q in parse_tokens ts (pending @ nonempty_list prev @ nonempty_list u) q1)
      else parse_tokens (u # ts) [] (plain_token t (close_group pending q)))"

definition parse_query :: "string \<Rightarrow> parsed_query" where
  "parse_query s = parse_tokens (tokenize_query s) [] query_default"

section \<open>Relaxing\<close>

definition relax_order :: "string list" where
  "relax_order = [''filetype'', ''lang'', ''site'', ''inurl'', ''intitle'', ''after'', ''before'']"

fun relax_names ::
  "(parsed_query \<Rightarrow> 's \<Rightarrow> bool \<times> 's) \<Rightarrow> string list \<Rightarrow> string list \<Rightarrow> parsed_query \<Rightarrow> 's \<Rightarrow> string list \<times> parsed_query \<times> 's" where
  "relax_names accepts [] dropped q s = (dropped, q, s)"
| "relax_names accepts (n # ns) dropped q s =
     (case drop_constraint n q of
        (None, q1) \<Rightarrow> relax_names accepts ns dropped q1 s
      | (Some _, q1) \<Rightarrow>
          (let (ok, s1) = accepts q1 s in
           if ok then (dropped @ [n @ '':''], q1, s1) else relax_names accepts ns (dropped @ [n @ '':'']) q1 s1))"

definition relax_until ::
  "(parsed_query \<Rightarrow> 's \<Rightarrow> bool \<times> 's) \<Rightarrow> parsed_query \<Rightarrow> 's \<Rightarrow> string list \<times> parsed_query \<times> 's" where
  "relax_until accepts q s =
     (let (ok, s1) = accepts q s in if ok then ([], q, s1) else relax_names accepts relax_order [] q s1)"

section \<open>Relaxing drops what it reports\<close>

definition without :: "string list \<Rightarrow> parsed_query \<Rightarrow> parsed_query" where
  "without ns q = foldl (\<lambda>q n. snd (drop_constraint n q)) q ns"

definition set_names :: "string list \<Rightarrow> parsed_query \<Rightarrow> string list" where
  "set_names ns q = filter (\<lambda>n. fst (drop_constraint n q) \<noteq> None) ns"

text \<open>The queries put to the test, the first as it was.\<close>

fun asked :: "(parsed_query \<Rightarrow> 's \<Rightarrow> bool \<times> 's) \<Rightarrow> parsed_query list \<Rightarrow> 's \<Rightarrow> bool list" where
  "asked accepts [] s = []"
| "asked accepts (q # qs) s = fst (accepts q s) # asked accepts qs (snd (accepts q s))"

lemma drop_other: "m \<noteq> n \<Longrightarrow> fst (drop_constraint m (snd (drop_constraint n q))) = fst (drop_constraint m q)"
  by (auto simp: drop_constraint_def)

lemma drop_unset: "fst (drop_constraint n q) = None \<Longrightarrow> snd (drop_constraint n q) = q"
  by (cases q) (auto simp: drop_constraint_def split: if_splits)

text \<open>The queries reached by dropping the names one after the other.\<close>

fun dropping :: "string list \<Rightarrow> parsed_query \<Rightarrow> parsed_query list" where
  "dropping [] q = []"
| "dropping (n # ns) q = (let q1 = snd (drop_constraint n q) in q1 # dropping ns q1)"

lemma relax_names_run:
  assumes "distinct names"
  shows "\<exists>k b. k \<le> length (set_names names q)
    \<and> fst (relax_names accepts names dropped q s) = dropped @ map (\<lambda>n. n @ '':'') (take k (set_names names q))
    \<and> fst (snd (relax_names accepts names dropped q s)) = without (take k (set_names names q)) q
    \<and> asked accepts (dropping (take k (set_names names q)) q) s = (if k = 0 then [] else replicate (k - 1) False @ [b])
    \<and> (k = length (set_names names q) \<or> 0 < k \<and> b)"
  using assms
proof (induction names arbitrary: dropped q s)
  case Nil
  then show ?case by (simp add: set_names_def without_def)
next
  case (Cons n names)
  obtain v q1 where d: "drop_constraint n q = (v, q1)" by (cases "drop_constraint n q")
  show ?case
  proof (cases v)
    case None
    then have "q1 = q" using drop_unset [of n q] d by simp
    moreover have "set_names (n # names) q = set_names names q" using None d by (simp add: set_names_def)
    ultimately show ?thesis using Cons.IH [where dropped = dropped and q = q and s = s] Cons.prems None d by simp
  next
    case (Some x)
    have "m \<in> set names \<Longrightarrow> fst (drop_constraint m q1) = fst (drop_constraint m q)" for m
      using drop_other [of m n q] d Cons.prems by auto
    then have names: "set_names (n # names) q = n # set_names names q1"
      using Some d by (simp add: set_names_def cong: filter_cong)
    obtain ok s1 where a: "accepts q1 s = (ok, s1)" by (cases "accepts q1 s")
    show ?thesis
    proof (cases ok)
      case True
      then show ?thesis using Some d a names by (intro exI [of _ 1] exI [of _ True]) (simp add: without_def)
    next
      case False
      obtain k b where k: "k \<le> length (set_names names q1)"
        "fst (relax_names accepts names (dropped @ [n @ '':'']) q1 s1)
           = (dropped @ [n @ '':'']) @ map (\<lambda>n. n @ '':'') (take k (set_names names q1))"
        "fst (snd (relax_names accepts names (dropped @ [n @ '':'']) q1 s1)) = without (take k (set_names names q1)) q1"
        "asked accepts (dropping (take k (set_names names q1)) q1) s1 = (if k = 0 then [] else replicate (k - 1) False @ [b])"
        "k = length (set_names names q1) \<or> 0 < k \<and> b"
        using Cons.IH [where dropped = "dropped @ [n @ '':'']" and q = q1 and s = s1] Cons.prems by auto
      show ?thesis using Some d a names False k
        by (intro exI [of _ "Suc k"] exI [of _ "if k = 0 then False else b"]) (cases k; auto simp: without_def)
    qed
  qed
qed

text \<open>
  Relaxing drops constraints that are set, in the fixed order, one at a time: what it reports is
  what it dropped, every query it tried before the last one was refused, and it stops at the first
  accepted query or when no constraint is left.
\<close>

theorem relaxing_is_minimal:
  "\<exists>k b. k \<le> length (set_names relax_order q)
     \<and> fst (relax_until accepts q s) = map (\<lambda>n. n @ '':'') (take k (set_names relax_order q))
     \<and> fst (snd (relax_until accepts q s)) = without (take k (set_names relax_order q)) q
     \<and> asked accepts (q # dropping (take k (set_names relax_order q)) q) s = replicate k False @ [b]
     \<and> (b \<or> k = length (set_names relax_order q))"
proof -
  obtain ok s1 where a: "accepts q s = (ok, s1)" by (cases "accepts q s")
  show ?thesis
  proof (cases ok)
    case True
    then show ?thesis using a by (intro exI [of _ 0] exI [of _ True]) (simp add: relax_until_def without_def)
  next
    case False
    have "distinct relax_order" by (simp add: relax_order_def)
    from relax_names_run [OF this, of q accepts "[]" s1] obtain k b where
      k: "k \<le> length (set_names relax_order q)"
        "fst (relax_names accepts relax_order [] q s1) = map (\<lambda>n. n @ '':'') (take k (set_names relax_order q))"
        "fst (snd (relax_names accepts relax_order [] q s1)) = without (take k (set_names relax_order q)) q"
        "asked accepts (dropping (take k (set_names relax_order q)) q) s1 = (if k = 0 then [] else replicate (k - 1) False @ [b])"
        "k = length (set_names relax_order q) \<or> 0 < k \<and> b"
      by auto
    show ?thesis using a False k
      by (intro exI [of _ k] exI [of _ "if k = 0 then False else b"]) (cases k; auto simp: relax_until_def)
  qed
qed

section \<open>A printed query is read back\<close>

definition token_ok :: "string \<Rightarrow> bool" where
  "token_ok t = (t \<noteq> [] \<and> CHR 0x22 \<notin> set t \<and> \<not> is_cont (hd t) \<and> list_all (\<lambda>ch. ch \<noteq> quote_char \<and> \<not> is_ws_char ch) (utf8_chars t))"

definition phrase_ok :: "string \<Rightarrow> bool" where
  "phrase_ok p = ((p = [] \<or> \<not> is_cont (hd p)) \<and> list_all (\<lambda>ch. ch \<noteq> quote_char) (utf8_chars p))"

definition constraint_names :: "string list" where
  "constraint_names = [''site'', ''filetype'', ''before'', ''after'', ''inurl'', ''intitle'', ''lang'']"

definition query_ok :: "parsed_query \<Rightarrow> bool" where
  "query_ok q =
     (list_all (\<lambda>t. token_ok t \<and> hd t \<noteq> CHR ''-'' \<and> operator_of t = None \<and> \<not> ignore_case_eq t ''OR'') (q_terms q)
      \<and> list_all phrase_ok (q_phrases q)
      \<and> list_all (\<lambda>t. token_ok t \<and> operator_of t = None) (q_excluded q)
      \<and> list_all (\<lambda>(k, v). token_ok v) (constraints q)
      \<and> list_all (\<lambda>(k, v). k \<in> set constraint_names \<and> token_ok v) (q_excluded_constraints q)
      \<and> q_or_groups q = [])"

definition query_tokens :: "parsed_query \<Rightarrow> string list" where
  "query_tokens q =
     q_terms q @ map (\<lambda>p. quote_char @ p @ quote_char) (q_phrases q) @ map (\<lambda>t. ''-'' @ t) (q_excluded q)
       @ map (\<lambda>(k, v). k @ '':'' @ v) (constraints q)
       @ map (\<lambda>(k, v). ''-'' @ k @ '':'' @ v) (q_excluded_constraints q)"

definition print_query :: "parsed_query \<Rightarrow> string" where
  "print_query q = join_with '' '' (query_tokens q)"

text \<open>A token the tokenizer keeps whole: characters of a word, or a quoted phrase.\<close>

definition whole_token :: "string \<Rightarrow> bool" where
  "whole_token t = (token_ok t \<or> (\<exists>p. phrase_ok p \<and> t = quote_char @ p @ quote_char))"

lemma quote_ok: "\<not> is_cont (CHR 0x22)" "\<not> is_cont (CHR '' '')" "\<not> is_ws_char quote_char" "is_ws_char '' ''"
  by (simp_all add: is_cont_def is_ws_char_def ws_seqs_def)

lemma word_chars:
  "list_all (\<lambda>ch. ch \<noteq> quote_char \<and> \<not> is_ws_char ch) chs \<Longrightarrow>
   foldl token_step (out, cur, False) chs = (out, cur @ concat chs, False)"
  by (induction chs arbitrary: cur) auto

lemma phrase_chars:
  "list_all (\<lambda>ch. ch \<noteq> quote_char) chs \<Longrightarrow> foldl token_step (out, cur, True) chs = (out, cur @ concat chs, True)"
  by (induction chs arbitrary: cur) auto

lemma phrase_token:
  assumes "phrase_ok p"
  shows "utf8_chars (quote_char @ p @ quote_char) = quote_char # utf8_chars p @ [quote_char]"
proof -
  have "utf8_chars (p @ quote_char) = utf8_chars p @ [quote_char]"
    using utf8_chars_snoc [OF quote_ok(1), of p] by simp
  moreover have "takeWhile is_cont (p @ quote_char) = []" "dropWhile is_cont (p @ quote_char) = p @ quote_char"
    using assms quote_ok(1) by (cases p; simp add: phrase_ok_def)+
  ultimately show ?thesis by simp
qed

lemma whole_token_fold:
  assumes "whole_token t"
  shows "foldl token_step (out, [], False) (utf8_chars t) = (out, t, False)
    \<or> foldl token_step (out, [], False) (utf8_chars t) = (out @ [t], [], False)"
  using assms
proof (unfold whole_token_def, elim disjE exE conjE)
  assume "token_ok t"
  then show ?thesis using word_chars [of "utf8_chars t" out "[]"] by (simp add: token_ok_def)
next
  fix p assume p: "phrase_ok p" "t = quote_char @ p @ quote_char"
  then have "foldl token_step (out, quote_char, True) (utf8_chars p) = (out, quote_char @ p, True)"
    using phrase_chars [of "utf8_chars p" out quote_char] by (simp add: phrase_ok_def)
  then show ?thesis unfolding p(2) phrase_token [OF p(1)] by simp
qed

lemma whole_token_head: "whole_token t \<Longrightarrow> t \<noteq> [] \<and> \<not> is_cont (hd t)"
  using quote_ok(1) by (auto simp: whole_token_def token_ok_def)

lemma tokenize_join:
  assumes "list_all whole_token ts"
  shows "tokenize_query (join_with '' '' ts) = ts"
proof -
  have fold: "foldl token_step (out, [], False) (utf8_chars (join_with '' '' ts)) = (out @ butlast ts, last ts, False)
      \<or> foldl token_step (out, [], False) (utf8_chars (join_with '' '' ts)) = (out @ ts, [], False)"
    if "ts \<noteq> []" "list_all whole_token ts" for out ts
    using that
  proof (induction "'' ''" ts arbitrary: out rule: join_with.induct)
    case (2 x)
    then show ?case using whole_token_fold [of x out] by auto
  next
    case (3 x y ys)
    let ?rest = "join_with '' '' (y # ys)"
    have y: "y \<noteq> []" "\<not> is_cont (hd y)" using 3(3) whole_token_head by auto
    then have "?rest \<noteq> []" "\<not> is_cont (hd ?rest)" by (auto simp: join_with_Cons)
    then have "utf8_chars ('' '' @ ?rest) = '' '' # utf8_chars ?rest" by (cases ?rest) auto
    moreover have "utf8_chars (x @ '' '' @ ?rest) = utf8_chars x @ utf8_chars ('' '' @ ?rest)"
      using quote_ok(2) by (intro utf8_chars_append) simp
    ultimately have "utf8_chars (join_with '' '' (x # y # ys)) = utf8_chars x @ '' '' # utf8_chars ?rest" by simp
    moreover have "x \<noteq> []" using 3(3) whole_token_head by auto
    ultimately have "foldl token_step (out, [], False) (utf8_chars (join_with '' '' (x # y # ys)))
        = foldl token_step (out @ [x], [], False) (utf8_chars ?rest)"
      using whole_token_fold [of x out] 3(3) quote_ok(4) by auto
    then show ?case using 3(1) [of "out @ [x]"] 3(3) by auto
  qed simp
  show ?thesis
  proof (cases "ts = []")
    case True
    then show ?thesis by (simp add: tokenize_query_def)
  next
    case False
    have "last ts \<noteq> []" using assms whole_token_head False by (simp add: list_all_iff)
    moreover have "butlast ts @ [last ts] = ts" using False by simp
    ultimately show ?thesis using fold [OF False assms, of "[]"] unfolding tokenize_query_def by (elim disjE) simp_all
  qed
qed


text \<open>How each kind of token is taken.\<close>

lemma no_quote: "CHR 0x22 \<notin> set t \<Longrightarrow> \<not> (2 \<le> length t \<and> prefix quote_char t \<and> ends_with quote_char t)"
  by (cases t) auto

lemma token_term:
  "\<lbrakk>token_ok t; hd t \<noteq> CHR ''-''; operator_of t = None\<rbrakk> \<Longrightarrow> plain_token t q = q\<lparr>q_terms := q_terms q @ [t]\<rparr>"
  using no_quote [of t]
  by (cases t) (auto simp: plain_token_def token_ok_def negation_def strip_prefix_def Let_def)

lemma token_phrase: "plain_token (quote_char @ p @ quote_char) q = q\<lparr>q_phrases := q_phrases q @ [p]\<rparr>"
  by (simp add: plain_token_def ends_with_def)

lemma negated: "t \<noteq> [] \<Longrightarrow> negation (''-'' @ t) = (True, t)"
  by (simp add: negation_def strip_prefix_def)

lemma token_excluded:
  "\<lbrakk>token_ok t; operator_of t = None\<rbrakk> \<Longrightarrow> plain_token (''-'' @ t) q = q\<lparr>q_excluded := q_excluded q @ [t]\<rparr>"
  using no_quote [of "''-'' @ t"] negated [of t] by (auto simp: plain_token_def token_ok_def Let_def)

lemma operator_read:
  "\<lbrakk>k \<in> set constraint_names; v \<noteq> []\<rbrakk> \<Longrightarrow> operator_of (k @ '':'' @ v) = Some (k, v)"
  by (auto simp: constraint_names_def operator_of_def ascii_lower_def)

lemma name_facts:
  assumes "k \<in> set constraint_names"
  shows "CHR 0x22 \<notin> set k" "utf8_chars (k @ '':'') = map (\<lambda>c. [c]) (k @ '':'')"
    "list_all (\<lambda>c. [c] \<noteq> quote_char \<and> \<not> is_ws_char [c] \<and> \<not> is_cont c) (k @ '':'')" "k \<noteq> []" "hd k \<noteq> CHR ''-''"
proof -
  have all: "list_all (\<lambda>k. CHR 0x22 \<notin> set k \<and> list_all (\<lambda>c. [c] \<noteq> quote_char \<and> \<not> is_ws_char [c] \<and> \<not> is_cont c) (k @ '':'')
      \<and> k \<noteq> [] \<and> hd k \<noteq> CHR ''-'') constraint_names"
    by (simp add: constraint_names_def is_ws_char_def ws_seqs_def is_cont_def)
  show "CHR 0x22 \<notin> set k" "k \<noteq> []" "hd k \<noteq> CHR ''-''"
    and c: "list_all (\<lambda>c. [c] \<noteq> quote_char \<and> \<not> is_ws_char [c] \<and> \<not> is_cont c) (k @ '':'')"
    using all assms unfolding list_all_iff by blast+
  show "utf8_chars (k @ '':'') = map (\<lambda>c. [c]) (k @ '':'')"
    using c by (intro utf8_chars_ascii) (simp add: list_all_iff)
qed

lemma constraint_token_ok:
  assumes "k \<in> set constraint_names" "token_ok v"
  shows "token_ok (k @ '':'' @ v)" "token_ok (''-'' @ k @ '':'' @ v)"
proof -
  have v: "CHR 0x22 \<notin> set v" "\<not> is_cont (hd v)" "list_all (\<lambda>ch. ch \<noteq> quote_char \<and> \<not> is_ws_char ch) (utf8_chars v)"
    using assms(2) by (auto simp: token_ok_def)
  note n = name_facts [OF assms(1)]
  have "utf8_chars ((k @ '':'') @ v) = utf8_chars (k @ '':'') @ utf8_chars v"
    using v(2) by (intro utf8_chars_append) simp
  then have u: "utf8_chars (k @ '':'' @ v) = map (\<lambda>c. [c]) (k @ '':'') @ utf8_chars v" using n(2) by simp
  have all: "list_all (\<lambda>ch. ch \<noteq> quote_char \<and> \<not> is_ws_char ch) (utf8_chars (k @ '':'' @ v))"
    unfolding u using n(3) v(3) by (auto simp: list_all_iff)
  have h: "\<not> is_cont (hd (k @ '':'' @ v))" using n(3,4) by (cases k) auto
  have "utf8_chars (''-'' @ k @ '':'' @ v) = utf8_chars ''-'' @ utf8_chars (k @ '':'' @ v)"
    using h by (intro utf8_chars_append) simp
  then have "list_all (\<lambda>ch. ch \<noteq> quote_char \<and> \<not> is_ws_char ch) (utf8_chars (''-'' @ k @ '':'' @ v))"
    using all by (simp add: is_ws_char_def ws_seqs_def)
  then show "token_ok (k @ '':'' @ v)" "token_ok (''-'' @ k @ '':'' @ v)"
    using n(1) v(1) all h by (auto simp: token_ok_def is_cont_def)
qed

lemma token_constraint:
  assumes "k \<in> set constraint_names" "token_ok v"
  shows "plain_token (k @ '':'' @ v) q = the (set_constraint k v q)"
proof -
  have "negation (k @ '':'' @ v) = (False, k @ '':'' @ v)"
    using name_facts(4,5) [OF assms(1)] by (cases k) (auto simp: negation_def strip_prefix_def)
  moreover have "operator_of (k @ '':'' @ v) = Some (k, v)"
    using operator_read [OF assms(1)] assms(2) by (simp add: token_ok_def)
  moreover have "set_constraint k v q \<noteq> None"
    using assms(1) by (auto simp: set_constraint_def constraint_names_def)
  moreover have "\<not> (2 \<le> length (k @ '':'' @ v) \<and> prefix quote_char (k @ '':'' @ v) \<and> ends_with quote_char (k @ '':'' @ v))"
    using constraint_token_ok(1) [OF assms] by (intro no_quote) (simp add: token_ok_def)
  ultimately show ?thesis unfolding plain_token_def by auto
qed

lemma token_excluded_constraint:
  assumes "k \<in> set constraint_names" "token_ok v"
  shows "plain_token (''-'' @ k @ '':'' @ v) q = q\<lparr>q_excluded_constraints := q_excluded_constraints q @ [(k, v)]\<rparr>"
proof -
  have "negation (''-'' @ k @ '':'' @ v) = (True, k @ '':'' @ v)" by (intro negated) simp
  moreover have "operator_of (k @ '':'' @ v) = Some (k, v)"
    using operator_read [OF assms(1)] assms(2) by (simp add: token_ok_def)
  moreover have "exclude_constraint k v q = Some (q\<lparr>q_excluded_constraints := q_excluded_constraints q @ [(k, v)]\<rparr>)"
    using assms(1) by (auto simp: exclude_constraint_def constraint_names_def)
  moreover have "\<not> (2 \<le> length (''-'' @ k @ '':'' @ v) \<and> prefix quote_char (''-'' @ k @ '':'' @ v)
      \<and> ends_with quote_char (''-'' @ k @ '':'' @ v))"
    using constraint_token_ok(2) [OF assms] by (intro no_quote) (simp add: token_ok_def)
  ultimately show ?thesis unfolding plain_token_def by auto
qed


text \<open>Without \<open>OR\<close> the tokens are taken one by one.\<close>

lemma parse_without_or:
  "list_all (\<lambda>t. \<not> ignore_case_eq t ''OR'') ts \<Longrightarrow> parse_tokens ts [] q = foldl (\<lambda>q t. plain_token t q) q ts"
  by (induction ts "[] :: string list" q rule: parse_tokens.induct) (auto simp: close_group_def)

lemma fold_terms:
  "list_all (\<lambda>t. token_ok t \<and> hd t \<noteq> CHR ''-'' \<and> operator_of t = None \<and> \<not> ignore_case_eq t ''OR'') ts \<Longrightarrow>
   foldl (\<lambda>q t. plain_token t q) q ts = q\<lparr>q_terms := q_terms q @ ts\<rparr>"
  by (induction ts arbitrary: q) (auto simp: token_term)

lemma fold_phrases:
  "foldl (\<lambda>q t. plain_token t q) q (map (\<lambda>p. quote_char @ p @ quote_char) ps) = q\<lparr>q_phrases := q_phrases q @ ps\<rparr>"
proof (induction ps arbitrary: q)
  case (Cons p ps)
  then show ?case using token_phrase [of p q] by simp
qed simp

lemma fold_excluded:
  "list_all (\<lambda>t. token_ok t \<and> operator_of t = None) ts \<Longrightarrow>
   foldl (\<lambda>q t. plain_token t q) q (map (\<lambda>t. ''-'' @ t) ts) = q\<lparr>q_excluded := q_excluded q @ ts\<rparr>"
proof (induction ts arbitrary: q)
  case (Cons t ts)
  then show ?case using token_excluded [of t q] by simp
qed simp

lemma fold_excluded_constraints:
  "list_all (\<lambda>(k, v). k \<in> set constraint_names \<and> token_ok v) kvs \<Longrightarrow>
   foldl (\<lambda>q t. plain_token t q) q (map (\<lambda>(k, v). ''-'' @ k @ '':'' @ v) kvs)
     = q\<lparr>q_excluded_constraints := q_excluded_constraints q @ kvs\<rparr>"
proof (induction kvs arbitrary: q)
  case (Cons kv kvs)
  obtain k v where kv: "kv = (k, v)" by (cases kv)
  then show ?case using Cons token_excluded_constraint [of k v q] by simp
qed simp

lemma fold_constraints:
  "list_all (\<lambda>(k, v). k \<in> set constraint_names \<and> token_ok v) kvs \<Longrightarrow>
   foldl (\<lambda>q t. plain_token t q) q (map (\<lambda>(k, v). k @ '':'' @ v) kvs)
     = foldl (\<lambda>q (k, v). the (set_constraint k v q)) q kvs"
proof (induction kvs arbitrary: q)
  case (Cons kv kvs)
  obtain k v where kv: "kv = (k, v)" by (cases kv)
  then show ?case using Cons token_constraint [of k v q] by simp
qed simp

lemma set_named:
  "q_filetype q = None \<Longrightarrow> foldl (\<lambda>q (k, v). the (set_constraint k v q)) q (named ''filetype'' v) = q\<lparr>q_filetype := v\<rparr>"
  "q_site q = None \<Longrightarrow> foldl (\<lambda>q (k, v). the (set_constraint k v q)) q (named ''site'' v) = q\<lparr>q_site := v\<rparr>"
  "q_inurl q = None \<Longrightarrow> foldl (\<lambda>q (k, v). the (set_constraint k v q)) q (named ''inurl'' v) = q\<lparr>q_inurl := v\<rparr>"
  "q_intitle q = None \<Longrightarrow> foldl (\<lambda>q (k, v). the (set_constraint k v q)) q (named ''intitle'' v) = q\<lparr>q_intitle := v\<rparr>"
  "q_after q = None \<Longrightarrow> foldl (\<lambda>q (k, v). the (set_constraint k v q)) q (named ''after'' v) = q\<lparr>q_after := v\<rparr>"
  "q_before q = None \<Longrightarrow> foldl (\<lambda>q (k, v). the (set_constraint k v q)) q (named ''before'' v) = q\<lparr>q_before := v\<rparr>"
  "q_lang q = None \<Longrightarrow> foldl (\<lambda>q (k, v). the (set_constraint k v q)) q (named ''lang'' v) = q\<lparr>q_lang := v\<rparr>"
  by (cases q; cases v; simp add: named_def set_constraint_def)+

lemma constraint_entries: "(k, v) \<in> set (constraints q) \<Longrightarrow> k \<in> set constraint_names"
  by (auto simp: constraints_def named_def constraint_names_def split: option.splits)

lemma or_shape: "ignore_case_eq t ''OR'' \<Longrightarrow> length t = 2 \<and> ascii_lower (hd t) = CHR ''o''"
proof -
  have "map ascii_lower ''OR'' = ''or''" by code_simp
  moreover assume "ignore_case_eq t ''OR''"
  ultimately have "map ascii_lower t = ''or''" by (simp only: ignore_case_eq_def)
  then show ?thesis by (auto simp: map_eq_Cons_conv)
qed

lemma query_tokens_whole:
  assumes "query_ok q"
  shows "list_all whole_token (query_tokens q)" "list_all (\<lambda>t. \<not> ignore_case_eq t ''OR'') (query_tokens q)"
proof -
  have dash: "token_ok t \<Longrightarrow> token_ok (''-'' @ t)" for t
    using utf8_chars_append [of t "''-''"]
    by (auto simp: token_ok_def is_ws_char_def ws_seqs_def is_cont_def)
  have low: "ascii_lower (CHR ''-'') \<noteq> CHR ''o''" "ascii_lower (CHR 0x22) \<noteq> CHR ''o''"
    by (simp_all add: ascii_lower_def)
  have long: "k \<in> set constraint_names \<Longrightarrow> \<not> ignore_case_eq (k @ '':'' @ v) ''OR''" for k v
    using or_shape [of "k @ '':'' @ v"] by (auto simp: constraint_names_def)
  have no: "\<not> ignore_case_eq (''-'' @ t) ''OR''" "\<not> ignore_case_eq (quote_char @ t) ''OR''" for t
    using or_shape [of "''-'' @ t"] or_shape [of "quote_char @ t"] low by auto
  show "list_all whole_token (query_tokens q)"
    using assms dash constraint_token_ok constraint_entries
    unfolding query_tokens_def query_ok_def list_all_iff whole_token_def by fastforce
  show "list_all (\<lambda>t. \<not> ignore_case_eq t ''OR'') (query_tokens q)"
    using assms no long constraint_entries unfolding query_tokens_def query_ok_def list_all_iff by fastforce
qed

text \<open>
  C39. Round trip: a query written out as words, quoted phrases, excluded words, operators and excluded
  operators is read back field by field.
\<close>

theorem printed_query_parsed:
  assumes "query_ok q"
  shows "parse_query (print_query q) = q"
proof -
  let ?f = "foldl (\<lambda>q t. plain_token t q)"
  have ok: "list_all (\<lambda>(k, v). k \<in> set constraint_names \<and> token_ok v) (constraints q)"
    using assms constraint_entries by (fastforce simp: query_ok_def list_all_iff)
  have "parse_query (print_query q) = ?f query_default (query_tokens q)"
    using tokenize_join [OF query_tokens_whole(1) [OF assms]] parse_without_or [OF query_tokens_whole(2) [OF assms]]
    by (simp add: parse_query_def print_query_def)
  also have "\<dots> = q"
    using assms ok unfolding query_tokens_def query_ok_def
    by (cases q) (simp add: fold_terms fold_phrases [simplified] fold_excluded
        fold_excluded_constraints [simplified] fold_constraints [simplified]
        query_default_def constraints_def set_named)
  finally show ?thesis .
qed


definition sample_query :: parsed_query where
  "sample_query = query_default
     \<lparr> q_terms := [''retry''], q_phrases := [''a b''], q_excluded := [''old''], q_site := Some ''docs.rs'',
       q_lang := Some ''en'', q_excluded_constraints := [(''site'', ''x.y'')] \<rparr>"

lemma printed_query_parsed_witness:
  "parse_query (print_query sample_query) = sample_query
     \<and> print_query sample_query = ''retry '' @ [CHR 0x22] @ ''a b'' @ [CHR 0x22] @ '' -old site:docs.rs lang:en -site:x.y''"
proof -
  have "query_ok sample_query" by code_simp
  then show ?thesis
    using printed_query_parsed [of sample_query]
    by (simp add: print_query_def query_tokens_def sample_query_def query_default_def constraints_def named_def)
qed

text \<open>The test case of the source.\<close>

lemma query_of_test:
  "parse_query (''hello '' @ [CHR 0x22] @ ''exact phrase'' @ [CHR 0x22] @ '' -deprecated cat OR dog'')
     = query_default \<lparr> q_terms := [''hello''], q_phrases := [''exact phrase''], q_excluded := [''deprecated''],
         q_or_groups := [[''cat'', ''dog'']] \<rparr>"
  by code_simp

text \<open>
  A chain of alternatives: the second \<open>OR\<close> takes the last term of the query again, so a word that has
  nothing to do with the alternation moves into its group.
\<close>

lemma chained_or_takes_an_unrelated_term:
  "parse_query ''rust a OR b OR c'' = query_default \<lparr> q_or_groups := [[''a'', ''b'', ''rust'', ''c'']] \<rparr>"
  by code_simp

text \<open>The word after \<open>OR\<close> is taken as it is: an operator there is not one, a phrase keeps its quotes.\<close>

lemma operator_after_or_is_raw:
  "parse_query ''cat OR site:foo'' = query_default \<lparr> q_or_groups := [[''cat'', ''site:foo'']] \<rparr>"
  by code_simp

text \<open>The same operator twice: the first value is gone.\<close>

lemma repeated_operator_drops_the_first:
  "parse_query ''site:a site:b'' = query_default \<lparr> q_site := Some ''b'' \<rparr>"
  by code_simp

text \<open>A lower-case \<open>or\<close> is the alternation too.\<close>

lemma lower_case_or_groups:
  "parse_query ''stay or go'' = query_default \<lparr> q_or_groups := [[''stay'', ''go'']] \<rparr>"
  by code_simp

end
