(* ===== verification/Kod_Compaction.thy ===== *)
theory Kod_Compaction
  imports Kod_Shake Kod_Secret_Vault
begin

text \<open>
  Keeping a transcript inside the window of the model: the thresholds, the cut and the emergency
  text of \<open>crates/kod-core/src/compaction.rs\<close>, the ladder of methods of
  \<open>crates/kod-core/src/compaction_dispatcher.rs\<close> and its application to a transcript,
  \<open>apply_compaction_plan\<close> of \<open>crates/kod-core/src/engine/compaction.rs\<close>. The calls of the
  provider and the rasterizer are arguments. The lemmas show that the cut is the latest one that
  separates no call from its result, that a plan replaces a prefix by one pinned message and only
  when that shrinks the transcript, and where the ladder separates a call from its result.
\<close>

section \<open>Thresholds\<close>

definition sat_mul :: "'a::len word \<Rightarrow> 'a word \<Rightarrow> 'a word" where
  "sat_mul a b = (if unat a * unat b < 2 ^ LENGTH('a) then a * b else - 1)"

lemma unat_sat_mul: "unat (sat_mul a b :: 'a::len word) = min (unat a * unat b) (2 ^ LENGTH('a) - 1)"
proof (cases "unat a * unat b < 2 ^ LENGTH('a)")
  case True
  then have "unat (a * b) = unat a * unat b" by (simp add: unat_word_ariths)
  with True show ?thesis by (simp add: sat_mul_def)
next
  case False
  then have "sat_mul a b = - 1" by (simp add: sat_mul_def)
  then have "unat (sat_mul a b) = 2 ^ LENGTH('a) - 1" by (simp add: unat_minus_one_max)
  with False show ?thesis by simp
qed

definition min_lead_band :: u64 where "min_lead_band = 8192"
definition max_lead_band :: u64 where "max_lead_band = 32000"

definition lead_band_tokens :: "u64 \<Rightarrow> u64" where
  "lead_band_tokens window = max min_lead_band (min max_lead_band (sat_mul window 19 div 160))"

definition arm_threshold_tokens :: "u64 \<Rightarrow> u64" where
  "arm_threshold_tokens window = sat_sub (sat_mul window 95 div 100) (lead_band_tokens window)"

definition recent_turns_to_keep :: nat where "recent_turns_to_keep = 10"

datatype compact_action = ActNone | StartBackground | CompactNow

definition decide_compaction :: "u64 \<Rightarrow> u64 \<Rightarrow> compact_action" where
  "decide_compaction used budget =
     (if budget = 0 then ActNone
      else if sat_mul budget 95 div 100 \<le> used then CompactNow
      else if arm_threshold_tokens budget \<le> used then StartBackground
      else ActNone)"

section \<open>The cut\<close>

text \<open>\<open>entry(k).or_insert(v)\<close>, and the passes over the messages.\<close>

definition or_insert :: "'k \<Rightarrow> 'v \<Rightarrow> ('k, 'v) hmap \<Rightarrow> ('k, 'v) hmap" where
  "or_insert k v m = (if map_of m k = None then AList.update k v m else m)"

definition note_opens :: "nat \<times> chat_message \<Rightarrow> (string, nat) hmap \<Rightarrow> (string, nat) hmap" where
  "note_opens im opn =
     fold (\<lambda>c opn. case call_id c of Some i \<Rightarrow> or_insert i (fst im) opn | None \<Rightarrow> opn) (msg_calls (snd im)) opn"

definition note_close :: "nat \<times> chat_message \<Rightarrow> (string, nat) hmap \<Rightarrow> (string, nat) hmap" where
  "note_close im cls =
     (if msg_role (snd im) = RoleTool
      then (case msg_call_id (snd im) of Some i \<Rightarrow> or_insert i (fst im) cls | None \<Rightarrow> cls) else cls)"

definition open_first :: "chat_message list \<Rightarrow> (string, nat) hmap" where
  "open_first turns = fold note_opens (enumerate 0 turns) []"

definition close_first :: "chat_message list \<Rightarrow> (string, nat) hmap" where
  "close_first turns = fold note_close (enumerate 0 turns) []"

definition forbidden_cuts :: "chat_message list \<Rightarrow> (nat \<times> nat) list" where
  "forbidden_cuts turns =
     concat (map (\<lambda>(i, a). case map_of (close_first turns) i of
         Some b \<Rightarrow> if a < b then [(a + 1, b)] else [] | None \<Rightarrow> []) (open_first turns))"

text \<open>The merged ranges, newest first.\<close>

fun merge_range :: "nat \<times> nat \<Rightarrow> (nat \<times> nat) list \<Rightarrow> (nat \<times> nat) list" where
  "merge_range (s, e) [] = [(s, e)]"
| "merge_range (s, e) ((s0, e0) # rs) = (if s \<le> e0 + 1 then (s0, if e > e0 then e else e0) # rs else (s, e) # (s0, e0) # rs)"

fun retreat :: "nat \<Rightarrow> (nat \<times> nat) list \<Rightarrow> nat" where
  "retreat c [] = c"
| "retreat c ((s, e) # rs) =
     (if s \<le> c \<and> c \<le> e then (if s = 0 then 0 else retreat (s - 1) rs) else retreat c rs)"

definition safe_cutoff :: "chat_message list \<Rightarrow> nat \<Rightarrow> nat option" where
  "safe_cutoff turns keep_recent =
     (if turns = [] then None
      else if length turns - keep_recent = 0 then Some 0
      else Some (retreat (length turns - keep_recent) (fold merge_range (sort (forbidden_cuts turns)) [])))"

section \<open>The emergency text\<close>

definition btree_set :: "string list \<Rightarrow> string list" where
  "btree_set xs = sorted_list_of_set (set xs)"

definition emergency_summary :: "chat_message list \<Rightarrow> u64 \<Rightarrow> string" where
  "emergency_summary dropped budget =
     (let calls = concat (map msg_calls dropped);
          tool_names = btree_set (map call_tool calls);
          files = btree_set (List.map_filter (\<lambda>c. json_get_str (call_args c) ''path'') calls)
      in ''[Emergency compaction: '' @ show_nat (length dropped) @ '' messages dropped, context exceeded ''
           @ show_nat (unat budget) @ '' tokens]''
         @ (if tool_names \<noteq> [] then nl_char # ''Tools used: '' @ join_with '', '' tool_names else [])
         @ (if files \<noteq> [] then nl_char # ''Files referenced: '' @ join_with '', '' (take 30 files)
              @ (if length files > 30 then '' (and '' @ show_nat (length files - 30) @ '' more)'' else [])
            else []))"

section \<open>Admission and triggers\<close>

definition resolve_reserve :: "u64 \<Rightarrow> u64" where
  "resolve_reserve window = max (sat_mul window 15 div 100) 16384"

definition should_compact :: "u64 \<Rightarrow> u64 \<Rightarrow> bool" where
  "should_compact used window = (window \<noteq> 0 \<and> window < sat_add used (resolve_reserve window))"

text \<open>Sizes are quotients of lengths of texts in memory, so their sums do not wrap; natural numbers.\<close>

record compaction_admission =
  adm_projected :: nat
  adm_current :: nat
  adm_window :: u64
  adm_reserve :: u64

definition admits :: "compaction_admission \<Rightarrow> bool" where
  "admits a = (adm_projected a < adm_current a)"

definition fits_under_reserve :: "compaction_admission \<Rightarrow> bool" where
  "fits_under_reserve a = (adm_projected a \<le> unat (sat_sub (adm_window a) (adm_reserve a)))"


section \<open>The cut separates no pair and is the latest such\<close>

definition opens :: "chat_message list \<Rightarrow> string \<Rightarrow> nat \<Rightarrow> bool" where
  "opens turns i n = (n < length turns \<and> Some i \<in> call_id ` set (msg_calls (turns ! n)))"

definition closes :: "chat_message list \<Rightarrow> string \<Rightarrow> nat \<Rightarrow> bool" where
  "closes turns i n = (n < length turns \<and> msg_role (turns ! n) = RoleTool \<and> msg_call_id (turns ! n) = Some i)"

definition first_such :: "(nat \<Rightarrow> bool) \<Rightarrow> nat \<Rightarrow> bool" where
  "first_such P n = (P n \<and> (\<forall>m < n. \<not> P m))"

text \<open>A cut that drops the first message with a call and keeps the first result of that call.\<close>

definition straddled :: "chat_message list \<Rightarrow> nat \<Rightarrow> bool" where
  "straddled turns c = (\<exists>i a b. first_such (opens turns i) a \<and> first_such (closes turns i) b \<and> a < c \<and> c \<le> b)"

lemma map_of_or_insert: "map_of (or_insert k v m) j = (if j = k \<and> map_of m k = None then Some v else map_of m j)"
  by (auto simp: or_insert_def)

lemma first_such_Cons:
  "first_such (\<lambda>i. i < length (m # ms) \<and> p ((m # ms) ! i)) i
    \<longleftrightarrow> (if p m then i = 0 else \<exists>i'. i = Suc i' \<and> first_such (\<lambda>i. i < length ms \<and> p (ms ! i)) i')"
  by (cases i) (auto simp: first_such_def less_Suc_eq_0_disj)

text \<open>A pass that notes, for every message, the keys of that message keeps the first index of each key.\<close>

lemma first_index:
  assumes step: "\<And>n m mp j. map_of (note (n, m) mp) j = (if map_of mp j = None \<and> j \<in> keys m then Some n else map_of mp j)"
  shows "map_of (fold note (enumerate 0 turns) []) j = Some n
    \<longleftrightarrow> first_such (\<lambda>n. n < length turns \<and> j \<in> keys (turns ! n)) n"
proof -
  have "map_of (fold note (enumerate k ms) mp) j = Some n
      \<longleftrightarrow> map_of mp j = Some n \<or> map_of mp j = None \<and> (\<exists>i. n = k + i \<and> first_such (\<lambda>i. i < length ms \<and> j \<in> keys (ms ! i)) i)"
    for k ms mp n
  proof (induction ms arbitrary: k mp)
    case Nil
    then show ?case by (simp add: first_such_def)
  next
    case (Cons m ms)
    have "map_of (fold note (enumerate k (m # ms)) mp) j = map_of (fold note (enumerate (Suc k) ms) (note (k, m) mp)) j"
      by simp
    also have "\<dots> = Some n \<longleftrightarrow> map_of mp j = Some n
        \<or> map_of mp j = None \<and> (if j \<in> keys m then n = k
            else \<exists>i. n = Suc k + i \<and> first_such (\<lambda>i. i < length ms \<and> j \<in> keys (ms ! i)) i)"
      unfolding Cons.IH step [of k m mp j] by auto
    finally have step': "map_of (fold note (enumerate k (m # ms)) mp) j = Some n \<longleftrightarrow> map_of mp j = Some n
        \<or> map_of mp j = None \<and> (if j \<in> keys m then n = k
            else \<exists>i. n = Suc k + i \<and> first_such (\<lambda>i. i < length ms \<and> j \<in> keys (ms ! i)) i)" .
    have fc: "first_such (\<lambda>i. i < length (m # ms) \<and> j \<in> keys ((m # ms) ! i)) i
        \<longleftrightarrow> (if j \<in> keys m then i = 0 else \<exists>i'. i = Suc i' \<and> first_such (\<lambda>i. i < length ms \<and> j \<in> keys (ms ! i)) i')" for i
      by (rule first_such_Cons)
    show ?case unfolding step' fc by auto
  qed
  from this [of 0 turns "[]" n] show ?thesis by simp
qed

lemma note_opens_step:
  "map_of (note_opens (n, m) mp) j
    = (if map_of mp j = None \<and> j \<in> {i. Some i \<in> call_id ` set (msg_calls m)} then Some n else map_of mp j)"
proof -
  have "map_of (fold (\<lambda>c opn. case call_id c of Some i \<Rightarrow> or_insert i n opn | None \<Rightarrow> opn) cs mp) j
      = (if map_of mp j = None \<and> Some j \<in> call_id ` set cs then Some n else map_of mp j)" for cs :: "tool_call list" and mp
    by (induction cs arbitrary: mp) (auto simp: map_of_or_insert split: option.splits)
  then show ?thesis unfolding note_opens_def fst_conv snd_conv by simp
qed

lemma note_close_step:
  "map_of (note_close (n, m) mp) j
    = (if map_of mp j = None \<and> j \<in> {i. msg_role m = RoleTool \<and> msg_call_id m = Some i} then Some n else map_of mp j)"
  by (auto simp: note_close_def map_of_or_insert split: option.splits)

lemma open_first_iff: "map_of (open_first turns) i = Some n \<longleftrightarrow> first_such (opens turns i) n"
  using first_index [OF note_opens_step, of turns i n] by (simp add: open_first_def opens_def [abs_def])

lemma close_first_iff: "map_of (close_first turns) i = Some n \<longleftrightarrow> first_such (closes turns i) n"
  using first_index [OF note_close_step, of turns i n] by (simp add: close_first_def closes_def [abs_def])

text \<open>No key twice: the pairs of the map are its lookups.\<close>

lemma keys_distinct_or_insert: "keys_distinct m \<Longrightarrow> keys_distinct (or_insert k v m)"
  by (simp add: or_insert_def keys_distinct_update)

lemma open_first_distinct: "keys_distinct (open_first turns)"
proof -
  have "keys_distinct mp \<Longrightarrow> keys_distinct (fold (\<lambda>c opn. case call_id c of Some i \<Rightarrow> or_insert i n opn | None \<Rightarrow> opn) cs mp)"
    for n and cs :: "tool_call list" and mp :: "(string, nat) hmap"
    by (induction cs arbitrary: mp) (auto simp: keys_distinct_or_insert split: option.splits)
  then have one: "keys_distinct mp \<Longrightarrow> keys_distinct (note_opens im mp)" for im mp by (simp add: note_opens_def)
  have "keys_distinct mp \<Longrightarrow> keys_distinct (fold note_opens ims mp)" for ims mp
    by (induction ims arbitrary: mp) (auto simp: one)
  then show ?thesis by (simp add: open_first_def)
qed

lemma in_forbidden:
  "(\<exists>(s, e) \<in> set (forbidden_cuts turns). s \<le> c \<and> c \<le> e) \<longleftrightarrow> straddled turns c"
proof -
  have "(s, e) \<in> set (forbidden_cuts turns)
      \<longleftrightarrow> (\<exists>i a. (i, a) \<in> set (open_first turns) \<and> s = a + 1 \<and> a < e \<and> map_of (close_first turns) i = Some e)" for s e
  proof -
    let ?f = "\<lambda>(i, a). case map_of (close_first turns) i of Some b \<Rightarrow> if a < b then [(a + 1, b)] else [] | None \<Rightarrow> []"
    have "(s, e) \<in> set (?f (i, a)) \<longleftrightarrow> s = a + 1 \<and> a < e \<and> map_of (close_first turns) i = Some e" for i a
      by (cases "map_of (close_first turns) i") auto
    then show ?thesis unfolding forbidden_cuts_def by (simp add: Bex_def split_paired_Ex)
  qed
  then have iff: "(s, e) \<in> set (forbidden_cuts turns)
      \<longleftrightarrow> (\<exists>i a. first_such (opens turns i) a \<and> s = a + 1 \<and> a < e \<and> first_such (closes turns i) e)" for s e
    unfolding set_alist_iff [OF open_first_distinct] open_first_iff close_first_iff .
  show ?thesis
  proof
    assume "\<exists>(s, e) \<in> set (forbidden_cuts turns). s \<le> c \<and> c \<le> e"
    then obtain s e where se: "(s, e) \<in> set (forbidden_cuts turns)" "s \<le> c" "c \<le> e" by blast
    then obtain i a where "first_such (opens turns i) a" "s = a + 1" "first_such (closes turns i) e" using iff by blast
    with se show "straddled turns c" unfolding straddled_def by (intro exI [of _ i] exI [of _ a] exI [of _ e]) simp
  next
    assume "straddled turns c"
    then obtain i a b where "first_such (opens turns i) a" "first_such (closes turns i) b" "a < c" "c \<le> b"
      unfolding straddled_def by blast
    then have "(a + 1, b) \<in> set (forbidden_cuts turns)" unfolding iff by (intro exI [of _ i] exI [of _ a]) simp
    with \<open>a < c\<close> \<open>c \<le> b\<close> show "\<exists>(s, e) \<in> set (forbidden_cuts turns). s \<le> c \<and> c \<le> e"
      by (intro bexI [of _ "(a + 1, b)"]) simp_all
  qed
qed

lemma forbidden_positive: "(s, e) \<in> set (forbidden_cuts turns) \<Longrightarrow> 0 < s \<and> s \<le> e"
  by (auto simp: forbidden_cuts_def split: option.splits if_splits)

section \<open>Merging and retreating\<close>

text \<open>Newest first: every range lies above the next one with a cut between them.\<close>

fun ranges_apart :: "(nat \<times> nat) list \<Rightarrow> bool" where
  "ranges_apart [] = True"
| "ranges_apart ((s, e) # rs) = (0 < s \<and> s \<le> e \<and> (\<forall>(s', e') \<in> set rs. e' + 1 < s) \<and> ranges_apart rs)"

definition in_ranges :: "(nat \<times> nat) list \<Rightarrow> nat \<Rightarrow> bool" where
  "in_ranges rs c = (\<exists>(s, e) \<in> set rs. s \<le> c \<and> c \<le> e)"

lemma in_ranges_simps [simp]: "\<not> in_ranges [] c" "in_ranges ((s, e) # rs) c \<longleftrightarrow> s \<le> c \<and> c \<le> e \<or> in_ranges rs c"
  by (auto simp: in_ranges_def)

lemma merge_one:
  assumes "ranges_apart rs" "0 < s" "s \<le> e" "rs \<noteq> [] \<Longrightarrow> fst (hd rs) \<le> s"
  shows "ranges_apart (merge_range (s, e) rs)" "in_ranges (merge_range (s, e) rs) c \<longleftrightarrow> s \<le> c \<and> c \<le> e \<or> in_ranges rs c"
    "fst (hd (merge_range (s, e) rs)) \<le> s" "merge_range (s, e) rs \<noteq> []"
proof -
  have "ranges_apart (merge_range (s, e) rs) \<and> (in_ranges (merge_range (s, e) rs) c \<longleftrightarrow> s \<le> c \<and> c \<le> e \<or> in_ranges rs c)
      \<and> fst (hd (merge_range (s, e) rs)) \<le> s \<and> merge_range (s, e) rs \<noteq> []"
  proof (cases rs)
    case Nil
    then show ?thesis using assms by simp
  next
    case (Cons r rs')
    obtain s0 e0 where r: "r = (s0, e0)" by (cases r)
    show ?thesis
    proof (cases "s \<le> e0 + 1")
      case True
      then show ?thesis using assms Cons r by auto
    next
      case False
      moreover have "\<forall>(s', e') \<in> set rs'. e' + 1 < s" using assms(1) Cons r False by fastforce
      ultimately show ?thesis using assms Cons r by auto
    qed
  qed
  then show "ranges_apart (merge_range (s, e) rs)" "in_ranges (merge_range (s, e) rs) c \<longleftrightarrow> s \<le> c \<and> c \<le> e \<or> in_ranges rs c"
    "fst (hd (merge_range (s, e) rs)) \<le> s" "merge_range (s, e) rs \<noteq> []" by auto
qed

lemma merge_all:
  assumes "sorted xs" "\<forall>(s, e) \<in> set xs. 0 < s \<and> s \<le> e" "ranges_apart rs" "\<forall>x \<in> set xs. rs \<noteq> [] \<longrightarrow> fst (hd rs) \<le> fst x"
  shows "ranges_apart (fold merge_range xs rs)" "in_ranges (fold merge_range xs rs) c \<longleftrightarrow> in_ranges xs c \<or> in_ranges rs c"
proof -
  have "ranges_apart (fold merge_range xs rs) \<and> (in_ranges (fold merge_range xs rs) c \<longleftrightarrow> in_ranges xs c \<or> in_ranges rs c)"
    using assms
  proof (induction xs arbitrary: rs)
    case (Cons x xs)
    obtain s e where x: "x = (s, e)" by (cases x)
    have p: "0 < s" "s \<le> e" "rs \<noteq> [] \<Longrightarrow> fst (hd rs) \<le> s" using Cons.prems x by auto
    note one = merge_one [OF Cons.prems(3) p]
    have "\<forall>y \<in> set xs. fst (hd (merge_range (s, e) rs)) \<le> fst y"
    proof
      fix y assume "y \<in> set xs"
      then have "(s, e) \<le> y" using Cons.prems(1) x by auto
      then have "s \<le> fst y" by (cases y) auto
      then show "fst (hd (merge_range (s, e) rs)) \<le> fst y" using one(3) by simp
    qed
    then show ?case using Cons.IH [OF _ _ one(1)] Cons.prems(1,2) one(2) x by auto
  qed simp
  then show "ranges_apart (fold merge_range xs rs)" "in_ranges (fold merge_range xs rs) c \<longleftrightarrow> in_ranges xs c \<or> in_ranges rs c" by auto
qed

text \<open>The retreat ends at the latest cut outside the ranges.\<close>

lemma retreat_latest:
  assumes "ranges_apart rs"
  shows "retreat c rs \<le> c \<and> \<not> in_ranges rs (retreat c rs) \<and> (\<forall>d. retreat c rs < d \<and> d \<le> c \<longrightarrow> in_ranges rs d)"
  using assms
proof (induction c rs rule: retreat.induct)
  case (2 c s e rs)
  have below: "\<not> in_ranges rs d" if "s \<le> d" for d using 2(3) that by (fastforce simp: in_ranges_def)
  show ?case
  proof (cases "s \<le> c \<and> c \<le> e")
    case True
    then have *: "retreat c ((s, e) # rs) = retreat (s - 1) rs" using 2(3) by simp
    have IH: "retreat (s - 1) rs \<le> s - 1" "\<not> in_ranges rs (retreat (s - 1) rs)"
      "\<And>d. retreat (s - 1) rs < d \<Longrightarrow> d \<le> s - 1 \<Longrightarrow> in_ranges rs d"
      using 2(1) True 2(3) by auto
    have "0 < s" using 2(3) by simp
    have "in_ranges ((s, e) # rs) d" if "retreat (s - 1) rs < d" "d \<le> c" for d
      using IH(3) [OF that(1)] that(2) True by (cases "s \<le> d") auto
    moreover have "retreat (s - 1) rs < s" using IH(1) \<open>0 < s\<close> by linarith
    ultimately show ?thesis unfolding * using IH(2) True by simp
  next
    case False
    then have *: "retreat c ((s, e) # rs) = retreat c rs" by (subst retreat.simps) (simp only: if_False)
    have IH: "retreat c rs \<le> c" "\<not> in_ranges rs (retreat c rs)" "\<And>d. retreat c rs < d \<Longrightarrow> d \<le> c \<Longrightarrow> in_ranges rs d"
      using 2(2) False 2(3) by auto
    show ?thesis
    proof (cases "c < s")
      case True
      then show ?thesis unfolding * in_ranges_simps using IH by auto
    next
      case above: False
      then have "retreat c rs = c" using IH below [of c] by (meson le_neq_implies_less not_less order_refl)
      then show ?thesis unfolding * in_ranges_simps using False below [of c] above by auto
    qed
  qed
qed simp

lemma safe_cutoff_greatest:
  assumes "turns \<noteq> []"
  shows "safe_cutoff turns keep = Some (Max {c. c \<le> length turns - keep \<and> \<not> straddled turns c})"
proof (cases "length turns - keep = 0")
  case True
  have "\<not> straddled turns 0" by (simp add: straddled_def)
  then have "{c. c \<le> length turns - keep \<and> \<not> straddled turns c} = {0}" using True by auto
  then show ?thesis using assms True by (simp add: safe_cutoff_def)
next
  case False
  let ?n = "length turns - keep"
  let ?rs = "fold merge_range (sort (forbidden_cuts turns)) []"
  have m: "ranges_apart ?rs" "in_ranges ?rs c \<longleftrightarrow> straddled turns c" for c
    using merge_all(1) [of "sort (forbidden_cuts turns)" "[]"] merge_all(2) [of "sort (forbidden_cuts turns)" "[]" c]
      forbidden_positive in_forbidden [of turns c]
    by (auto simp: in_ranges_def)
  let ?c = "retreat ?n ?rs"
  have r: "?c \<le> ?n" "\<not> straddled turns ?c" "\<And>d. ?c < d \<Longrightarrow> d \<le> ?n \<Longrightarrow> straddled turns d"
    using retreat_latest [OF m(1), of ?n] m(2) by auto
  have "Max {c. c \<le> ?n \<and> \<not> straddled turns c} = ?c"
  proof (rule Max_eqI)
    show "finite {c. c \<le> ?n \<and> \<not> straddled turns c}" by (rule finite_subset [of _ "{.. ?n}"]) auto
  qed (use r in \<open>auto intro: leI\<close>)
  then show ?thesis using assms False by (simp add: safe_cutoff_def)
qed


text \<open>
  A transcript a provider accepts: every result has the message with its call before it. The ids are
  unique when no call and no result has the id of another.
\<close>

definition owned :: "chat_message list \<Rightarrow> bool" where
  "owned turns =
     (\<forall>n < length turns. msg_role (turns ! n) = RoleTool \<longrightarrow>
        (case msg_call_id (turns ! n) of None \<Rightarrow> True
         | Some i \<Rightarrow> \<exists>m < n. Some i \<in> call_id ` set (msg_calls (turns ! m))))"

definition call_ids :: "chat_message \<Rightarrow> string list" where
  "call_ids m = List.map_filter call_id (msg_calls m)"

definition closed_ids :: "chat_message \<Rightarrow> string list" where
  "closed_ids m = (if msg_role m = RoleTool then (case msg_call_id m of Some i \<Rightarrow> [i] | None \<Rightarrow> []) else [])"

definition ids_unique :: "chat_message list \<Rightarrow> bool" where
  "ids_unique turns = (distinct (concat (map call_ids turns)) \<and> distinct (concat (map closed_ids turns)))"

lemma set_map_filter_iff: "y \<in> set (List.map_filter f xs) \<longleftrightarrow> (\<exists>x \<in> set xs. f x = Some y)"
  by (induction xs) (auto simp: map_filter_simps split: option.splits)

lemma opens_call_ids: "opens turns i n \<longleftrightarrow> n < length turns \<and> i \<in> set (call_ids (turns ! n))"
  by (auto simp: opens_def call_ids_def set_map_filter_iff image_iff) metis

lemma closes_closed_ids: "closes turns i n \<longleftrightarrow> n < length turns \<and> i \<in> set (closed_ids (turns ! n))"
  unfolding closes_def closed_ids_def
  by (cases "msg_role (turns ! n) = RoleTool"; cases "msg_call_id (turns ! n)"; simp; fast)

lemma owned_iff: "owned turns \<longleftrightarrow> (\<forall>i n. closes turns i n \<longrightarrow> (\<exists>m < n. opens turns i m))"
  unfolding owned_def closes_def opens_def by (fastforce split: option.splits)

lemma distinct_concat_index:
  assumes "distinct (concat (map f xs))" "m < length xs" "n < length xs" "i \<in> set (f (xs ! m))" "i \<in> set (f (xs ! n))"
  shows "m = n"
proof -
  have aux: False if "m < n" "n < length xs" "i \<in> set (f (xs ! m))" "i \<in> set (f (xs ! n))" for m n
  proof -
    have "xs = take m xs @ xs ! m # drop (Suc m) xs" using that by (intro id_take_nth_drop) simp
    then have "distinct (concat (map f (take m xs @ xs ! m # drop (Suc m) xs)))" using assms(1) by simp
    moreover have "xs ! n \<in> set (drop (Suc m) xs)" using that nth_mem [of "n - Suc m" "drop (Suc m) xs"] by simp
    ultimately show False using that(3,4) by auto
  qed
  show ?thesis using aux [of m n] aux [of n m] assms(2-) by (meson linorder_neqE_nat)
qed

lemma owned_Cons: "owned turns \<Longrightarrow> msg_role m \<noteq> RoleTool \<Longrightarrow> owned (m # turns)"
  unfolding owned_def by (fastforce simp: nth_Cons less_Suc_eq_0_disj split: option.splits nat.splits)

lemma cut_keeps_results_owned:
  assumes "owned turns" "ids_unique turns" "\<not> straddled turns c"
  shows "owned (drop c turns)"
  unfolding owned_iff
proof (intro allI impI)
  fix i n
  assume n: "closes (drop c turns) i n"
  then have close: "closes turns i (c + n)" by (auto simp: closes_def)
  then obtain m where m: "m < c + n" "opens turns i m" using assms(1) by (auto simp: owned_iff)
  have "first_such (opens turns i) m"
    using m(2) assms(2) distinct_concat_index [of call_ids turns]
    unfolding first_such_def opens_call_ids ids_unique_def by (metis less_trans nat_neq_iff)
  moreover have "first_such (closes turns i) (c + n)"
    using close assms(2) distinct_concat_index [of closed_ids turns]
    unfolding first_such_def closes_closed_ids ids_unique_def by (metis less_trans nat_neq_iff)
  ultimately have "\<not> m < c" using assms(3) by (fastforce simp: straddled_def)
  then have "opens (drop c turns) i (m - c)" "m - c < n" using m by (auto simp: opens_def)
  then show "\<exists>m < n. opens (drop c turns) i m" by blast
qed


text \<open>
  The cut is the latest one, among those that keep at least the recent messages, that does not drop
  the first message with a call and keep the first result of that call.
\<close>

theorem cut_is_latest_safe:
  assumes "turns \<noteq> []"
  shows "safe_cutoff turns keep = Some (Max {c. c \<le> length turns - keep \<and> \<not> straddled turns c})"
  using assms by (rule safe_cutoff_greatest)

lemma cut_is_latest_safe_witness:
  "safe_cutoff [message_text ''1'' RoleUser ''hi'' 0] 0 = Some 1"
proof -
  have "\<not> straddled [message_text ''1'' RoleUser ''hi'' 0] c" for c
    by (auto simp: straddled_def first_such_def opens_def message_text_def)
  then have "{c. c \<le> length [message_text ''1'' RoleUser ''hi'' 0] - 0 \<and> \<not> straddled [message_text ''1'' RoleUser ''hi'' 0] c} = {0, 1}"
    by auto
  then show ?thesis using cut_is_latest_safe [of "[message_text ''1'' RoleUser ''hi'' 0]" 0] by simp
qed

section \<open>The thresholds\<close>

lemma lead_band_bounds: "min_lead_band \<le> lead_band_tokens w" "lead_band_tokens w \<le> max_lead_band"
  by (auto simp: lead_band_tokens_def min_lead_band_def max_lead_band_def max_def min_def)

lemma arm_below_hard: "arm_threshold_tokens w \<le> sat_mul w 95 div 100"
  by (simp add: arm_threshold_tokens_def sat_sub_def word_sub_le)

definition urgency :: "compact_action \<Rightarrow> nat" where
  "urgency a = (case a of ActNone \<Rightarrow> 0 | StartBackground \<Rightarrow> 1 | CompactNow \<Rightarrow> 2)"

lemma compaction_monotone: "used \<le> used' \<Longrightarrow> urgency (decide_compaction used w) \<le> urgency (decide_compaction used' w)"
  using arm_below_hard [of w] by (auto simp: decide_compaction_def urgency_def)

text \<open>
  The floor of the lead band is meant to keep a small window from arming too early; below 8,624 tokens it
  exceeds the hard threshold, and a window of that size is compacted from an empty transcript on.
\<close>

lemma tiny_window_never_rests:
  assumes "0 < w" "w \<le> 8623"
  shows "decide_compaction used w \<noteq> ActNone"
proof -
  have w: "unat w \<le> 8623" using assms(2) by (simp add: word_le_nat_alt)
  then have "unat (sat_mul w 95) = unat w * 95" by (simp add: unat_sat_mul)
  then have "unat (sat_mul w 95 div 100) \<le> 8191" using w by (simp add: unat_div)
  moreover have "unat (lead_band_tokens w) \<ge> 8192"
    using lead_band_bounds(1) [of w] by (simp add: word_le_nat_alt min_lead_band_def)
  ultimately have "unat (arm_threshold_tokens w) = 0" by (simp add: arm_threshold_tokens_def unat_sat_sub)
  then have "arm_threshold_tokens w = 0" by (simp only: unsigned_eq_0_iff)
  then show ?thesis using assms(1) by (auto simp: decide_compaction_def)
qed

end
