(* ===== verification/Kod_Compaction_Run.thy ===== *)
theory Kod_Compaction_Run
  imports Kod_Compaction
begin

text \<open>
  The ladder of compaction methods, \<open>crates/kod-core/src/compaction_dispatcher.rs\<close>, the anchored
  size of a transcript, \<open>crates/kod-core-state/src/context_gauge.rs\<close>, and the compaction of a
  transcript in the engine, \<open>crates/kod-core/src/engine/compaction.rs\<close>. What the provider
  result_row, the rasterizer with its base64 printer, fresh identifiers and the clock are arguments.
  The lemmas show that a summary is applied only when it shrinks the transcript and then replaces
  exactly a prefix, that the emergency path keeps every result with its call, that one summary runs
  at a time, and where the ladder and the background summary go wrong.
\<close>

section \<open>What a method may see\<close>

record provider_handle =
  ph_native :: bool
  ph_vision :: bool
  ph_native_compact :: "chat_message list \<Rightarrow> string + (string \<times> string) option"
  ph_generate :: "string \<Rightarrow> string + string"

record compaction_ctx =
  ctx_transcript :: "chat_message list"
  ctx_window :: u64
  ctx_suffix :: "nat \<Rightarrow> nat"
  ctx_warm :: bool
  ctx_provider :: "provider_handle option"
  ctx_protected :: "component list set"

datatype compaction_plan =
    PlanShake "shake_action list"
  | PlanPrune prune_plan
  | PlanSummary nat string
  | PlanImage nat string nat
  | PlanNative nat string string

datatype method_outcome =
    OutPlan compaction_plan
  | OutNoChange
  | OutUnavailable string
  | OutFailed string

fun plan_is_empty :: "compaction_plan \<Rightarrow> bool" where
  "plan_is_empty (PlanShake p) = (p = [])"
| "plan_is_empty (PlanPrune p) = (p = [])"
| "plan_is_empty (PlanSummary _ t) = (trim t = [])"
| "plan_is_empty (PlanNative _ t _) = (trim t = [])"
| "plan_is_empty (PlanImage _ png _) = (trim png = [])"

section \<open>The prompts\<close>

text \<open>The rendered messages up to a cap in bytes, closed by a note when they do not fit.\<close>

fun excerpt :: "nat \<Rightarrow> string \<Rightarrow> chat_message list \<Rightarrow> string \<Rightarrow> string" where
  "excerpt cap note [] body = body"
| "excerpt cap note (m # ms) body =
     (if length body + length (render_text m) + 1 > cap then body @ note
      else excerpt cap note ms (body @ render_text m @ [nl_char]))"

definition em_dash_bytes :: string where "em_dash_bytes = [CHR 0xE2, CHR 0x80, CHR 0x94]"

definition build_handoff_prompt :: "chat_message list \<Rightarrow> string" where
  "build_handoff_prompt dropped =
     join_with [nl_char]
       [''You are handing this session off to another agent who will continue the work. Write a briefing document with these sections:'',
        '''', ''## Objective'',
        ''What the session is trying to accomplish, in one or two sentences.'',
        '''', ''## What has been done'',
        ''Concrete changes made, with file paths and function names. Past tense, itemized. Skip narration.'',
        '''', ''## Current state'',
        ''What works, what is broken, what is mid-change. Be specific about the boundary '' @ em_dash_bytes @ '' the next agent needs to know what to trust.'',
        '''', ''## What to do next'',
        ''The immediate next step, if one is clear. If not, what needs investigation.'',
        '''', ''## Constraints and preferences'',
        ''Anything the user stated that must persist: conventions, choices that were settled, things to avoid.'',
        '''',
        ''Write only the document. Do not restate the excerpt; extract from it. If a section has nothing, write `(none)` rather than inventing content.'',
        '''', ''## Excerpt'', '''', '''']
     @ excerpt 24000 (nl_char # ''[...earlier messages truncated for the handoff call...]'' @ [nl_char]) dropped []"

definition build_summary_prompt :: "chat_message list \<Rightarrow> string" where
  "build_summary_prompt dropped =
     join_with [nl_char]
       [''Summarize the conversation excerpt below into four sections: Context (what was being worked on), What we did (the changes made), Current state (what works and what does not), and User preferences (anything the user asked for that should persist). Be specific; name files and functions. Do not restate the excerpt, extract from it.'',
        '''', ''## Excerpt'', '''', '''']
     @ excerpt 32000 (nl_char # ''[...earlier messages truncated for the summary call...]'' @ [nl_char]) dropped []"

section \<open>The methods\<close>

datatype raster_outcome = RasterDone string | RasterEmpty | RasterTooLarge nat nat

datatype compaction_method =
    ShakeMethod shake_config
  | PruneMethod prune_config
  | RemoteMethod
  | SnapcompactMethod
  | HandoffMethod
  | SoftMethod

fun method_name :: "compaction_method \<Rightarrow> string" where
  "method_name (ShakeMethod _) = ''shake''"
| "method_name (PruneMethod _) = ''prune''"
| "method_name RemoteMethod = ''remote''"
| "method_name SnapcompactMethod = ''snapcompact''"
| "method_name HandoffMethod = ''handoff''"
| "method_name SoftMethod = ''soft''"

definition min_remote_messages :: nat where "min_remote_messages = 4"
definition min_handoff_messages :: nat where "min_handoff_messages = 4"
definition frame_token_estimate :: nat where "frame_token_estimate = 5024"

fun method_available :: "compaction_ctx \<Rightarrow> compaction_method \<Rightarrow> bool" where
  "method_available ctx (ShakeMethod _) = True"
| "method_available ctx (PruneMethod _) = True"
| "method_available ctx RemoteMethod =
     (case ctx_provider ctx of Some h \<Rightarrow> ph_native h \<and> min_remote_messages \<le> length (ctx_transcript ctx) | None \<Rightarrow> False)"
| "method_available ctx SnapcompactMethod =
     (case ctx_provider ctx of Some h \<Rightarrow> ph_vision h \<and> min_remote_messages \<le> length (ctx_transcript ctx) | None \<Rightarrow> False)"
| "method_available ctx HandoffMethod =
     (ctx_provider ctx \<noteq> None \<and> min_handoff_messages \<le> length (ctx_transcript ctx))"
| "method_available ctx SoftMethod = True"

definition too_few :: "string \<Rightarrow> nat \<Rightarrow> nat \<Rightarrow> string" where
  "too_few what n least =
     ''transcript has '' @ show_nat n @ '' messages; '' @ what @ '' needs at least '' @ show_nat least"

definition run_shake :: "shake_config \<Rightarrow> compaction_ctx \<Rightarrow> method_outcome" where
  "run_shake config ctx =
     (let merged = (if ctx_protected ctx = {} then config
            else config\<lparr>shake_protected_paths := shake_protected_paths config \<union> ctx_protected ctx\<rparr>);
          plan = plan_shake (ctx_transcript ctx) merged (ctx_suffix ctx) (ctx_warm ctx)
      in if plan = [] then OutNoChange else OutPlan (PlanShake plan))"

definition run_prune :: "prune_config \<Rightarrow> compaction_ctx \<Rightarrow> method_outcome" where
  "run_prune config ctx =
     (let merged = (if ctx_protected ctx = {} then config
            else config\<lparr>protected_paths := protected_paths config \<union> ctx_protected ctx\<rparr>);
          plan = plan_prune (ctx_transcript ctx) merged (ctx_suffix ctx) (ctx_warm ctx)
      in if plan = [] then OutNoChange else OutPlan (PlanPrune plan))"

definition run_remote :: "compaction_ctx \<Rightarrow> method_outcome" where
  "run_remote ctx =
     (case ctx_provider ctx of
        None \<Rightarrow> OutUnavailable ''no provider installed; provider-native compaction needs one''
      | Some h \<Rightarrow>
          if \<not> ph_native h then OutUnavailable ''provider does not implement native compaction''
          else if length (ctx_transcript ctx) < min_remote_messages
          then OutUnavailable (too_few ''native compaction'' (length (ctx_transcript ctx)) min_remote_messages)
          else (case ph_native_compact h (ctx_transcript ctx) of
              Inr (Some (summary, encrypted)) \<Rightarrow> OutPlan (PlanNative (length (ctx_transcript ctx) - 1) summary encrypted)
            | Inr None \<Rightarrow> OutNoChange
            | Inl e \<Rightarrow> OutFailed (''provider-native compaction failed: '' @ e)))"

text \<open>
  The comparison of the quotient \<open>5024 / t\<close> with \<open>0.9\<close> is in floating point; over the integers
  \<open>t\<close> the two sides are never closer than a rounding error, so it is the comparison of \<open>50240\<close> with
  \<open>9 t\<close>, \<open>t\<close> cut at the largest 32-bit integer.
\<close>

definition run_snapcompact :: "(string \<Rightarrow> raster_outcome) \<Rightarrow> compaction_ctx \<Rightarrow> method_outcome" where
  "run_snapcompact rasterize ctx =
     (case ctx_provider ctx of
        None \<Rightarrow> OutUnavailable ''no provider installed; snapcompact needs a vision provider''
      | Some h \<Rightarrow>
          if \<not> ph_vision h then OutUnavailable ''provider does not have the vision capability''
          else if length (ctx_transcript ctx) < min_remote_messages
          then OutUnavailable (too_few ''snapcompact'' (length (ctx_transcript ctx)) min_remote_messages)
          else
            (let split = length (ctx_transcript ctx) div 2;
                 text = join_with [nl_char] (map render_text (take split (ctx_transcript ctx)));
                 tokens = length text div 4
             in if tokens = 0 then OutNoChange
                else if 9 * min tokens (2 ^ 32 - 1) \<le> 10 * frame_token_estimate then OutNoChange
                else (case rasterize text of
                    RasterDone png \<Rightarrow> OutPlan (PlanImage (split - 1) png (length (rust_lines text)))
                  | RasterEmpty \<Rightarrow> OutNoChange
                  | RasterTooLarge n mx \<Rightarrow> OutFailed (''snapcompact rasterize failed: '' @ show_nat n
                      @ '' lines exceeds the '' @ show_nat mx @ ''-line canvas limit''))))"

definition run_handoff :: "compaction_ctx \<Rightarrow> method_outcome" where
  "run_handoff ctx =
     (case ctx_provider ctx of
        None \<Rightarrow> OutUnavailable ''no provider installed; handoff needs one LLM call''
      | Some h \<Rightarrow>
          if length (ctx_transcript ctx) < min_handoff_messages
          then OutUnavailable (too_few ''handoff'' (length (ctx_transcript ctx)) min_handoff_messages)
          else
            (let split = length (ctx_transcript ctx) div 2
             in case ph_generate h (build_handoff_prompt (take split (ctx_transcript ctx))) of
                  Inr text \<Rightarrow>
                    if trim text \<noteq> [] then OutPlan (PlanSummary (split - 1) (trim text))
                    else OutFailed ''handoff call returned empty; falling through to the next method''
                | Inl e \<Rightarrow> OutFailed (''handoff call failed: '' @ e @ ''; falling through to the next method'')))"

fun method_run :: "(string \<Rightarrow> raster_outcome) \<Rightarrow> compaction_ctx \<Rightarrow> compaction_method \<Rightarrow> method_outcome" where
  "method_run rasterize ctx (ShakeMethod config) = run_shake config ctx"
| "method_run rasterize ctx (PruneMethod config) = run_prune config ctx"
| "method_run rasterize ctx RemoteMethod = run_remote ctx"
| "method_run rasterize ctx SnapcompactMethod = run_snapcompact rasterize ctx"
| "method_run rasterize ctx HandoffMethod = run_handoff ctx"
| "method_run rasterize ctx SoftMethod = OutUnavailable ''soft summarize is not yet wired into the engine''"

record dispatch_outcome =
  out_method :: "string option"
  out_plan :: "compaction_plan option"
  out_notices :: "string list"

fun run_ladder :: "(string \<Rightarrow> raster_outcome) \<Rightarrow> compaction_ctx \<Rightarrow> compaction_method list \<Rightarrow> string list \<Rightarrow> dispatch_outcome" where
  "run_ladder rasterize ctx [] notices = \<lparr> out_method = None, out_plan = None, out_notices = notices \<rparr>"
| "run_ladder rasterize ctx (m # ms) notices =
     (if \<not> method_available ctx m then run_ladder rasterize ctx ms notices
      else (case method_run rasterize ctx m of
          OutPlan plan \<Rightarrow>
            if plan_is_empty plan then run_ladder rasterize ctx ms notices
            else \<lparr> out_method = Some (method_name m), out_plan = Some plan, out_notices = notices \<rparr>
        | OutNoChange \<Rightarrow> run_ladder rasterize ctx ms notices
        | OutUnavailable reason \<Rightarrow>
            run_ladder rasterize ctx ms (notices @ [''`'' @ method_name m @ ''` unavailable: '' @ reason])
        | OutFailed err \<Rightarrow>
            run_ladder rasterize ctx ms (notices @ [''`'' @ method_name m @ ''` failed: '' @ err @ ''; falling through''])))"

definition default_ladder :: "shake_config \<Rightarrow> compaction_method list" where
  "default_ladder config = [RemoteMethod, SnapcompactMethod, HandoffMethod, ShakeMethod config, SoftMethod]"

text \<open>The ladder the engine installs.\<close>

definition engine_ladder :: "compaction_method list" where
  "engine_ladder = [ShakeMethod shake_config_aggressive, PruneMethod prune_config_default, HandoffMethod]"


section \<open>The anchored size\<close>

record gauge_anchor =
  covers_through :: nat
  context_tokens :: u64
  observed_at_ms :: u64

type_synonym context_gauge = "gauge_anchor option"

definition gauge_observe :: "nat \<Rightarrow> nat \<Rightarrow> u64 \<Rightarrow> context_gauge \<Rightarrow> context_gauge" where
  "gauge_observe covers prompt_tokens now g =
     (if prompt_tokens = 0 then g
      else Some \<lparr> covers_through = covers, context_tokens = of_nat prompt_tokens, observed_at_ms = now \<rparr>)"

definition gauge_tail_start :: "context_gauge \<Rightarrow> nat option" where
  "gauge_tail_start g = map_option (\<lambda>a. covers_through a + 1) g"

definition gauge_estimate :: "u64 \<Rightarrow> context_gauge \<Rightarrow> u64 option" where
  "gauge_estimate tail g = map_option (\<lambda>a. sat_add (context_tokens a) tail) g"

section \<open>The state of the engine\<close>

text \<open>The maps of the engine that compaction reads and writes, by transcript key.\<close>

record session_state =
  ss_history :: "(string, chat_message list) hmap"
  ss_native :: "(string, string) hmap"
  ss_frames :: "(string, string list) hmap"
  ss_gauges :: "(string, context_gauge) hmap"
  ss_pending :: "(string, string) hmap"
  ss_in_flight :: "string set"
  ss_observed :: "(string, u64) hmap"

definition engine_gauge_observe :: "string \<Rightarrow> nat \<Rightarrow> nat \<Rightarrow> u64 \<Rightarrow> session_state \<Rightarrow> session_state" where
  "engine_gauge_observe key covers prompt_tokens now ss =
     ss\<lparr>ss_gauges := AList.update key (gauge_observe covers prompt_tokens now
        (case map_of (ss_gauges ss) key of Some g \<Rightarrow> g | None \<Rightarrow> None)) (ss_gauges ss)\<rparr>"

definition context_tokens_for :: "string \<Rightarrow> u64 \<Rightarrow> session_state \<Rightarrow> u64 option" where
  "context_tokens_for key tail ss = Option.bind (map_of (ss_gauges ss) key) (gauge_estimate tail)"

definition anchored_context_tokens :: "string \<Rightarrow> session_state \<Rightarrow> u64 option" where
  "anchored_context_tokens key ss =
     (case Option.bind (map_of (ss_gauges ss) key) gauge_tail_start of
        None \<Rightarrow> None
      | Some start \<Rightarrow>
          (let tail = (case map_of (ss_history ss) key of
               Some turns \<Rightarrow> transcript_tokens (drop start turns) | None \<Rightarrow> 0)
           in context_tokens_for key (of_nat tail) ss))"

definition set_history :: "string \<Rightarrow> chat_message list \<Rightarrow> session_state \<Rightarrow> session_state" where
  "set_history key turns ss = ss\<lparr>ss_history := AList.update key turns (ss_history ss)\<rparr>"

definition clear_gauge :: "string \<Rightarrow> session_state \<Rightarrow> session_state" where
  "clear_gauge key ss = ss\<lparr>ss_gauges := AList.delete key (ss_gauges ss)\<rparr>"

section \<open>Applying a plan\<close>

text \<open>A message of the user that the renderer may not drop; its identifier and time are fresh.\<close>

definition pinned_message :: "string \<Rightarrow> int \<Rightarrow> string \<Rightarrow> chat_message" where
  "pinned_message mid now body = (message_text mid RoleUser body now)\<lparr>msg_meta := metadata_default\<lparr>pinned := True\<rparr>\<rparr>"

text \<open>The guard and the replacement the three summaries share: how many messages go, and what is left.\<close>

definition replace_prefix ::
  "nat \<Rightarrow> string \<Rightarrow> u64 \<Rightarrow> string \<Rightarrow> int \<Rightarrow> chat_message list \<Rightarrow> (nat \<times> chat_message list) option" where
  "replace_prefix covers body window mid now turns =
     (if turns = [] then None
      else
        (let upto = min (covers + 1) (length turns);
             projected = length body div 4 + transcript_tokens (drop upto turns);
             admission = \<lparr> adm_projected = projected, adm_current = transcript_tokens turns,
               adm_window = window, adm_reserve = resolve_reserve window \<rparr>
         in if upto = 0 then None
            else if \<not> admits admission then None
            else Some (upto, pinned_message mid now body # drop upto turns)))"

definition handoff_body :: "string \<Rightarrow> string" where
  "handoff_body text = ''## Previous Conversation Handoff'' @ [nl_char] @ text"

definition frame_body :: "nat \<Rightarrow> string" where
  "frame_body lns = ''## Previous conversation rendered as image frame'' @ [nl_char] @ ''('' @ show_nat lns
     @ '' lines rasterized; the image is attached to this request.)''"

definition max_image_frames :: nat where "max_image_frames = 4"

definition push_frame :: "string \<Rightarrow> string list \<Rightarrow> string list" where
  "push_frame png frames = (let fs = frames @ [png] in drop (length fs - max_image_frames) fs)"

definition apply_compaction_plan ::
  "string \<Rightarrow> compaction_plan \<Rightarrow> u64 \<Rightarrow> string \<Rightarrow> int \<Rightarrow> session_state \<Rightarrow> session_state \<times> nat" where
  "apply_compaction_plan key plan window mid now ss =
     (case map_of (ss_history ss) key of
        None \<Rightarrow> (ss, 0)
      | Some turns \<Rightarrow>
          (let done = (\<lambda>(st, n). (if n > 0 then clear_gauge key st else st, n)) in
           case plan of
             PlanShake actions \<Rightarrow> (case apply_shake_plan actions turns of (turns', n) \<Rightarrow> done (set_history key turns' ss, n))
           | PlanPrune actions \<Rightarrow> (case apply_prune_plan actions turns of (turns', n) \<Rightarrow> done (set_history key turns' ss, n))
           | PlanNative covers text encrypted \<Rightarrow>
               (case replace_prefix covers (handoff_body text) window mid now turns of
                  None \<Rightarrow> (ss, 0)
                | Some (n, turns') \<Rightarrow>
                    done (set_history key turns'
                      (if encrypted \<noteq> [] then ss\<lparr>ss_native := AList.update key encrypted (ss_native ss)\<rparr> else ss), n))
           | PlanImage covers png lns \<Rightarrow>
               (if png = [] then (ss, 0)
                else (case replace_prefix covers (frame_body lns) window mid now turns of
                    None \<Rightarrow> (ss, 0)
                  | Some (n, turns') \<Rightarrow>
                      done (set_history key turns'
                        (ss\<lparr>ss_frames := AList.update key (push_frame png
                          (case map_of (ss_frames ss) key of Some fs \<Rightarrow> fs | None \<Rightarrow> [])) (ss_frames ss)\<rparr>), n)))
           | PlanSummary covers text \<Rightarrow>
               (case replace_prefix covers (handoff_body text) window mid now turns of
                  None \<Rightarrow> (ss, 0)
                | Some (n, turns') \<Rightarrow> done (set_history key turns' ss, n))))"

section \<open>The mechanical pass\<close>

fun obfuscate_json :: "secret_vault \<Rightarrow> json \<Rightarrow> json" where
  "obfuscate_json v (JString s) = JString (fst (vault_obfuscate s v))"
| "obfuscate_json v (JArray vs) = JArray (map (obfuscate_json v) vs)"
| "obfuscate_json v (JObject ms) = JObject (map (\<lambda>(k, x). (k, obfuscate_json v x)) ms)"
| "obfuscate_json v j = j"

definition obfuscated_transcript :: "secret_vault option \<Rightarrow> chat_message list \<Rightarrow> chat_message list" where
  "obfuscated_transcript vault turns =
     (case vault of
        None \<Rightarrow> turns
      | Some v \<Rightarrow>
          if vault_len v = 0 then turns
          else map (\<lambda>m. m\<lparr>msg_content := fst (vault_obfuscate (msg_content m) v),
              msg_calls := map (\<lambda>c. c\<lparr>call_args := obfuscate_json v (call_args c)\<rparr>) (msg_calls m)\<rparr>) turns)"

text \<open>The settings of the engine that a compaction reads.\<close>

record compaction_env =
  env_vault :: "secret_vault option"
  env_provider :: "provider_handle option"
  env_protected :: "string \<Rightarrow> component list set"
  env_ladder :: "compaction_method list"
  env_rasterize :: "string \<Rightarrow> raster_outcome"
  env_window :: nat

definition try_mechanical_compaction :: "compaction_env \<Rightarrow> string \<Rightarrow> u64 \<Rightarrow> session_state \<Rightarrow> compaction_plan option" where
  "try_mechanical_compaction env key window ss =
     (case map_of (ss_history ss) key of
        None \<Rightarrow> None
      | Some raw \<Rightarrow>
          if raw = [] then None
          else
            (let turns = obfuscated_transcript (env_vault env) raw;
                 ctx = \<lparr> ctx_transcript = turns, ctx_window = window,
                   ctx_suffix = (\<lambda>i. transcript_tokens (drop (i + 1) turns)), ctx_warm = False,
                   ctx_provider = env_provider env, ctx_protected = env_protected env key \<rparr>
             in out_plan (run_ladder (env_rasterize env) ctx (env_ladder env) [])))"

section \<open>Background summaries\<close>

text \<open>Starting a summary: the prompt of the task, if one is started.\<close>

definition spawn_compaction_summary ::
  "compaction_env \<Rightarrow> string \<Rightarrow> chat_message list \<Rightarrow> session_state \<Rightarrow> session_state \<times> string option" where
  "spawn_compaction_summary env key dropped ss =
     (if key \<in> ss_in_flight ss then (ss, None)
      else if env_provider env = None then (ss\<lparr>ss_in_flight := ss_in_flight ss - {key}\<rparr>, None)
      else (ss\<lparr>ss_in_flight := insert key (ss_in_flight ss)\<rparr>, Some (build_summary_prompt dropped)))"

datatype summary_result = SummaryText string | SummaryError string | SummaryPanic string

definition finish_summary :: "string \<Rightarrow> summary_result \<Rightarrow> session_state \<Rightarrow> session_state" where
  "finish_summary key result ss =
     (let ss' = (case result of
          SummaryText text \<Rightarrow>
            if trim text \<noteq> [] then ss\<lparr>ss_pending := AList.update key (trim text) (ss_pending ss)\<rparr> else ss
        | SummaryError _ \<Rightarrow> ss
        | SummaryPanic _ \<Rightarrow> ss)
      in ss'\<lparr>ss_in_flight := ss_in_flight ss' - {key}\<rparr>)"

section \<open>Compacting before a turn\<close>

definition used_tokens :: "string \<Rightarrow> session_state \<Rightarrow> u64" where
  "used_tokens key ss =
     (case anchored_context_tokens key ss of
        Some n \<Rightarrow> n
      | None \<Rightarrow>
          (case map_of (ss_observed ss) key of
             Some n \<Rightarrow> n
           | None \<Rightarrow>
               of_nat ((case map_of (ss_history ss) key of
                   Some t \<Rightarrow> sum_list (map (length \<circ> msg_content) t) | None \<Rightarrow> 0) div 4)))"

text \<open>The emergency path, under the write lock.\<close>

definition compact_now :: "string \<Rightarrow> nat \<Rightarrow> string \<Rightarrow> int \<Rightarrow> session_state \<Rightarrow> session_state \<times> nat" where
  "compact_now key window mid now ss =
     (let background = map_of (ss_pending ss) key;
          ss1 = ss\<lparr>ss_pending := AList.delete key (ss_pending ss)\<rparr>
      in case map_of (ss_history ss1) key of
           None \<Rightarrow> (ss1, 0)
         | Some turns \<Rightarrow>
             (case safe_cutoff turns recent_turns_to_keep of
                None \<Rightarrow> (ss1, 0)
              | Some c \<Rightarrow>
                  if c = 0 then (ss1, 0)
                  else
                    (let summary = (case background of Some s \<Rightarrow> s
                         | None \<Rightarrow> emergency_summary (take c turns) (of_nat window));
                         body = ''## Previous Conversation Summary'' @ [nl_char] @ summary
                     in (clear_gauge key (set_history key (pinned_message mid now body # drop c turns) ss1), c))))"

text \<open>
  Between its locks other tasks may change the state: \<open>later1\<close> after the plan was made, \<open>later2\<close> after the
  first cut was computed. The last result is the prompt of a background summary that was started.
\<close>

definition maybe_compact_for ::
  "compaction_env \<Rightarrow> (session_state \<Rightarrow> session_state) \<Rightarrow> (session_state \<Rightarrow> session_state)
    \<Rightarrow> string \<Rightarrow> string \<Rightarrow> int \<Rightarrow> session_state \<Rightarrow> session_state \<times> nat \<times> string option" where
  "maybe_compact_for env later1 later2 key mid now ss =
     (if env_window env = 0 then (ss, 0, None)
      else
        (let window = of_nat (env_window env); action = decide_compaction (used_tokens key ss) window in
         if action = ActNone then (ss, 0, None)
         else
           (let (ss1, affected) = (case try_mechanical_compaction env key window ss of
                Some plan \<Rightarrow> apply_compaction_plan key plan window mid now (later1 ss)
              | None \<Rightarrow> (ss, 0))
            in if affected > 0 then (ss1, affected, None)
               else
                 (case map_of (ss_history ss1) key of
                    None \<Rightarrow> (ss1, 0, None)
                  | Some turns \<Rightarrow>
                      (case safe_cutoff turns recent_turns_to_keep of
                         None \<Rightarrow> (ss1, 0, None)
                       | Some c \<Rightarrow>
                           if c = 0 then (ss1, 0, None)
                           else if action = StartBackground then
                             (let (ss2, prompt) = spawn_compaction_summary env key (take c turns) ss1 in (ss2, 0, prompt))
                           else (let (ss2, n) = compact_now key (env_window env) mid now (later2 ss1) in (ss2, n, None)))))))"


section \<open>What a summary does to a transcript\<close>

lemma replace_prefix_Some:
  "replace_prefix covers body window mid now turns = Some (n, turns') \<Longrightarrow>
     turns' = pinned_message mid now body # drop n turns \<and> 0 < n \<and> n \<le> length turns
     \<and> transcript_tokens turns' < transcript_tokens turns"
  by (auto simp: replace_prefix_def Let_def admits_def transcript_tokens_def estimate_message_tokens_def
      pinned_message_def message_text_def split: if_splits)

fun is_summary :: "compaction_plan \<Rightarrow> bool" where
  "is_summary (PlanShake _) = False"
| "is_summary (PlanPrune _) = False"
| "is_summary _ = True"

lemma clear_gauge_facts [simp]:
  "ss_history (clear_gauge key ss) = ss_history ss" "map_of (ss_gauges (clear_gauge key ss)) key = None"
  "ss_history (set_history key turns ss) = AList.update key turns (ss_history ss)"
  by (simp_all add: clear_gauge_def set_history_def)

text \<open>
  A summary, a native summary or an image either leaves the whole state as it was, or replaces a
  non-empty prefix by one pinned message, makes the transcript smaller in the planner's own measure
  and forgets the anchored size.
\<close>

theorem summary_shrinks_or_does_nothing:
  assumes "is_summary plan" "apply_compaction_plan key plan window mid now ss = (ss', n)"
  shows "(n = 0 \<and> ss' = ss)
    \<or> (\<exists>turns m. map_of (ss_history ss) key = Some turns \<and> map_of (ss_history ss') key = Some (m # drop n turns)
         \<and> pinned (msg_meta m) \<and> 0 < n \<and> n \<le> length turns
         \<and> transcript_tokens (m # drop n turns) < transcript_tokens turns \<and> context_tokens_for key tail ss' = None)"
proof (cases "map_of (ss_history ss) key")
  case None
  then show ?thesis using assms(2) by (simp add: apply_compaction_plan_def)
next
  case (Some turns)
  have pin: "pinned (msg_meta (pinned_message mid now body))" for body by (simp add: pinned_message_def)
  have fin: ?thesis
    if "replace_prefix covers body window mid now turns = Some (k, turns')" "k = n" "ss' = clear_gauge key (set_history key turns' st)"
    for covers body k turns' st
  proof -
    have r: "turns' = pinned_message mid now body # drop n turns" "0 < n" "n \<le> length turns"
      and less: "transcript_tokens turns' < transcript_tokens turns"
      using replace_prefix_Some [OF that(1)] unfolding that(2) by blast+
    show ?thesis using r(2,3) less [unfolded r(1)] that(3) [unfolded r(1)] Some pin
      by (intro disjI2 exI [of _ turns] exI [of _ "pinned_message mid now body"]) (simp add: context_tokens_for_def)
  qed
  note pos = replace_prefix_Some
  show ?thesis
  proof (cases plan)
    case (PlanSummary covers body)
    show ?thesis
    proof (cases "replace_prefix covers (handoff_body body) window mid now turns")
      case None
      then show ?thesis using assms(2) Some PlanSummary by (simp add: apply_compaction_plan_def)
    next
      case r: (Some x)
      obtain k turns' where x: "x = (k, turns')" by (cases x)
      show ?thesis
        by (rule fin [of covers "handoff_body body" k turns' ss])
          (use assms(2) Some PlanSummary r x pos [of covers "handoff_body body" window mid now turns k turns']
            in \<open>auto simp: apply_compaction_plan_def Let_def\<close>)
    qed
  next
    case (PlanImage covers png lns)
    show ?thesis
    proof (cases "replace_prefix covers (frame_body lns) window mid now turns")
      case None
      then show ?thesis using assms(2) Some PlanImage by (auto simp: apply_compaction_plan_def split: if_splits)
    next
      case r: (Some x)
      obtain k turns' where x: "x = (k, turns')" by (cases x)
      let ?st = "ss\<lparr>ss_frames := AList.update key (push_frame png
        (case map_of (ss_frames ss) key of Some fs \<Rightarrow> fs | None \<Rightarrow> [])) (ss_frames ss)\<rparr>"
      show ?thesis
      proof (cases "png = []")
        case True
        then show ?thesis using assms(2) Some PlanImage by (simp add: apply_compaction_plan_def)
      next
        case False
        show ?thesis
          by (rule fin [of covers "frame_body lns" k turns' ?st])
            (use assms(2) Some PlanImage r x False pos [of covers "frame_body lns" window mid now turns k turns']
              in \<open>auto simp: apply_compaction_plan_def Let_def\<close>)
      qed
    qed
  next
    case (PlanNative covers body encrypted)
    show ?thesis
    proof (cases "replace_prefix covers (handoff_body body) window mid now turns")
      case None
      then show ?thesis using assms(2) Some PlanNative by (simp add: apply_compaction_plan_def)
    next
      case r: (Some x)
      obtain k turns' where x: "x = (k, turns')" by (cases x)
      let ?st = "if encrypted \<noteq> [] then ss\<lparr>ss_native := AList.update key encrypted (ss_native ss)\<rparr> else ss"
      show ?thesis
        by (rule fin [of covers "handoff_body body" k turns' ?st])
          (use assms(2) Some PlanNative r x pos [of covers "handoff_body body" window mid now turns k turns']
            in \<open>auto simp: apply_compaction_plan_def Let_def\<close>)
    qed
  qed (use assms(1) in auto)
qed


section \<open>The emergency path keeps pairs\<close>

definition acceptable :: "chat_message list \<Rightarrow> bool" where
  "acceptable turns = (owned turns \<and> ids_unique turns)"

lemma ids_unique_drop: "ids_unique turns \<Longrightarrow> ids_unique (drop c turns)"
proof -
  have "distinct (concat (map f xs)) \<Longrightarrow> distinct (concat (map f (drop c xs)))" for f :: "chat_message \<Rightarrow> string list" and xs
    by (metis append_take_drop_id concat_append distinct_append map_append)
  then show "ids_unique turns \<Longrightarrow> ids_unique (drop c turns)" by (simp add: ids_unique_def)
qed

lemma pinned_no_ids [simp]: "call_ids (pinned_message mid now body) = []" "closed_ids (pinned_message mid now body) = []"
  "msg_role (pinned_message mid now body) = RoleUser" "msg_calls (pinned_message mid now body) = []"
  by (simp_all add: call_ids_def closed_ids_def pinned_message_def message_text_def map_filter_simps)

lemma acceptable_pinned: "acceptable turns \<Longrightarrow> acceptable (pinned_message mid now body # turns)"
  by (simp add: acceptable_def owned_Cons ids_unique_def)

lemma cut_acceptable: "acceptable turns \<Longrightarrow> \<not> straddled turns c \<Longrightarrow> acceptable (drop c turns)"
  by (simp add: acceptable_def cut_keeps_results_owned ids_unique_drop)

lemma safe_cutoff_facts:
  assumes "safe_cutoff turns keep = Some c"
  shows "c \<le> length turns - keep" "\<not> straddled turns c"
proof -
  let ?S = "{c. c \<le> length turns - keep \<and> \<not> straddled turns c}"
  have "turns \<noteq> []" using assms by (auto simp: safe_cutoff_def)
  then have "c = Max ?S" using safe_cutoff_greatest assms by auto
  moreover have "finite ?S" by (rule finite_subset [of _ "{.. length turns - keep}"]) auto
  moreover have "0 \<in> ?S" by (simp add: straddled_def)
  ultimately have "c \<in> ?S" using Max_in [of ?S] by blast
  then show "c \<le> length turns - keep" "\<not> straddled turns c" by auto
qed

lemma compact_now_history:
  assumes "compact_now key window mid now ss = (ss', n)" "map_of (ss_history ss) key = Some turns"
  shows "(n = 0 \<and> map_of (ss_history ss') key = Some turns)
    \<or> (\<exists>body. safe_cutoff turns recent_turns_to_keep = Some n \<and> 0 < n
         \<and> map_of (ss_history ss') key = Some (pinned_message mid now body # drop n turns))"
  using assms by (auto simp: compact_now_def Let_def split: option.splits if_splits)

text \<open>
  The emergency compaction leaves a transcript the provider accepts acceptable: no result loses its
  call, no id is repeated, the ten newest messages stay, and whatever is dropped is replaced by one
  pinned message.
\<close>

theorem emergency_keeps_pairs:
  assumes "compact_now key window mid now ss = (ss', n)" "map_of (ss_history ss) key = Some turns" "acceptable turns"
  shows "\<exists>turns'. map_of (ss_history ss') key = Some turns' \<and> acceptable turns'
    \<and> n \<le> length turns - 10 \<and> (n > 0 \<longrightarrow> tl turns' = drop n turns \<and> pinned (msg_meta (hd turns')))"
  using compact_now_history [OF assms(1,2)]
proof (elim disjE conjE exE)
  fix body
  assume c: "safe_cutoff turns recent_turns_to_keep = Some n" "0 < n"
    and h: "map_of (ss_history ss') key = Some (pinned_message mid now body # drop n turns)"
  have "acceptable (pinned_message mid now body # drop n turns)"
    using safe_cutoff_facts(2) [OF c(1)] assms(3) by (intro acceptable_pinned cut_acceptable)
  then show ?thesis
    using h safe_cutoff_facts(1) [OF c(1)]
    by (simp add: recent_turns_to_keep_def pinned_message_def)
qed (use assms(3) in simp)

section \<open>One summary at a time\<close>

datatype summary_event = Spawn string "chat_message list" | Finish string summary_result

text \<open>The engine and its running summary tasks, by key; a task that does not run cannot finish.\<close>

fun summary_step :: "compaction_env \<Rightarrow> summary_event \<Rightarrow> session_state \<times> string list \<Rightarrow> session_state \<times> string list" where
  "summary_step env (Spawn key dropped) (ss, running) =
     (case spawn_compaction_summary env key dropped ss of
        (ss', Some _) \<Rightarrow> (ss', running @ [key]) | (ss', None) \<Rightarrow> (ss', running))"
| "summary_step env (Finish key result) (ss, running) =
     (if key \<in> set running then (finish_summary key result ss, remove1 key running) else (ss, running))"

definition one_per_key :: "session_state \<times> string list \<Rightarrow> bool" where
  "one_per_key w = (distinct (snd w) \<and> set (snd w) = ss_in_flight (fst w))"

lemma summary_step_one: "one_per_key w \<Longrightarrow> one_per_key (summary_step env e w)"
proof (cases e)
  case (Finish key result)
  assume "one_per_key w"
  then show ?thesis using Finish
    by (cases w; cases result) (auto simp: one_per_key_def finish_summary_def Let_def)
qed (cases w, auto simp: one_per_key_def spawn_compaction_summary_def)

interpretation summary_tasks: invariant_system "\<lambda>w e. summary_step env e w" one_per_key for env
  by unfold_locales (rule summary_step_one)

text \<open>
  Under any sequence of starts and ends, whatever the tasks return, at most one summary of a
  transcript runs, and a transcript whose summary has ended can start another.
\<close>

theorem summaries_never_overlap:
  assumes "ss_in_flight ss = {}" "foldl (\<lambda>w e. summary_step env e w) (ss, []) es = (ss', running)"
  shows "distinct running
    \<and> (env_provider env \<noteq> None \<longrightarrow> (snd (spawn_compaction_summary env key dropped ss') \<noteq> None \<longleftrightarrow> key \<notin> set running))"
proof -
  have "one_per_key (ss', running)"
    using summary_tasks.run_keeps [of "(ss, [])" env es] assms by (simp add: one_per_key_def)
  then show ?thesis by (auto simp: one_per_key_def spawn_compaction_summary_def)
qed


section \<open>Samples\<close>

definition call_row :: "string \<Rightarrow> string \<Rightarrow> chat_message" where
  "call_row mid cid = (message_text mid RoleAssistant (replicate 80 CHR ''a'') 0)
     \<lparr>msg_calls := [\<lparr> call_id = Some cid, call_tool = ''read_file'', call_args = JObject [(''path'', JString ''a.rs'')] \<rparr>]\<rparr>"

definition result_row :: "string \<Rightarrow> string \<Rightarrow> chat_message" where
  "result_row mid cid = (message_text mid RoleTool (replicate 80 CHR ''r'') 0)\<lparr>msg_call_id := Some cid\<rparr>"

definition user_row :: "string \<Rightarrow> chat_message" where
  "user_row mid = message_text mid RoleUser (replicate 80 CHR ''u'') 0"

definition session_of :: "chat_message list \<Rightarrow> session_state" where
  "session_of turns = \<lparr> ss_history = [(''k'', turns)], ss_native = [], ss_frames = [], ss_gauges = [],
     ss_pending = [], ss_in_flight = {}, ss_observed = [] \<rparr>"

definition pair_log :: "chat_message list" where
  "pair_log = [user_row ''1'', call_row ''2'' ''c1'', result_row ''3'' ''c1'', user_row ''4'']"

lemma summary_shrinks_or_does_nothing_witness:
  "let r = apply_compaction_plan ''k'' (PlanSummary 1 ''done'') 8192 ''s'' 0 (session_of pair_log)
   in transcript_tokens (the (map_of (ss_history (fst r)) ''k'')) < transcript_tokens pair_log"
proof -
  let ?r = "apply_compaction_plan ''k'' (PlanSummary 1 ''done'') 8192 ''s'' 0 (session_of pair_log)"
  have n: "snd ?r = 2" "map_of (ss_history (session_of pair_log)) ''k'' = Some pair_log" by code_simp+
  have "\<exists>turns m. map_of (ss_history (session_of pair_log)) ''k'' = Some turns
      \<and> map_of (ss_history (fst ?r)) ''k'' = Some (m # drop 2 turns)
      \<and> transcript_tokens (m # drop 2 turns) < transcript_tokens turns"
    using summary_shrinks_or_does_nothing [of "PlanSummary 1 ''done''" "''k''" 8192 "''s''" 0 "session_of pair_log"
        "fst ?r" "snd ?r" 0] n(1) by auto
  then show ?thesis using n(2) by (auto simp: Let_def)
qed

definition long_log :: "chat_message list" where
  "long_log = [user_row ''0'', call_row ''1'' ''c1'', result_row ''2'' ''c1''] @ map (\<lambda>i. user_row (show_nat i)) [3..<12]"

lemma emergency_keeps_pairs_witness:
  "let r = compact_now ''k'' 8192 ''s'' 0 (session_of long_log)
   in snd r = 1 \<and> acceptable (the (map_of (ss_history (fst r)) ''k''))"
proof -
  have a: "acceptable long_log" by code_simp
  have h: "map_of (ss_history (session_of long_log)) ''k'' = Some long_log" "snd (compact_now ''k'' 8192 ''s'' 0 (session_of long_log)) = 1"
    by (simp add: session_of_def) code_simp
  obtain ss' n where r: "compact_now ''k'' 8192 ''s'' 0 (session_of long_log) = (ss', n)" by fastforce
  obtain turns' where "map_of (ss_history ss') ''k'' = Some turns'" "acceptable turns'"
    using emergency_keeps_pairs [OF r h(1) a] by blast
  then show ?thesis using h(2) unfolding r by simp
qed

definition chatty :: provider_handle where
  "chatty = \<lparr> ph_native = False, ph_vision = False, ph_native_compact = (\<lambda>_. Inr None), ph_generate = (\<lambda>_. Inr ''done'') \<rparr>"

definition plain_env :: compaction_env where
  "plain_env = \<lparr> env_vault = None, env_provider = Some chatty, env_protected = (\<lambda>_. {}), env_ladder = engine_ladder,
     env_rasterize = (\<lambda>_. RasterEmpty), env_window = 8192 \<rparr>"

lemma summaries_never_overlap_witness:
  "snd (spawn_compaction_summary plain_env ''k'' []
     (fst (foldl (\<lambda>w e. summary_step plain_env e w) (session_of pair_log, [])
       [Spawn ''k'' [], Spawn ''k'' [], Finish ''k'' (SummaryPanic ''x'')]))) \<noteq> None"
proof -
  obtain ss' running where w: "foldl (\<lambda>w e. summary_step plain_env e w) (session_of pair_log, [])
       [Spawn ''k'' [], Spawn ''k'' [], Finish ''k'' (SummaryPanic ''x'')] = (ss', running)" by fastforce
  have "snd (foldl (\<lambda>w e. summary_step plain_env e w) (session_of pair_log, [])
       [Spawn ''k'' [], Spawn ''k'' [], Finish ''k'' (SummaryPanic ''x'')]) = []"
    by (simp add: spawn_compaction_summary_def session_of_def plain_env_def)
  then have "running = []" unfolding w by simp
  moreover have e: "env_provider plain_env \<noteq> None" "ss_in_flight (session_of pair_log) = {}"
    by (simp_all add: plain_env_def session_of_def)
  ultimately show ?thesis
    using summaries_never_overlap [OF e(2) w, of "''k''" "[]"] e(1) unfolding w fst_conv by simp
qed

section \<open>Where it goes wrong\<close>

text \<open>
  The document of the handoff rung replaces half of the messages, wherever the half ends: the call
  goes and its result stays, which the cut of \<open>compaction.rs\<close> is there to prevent.
\<close>

lemma handoff_plan:
  "try_mechanical_compaction plain_env ''k'' 8192 (session_of pair_log) = Some (PlanSummary 1 ''done'')"
  by code_simp

lemma handoff_orphans_a_result:
  "acceptable pair_log
   \<and> (let r = apply_compaction_plan ''k'' (PlanSummary 1 ''done'') 8192 ''s'' 0 (session_of pair_log)
      in snd r = 2 \<and> \<not> owned (the (map_of (ss_history (fst r)) ''k'')))"
  by code_simp

text \<open>
  Ids that a provider uses again: the cut looks at the first call and the first result of an id only, so
  it separates a later pair.
\<close>

lemma reused_id_is_split:
  "owned [call_row ''1'' ''0'', result_row ''2'' ''0'', call_row ''3'' ''0'', result_row ''4'' ''0'']
   \<and> safe_cutoff [call_row ''1'' ''0'', result_row ''2'' ''0'', call_row ''3'' ''0'', result_row ''4'' ''0''] 1 = Some 3
   \<and> \<not> owned (drop 3 [call_row ''1'' ''0'', result_row ''2'' ''0'', call_row ''3'' ''0'', result_row ''4'' ''0''])"
  by code_simp

text \<open>
  The plan of the shake rung is made on the transcript with the secrets replaced and applied to the one
  with the secrets: the offsets are those of another text.
\<close>

definition secret_log :: "chat_message list" where
  "secret_log = [message_text ''1'' RoleUser
     (join_with [nl_char] [''hunter2'', ''```'', replicate 60 CHR ''x'', ''```'', ''do not touch src/main.rs, please'']) 0]"

definition secret_env :: compaction_env where
  "secret_env = plain_env\<lparr>env_vault := Some (vault_of sample_hmac ''k'' [''hunter2'']), env_provider := None,
     env_ladder := [ShakeMethod (shake_config_rescue\<lparr>fence_min_tokens := 1\<rparr>)]\<rparr>"


lemma secret_shifts_the_region:
  "case try_mechanical_compaction secret_env ''k'' 8192 (session_of secret_log) of
     None \<Rightarrow> False
   | Some plan \<Rightarrow>
       (let content = msg_content (hd secret_log);
            content' = msg_content (hd (the (map_of (ss_history (fst
              (apply_compaction_plan ''k'' plan 8192 ''s'' 0 (session_of secret_log)))) ''k'')))
        in contains_str ''do not touch'' content \<and> \<not> contains_str ''do not touch'' content'
          \<and> contains_str ''hunter2'' content' \<and> contains_str ''```'' content')"
  by code_simp

end
