(* ===== verification/Kod_History.thy ===== *)
theory Kod_History
  imports Kod_Compaction_Run
begin

text \<open>
  The transcripts the engine keeps, \<open>crates/kod-core/src/engine/transcript.rs\<close>, with the turn cap of
  \<open>crates/kod-core/src/engine/render.rs\<close> and the rollback of a failed attempt of
  \<open>crates/kod-core/src/engine/agent_loop.rs\<close>: recording a turn under a budget, pinning, clearing,
  forgetting and the compaction a user asks for. The lemmas show that recording keeps every result
  behind its call as long as nothing is pinned, what the cap keeps, that pinned messages survive, and
  what the pinned summary of a compaction does to all later trimming.
\<close>

section \<open>The cap on turns\<close>

definition max_history_turns :: nat where "max_history_turns = 40"
definition max_turn_chars :: nat where "max_turn_chars = 4000"
definition min_history_char_budget :: nat where "min_history_char_budget = 4000"
definition default_history_char_budget :: nat where "default_history_char_budget = 32000"

abbreviation is_tool :: "chat_message \<Rightarrow> bool" where
  "is_tool m \<equiv> msg_role m = RoleTool"

abbreviation is_pinned :: "chat_message \<Rightarrow> bool" where
  "is_pinned m \<equiv> pinned (msg_meta m)"

text \<open>The marks: the oldest messages that are not pinned go, as many as are too many.\<close>

fun keep_marks :: "nat \<Rightarrow> chat_message list \<Rightarrow> (bool \<times> chat_message) list" where
  "keep_marks to_drop [] = []"
| "keep_marks to_drop (m # ms) =
     (if to_drop = 0 then (True, m) # keep_marks 0 ms
      else if \<not> is_pinned m then (False, m) # keep_marks (to_drop - 1) ms
      else (True, m) # keep_marks to_drop ms)"

text \<open>The repair: results at the front of what is kept go too.\<close>

fun drop_tool_rows :: "(bool \<times> chat_message) list \<Rightarrow> (bool \<times> chat_message) list" where
  "drop_tool_rows [] = []"
| "drop_tool_rows ((k, m) # ms) = (if is_tool m then (False, m) # drop_tool_rows ms else (k, m) # ms)"

fun repair_front :: "(bool \<times> chat_message) list \<Rightarrow> (bool \<times> chat_message) list" where
  "repair_front [] = []"
| "repair_front ((k, m) # ms) = (if \<not> k then (k, m) # repair_front ms else drop_tool_rows ((k, m) # ms))"

definition cap_transcript :: "chat_message list \<Rightarrow> nat \<Rightarrow> chat_message list" where
  "cap_transcript turns mx =
     (if length turns \<le> mx then turns
      else map snd (filter fst (repair_front (keep_marks (length turns - mx) turns))))"

section \<open>Recording a turn\<close>

text \<open>How many of the newest messages fit; the list is newest first.\<close>

fun newest_fitting :: "nat \<Rightarrow> nat \<Rightarrow> chat_message list \<Rightarrow> nat" where
  "newest_fitting budget used [] = 0"
| "newest_fitting budget used (m # ms) =
     (let line_len = length (render_text m) + 1 in
      if used + line_len > budget then 0 else Suc (newest_fitting budget (used + line_len) ms))"

definition budget_cutoff :: "nat \<Rightarrow> chat_message list \<Rightarrow> nat" where
  "budget_cutoff budget turns =
     (let c = length turns - newest_fitting budget 0 (rev turns)
      in length (takeWhile (\<lambda>m. \<not> is_pinned m) (take c turns)))"

definition trim_to_budget :: "nat \<Rightarrow> chat_message list \<Rightarrow> chat_message list" where
  "trim_to_budget budget turns =
     (let c = budget_cutoff budget turns
      in if c > 0 then drop (c + length (takeWhile is_tool (drop c turns))) turns else turns)"

definition truncated_note :: string where
  "truncated_note = ellipsis_char @ '' [truncated]''"

definition turns_of :: "string \<Rightarrow> session_state \<Rightarrow> chat_message list" where
  "turns_of key ss = (case map_of (ss_history ss) key of Some t \<Rightarrow> t | None \<Rightarrow> [])"

definition record_turn_for :: "nat \<Rightarrow> string \<Rightarrow> bool \<Rightarrow> string \<Rightarrow> string \<Rightarrow> int \<Rightarrow> session_state \<Rightarrow> session_state" where
  "record_turn_for budget key user text0 mid now ss =
     (let body = trim text0 in
      if body = [] then ss
      else
        (let short = truncate_with_ellipsis body max_turn_chars truncated_note;
             m = message_text mid (if user then RoleUser else RoleAssistant) short now
         in set_history key (trim_to_budget budget (cap_transcript (turns_of key ss @ [m]) max_history_turns)) ss))"

text \<open>The slice of a round, persisted by the agentic loop.\<close>

definition persist_round :: "string \<Rightarrow> chat_message list \<Rightarrow> session_state \<Rightarrow> session_state" where
  "persist_round key rows ss =
     (if rows \<noteq> [] then set_history key (cap_transcript (turns_of key ss @ rows) max_history_turns) ss else ss)"

definition history_len_for :: "string \<Rightarrow> session_state \<Rightarrow> nat" where
  "history_len_for key ss = length (turns_of key ss)"

definition truncate_history_to :: "string \<Rightarrow> nat \<Rightarrow> session_state \<Rightarrow> session_state" where
  "truncate_history_to key len ss =
     (case map_of (ss_history ss) key of
        Some turns \<Rightarrow> if length turns > len then clear_gauge key (set_history key (take len turns) ss) else ss
      | None \<Rightarrow> ss)"

section \<open>Pinning, clearing, forgetting\<close>

text \<open>The newest message with that content.\<close>

fun pin_first :: "string \<Rightarrow> bool \<Rightarrow> chat_message list \<Rightarrow> chat_message list option" where
  "pin_first content p [] = None"
| "pin_first content p (m # ms) =
     (if msg_content m = content then Some (m\<lparr>msg_meta := (msg_meta m)\<lparr>pinned := p\<rparr>\<rparr> # ms)
      else map_option ((#) m) (pin_first content p ms))"

definition set_turn_pinned_by_content :: "string \<Rightarrow> string \<Rightarrow> bool \<Rightarrow> session_state \<Rightarrow> session_state \<times> bool" where
  "set_turn_pinned_by_content key content p ss =
     (case map_of (ss_history ss) key of
        None \<Rightarrow> (ss, False)
      | Some turns \<Rightarrow>
          (case pin_first content p (rev turns) of
             Some turns' \<Rightarrow> (set_history key (rev turns') ss, True) | None \<Rightarrow> (ss, False)))"

definition forget_last_turns_for :: "string \<Rightarrow> nat \<Rightarrow> session_state \<Rightarrow> session_state" where
  "forget_last_turns_for key n ss =
     (if n = 0 then ss
      else case map_of (ss_history ss) key of
          Some turns \<Rightarrow> set_history key (take (length turns - min n (length turns)) turns) ss
        | None \<Rightarrow> ss)"

text \<open>
  The other maps with an entry for a transcript are kept as the set of their keys, by the name of the
  field; what the entries hold does not matter here.
\<close>

type_synonym keyed_maps = "string \<Rightarrow> string set"

definition clear_history_for :: "string \<Rightarrow> session_state \<times> keyed_maps \<Rightarrow> session_state \<times> keyed_maps" where
  "clear_history_for key w =
     ((fst w)\<lparr>ss_history := AList.delete key (ss_history (fst w))\<rparr>,
      (snd w)(''last_prompt'' := snd w ''last_prompt'' - {key}, ''async_delivery'' := snd w ''async_delivery'' - {key}))"

definition forgotten_maps :: "string list" where
  "forgotten_maps = [''last_prompt'', ''retention_cursors'', ''injected_memory_at'', ''decisions_cursors'', ''prewarmed'',
     ''tool_surface_fingerprint'', ''tool_filter_states'', ''fidelity_cache'', ''current_requests'', ''tool_loop_guards'',
     ''todo_trackers'', ''plans'', ''plan_reference_paths'', ''plan_mode'', ''prewalks'', ''decision_logs'',
     ''transcript_working_dirs'', ''transcript_write_globs'', ''pending_trace_parent'', ''blackboard_viewers'', ''steers'']"

definition forget_transcript :: "string \<Rightarrow> session_state \<times> keyed_maps \<Rightarrow> session_state \<times> keyed_maps" where
  "forget_transcript key w =
     (let ss = fst w in
      (\<lparr> ss_history = AList.delete key (ss_history ss), ss_native = AList.delete key (ss_native ss),
         ss_frames = AList.delete key (ss_frames ss), ss_gauges = AList.delete key (ss_gauges ss),
         ss_pending = AList.delete key (ss_pending ss), ss_in_flight = ss_in_flight ss - {key},
         ss_observed = AList.delete key (ss_observed ss) \<rparr>,
       \<lambda>f. if f \<in> set forgotten_maps then snd w f - {key} else snd w f))"

definition compact_history_for :: "string \<Rightarrow> nat \<Rightarrow> nat \<Rightarrow> string \<Rightarrow> int \<Rightarrow> session_state \<Rightarrow> session_state" where
  "compact_history_for key max_turns window0 mid now ss =
     (let window = max window0 1 in
      case map_of (ss_history ss) key of
        None \<Rightarrow> ss
      | Some turns \<Rightarrow>
          if length turns > max_turns then
            (let old = take (length turns - max_turns) turns;
                 n = (if list_ex is_pinned old then length (takeWhile (\<lambda>m. \<not> is_pinned m) old) else length turns - max_turns)
             in if n = 0 then ss
                else clear_gauge key (set_history key
                  (pinned_message mid now (''## Previous Conversation Summary'' @ [nl_char]
                     @ emergency_summary (take n turns) (of_nat window)) # drop n turns) ss))
          else ss)"

section \<open>A look from outside\<close>

record transcript_peek =
  peek_key :: string
  peek_messages :: nat
  peek_tail :: string
  peek_truncated :: bool

definition peek_transcript :: "string \<Rightarrow> nat \<Rightarrow> session_state \<Rightarrow> transcript_peek" where
  "peek_transcript key max_chars ss =
     (let turns = turns_of key ss;
          out = concat (map (\<lambda>m. render_text m @ [nl_char]) (filter (\<lambda>m. \<not> is_tool m) (drop (length turns - 20) turns)));
          total = length (utf8_chars out)
      in \<lparr> peek_key = key, peek_messages = length turns,
           peek_tail = (if total > max_chars then concat (drop (total - max_chars) (utf8_chars out)) else out),
           peek_truncated = (total > max_chars) \<rparr>)"


section \<open>Results directly behind their call\<close>

text \<open>The shape in which rounds are recorded: every result follows the message with its call, results alone between.\<close>

fun in_place :: "string list \<Rightarrow> chat_message list \<Rightarrow> bool" where
  "in_place ids [] = True"
| "in_place ids (m # ms) =
     (if is_tool m then (case msg_call_id m of None \<Rightarrow> True | Some i \<Rightarrow> i \<in> set ids) \<and> in_place ids ms
      else in_place (call_ids m) ms)"

lemma in_place_front: "in_place ids (dropWhile is_tool ms) \<longleftrightarrow> in_place [] (dropWhile is_tool ms)"
proof (cases "dropWhile is_tool ms")
  case (Cons m rest)
  then have "\<not> is_tool m" using hd_dropWhile [of is_tool ms] by simp
  then show ?thesis using Cons by simp
next
  case Nil
  show ?thesis unfolding Nil by simp
qed

lemma in_place_drop: "in_place ids ms \<Longrightarrow> \<exists>ids'. in_place ids' (drop c ms)"
proof (induction c arbitrary: ids ms)
  case (Suc c)
  then show ?case by (cases ms) (auto split: if_splits)
qed auto

lemma in_place_dropWhile: "in_place ids ms \<Longrightarrow> in_place ids (dropWhile is_tool ms)"
  by (induction ms) auto

lemma in_place_trim: "in_place ids ms \<Longrightarrow> in_place [] (dropWhile is_tool (drop c ms))"
  using in_place_drop [of ids ms c] in_place_dropWhile in_place_front by blast

lemma in_place_append: "in_place ids a \<Longrightarrow> in_place [] b \<Longrightarrow> (b \<noteq> [] \<Longrightarrow> \<not> is_tool (hd b)) \<Longrightarrow> in_place ids (a @ b)"
proof (induction a arbitrary: ids)
  case Nil
  then show ?case by (cases b) auto
qed auto

lemma in_place_owned:
  assumes "in_place [] turns"
  shows "owned turns"
proof -
  have "in_place ids ms \<Longrightarrow> closes ms i n \<Longrightarrow> i \<in> set ids \<or> (\<exists>m < n. opens ms i m)" for ids ms i n
  proof (induction ms arbitrary: ids n)
    case Nil
    then show ?case by (simp add: closes_def)
  next
    case (Cons m ms)
    have shift: "opens ms i k \<Longrightarrow> opens (m # ms) i (Suc k)" for k by (auto simp: opens_def)
    show ?case
    proof (cases n)
      case 0
      then show ?thesis using Cons.prems by (auto simp: closes_def)
    next
      case (Suc n')
      have c: "closes ms i n'" using Cons.prems(2) Suc by (simp add: closes_def)
      show ?thesis
      proof (cases "is_tool m")
        case True
        then show ?thesis using Cons.IH [of ids n'] Cons.prems(1) c shift Suc by auto
      next
        case False
        then consider "i \<in> set (call_ids m)" | k where "k < n'" "opens ms i k"
          using Cons.IH [of "call_ids m" n'] Cons.prems(1) c by auto
        then show ?thesis
        proof cases
          case 1
          then have "opens (m # ms) i 0" by (simp add: opens_call_ids)
          then show ?thesis using Suc by blast
        next
          case 2
          then show ?thesis using shift Suc by blast
        qed
      qed
    qed
  qed
  from this [of "[]" turns] assms show ?thesis by (auto simp: owned_iff)
qed

section \<open>The cap without pins\<close>

lemma keep_marks_unpinned:
  "list_all (\<lambda>m. \<not> is_pinned m) ms \<Longrightarrow> n \<le> length ms \<Longrightarrow>
   keep_marks n ms = map (Pair False) (take n ms) @ map (Pair True) (drop n ms)"
proof (induction ms arbitrary: n)
  case (Cons m ms)
  have zero: "keep_marks 0 ms = map (Pair True) ms" for ms by (induction ms) auto
  show ?case using Cons by (cases n) (auto simp: zero)
qed simp

lemma kept_tools: "map snd (filter fst (drop_tool_rows (map (Pair True) ms))) = dropWhile is_tool ms"
  by (induction ms) (auto simp: comp_def)

lemma repair_unpinned: "map snd (filter fst (repair_front (map (Pair False) a @ map (Pair True) b))) = dropWhile is_tool b"
proof (induction a)
  case Nil
  show ?case using kept_tools [of b] by (cases b) auto
qed simp

lemma cap_unpinned:
  assumes "list_all (\<lambda>m. \<not> is_pinned m) turns"
  shows "cap_transcript turns mx = (if length turns \<le> mx then turns else dropWhile is_tool (drop (length turns - mx) turns))"
  using keep_marks_unpinned [OF assms, of "length turns - mx"] by (simp add: cap_transcript_def repair_unpinned)

lemma trim_unpinned:
  assumes "list_all (\<lambda>m. \<not> is_pinned m) turns"
  shows "\<exists>c. trim_to_budget budget turns = (if c = 0 then turns else dropWhile is_tool (drop c turns))"
proof -
  have "drop (c + length (takeWhile is_tool (drop c turns))) turns = dropWhile is_tool (drop c turns)" for c
    by (metis add.commute drop_drop dropWhile_eq_drop)
  then show ?thesis by (intro exI [of _ "budget_cutoff budget turns"]) (simp add: trim_to_budget_def)
qed

lemma unpinned_trim: "list_all P turns \<Longrightarrow> list_all P (dropWhile Q (drop c turns))"
  using set_dropWhileD [of _ Q "drop c turns"] set_drop_subset [of c turns] unfolding list_all_iff by blast

lemma cap_keeps_place:
  assumes "list_all (\<lambda>m. \<not> is_pinned m) turns" "in_place [] turns"
  shows "in_place [] (cap_transcript turns mx)" "list_all (\<lambda>m. \<not> is_pinned m) (cap_transcript turns mx)"
  using assms unpinned_trim [OF assms(1)] in_place_trim by (auto simp: cap_unpinned)

lemma trim_keeps_place:
  assumes "list_all (\<lambda>m. \<not> is_pinned m) turns" "in_place [] turns"
  shows "in_place [] (trim_to_budget budget turns)" "list_all (\<lambda>m. \<not> is_pinned m) (trim_to_budget budget turns)"
  using trim_unpinned [OF assms(1), of budget] assms unpinned_trim [OF assms(1)] in_place_trim by (auto split: if_splits)

definition sound_transcript :: "chat_message list \<Rightarrow> bool" where
  "sound_transcript turns = (in_place [] turns \<and> list_all (\<lambda>m. \<not> is_pinned m) turns)"

lemma turns_of_set [simp]: "turns_of key (set_history key turns ss) = turns"
  by (simp add: turns_of_def)

lemma record_sound:
  assumes "sound_transcript (turns_of key ss)"
  shows "sound_transcript (turns_of key (record_turn_for budget key user body mid now ss))"
proof -
  let ?short = "truncate_with_ellipsis (trim body) max_turn_chars truncated_note"
  let ?m = "message_text mid (if user then RoleUser else RoleAssistant) ?short now"
  let ?t = "turns_of key ss @ [?m]"
  have "\<not> is_tool ?m" "\<not> is_pinned ?m" by (simp_all add: message_text_def metadata_default_def)
  then have t: "list_all (\<lambda>m. \<not> is_pinned m) ?t" "in_place [] ?t"
    using assms in_place_append [of "[]" "turns_of key ss" "[?m]"] by (simp_all add: sound_transcript_def)
  note cap = cap_keeps_place [OF t, of max_history_turns]
  note trim = trim_keeps_place [OF cap(2,1), of budget]
  show ?thesis
    using assms trim by (simp add: record_turn_for_def Let_def sound_transcript_def)
qed

lemma persist_sound:
  assumes "sound_transcript (turns_of key ss)" "sound_transcript rows" "\<not> is_tool (hd rows)"
  shows "sound_transcript (turns_of key (persist_round key rows ss))"
proof -
  have "list_all (\<lambda>m. \<not> is_pinned m) (turns_of key ss @ rows)" "in_place [] (turns_of key ss @ rows)"
    using assms in_place_append [of "[]" "turns_of key ss" rows] by (auto simp: sound_transcript_def)
  from cap_keeps_place [OF this, of max_history_turns] show ?thesis
    using assms(1) by (simp add: persist_round_def sound_transcript_def)
qed


section \<open>Any run of turns and rounds\<close>

datatype history_op = RecordTurn bool string string int | PersistRound "chat_message list"

fun history_step :: "nat \<Rightarrow> string \<Rightarrow> session_state \<Rightarrow> history_op \<Rightarrow> session_state" where
  "history_step budget key ss (RecordTurn user body mid now) = record_turn_for budget key user body mid now ss"
| "history_step budget key ss (PersistRound rows) = persist_round key rows ss"

text \<open>What the loop persists: messages with calls, each followed by results of its calls.\<close>

fun round_ok :: "history_op \<Rightarrow> bool" where
  "round_ok (RecordTurn _ _ _ _) = True"
| "round_ok (PersistRound rows) = (sound_transcript rows \<and> (rows \<noteq> [] \<longrightarrow> \<not> is_tool (hd rows)))"

lemma cap_length:
  assumes "list_all (\<lambda>m. \<not> is_pinned m) turns"
  shows "length (cap_transcript turns mx) \<le> mx"
  using length_dropWhile_le [of is_tool "drop (length turns - mx) turns"] by (auto simp: cap_unpinned [OF assms])

lemma trim_length: "length (trim_to_budget budget turns) \<le> length turns"
  by (simp add: trim_to_budget_def Let_def)

lemma history_step_sound:
  assumes "sound_transcript (turns_of key ss)" "length (turns_of key ss) \<le> 40" "round_ok op"
  shows "sound_transcript (turns_of key (history_step budget key ss op)) \<and> length (turns_of key (history_step budget key ss op)) \<le> 40"
proof (cases op)
  case (RecordTurn user body mid now)
  let ?m = "message_text mid (if user then RoleUser else RoleAssistant) (truncate_with_ellipsis (trim body) max_turn_chars truncated_note) now"
  have "list_all (\<lambda>m. \<not> is_pinned m) (turns_of key ss @ [?m])"
    using assms(1) by (simp add: sound_transcript_def message_text_def metadata_default_def)
  from cap_length [OF this, of 40] trim_length [of budget]
  have "length (trim_to_budget budget (cap_transcript (turns_of key ss @ [?m]) 40)) \<le> 40" by (meson le_trans)
  then show ?thesis
    using assms(2) record_sound [OF assms(1)] RecordTurn by (simp add: record_turn_for_def Let_def max_history_turns_def)
next
  case (PersistRound rows)
  have "list_all (\<lambda>m. \<not> is_pinned m) (turns_of key ss @ rows)"
    using assms(1,3) PersistRound by (simp add: sound_transcript_def)
  from cap_length [OF this, of 40] show ?thesis
    using assms persist_sound [OF assms(1), of rows] PersistRound by (auto simp: persist_round_def max_history_turns_def)
qed

text \<open>
  As long as nothing is pinned, every sequence of recorded turns and persisted rounds, from an empty
  transcript, whatever the budget cuts, leaves at most forty messages, and every result among them
  stands behind its call.
\<close>

theorem recorded_transcript_is_paired:
  assumes "turns_of key ss = []" "list_all round_ok ops"
  shows "owned (turns_of key (foldl (history_step budget key) ss ops)) \<and> length (turns_of key (foldl (history_step budget key) ss ops)) \<le> 40"
proof -
  have "sound_transcript (turns_of key ss) \<Longrightarrow> length (turns_of key ss) \<le> 40 \<Longrightarrow> list_all round_ok ops \<Longrightarrow>
      sound_transcript (turns_of key (foldl (history_step budget key) ss ops))
      \<and> length (turns_of key (foldl (history_step budget key) ss ops)) \<le> 40" for ss
  proof (induction ops arbitrary: ss)
    case (Cons op ops)
    then show ?case using history_step_sound [of key ss op budget] by simp
  qed simp
  from this [of ss] show ?thesis using assms in_place_owned by (simp add: sound_transcript_def)
qed

definition sample_round :: "chat_message list" where
  "sample_round = [call_row ''1'' ''a'', result_row ''2'' ''a'']"

definition empty_session :: session_state where
  "empty_session = \<lparr> ss_history = [], ss_native = [], ss_frames = [], ss_gauges = [], ss_pending = [], ss_in_flight = {}, ss_observed = [] \<rparr>"

theorem recorded_transcript_is_paired_witness:
  "owned (turns_of ''k'' (foldl (history_step 4000 ''k'') empty_session
      [RecordTurn True ''find it'' ''0'' 0, PersistRound sample_round, RecordTurn False ''found'' ''3'' 0]))"
proof -
  have "turns_of ''k'' empty_session = []" by (simp add: turns_of_def empty_session_def)
  moreover have "list_all round_ok [RecordTurn True ''find it'' ''0'' 0, PersistRound sample_round, RecordTurn False ''found'' ''3'' 0]"
    by code_simp
  ultimately show ?thesis using recorded_transcript_is_paired by blast
qed

section \<open>What is pinned survives\<close>

definition pinned_prose :: "chat_message \<Rightarrow> bool" where
  "pinned_prose m = (is_pinned m \<and> \<not> is_tool m)"

lemma pinned_drop_tool_rows:
  "filter pinned_prose (map snd (filter fst (drop_tool_rows xs))) = filter pinned_prose (map snd (filter fst xs))"
  by (induction xs rule: drop_tool_rows.induct) (auto simp: pinned_prose_def)

lemma pinned_repair:
  "filter pinned_prose (map snd (filter fst (repair_front xs))) = filter pinned_prose (map snd (filter fst xs))"
proof (induction xs rule: repair_front.induct)
  case (2 k m ms)
  then show ?case using pinned_drop_tool_rows [of "(k, m) # ms"] by (cases k) (simp_all del: drop_tool_rows.simps)
qed simp

lemma pinned_marks: "filter pinned_prose (map snd (filter fst (keep_marks n ms))) = filter pinned_prose ms"
  by (induction n ms rule: keep_marks.induct) (auto simp: pinned_prose_def)

lemma pinned_cap: "filter pinned_prose (cap_transcript turns mx) = filter pinned_prose turns"
  by (simp add: cap_transcript_def pinned_repair pinned_marks)

lemma filter_drop_none: "filter P (take n xs) = [] \<Longrightarrow> filter P (drop n xs) = filter P xs"
  by (metis append_take_drop_id append_self_conv2 filter_append)

lemma take_takeWhile: "take (length (takeWhile P (take d xs))) xs = takeWhile P (take d xs)"
proof -
  let ?n = "length (takeWhile P (take d xs))"
  have "?n \<le> d" using length_takeWhile_le [of P "take d xs"] by simp
  then have "take ?n xs = take ?n (take d xs)" by (simp only: take_take min_absorb1)
  also have "\<dots> = takeWhile P (take d xs)" by (rule takeWhile_eq_take [symmetric])
  finally show ?thesis .
qed

lemma unpinned_prefix: "filter pinned_prose (takeWhile (\<lambda>m. \<not> is_pinned m) xs) = []"
  by (auto simp: filter_empty_conv pinned_prose_def dest: set_takeWhileD)

lemma pinned_trim: "filter pinned_prose (trim_to_budget budget turns) = filter pinned_prose turns"
proof -
  let ?c = "budget_cutoff budget turns"
  let ?t = "takeWhile is_tool (drop ?c turns)"
  have "budget_cutoff budget turns \<le> length turns"
    by (auto simp: budget_cutoff_def Let_def intro: order_trans [OF length_takeWhile_le])
  have none: "filter pinned_prose (take ?c turns) = []"
  proof -
    obtain d where "?c = length (takeWhile (\<lambda>m. \<not> is_pinned m) (take d turns))" by (auto simp: budget_cutoff_def Let_def)
    then show ?thesis by (simp add: take_takeWhile unpinned_prefix)
  qed
  have "take (?c + length ?t) turns = take ?c turns @ ?t"
    by (metis take_add takeWhile_eq_take)
  moreover have "filter pinned_prose ?t = []" by (auto simp: filter_empty_conv pinned_prose_def dest: set_takeWhileD)
  ultimately have "filter pinned_prose (take (?c + length ?t) turns) = []" using none by simp
  from filter_drop_none [OF this] show ?thesis by (simp add: trim_to_budget_def Let_def)
qed


text \<open>
  Recording a turn and the compaction a user asks for lose no pinned message, whatever the cap and
  the budget cut: the pinned messages stay, in their order, the new summary before them.
\<close>

theorem pinned_messages_survive:
  "filter pinned_prose (turns_of key (record_turn_for budget key user body mid now ss)) = filter pinned_prose (turns_of key ss)
   \<and> (\<exists>new. filter pinned_prose (turns_of key (compact_history_for key mx window mid now ss)) = new @ filter pinned_prose (turns_of key ss)
        \<and> length new \<le> 1)"
proof (rule conjI)
  show "filter pinned_prose (turns_of key (record_turn_for budget key user body mid now ss)) = filter pinned_prose (turns_of key ss)"
    by (simp add: record_turn_for_def Let_def pinned_trim pinned_cap pinned_prose_def message_text_def metadata_default_def)
  show "\<exists>new. filter pinned_prose (turns_of key (compact_history_for key mx window mid now ss)) = new @ filter pinned_prose (turns_of key ss)
        \<and> length new \<le> 1"
  proof (cases "\<exists>turns. map_of (ss_history ss) key = Some turns \<and> length turns > mx")
    case False
    then have "compact_history_for key mx window mid now ss = ss"
      by (auto simp: compact_history_for_def split: option.splits)
    then show ?thesis by simp
  next
    case True
    then obtain turns where t: "map_of (ss_history ss) key = Some turns" "length turns > mx" by blast
    let ?old = "take (length turns - mx) turns"
    define n where "n = (if list_ex is_pinned ?old then length (takeWhile (\<lambda>m. \<not> is_pinned m) ?old) else length turns - mx)"
    have "filter pinned_prose (take n turns) = []"
    proof (cases "list_ex is_pinned ?old")
      case True
      then show ?thesis by (simp add: n_def take_takeWhile unpinned_prefix)
    next
      case False
      then show ?thesis by (auto simp: n_def filter_empty_conv pinned_prose_def list_ex_iff)
    qed
    from filter_drop_none [OF this] have d: "filter pinned_prose (drop n turns) = filter pinned_prose turns" .
    have c: "compact_history_for key mx window mid now ss =
        (if n = 0 then ss
         else clear_gauge key (set_history key
            (pinned_message mid now (''## Previous Conversation Summary'' @ [nl_char]
               @ emergency_summary (take n turns) (of_nat (max window 1))) # drop n turns) ss))"
      using t by (simp add: compact_history_for_def n_def Let_def)
    have p: "pinned_prose (pinned_message mid now b)" for b by (simp add: pinned_prose_def pinned_message_def message_text_def)
    have g: "turns_of key (clear_gauge key st) = turns_of key st" for st by (simp add: turns_of_def)
    show ?thesis
    proof (cases "n = 0")
      case True
      then show ?thesis using c by simp
    next
      case False
      then show ?thesis
        unfolding c using t(1) d p
        by (intro exI [of _ "[pinned_message mid now (''## Previous Conversation Summary'' @ [nl_char]
               @ emergency_summary (take n turns) (of_nat (max window 1)))]"]) (simp add: g turns_of_def)
    qed
  qed
qed


section \<open>Where it goes wrong\<close>

text \<open>
  The repair of the cap starts at the first message kept. When that is pinned the repair ends at once,
  and a result whose call was dropped behind it stays.
\<close>

definition pinned_log :: "chat_message list" where
  "pinned_log = [pinned_message ''0'' 0 ''goal'', call_row ''1'' ''a'', result_row ''2'' ''a'', message_text ''3'' RoleUser ''go on'' 0]"

lemma pinned_head_keeps_an_orphan:
  "owned pinned_log \<and> \<not> owned (cap_transcript pinned_log 3)"
  by code_simp

text \<open>The compaction a user asks for has no repair at all.\<close>

lemma compaction_keeps_an_orphan:
  "owned sample_round
   \<and> \<not> owned (turns_of ''k'' (compact_history_for ''k'' 1 8192 ''s'' 0 (set_history ''k'' sample_round empty_session)))"
  by code_simp

text \<open>
  A compaction puts a pinned summary at the front, and a pinned message at the front is the earliest one
  that is pinned: every later compaction and every later cut to the budget leaves all messages.
\<close>

lemma pinned_head_ends_trimming:
  assumes "is_pinned m"
  shows "trim_to_budget budget (m # ms) = m # ms"
    and "turns_of key ss = m # ms \<Longrightarrow> compact_history_for key mx window mid now ss = ss"
proof -
  have none: "takeWhile (\<lambda>m. \<not> is_pinned m) (take c (m # ms)) = []" for c
    using assms by (cases c) simp_all
  show "trim_to_budget budget (m # ms) = m # ms"
    unfolding trim_to_budget_def budget_cutoff_def Let_def none by simp
  assume "turns_of key ss = m # ms"
  then have t: "map_of (ss_history ss) key = Some (m # ms)"
    by (auto simp: turns_of_def split: option.splits)
  show "compact_history_for key mx window mid now ss = ss"
  proof (cases "mx < length (m # ms)")
    case True
    then obtain c where c: "length (m # ms) - mx = Suc c" by (metis Suc_diff_Suc)
    have "list_ex is_pinned (take (length (m # ms) - mx) (m # ms))" unfolding c using assms by simp
    then show ?thesis unfolding compact_history_for_def t Let_def none by (simp add: none)
  qed (simp add: compact_history_for_def t)
qed

lemma only_one_compaction:
  assumes "turns_of key (compact_history_for key mx window mid now ss) \<noteq> turns_of key ss"
  shows "compact_history_for key mx' window' mid' now' (compact_history_for key mx window mid now ss)
     = compact_history_for key mx window mid now ss"
proof -
  obtain turns where t: "map_of (ss_history ss) key = Some turns"
    using assms by (auto simp: compact_history_for_def split: option.splits)
  then have "\<exists>m ms. is_pinned m \<and> turns_of key (compact_history_for key mx window mid now ss) = m # ms"
    using assms
    by (auto simp: compact_history_for_def Let_def turns_of_def pinned_message_def message_text_def split: if_splits)
  then show ?thesis using pinned_head_ends_trimming(2) by blast
qed

text \<open>
  The rollback of a failed attempt cuts to the length before it. At the cap the rows of the attempt have
  pushed older ones out and the length is the same, so nothing is rolled back.
\<close>

lemma rollback_at_the_cap_does_nothing:
  assumes "list_all (\<lambda>m. \<not> is_pinned m) (turns_of key ss @ rows)" and "history_len_for key ss = max_history_turns"
  shows "truncate_history_to key (history_len_for key ss) (persist_round key rows ss) = persist_round key rows ss"
proof (cases "rows = []")
  case False
  then have "turns_of key (persist_round key rows ss) = cap_transcript (turns_of key ss @ rows) max_history_turns"
    by (simp add: persist_round_def)
  then have "length (turns_of key (persist_round key rows ss)) \<le> history_len_for key ss"
    using cap_length [OF assms(1), of max_history_turns] assms(2) by simp
  then show ?thesis
    by (auto simp: truncate_history_to_def turns_of_def split: option.splits)
next
  case True
  then show ?thesis
    using assms by (auto simp: persist_round_def truncate_history_to_def history_len_for_def turns_of_def split: option.splits)
qed

end
