(* ===== verification/Spec2Isabelle.thy ===== *)
theory Spec2Isabelle
  imports Kod_Goals Kod_Endpoint_Health Kod_Hashline_Syntax Kod_Patch Kod_Policy Kod_Yield_Queue
    Kod_Async_Delivery Kod_Work_Pool Kod_Agent_Registry Kod_Coordination Kod_Path_Lock
    Kod_Secret_Vault Kod_Tool_Loop_Guard Kod_Shake
    Kod_Tool_Quota Kod_Plan Kod_Stream_Retry Kod_Retry Kod_Swarm_Report
    Kod_Overnight
    Kod_Conflict
    Kod_Concurrency
    Kod_Session_Log
    Kod_Line_Editor
    Kod_Query
    Kod_Compaction
    Kod_Compaction_Run
    Kod_History
begin

text \<open>
  A model of the core logic of KOD, a terminal coding agent written in Rust (\<open>crates/\<close>).

  The program. A user (\<open>kod-cli\<close>, \<open>kod-tui\<close>) talks to an engine (\<open>kod-core\<close>) that sends a
  transcript to a language model (\<open>kod-provider*\<close>), runs the tool calls the model answers with
  (\<open>kod-tools\<close>, under the policy of \<open>kod-config\<close> and the risk reader of \<open>kod-risk\<close>), keeps the
  transcript within the model's context (\<open>kod-core-quality\<close>, \<open>kod-core-tools\<close>,
  \<open>kod-core-state\<close>) and may spread the work over a swarm of agents (\<open>kod-swarm\<close>). The model
  follows the pure and the stateful core of these parts; what they share is in \<open>Kod_Prelude\<close>
  (machine integers with Rust's saturating operations, hash maps as association lists, JSON, and
  the interfaces) and \<open>Kod_Text\<close> (the string operations of the standard library on UTF-8 bytes,
  \<open>strutil.rs\<close> and \<open>hash.rs\<close>).

  Editing files. \<open>Kod_Walk_Cache\<close> is the cache of directory listings (\<open>walk_cache.rs\<close>), part of
  the disk of \<open>Kod_Fs\<close>, on which \<open>atomic_write\<close> of \<open>shared.rs\<close> runs with a failure possible at
  every step; its lemmas show that a crash leaves the old file or the new one, and that the disk is a
  \<open>file_store\<close>. \<open>Kod_Hashline\<close> is the line-addressed editor (\<open>edit_hashline.rs\<close> and the calls of
  \<open>edit_tool.rs\<close>) on that store: accepted edits change exactly the lines they name, of the text the
  model was shown. \<open>Kod_Hashline_Syntax\<close> prints its format and proves the round trip.
  \<open>Kod_Patch\<close> is the unified-diff tool (\<open>patch.rs\<close>). \<open>Kod_Path_Lock\<close> is the table of write locks
  (\<open>path_lock.rs\<close>) with a step relation for concurrent holders: no two writers, and a waiter gets
  the lock.

  \<open>Kod_Conflict\<close> (\<open>conflict_handler.rs\<close>) finds the merge conflicts of a file, lists them and
  writes a resolution: what is written is confined to the block that was listed. \<open>Kod_Query\<close>
  (\<open>query_syntax.rs\<close>) reads and relaxes search queries.

  Judging commands. \<open>Kod_Shell_Words\<close> reads a command (the tokenizer and the unwrapping of
  \<open>kod-risk/src/classify.rs\<close>), \<open>Kod_Binaries\<close> the programs it names and \<open>Kod_Policy\<close> the layered
  permission policy (\<open>policy.rs\<close>), whose project layer can only narrow what is allowed, one
  documented exception apart.

  Secrets. \<open>Kod_Secret_Vault\<close> (\<open>secret_placeholder.rs\<close>) replaces secrets by keyed placeholders
  before a transcript leaves the machine and puts them back. After any sequence of calls, each
  complete before the next, no registered secret is in what is sent and restoring gives the text
  back, for secrets that are no part of a placeholder; a registration inside an obfuscation can leak.

  The transcript. \<open>Kod_Message\<close> is its data. \<open>Kod_Prune\<close> (\<open>prune.rs\<close>) blanks reads a later read
  supersedes, \<open>Kod_Shake\<close> (\<open>shake.rs\<close>) replaces heavy regions by references, \<open>Kod_Transcript\<close>
  (\<open>transcript_coherence.rs\<close>) digests messages to find how much of the transcript the provider has
  cached. \<open>Kod_Compaction\<close> (\<open>compaction.rs\<close>) chooses the cut of a compaction, and
  \<open>Kod_Compaction_Run\<close> (\<open>compaction_dispatcher.rs\<close>, \<open>context_gauge.rs\<close>, \<open>engine/compaction.rs\<close>)
  decides when to compact and applies a summary: one at a time, and only when it is shorter; the
  emergency path keeps calls with their results. \<open>Kod_History\<close> (\<open>engine/transcript.rs\<close>,
  \<open>cap_transcript\<close> of \<open>render.rs\<close>) records turns under a cap and a budget: results stay behind their
  calls while nothing is pinned, and what is pinned stays.

  \<open>Kod_Session_Log\<close> (\<open>session_log.rs\<close>, \<open>redact_json\<close> of \<open>redact.rs\<close>) is the log on disk: its
  entries, the calls a crash interrupted and the transcript it is turned back into.

  Watching a turn. \<open>Kod_Tool_Loop_Guard\<close> (\<open>tool_loop_guard.rs\<close>) refines a counter of equal
  rounds; \<open>Kod_Tool_Quota\<close> (\<open>tool_quota.rs\<close> and the check of the dispatch loop) simulates a
  ledger; \<open>Kod_Goals\<close> (\<open>goals.rs\<close>) is the budgeted goal; \<open>Kod_Plan\<close> (\<open>plan.rs\<close>) the plan and its
  updates.

  \<open>Kod_Overnight\<close> (\<open>overnight.rs\<close>, \<open>completion_report.rs\<close>) is the phased unattended run and the
  report a finished task is read from. \<open>Kod_Line_Editor\<close> (\<open>app/input.rs\<close>) is the input box, a byte
  buffer with a cursor that refines a pair of character lists.

  Calling the model. \<open>Kod_Error\<close> (\<open>error.rs\<close>, \<open>retry_strategy.rs\<close>, the text hints of \<open>retry.rs\<close>)
  classifies failures, \<open>Kod_Concurrency\<close> (\<open>concurrency.rs\<close>) caps the
  requests in flight, with a step relation for the waiting tasks, \<open>Kod_Retry\<close> (\<open>retry.rs\<close>) is the retry loop of a call,
  \<open>Kod_Endpoint_Health\<close> (\<open>endpoint_health.rs\<close>) the circuit breaker, \<open>Kod_Stream_Guard\<close>
  (\<open>stream_guard.rs\<close>) the detector of a reply that repeats itself, and \<open>Kod_Stream_Retry\<close>
  (\<open>retry_safety.rs\<close> and the stream of \<open>kod-provider-openai\<close>) the retry of a stream, which uses
  the last two and the error classes.

  The swarm. \<open>Kod_Swarm_Plan\<close>, \<open>Kod_Swarm_Waves\<close> and \<open>Kod_Swarm_Report\<close> follow
  \<open>swarm_runner.rs\<close>: the plan read from the model's reply and the check that write claims do not
  overlap, the attempts of an agent with the cancels of \<open>Kod_Engine_Control\<close> (\<open>control.rs\<close>,
  \<open>pause_gate.rs\<close>), the dependency waves, the hand-out through the coordinator, the results and
  the files two agents wrote. A run settles every subtask once, on an acyclic plan the
  dependencies decide what runs, and a finished run leaves no agent loaded.
  \<open>Kod_Agent_Registry\<close> (\<open>agent_registry.rs\<close>) parks and revives agents,
  \<open>Kod_Coordination\<close> (\<open>coordination.rs\<close>) assigns tasks, with a step relation for the releases that
  run concurrently, \<open>Kod_Work_Pool\<close> (\<open>work_pool.rs\<close>) queues and batches them, \<open>Kod_Yield_Queue\<close>
  (\<open>yield_queue.rs\<close>) and \<open>Kod_Async_Delivery\<close> (\<open>async_delivery.rs\<close>) hand results back.

  Interfaces. \<open>invariant_system\<close> and \<open>counter_system\<close> (what holds over every sequence of calls),
  \<open>fifo_store\<close> (nothing lost, nothing reordered), \<open>simulation\<close> and \<open>refinement\<close> (an abstract
  machine), \<open>file_store\<close> (guarded edits), \<open>hole_printing\<close> (placeholders that parse back); each is
  interpreted on the model of the component that provides it.

  Conventions. A string is its UTF-8 bytes, a duration a number of milliseconds or seconds, an error
  the left of a sum. Clocks, random numbers, hashes of a library, glob matching and the model's
  answers are arguments. Loops are total functions: the recursion is structural or has a measure (the
  bytes left, the attempts left, the depth left), so no fuel is needed except where the code itself
  counts (the three attempts of a stream).

  Not modelled: the terminal interface, the command line, HTTP and the services' wire formats, the
  processes, sandboxes, language servers and syntax trees the tools call, embedding and SQL storage,
  floating-point scores, and the asynchronous loop of the engine that ties the parts together; of it
  the checks a component needs are modelled with that component.
\<close>

end
